(* ===== verification/Uos_Prelude.thy ===== *)
theory Uos_Prelude
  imports Main "HOL-Library.Word" "HOL-Library.Signed_Division"
begin

text \<open>
  Types and generic lemmas shared by every component of the library: the machine integers of
  the 32-bit WebAssembly target, the result type of code that may abort, the little-endian
  memory image of an integer, and C++'s checked signed arithmetic.

  The target is wasm32: \<open>size_t\<close>, pointers and \<open>int\<close> have 32 bits, \<open>char\<close> has 8,
  \<open>int64_t\<close> and \<open>uint64_t\<close> have 64. A signed integer is kept as its word and read
  with \<^const>\<open>sint\<close>.
\<close>

unbundle bit_operations_syntax

section \<open>Machine integers\<close>

type_synonym u8 = "8 word"
type_synonym u16 = "16 word"
type_synonym u32 = "32 word"
type_synonym u64 = "64 word"
type_synonym u128 = "128 word"
type_synonym i32 = "32 word"
type_synonym i64 = "64 word"

section \<open>Results of code that may abort\<close>

text \<open>
  A call that trips \<open>uosio_assert\<close> ends the action, so every operation that can reach one
  returns either the error or its value. \<open>Undefined\<close> marks the inputs on which the C++ has no
  defined behaviour (an access outside an object, a shift past the width, a signed overflow).
\<close>

datatype error =
    Assertion string
  | Assertion_code u64
  | Undefined string

type_synonym 'a res = "error + 'a"

fun bind_res :: "'a res \<Rightarrow> ('a \<Rightarrow> 'b res) \<Rightarrow> 'b res" where
  "bind_res (Inl e) f = Inl e"
| "bind_res (Inr v) f = f v"

lemma bind_res_assoc [simp]: "bind_res (bind_res m f) g = bind_res m (\<lambda>x. bind_res (f x) g)"
  by (cases m) auto

lemma bind_res_Inr [simp]: "bind_res m Inr = m"
  by (cases m) auto

lemma bind_res_eq_Inr: "bind_res m f = Inr v \<longleftrightarrow> (\<exists>x. m = Inr x \<and> f x = Inr v)"
  by (cases m) auto

lemma bind_res_eq_Inl: "bind_res m f = Inl e \<longleftrightarrow> m = Inl e \<or> (\<exists>x. m = Inr x \<and> f x = Inl e)"
  by (cases m) auto

lemma bind_res_cong [fundef_cong]:
  "m = m' \<Longrightarrow> (\<And>x. m' = Inr x \<Longrightarrow> f x = g x) \<Longrightarrow> bind_res m f = bind_res m' g"
  by (cases m') auto

definition is_ok :: "'a res \<Rightarrow> bool" where
  "is_ok r = (case r of Inl _ \<Rightarrow> False | Inr _ \<Rightarrow> True)"

lemma is_ok_simps [simp]: "is_ok (Inr v)" "\<not> is_ok (Inl e)"
  by (simp_all add: is_ok_def)

lemma is_ok_iff: "is_ok r \<longleftrightarrow> (\<exists>v. r = Inr v)"
  by (cases r) auto

section \<open>Little-endian memory images\<close>

text \<open>The first \<open>n\<close> bytes of the object representation of an integer, lowest byte first, and back.\<close>

fun le_bytes :: "nat \<Rightarrow> 'a::len word \<Rightarrow> u8 list" where
  "le_bytes 0 w = []"
| "le_bytes (Suc n) w = ucast w # le_bytes n (drop_bit 8 w)"

fun le_word :: "u8 list \<Rightarrow> 'a::len word" where
  "le_word [] = 0"
| "le_word (b # bs) = ucast b OR push_bit 8 (le_word bs)"

lemma length_le_bytes [simp]: "length (le_bytes n w) = n"
  by (induction n arbitrary: w) auto

lemma bit_le_word_bytes:
  "bit (le_word (le_bytes n (w :: 'a::len word)) :: 'a word) i \<longleftrightarrow> i < 8 * n \<and> bit w i"
proof (induction n arbitrary: w i)
  case 0
  then show ?case by simp
next
  case (Suc n)
  have "bit (le_word (le_bytes (Suc n) w) :: 'a word) i \<longleftrightarrow>
      i < LENGTH('a) \<and> (i < 8 \<and> bit w i \<or> 8 \<le> i \<and> i - 8 < 8 * n \<and> bit (drop_bit 8 w) (i - 8))"
    using Suc [of "drop_bit 8 w" "i - 8"] by (auto simp: bit_simps)
  then show ?case
    using bit_imp_le_length [of w i] by (auto simp: bit_simps)
qed

lemma le_word_bytes [simp]:
  "LENGTH('a::len) \<le> 8 * n \<Longrightarrow> le_word (le_bytes n w) = (w :: 'a word)"
  by (rule bit_eqI) (auto simp: bit_le_word_bytes dest: bit_imp_le_length)

lemma le_bytes_word:
  "8 * length bs \<le> LENGTH('a::len) \<Longrightarrow> le_bytes (length bs) (le_word bs :: 'a word) = bs"
proof (induction bs)
  case Nil
  then show ?case by simp
next
  case (Cons b bs)
  let ?w = "le_word bs :: 'a word"
  have low: "ucast (ucast b OR push_bit 8 ?w :: 'a word) = b"
    using Cons.prems by (intro bit_word_eqI) (auto simp: bit_simps)
  have "bit ?w i \<Longrightarrow> i < 8 * length bs" for i
    using Cons.IH Cons.prems bit_le_word_bytes [of "length bs" ?w i] by (auto simp del: le_word_bytes)
  then have high: "drop_bit 8 (ucast b OR push_bit 8 ?w :: 'a word) = ?w"
    using Cons.prems by (intro bit_word_eqI) (fastforce simp: bit_simps dest: bit_imp_le_length)
  show ?case using Cons low high by simp
qed

section \<open>Reading words as natural numbers\<close>

text \<open>
  The bitwise operations of a word, read through \<^const>\<open>unat\<close>; the collection
  \<open>unat_bits\<close> moves a goal about shifts and masks to \<open>div\<close> and \<open>mod\<close> on \<^typ>\<open>nat\<close>.
\<close>

named_theorems unat_bits

lemma nat_or_add:
  assumes "x < 2 ^ k"
  shows "x OR push_bit k m = x + push_bit k (m :: nat)"
proof -
  have "take_bit k x = x" using assms by (simp add: take_bit_nat_eq_self)
  then have "\<not> bit x i" if "k \<le> i" for i using that by (metis bit_take_bit_iff leD)
  then have "\<not> bit x i \<or> \<not> bit (push_bit k m) i" for i
    by (cases "k \<le> i") (auto simp: bit_simps)
  then show ?thesis by (metis disjunctive_add)
qed

lemma nat_or_mult: "x < 2 ^ k \<Longrightarrow> x OR (m * 2 ^ k) = x + m * (2 ^ k :: nat)"
  using nat_or_add [of x k m] by (simp add: push_bit_eq_mult)

lemma nat_and_mask: "m AND mask k = (m :: nat) mod 2 ^ k"
  by (simp add: take_bit_eq_mask [symmetric] take_bit_eq_mod)

lemma unat_less: "unat (w :: 'a::len word) < 2 ^ LENGTH('a)"
  by (rule unsigned_less)

lemma unat_ucast_mod [unat_bits]:
  "unat (ucast (w :: 'a::len word) :: 'b::len word) = unat w mod 2 ^ LENGTH('b)"
  by (simp add: unsigned_ucast_eq take_bit_eq_mod)

lemma unat_ucast_up:
  assumes "LENGTH('a::len) \<le> LENGTH('b::len)"
  shows "unat (ucast (w :: 'a word) :: 'b word) = unat w"
proof -
  have "unat w < 2 ^ LENGTH('b)"
    using unsigned_less [of w] power_increasing [OF assms, of "2 :: nat"] by (rule less_le_trans) simp
  then show ?thesis by (simp add: unat_ucast_mod)
qed

lemma unat_push_mod [unat_bits]:
  "unat (push_bit k (w :: 'a::len word)) = (unat w * 2 ^ k) mod 2 ^ LENGTH('a)"
  by (simp add: unsigned_push_bit_eq) (simp add: push_bit_eq_mult take_bit_eq_mod)

lemma unat_drop_div [unat_bits]: "unat (drop_bit k (w :: 'a::len word)) = unat w div 2 ^ k"
  by (simp add: unat_drop_bit_eq) (simp add: drop_bit_eq_div)

lemma unat_and [unat_bits]: "unat (v AND w) = unat v AND unat w"
  by (simp add: unsigned_and_eq)

lemma unat_or [unat_bits]: "unat (v OR w) = unat v OR unat w"
  by (simp add: unsigned_or_eq)

lemma unat_or_shift:
  "unat x < 2 ^ k \<Longrightarrow> unat y = m * 2 ^ k \<Longrightarrow> unat (x OR y) = unat x + m * 2 ^ k"
  by (simp add: unat_or nat_or_mult)

lemma unat_of_nat_mod [unat_bits]: "unat (of_nat n :: 'a::len word) = n mod 2 ^ LENGTH('a)"
  by (simp add: unat_of_nat take_bit_eq_mod)

lemma unat_not: "unat (NOT (w :: 'a::len word)) = 2 ^ LENGTH('a) - 1 - unat w"
proof -
  have "NOT w = - 1 - w" by (simp add: not_eq_complement)
  then show ?thesis by (simp add: unat_sub unsigned_minus_1_eq_mask mask_eq_exp_minus_1)
qed

text \<open>The sign bit and the two's complement value of a word, on natural numbers.\<close>

lemma bit_top_iff: "bit (w :: 'a::len word) (LENGTH('a) - 1) \<longleftrightarrow> 2 ^ (LENGTH('a) - 1) \<le> unat w"
proof -
  have L: "(2::nat) ^ LENGTH('a) = 2 * 2 ^ (LENGTH('a) - 1)"
    by (cases "LENGTH('a)") simp_all
  have "bit w (LENGTH('a) - 1) = odd (unat w div 2 ^ (LENGTH('a) - 1))"
    by (simp add: bit_unsigned_iff flip: bit_iff_odd)
  also have "\<dots> \<longleftrightarrow> 2 ^ (LENGTH('a) - 1) \<le> unat w"
  proof (cases "unat w < 2 ^ (LENGTH('a) - 1)")
    case False
    then have "unat w div 2 ^ (LENGTH('a) - 1) = 1"
      using unat_less [of w] by (intro div_nat_eqI) (simp_all add: L)
    with False show ?thesis by simp
  qed simp
  finally show ?thesis .
qed

lemma sint_unat:
  "sint (w :: 'a::len word) =
     (if unat w < 2 ^ (LENGTH('a) - 1) then int (unat w) else int (unat w) - 2 ^ LENGTH('a))"
proof -
  have "sint w = take_bit LENGTH('a) (uint w) - 2 ^ LENGTH('a) * of_bool (bit (uint w) (LENGTH('a) - 1))"
    by (simp add: sint_uint signed_take_bit_eq_take_bit_minus)
  moreover have "bit (uint w) (LENGTH('a) - 1) = bit w (LENGTH('a) - 1)"
    by (simp add: bit_unsigned_iff)
  ultimately show ?thesis
    by (auto simp only: bit_top_iff of_nat_unat) (auto simp: take_bit_int_eq_self)
qed

section \<open>Signed arithmetic\<close>

text \<open>
  A signed operation whose exact result does not fit its type has no defined value in C++.
  \<open>i64_of\<close> gives the word of the exact result, or that outcome.
\<close>

definition in_i64 :: "int \<Rightarrow> bool" where
  "in_i64 x \<longleftrightarrow> - (2 ^ 63) \<le> x \<and> x < 2 ^ 63"

definition i64_of :: "int \<Rightarrow> i64 res" where
  "i64_of x = (if in_i64 x then Inr (word_of_int x) else Inl (Undefined ''signed overflow''))"

lemma sint_word_of_int_i64 [simp]: "in_i64 x \<Longrightarrow> sint (word_of_int x :: i64) = x"
  by (simp add: in_i64_def sint_sbintrunc' signed_take_bit_int_eq_self)

lemma in_i64_sint [simp]: "in_i64 (sint (x :: i64))"
  using sint_ge [of x] sint_lt [of x] by (simp add: in_i64_def)

lemma i64_of_sint [simp]: "i64_of (sint x) = Inr x"
  by (simp add: i64_of_def)

lemma i64_of_eq_Inr: "i64_of x = Inr w \<longleftrightarrow> sint w = x"
  by (auto simp: i64_of_def)

end
