(* ===== verification/Uos_Check.thy ===== *)
theory Uos_Check
  imports Uos_Prelude
begin

text \<open>
  The overloads of \<open>uosio::check\<close> (core/uosio/check.hpp). The host function
  \<open>uosio_assert\<close> ends the action with a message; \<open>uosio_assert_message\<close> with the first
  \<open>n\<close> bytes of one; \<open>uosio_assert_code\<close> with a number. The result is the error the action
  ends with, or the unit value when control goes on.
\<close>

text \<open>\<open>const char*\<close>: the message is a C string, which ends before its first NUL.\<close>

definition check :: "bool \<Rightarrow> string \<Rightarrow> unit res" where
  "check pred msg = (if \<not> pred then Inl (Assertion msg) else Inr ())"

text \<open>\<open>std::string\<close> by reference: \<open>c_str()\<close> is read up to the first NUL.\<close>

definition c_string :: "string \<Rightarrow> string" where
  "c_string s = takeWhile (\<lambda>c. c \<noteq> CHR 0x00) s"

definition check_string :: "bool \<Rightarrow> string \<Rightarrow> unit res" where
  "check_string pred msg = (if \<not> pred then Inl (Assertion (c_string msg)) else Inr ())"

definition check_string_rvalue :: "bool \<Rightarrow> string \<Rightarrow> unit res" where
  "check_string_rvalue pred msg = (if \<not> pred then Inl (Assertion (c_string msg)) else Inr ())"

text \<open>
  A length is given: the host reads \<open>n\<close> bytes at the message, whose object has
  \<open>length msg + 1\<close> bytes with the terminator.
\<close>

definition message_prefix :: "string \<Rightarrow> nat \<Rightarrow> error" where
  "message_prefix msg n =
     (if n \<le> length msg + 1 then Assertion (take n (msg @ [CHR 0x00]))
      else Undefined ''message length past the object'')"

definition check_n :: "bool \<Rightarrow> string \<Rightarrow> u32 \<Rightarrow> unit res" where
  "check_n pred msg n = (if \<not> pred then Inl (message_prefix msg (unat n)) else Inr ())"

definition check_string_n :: "bool \<Rightarrow> string \<Rightarrow> u32 \<Rightarrow> unit res" where
  "check_string_n pred msg n = (if \<not> pred then Inl (message_prefix msg (unat n)) else Inr ())"

definition check_code :: "bool \<Rightarrow> u64 \<Rightarrow> unit res" where
  "check_code pred code = (if \<not> pred then Inl (Assertion_code code) else Inr ())"

lemma check_simps [simp]:
  "check True msg = Inr ()"
  "check False msg = Inl (Assertion msg)"
  by (simp_all add: check_def)

lemma bind_check: "bind_res (check p msg) f = (if p then f () else Inl (Assertion msg))"
  by (cases p) auto

lemma check_string_no_nul: "CHR 0x00 \<notin> set msg \<Longrightarrow> check_string p msg = check p msg"
  by (auto simp: check_string_def check_def c_string_def takeWhile_eq_all_conv)

end
