(* ===== verification/Uos_Datastream.thy ===== *)
theory Uos_Datastream
  imports Uos_Check
begin

text \<open>
  The two data streams of core/uosio/datastream.hpp: \<open>datastream<T>\<close> over a byte buffer and
  \<open>datastream<size_t>\<close>, which only counts. The buffer stream keeps three pointers and the
  bytes of the object they point into; every comparison and difference of pointers is the
  32-bit one of the target.

  The serialization operators are templates over the stream. They use \<open>write\<close> on the
  way out and \<open>read\<close>, \<open>get\<close> and \<open>remaining\<close> on the way in, so these are the interfaces
  \<open>byte_writer\<close> and \<open>byte_reader\<close>, interpreted here by the streams themselves.
\<close>

section \<open>The buffer stream\<close>

record datastream =
  ds_start :: u32
  ds_pos :: u32
  ds_end :: u32
  ds_buf :: "u8 list"

definition ds_make :: "u32 \<Rightarrow> u32 \<Rightarrow> u8 list \<Rightarrow> datastream" where
  "ds_make start s bytes =
     \<lparr>ds_start = start, ds_pos = start, ds_end = start + s, ds_buf = bytes\<rparr>"

text \<open>\<open>memcpy\<close> from and to the stream's position: defined only inside the object.\<close>

definition ds_load :: "datastream \<Rightarrow> nat \<Rightarrow> u8 list res" where
  "ds_load ds n =
     (let off = unat (ds_pos ds - ds_start ds) in
      if off + n \<le> length (ds_buf ds) then Inr (take n (drop off (ds_buf ds)))
      else Inl (Undefined ''read outside the buffer''))"

definition ds_store :: "datastream \<Rightarrow> u8 list \<Rightarrow> u8 list res" where
  "ds_store ds d =
     (let off = unat (ds_pos ds - ds_start ds) in
      if off + length d \<le> length (ds_buf ds)
      then Inr (take off (ds_buf ds) @ d @ drop (off + length d) (ds_buf ds))
      else Inl (Undefined ''write outside the buffer''))"

definition ds_skip :: "u32 \<Rightarrow> datastream \<Rightarrow> datastream" where
  "ds_skip s ds = ds\<lparr>ds_pos := ds_pos ds + s\<rparr>"

definition ds_read :: "u32 \<Rightarrow> datastream \<Rightarrow> (u8 list \<times> datastream) res" where
  "ds_read s ds =
     bind_res (check (ds_end ds - ds_pos ds \<ge> s) ''read'') (\<lambda>_.
     bind_res (ds_load ds (unat s)) (\<lambda>d.
     Inr (d, ds\<lparr>ds_pos := ds_pos ds + s\<rparr>)))"

text \<open>\<open>write\<close> compares the pointer difference and the size as signed integers.\<close>

definition ds_write :: "u8 list \<Rightarrow> datastream \<Rightarrow> datastream res" where
  "ds_write d ds =
     (let s = (of_nat (length d) :: u32) in
      bind_res (check (sint (ds_end ds - ds_pos ds) \<ge> sint s) ''write'') (\<lambda>_.
      bind_res (ds_store ds d) (\<lambda>buf.
      Inr (ds\<lparr>ds_buf := buf, ds_pos := ds_pos ds + s\<rparr>))))"

definition ds_put :: "u8 \<Rightarrow> datastream \<Rightarrow> datastream res" where
  "ds_put c ds =
     bind_res (check (ds_pos ds < ds_end ds) ''put'') (\<lambda>_.
     bind_res (ds_store ds [c]) (\<lambda>buf.
     Inr (ds\<lparr>ds_buf := buf, ds_pos := ds_pos ds + 1\<rparr>)))"

definition ds_get :: "datastream \<Rightarrow> (u8 \<times> datastream) res" where
  "ds_get ds =
     bind_res (check (ds_pos ds < ds_end ds) ''get'') (\<lambda>_.
     bind_res (ds_load ds 1) (\<lambda>d.
     Inr (hd d, ds\<lparr>ds_pos := ds_pos ds + 1\<rparr>)))"

definition ds_valid :: "datastream \<Rightarrow> bool" where
  "ds_valid ds \<longleftrightarrow> ds_pos ds \<le> ds_end ds \<and> ds_pos ds \<ge> ds_start ds"

definition ds_seekp :: "u32 \<Rightarrow> datastream \<Rightarrow> bool \<times> datastream" where
  "ds_seekp p ds =
     (let ds' = ds\<lparr>ds_pos := ds_start ds + p\<rparr> in (ds_pos ds' \<le> ds_end ds', ds'))"

definition ds_tellp :: "datastream \<Rightarrow> u32" where
  "ds_tellp ds = ds_pos ds - ds_start ds"

definition ds_remaining :: "datastream \<Rightarrow> u32" where
  "ds_remaining ds = ds_end ds - ds_pos ds"

section \<open>The counting stream\<close>

record size_stream =
  ss_size :: u32

definition ss_make :: "u32 \<Rightarrow> size_stream" where
  "ss_make init_size = \<lparr>ss_size = init_size\<rparr>"

definition ss_skip :: "u32 \<Rightarrow> size_stream \<Rightarrow> size_stream" where
  "ss_skip s ds = ds\<lparr>ss_size := ss_size ds + s\<rparr>"

definition ss_write :: "u8 list \<Rightarrow> size_stream \<Rightarrow> size_stream res" where
  "ss_write d ds = Inr (ds\<lparr>ss_size := ss_size ds + of_nat (length d)\<rparr>)"

definition ss_put :: "u8 \<Rightarrow> size_stream \<Rightarrow> size_stream res" where
  "ss_put c ds = Inr (ds\<lparr>ss_size := ss_size ds + 1\<rparr>)"

definition ss_valid :: "size_stream \<Rightarrow> bool" where
  "ss_valid ds = True"

definition ss_seekp :: "u32 \<Rightarrow> size_stream \<Rightarrow> bool \<times> size_stream" where
  "ss_seekp p ds = (True, ds\<lparr>ss_size := p\<rparr>)"

definition ss_tellp :: "size_stream \<Rightarrow> u32" where
  "ss_tellp ds = ss_size ds"

definition ss_remaining :: "size_stream \<Rightarrow> u32" where
  "ss_remaining ds = 0"

section \<open>The interface of a writer\<close>

text \<open>
  What the serialization operators rely on: writing twice is writing the concatenation.
  \<open>writes put bs\<close> says that the operation \<open>put\<close> is the single write of \<open>bs\<close>.
\<close>

locale byte_writer =
  fixes wr :: "u8 list \<Rightarrow> 's \<Rightarrow> 's res"
    and ok :: "'s \<Rightarrow> bool"
  assumes wr_nil: "ok s \<Longrightarrow> wr [] s = Inr s"
    and wr_ok: "ok s \<Longrightarrow> length xs < 2 ^ 31 \<Longrightarrow> wr xs s = Inr s' \<Longrightarrow> ok s'"
    and wr_append: "ok s \<Longrightarrow> length xs + length ys < 2 ^ 31 \<Longrightarrow>
      bind_res (wr xs s) (wr ys) = wr (xs @ ys) s"
begin

definition writes :: "('s \<Rightarrow> 's res) \<Rightarrow> u8 list \<Rightarrow> bool" where
  "writes put bs \<longleftrightarrow> (\<forall>s. ok s \<longrightarrow> length bs < 2 ^ 31 \<longrightarrow> put s = wr bs s)"

lemma writesD: "writes put bs \<Longrightarrow> ok s \<Longrightarrow> length bs < 2 ^ 31 \<Longrightarrow> put s = wr bs s"
  by (simp add: writes_def)

lemma writes_wr [intro, simp]: "writes (wr bs) bs"
  by (simp add: writes_def)

lemma writes_nil [intro, simp]: "writes Inr []"
  by (simp add: writes_def wr_nil)

lemma writes_bind [intro]:
  assumes "writes p xs" and "writes q ys"
  shows "writes (\<lambda>s. bind_res (p s) q) (xs @ ys)"
  unfolding writes_def
proof (intro allI impI)
  fix s assume s: "ok s" and len: "length (xs @ ys) < 2 ^ 31"
  have p: "p s = wr xs s"
    using assms(1) s len by (simp add: writesD)
  have "bind_res (wr xs s) q = bind_res (wr xs s) (wr ys)"
  proof (cases "wr xs s")
    case (Inr s')
    then have "ok s'" using wr_ok [OF s _ Inr] len by simp
    with Inr assms(2) len show ?thesis by (simp add: writesD)
  qed simp
  with p s len show "bind_res (p s) q = wr (xs @ ys) s"
    by (simp add: wr_append)
qed

end

section \<open>The interface of a reader\<close>

text \<open>
  \<open>view\<close> is what is left to read and \<open>adv\<close> the stream some bytes further on.
  \<open>reads get bs v\<close> says that \<open>get\<close>, faced with \<open>bs\<close> and anything behind it, consumes
  exactly \<open>bs\<close> and returns \<open>v\<close>; \<open>short get bs\<close> that it aborts on every proper prefix.
\<close>

locale byte_reader =
  fixes rd :: "u32 \<Rightarrow> 's \<Rightarrow> (u8 list \<times> 's) res"
    and gt :: "'s \<Rightarrow> (u8 \<times> 's) res"
    and rem :: "'s \<Rightarrow> u32"
    and ok :: "'s \<Rightarrow> bool"
    and view :: "'s \<Rightarrow> u8 list"
    and adv :: "nat \<Rightarrow> 's \<Rightarrow> 's"
  assumes rd_law: "ok s \<Longrightarrow> rd n s =
      (if unat n \<le> length (view s) then Inr (take (unat n) (view s), adv (unat n) s)
       else Inl (Assertion ''read''))"
    and gt_law: "ok s \<Longrightarrow> gt s =
      (case view s of [] \<Rightarrow> Inl (Assertion ''get'') | b # _ \<Rightarrow> Inr (b, adv 1 s))"
    and rem_law: "ok s \<Longrightarrow> unat (rem s) = length (view s)"
    and adv_ok: "ok s \<Longrightarrow> k \<le> length (view s) \<Longrightarrow> ok (adv k s)"
    and adv_view: "ok s \<Longrightarrow> k \<le> length (view s) \<Longrightarrow> view (adv k s) = drop k (view s)"
    and adv_0: "adv 0 s = s"
    and adv_adv: "adv m (adv k s) = adv (k + m) s"
begin

definition reads :: "('s \<Rightarrow> ('a \<times> 's) res) \<Rightarrow> u8 list \<Rightarrow> 'a \<Rightarrow> bool" where
  "reads get bs v \<longleftrightarrow>
     (\<forall>s rest. ok s \<longrightarrow> view s = bs @ rest \<longrightarrow> get s = Inr (v, adv (length bs) s))"

lemma readsD: "reads get bs v \<Longrightarrow> ok s \<Longrightarrow> view s = bs @ rest \<Longrightarrow> get s = Inr (v, adv (length bs) s)"
  by (simp add: reads_def)

lemma reads_rd [intro]: "unat n = length bs \<Longrightarrow> reads (rd n) bs bs"
  by (simp add: reads_def rd_law)

lemma reads_gt [intro, simp]: "reads gt [b] b"
  by (simp add: reads_def gt_law)

lemma reads_return [intro, simp]: "reads (\<lambda>s. Inr (v, s)) [] v"
  by (simp add: reads_def adv_0)

lemma reads_bind:
  assumes "reads g xs v" and "reads (h v) ys w"
  shows "reads (\<lambda>s. bind_res (g s) (\<lambda>(v, s). h v s)) (xs @ ys) w"
  unfolding reads_def
proof (intro allI impI)
  fix s rest assume s: "ok s" and v: "view s = (xs @ ys) @ rest"
  have "g s = Inr (v, adv (length xs) s)"
    using assms(1) s v by (simp add: readsD)
  moreover have "h v (adv (length xs) s) = Inr (w, adv (length ys) (adv (length xs) s))"
    using assms(2) by (rule readsD [where rest = rest]) (use s v in \<open>simp_all add: adv_ok adv_view\<close>)
  ultimately show "bind_res (g s) (\<lambda>(v, s). h v s) = Inr (w, adv (length (xs @ ys)) s)"
    by (simp add: adv_adv)
qed

lemma reads_gt_bind:
  assumes "reads (h b) bs v"
  shows "reads (\<lambda>s. bind_res (gt s) (\<lambda>(b, s). h b s)) (b # bs) v"
  using reads_bind [OF reads_gt [of b], of h bs v] assms by simp

lemma reads_map:
  assumes "reads g xs v"
  shows "reads (\<lambda>s. bind_res (g s) (\<lambda>(v, s). Inr (f v, s))) xs (f v)"
  using reads_bind [OF assms, of "\<lambda>v s. Inr (f v, s)" "[]" "f v"] by simp

text \<open>Whatever a reader does, a short input ends in the stream's own assertion.\<close>

lemma rd_short: "ok s \<Longrightarrow> length (view s) < unat n \<Longrightarrow> rd n s = Inl (Assertion ''read'')"
  by (simp add: rd_law)

lemma gt_short: "ok s \<Longrightarrow> view s = [] \<Longrightarrow> gt s = Inl (Assertion ''get'')"
  by (simp add: gt_law)

end

section \<open>The streams provide the interfaces\<close>

text \<open>
  A stream over a real buffer: the pointers are ordered, the buffer is the memory between
  \<open>_start\<close> and \<open>_end\<close>, and it is smaller than 2 GiB, as \<open>write\<close>'s signed comparison needs.
\<close>

definition ds_ok :: "datastream \<Rightarrow> bool" where
  "ds_ok ds \<longleftrightarrow> unat (ds_start ds) \<le> unat (ds_pos ds) \<and> unat (ds_pos ds) \<le> unat (ds_end ds) \<and>
     unat (ds_start ds) + length (ds_buf ds) = unat (ds_end ds) \<and> length (ds_buf ds) < 2 ^ 31"

definition ds_view :: "datastream \<Rightarrow> u8 list" where
  "ds_view ds = drop (unat (ds_pos ds - ds_start ds)) (ds_buf ds)"

definition ds_adv :: "nat \<Rightarrow> datastream \<Rightarrow> datastream" where
  "ds_adv n ds = ds\<lparr>ds_pos := ds_pos ds + of_nat n\<rparr>"

text \<open>What has been written so far.\<close>

definition ds_done :: "datastream \<Rightarrow> u8 list" where
  "ds_done ds = take (unat (ds_pos ds - ds_start ds)) (ds_buf ds)"

lemma sint_unat_small: "unat (w :: 32 word) < 2 ^ 31 \<Longrightarrow> sint w = int (unat w)"
  by (simp add: sint_unat del: of_nat_unat)

lemma unat_of_nat_small: "n < 2 ^ 32 \<Longrightarrow> unat (of_nat n :: 32 word) = n"
  by (simp add: unat_of_nat take_bit_nat_eq_self)

lemma ds_ok_offsets:
  assumes "ds_ok ds"
  shows "unat (ds_pos ds - ds_start ds) = unat (ds_pos ds) - unat (ds_start ds)"
    and "unat (ds_end ds - ds_pos ds) = unat (ds_end ds) - unat (ds_pos ds)"
    and "unat (ds_end ds - ds_pos ds) = length (ds_view ds)"
    and "unat (ds_pos ds - ds_start ds) + length (ds_view ds) = length (ds_buf ds)"
    and "length (ds_view ds) < 2 ^ 31"
  using assms by (auto simp: ds_ok_def ds_view_def unat_sub word_le_nat_alt)

lemma ds_pos_adv:
  assumes "ds_ok ds" and "n \<le> length (ds_view ds)"
  shows "unat (ds_pos ds + of_nat n) = unat (ds_pos ds) + n"
proof -
  have "unat (ds_pos ds) + n \<le> unat (ds_end ds)"
    using ds_ok_offsets(2,3) [OF assms(1)] assms by (auto simp: ds_ok_def)
  moreover have "unat (ds_end ds) < 2 ^ 32"
    using unsigned_less [of "ds_end ds"] by simp
  ultimately show ?thesis
    by (simp add: unat_word_ariths unat_of_nat_small)
qed

lemma ds_adv_ok: "ds_ok ds \<Longrightarrow> n \<le> length (ds_view ds) \<Longrightarrow> ds_ok (ds_adv n ds)"
  using ds_ok_offsets(2,3) [of ds] ds_pos_adv [of ds n]
  by (auto simp: ds_ok_def ds_adv_def)

lemma ds_adv_view:
  "ds_ok ds \<Longrightarrow> n \<le> length (ds_view ds) \<Longrightarrow> ds_view (ds_adv n ds) = drop n (ds_view ds)"
  using ds_adv_ok [of ds n] ds_ok_offsets(1) [of "ds_adv n ds"] ds_ok_offsets(1) [of ds]
    ds_pos_adv [of ds n]
  by (auto simp: ds_view_def ds_adv_def ds_ok_def add.commute)

lemma ds_load_ok:
  "ds_ok ds \<Longrightarrow> n \<le> length (ds_view ds) \<Longrightarrow> ds_load ds n = Inr (take n (ds_view ds))"
  using ds_ok_offsets(4) [of ds] by (simp add: ds_load_def ds_view_def)

lemma ds_read_law:
  assumes "ds_ok ds"
  shows "ds_read n ds =
    (if unat n \<le> length (ds_view ds) then Inr (take (unat n) (ds_view ds), ds_adv (unat n) ds)
     else Inl (Assertion ''read''))"
  using ds_ok_offsets(3) [OF assms]
  by (simp add: ds_read_def bind_check word_le_nat_alt ds_load_ok [OF assms] ds_adv_def)

lemma ds_get_law:
  assumes "ds_ok ds"
  shows "ds_get ds =
    (case ds_view ds of [] \<Rightarrow> Inl (Assertion ''get'') | b # _ \<Rightarrow> Inr (b, ds_adv 1 ds))"
proof -
  have "ds_pos ds < ds_end ds \<longleftrightarrow> ds_view ds \<noteq> []"
    using ds_ok_offsets(2,3) [OF assms] assms
    by (auto simp: ds_ok_def word_less_nat_alt simp flip: length_greater_0_conv)
  then show ?thesis
    by (cases "ds_view ds") (simp_all add: ds_get_def bind_check ds_load_ok [OF assms] ds_adv_def)
qed

interpretation dsr: byte_reader ds_read ds_get ds_remaining ds_ok ds_view ds_adv
  by unfold_locales
    (simp_all add: ds_read_law ds_get_law ds_adv_ok ds_adv_view,
     simp_all add: ds_adv_def ds_remaining_def ds_ok_offsets(3) add.assoc)

lemma ds_write_law:
  assumes "ds_ok ds" and "length d < 2 ^ 31"
  shows "ds_write d ds =
    (if length d \<le> length (ds_view ds)
     then Inr ((ds_adv (length d) ds)\<lparr>ds_buf := ds_done ds @ d @ drop (length d) (ds_view ds)\<rparr>)
     else Inl (Assertion ''write''))"
proof -
  have "sint (ds_end ds - ds_pos ds) = int (length (ds_view ds))"
    using ds_ok_offsets(3,5) [OF assms(1)] by (simp add: sint_unat_small)
  moreover have "sint (of_nat (length d) :: 32 word) = int (length d)"
    using assms(2) by (simp add: sint_unat_small unat_of_nat_small)
  ultimately have "sint (of_nat (length d) :: 32 word) \<le> sint (ds_end ds - ds_pos ds)
      \<longleftrightarrow> length d \<le> length (ds_view ds)"
    by simp
  then show ?thesis
    using ds_ok_offsets(4) [OF assms(1)]
    by (auto simp: ds_write_def Let_def bind_check ds_store_def ds_adv_def ds_done_def ds_view_def
        add.commute)
qed

lemma ds_write_ok:
  assumes "ds_ok ds" and "length d \<le> length (ds_view ds)"
  defines "ds' \<equiv> (ds_adv (length d) ds)\<lparr>ds_buf := ds_done ds @ d @ drop (length d) (ds_view ds)\<rparr>"
  shows "ds_ok ds'" and "ds_done ds' = ds_done ds @ d" and "ds_view ds' = drop (length d) (ds_view ds)"
proof -
  have len: "length (ds_done ds @ d @ drop (length d) (ds_view ds)) = length (ds_buf ds)"
    using ds_ok_offsets(4) [OF assms(1)] assms(2) by (simp add: ds_done_def)
  then show ok: "ds_ok ds'"
    using ds_adv_ok [OF assms(1,2)] by (simp add: ds_ok_def ds'_def ds_adv_def)
  have "unat (ds_pos ds' - ds_start ds') = length (ds_done ds @ d)"
    using ds_ok_offsets(1) [OF ok] ds_ok_offsets(1,4) [OF assms(1)] ds_pos_adv [OF assms(1,2)] assms(1)
    by (simp add: ds'_def ds_adv_def ds_done_def ds_ok_def)
  then show "ds_done ds' = ds_done ds @ d" and "ds_view ds' = drop (length d) (ds_view ds)"
    by (simp_all add: ds_done_def [of ds'] ds_view_def [of ds'], simp_all add: ds'_def)
qed

lemma ds_write_append:
  assumes "ds_ok ds" and "length xs + length ys < 2 ^ 31"
  shows "bind_res (ds_write xs ds) (ds_write ys) = ds_write (xs @ ys) ds"
proof (cases "length xs \<le> length (ds_view ds)")
  case True
  note w = ds_write_ok [OF assms(1) True]
  show ?thesis
    using True assms(2)
    by (auto simp: ds_write_law [OF assms(1)] ds_write_law [OF w(1)] w(2,3))
      (auto simp: ds_adv_def add.assoc add.commute [of "length ys"])
next
  case False
  then show ?thesis
    using assms(2) by (simp add: ds_write_law [OF assms(1)])
qed

interpretation dsw: byte_writer ds_write ds_ok
proof unfold_locales
  show "ds_write [] s = Inr s" if "ds_ok s" for s
    using that by (simp add: ds_write_law ds_adv_def ds_done_def ds_view_def)
  show "ds_ok s'" if "ds_ok s" "length xs < 2 ^ 31" "ds_write xs s = Inr s'" for s s' xs
    using that by (auto simp: ds_write_law ds_write_ok(1) split: if_splits)
qed (simp add: ds_write_append)

interpretation ssw: byte_writer ss_write "\<lambda>_. True"
  by unfold_locales (auto simp: ss_write_def add.assoc)

section \<open>Packing and unpacking\<close>

text \<open>
  \<open>unpack<T>(buffer, len)\<close> runs \<open>operator>>\<close> of \<open>T\<close> (the argument \<open>get\<close>) on a stream over the
  buffer; \<open>pack_size\<close> and \<open>pack\<close> run \<open>operator<<\<close> of the value (\<open>put_size\<close> is its instance on the
  counting stream, \<open>put\<close> the one on the buffer stream). \<open>addr\<close> is where the vector's data lives.
\<close>

definition unpack :: "(datastream \<Rightarrow> ('a \<times> datastream) res) \<Rightarrow> u32 \<Rightarrow> u32 \<Rightarrow> u8 list \<Rightarrow> 'a res" where
  "unpack get buffer len mem =
     bind_res (get (ds_make buffer len mem)) (\<lambda>(result, _). Inr result)"

definition unpack_bytes :: "(datastream \<Rightarrow> ('a \<times> datastream) res) \<Rightarrow> u32 \<Rightarrow> u8 list \<Rightarrow> 'a res" where
  "unpack_bytes get addr bytes = unpack get addr (of_nat (length bytes)) bytes"

definition pack_size :: "(size_stream \<Rightarrow> size_stream res) \<Rightarrow> u32 res" where
  "pack_size put_size = bind_res (put_size (ss_make 0)) (\<lambda>ps. Inr (ss_tellp ps))"

definition pack :: "(size_stream \<Rightarrow> size_stream res) \<Rightarrow> (datastream \<Rightarrow> datastream res) \<Rightarrow> u32 \<Rightarrow> u8 list res" where
  "pack put_size put addr =
     bind_res (pack_size put_size) (\<lambda>n.
     bind_res (put (ds_make addr n (replicate (unat n) 0))) (\<lambda>ds.
     Inr (ds_buf ds)))"

text \<open>A buffer of \<open>n\<close> bytes at \<open>addr\<close>: inside the address space and below 2 GiB.\<close>

definition addressable :: "u32 \<Rightarrow> nat \<Rightarrow> bool" where
  "addressable addr n \<longleftrightarrow> n < 2 ^ 31 \<and> unat addr + n < 2 ^ 32"

lemma ds_make_ok:
  assumes "addressable addr (length bytes)"
  shows "ds_ok (ds_make addr (of_nat (length bytes)) bytes)"
    and "ds_view (ds_make addr (of_nat (length bytes)) bytes) = bytes"
    and "ds_done (ds_make addr (of_nat (length bytes)) bytes) = []"
  using assms
  by (simp_all add: addressable_def ds_ok_def ds_make_def ds_view_def ds_done_def unat_word_ariths
      unat_of_nat_small)

lemma unpack_bytes_reads:
  assumes "dsr.reads get bs v" and "addressable addr (length (bs @ rest))"
  shows "unpack_bytes get addr (bs @ rest) = Inr v"
  using dsr.readsD [OF assms(1) ds_make_ok(1,2) [OF assms(2)]]
  by (simp add: unpack_bytes_def unpack_def)

lemma pack_size_writes:
  assumes "ssw.writes put_size bs" and "length bs < 2 ^ 31"
  shows "pack_size put_size = Inr (of_nat (length bs))"
  using ssw.writesD [OF assms(1) _ assms(2), of "ss_make 0"]
  by (simp add: pack_size_def ss_write_def ss_make_def ss_tellp_def)

lemma pack_writes:
  assumes "ssw.writes put_size bs" and "dsw.writes put bs" and "addressable addr (length bs)"
  shows "pack put_size put addr = Inr bs"
proof -
  let ?ds = "ds_make addr (of_nat (length bs)) (replicate (length bs) 0)"
  have len: "length bs < 2 ^ 31" and un: "unat (of_nat (length bs) :: u32) = length bs"
    using assms(3) by (auto simp: addressable_def unat_of_nat_small)
  have ds: "ds_ok ?ds" "ds_view ?ds = replicate (length bs) 0" "ds_done ?ds = []"
    using ds_make_ok [of addr "replicate (length bs) 0"] assms(3) by simp_all
  have "put ?ds = Inr ((ds_adv (length bs) ?ds)\<lparr>ds_buf := bs\<rparr>)"
    using dsw.writesD [OF assms(2) ds(1) len] ds_write_law [OF ds(1) len] ds(2,3) by simp
  then show ?thesis
    using pack_size_writes [OF assms(1) len] un by (simp add: pack_def)
qed

end
