(* ===== verification/Uos_Varint.thy ===== *)
theory Uos_Varint
  imports Uos_Datastream
begin

text \<open>
  The variable length integers of core/uosio/varint.hpp: \<open>unsigned_int\<close> writes 32 bits as
  base-128 groups, lowest first, with the top bit of a byte as the continuation flag;
  \<open>signed_int\<close> is zigzag-coded first. The proofs give the round trip, the length of the
  encoding and its minimality.
\<close>

section \<open>unsigned_int\<close>

record unsigned_int =
  uint_value :: u32

definition unsigned_int_of :: "u32 \<Rightarrow> unsigned_int" where
  "unsigned_int_of v = \<lparr>uint_value = v\<rparr>"

text \<open>The constructor from a type convertible to \<open>uint32_t\<close>, and the conversion to \<open>T\<close>.\<close>

definition unsigned_int_from :: "'a::len word \<Rightarrow> unsigned_int" where
  "unsigned_int_from v = \<lparr>uint_value = ucast v\<rparr>"

definition unsigned_int_to :: "unsigned_int \<Rightarrow> 'a::len word" where
  "unsigned_int_to v = ucast (uint_value v)"

definition unsigned_int_assign :: "u32 \<Rightarrow> unsigned_int \<Rightarrow> unsigned_int" where
  "unsigned_int_assign v i = i\<lparr>uint_value := v\<rparr>"

definition unsigned_int_eq :: "unsigned_int \<Rightarrow> unsigned_int \<Rightarrow> bool" where
  "unsigned_int_eq i v \<longleftrightarrow> uint_value i = uint_value v"

definition unsigned_int_ne :: "unsigned_int \<Rightarrow> unsigned_int \<Rightarrow> bool" where
  "unsigned_int_ne i v \<longleftrightarrow> uint_value i \<noteq> uint_value v"

definition unsigned_int_less :: "unsigned_int \<Rightarrow> unsigned_int \<Rightarrow> bool" where
  "unsigned_int_less i v \<longleftrightarrow> uint_value i < uint_value v"

definition unsigned_int_ge :: "unsigned_int \<Rightarrow> unsigned_int \<Rightarrow> bool" where
  "unsigned_int_ge i v \<longleftrightarrow> uint_value i \<ge> uint_value v"

text \<open>One group of the encoder: the low seven bits, and bit 7 when more groups follow.\<close>

definition vlq_group :: "'a::len word \<Rightarrow> u8" where
  "vlq_group val =
     (let b = ucast val AND 0x7f; rest = drop_bit 7 val
      in b OR push_bit 7 (of_bool (rest > 0)))"

lemma unat_drop_bit_7_less:
  "drop_bit 7 (val :: 'a::len word) \<noteq> 0 \<Longrightarrow> unat (drop_bit 7 val) < unat val"
  by (cases "unat val") (auto simp: unat_drop_div word_unat_eq_iff)

text \<open>
  The \<open>do ... while( val )\<close> loop, over the type of its counter: \<open>uint64_t\<close> for
  \<open>unsigned_int\<close> and \<open>uint32_t\<close> for \<open>signed_int\<close>.
\<close>

function vlq_write :: "(u8 list \<Rightarrow> 's \<Rightarrow> 's res) \<Rightarrow> 'a::len word \<Rightarrow> 's \<Rightarrow> 's res" where
  "vlq_write wr val ds =
     bind_res (wr [vlq_group val] ds) (\<lambda>ds.
       let val = drop_bit 7 val in
       if val \<noteq> 0 then vlq_write wr val ds else Inr ds)"
  by pat_completeness auto
termination
  by (relation "measure (\<lambda>(wr, val, ds). unat val)") (auto simp: unat_drop_bit_7_less)

declare vlq_write.simps [simp del]

definition put_unsigned_int :: "(u8 list \<Rightarrow> 's \<Rightarrow> 's res) \<Rightarrow> unsigned_int \<Rightarrow> 's \<Rightarrow> 's res" where
  "put_unsigned_int wr v ds = vlq_write wr (ucast (uint_value v) :: u64) ds"

text \<open>
  The decoder's loop, over the type of its accumulator. Its counter \<open>by\<close> (a \<open>uint8_t\<close> in one
  decoder and an \<open>int\<close> in the other) starts at 0, grows by 7 and never passes 35, since shifting
  the 32-bit group by 32 or more is undefined; that also ends the loop on an encoding of more
  than five groups.
\<close>

function vlq_read :: "('s \<Rightarrow> (u8 \<times> 's) res) \<Rightarrow> 'a::len word \<Rightarrow> nat \<Rightarrow> 's \<Rightarrow> ('a word \<times> 's) res" where
  "vlq_read gt v by ds =
     bind_res (gt ds) (\<lambda>(b, ds).
       if by \<ge> 32 then Inl (Undefined ''shift past the width'')
       else let v = v OR ucast (push_bit by (ucast (b AND 0x7f) :: u32)) in
         if b AND 0x80 \<noteq> 0 then vlq_read gt v (by + 7) ds else Inr (v, ds))"
  by pat_completeness auto
termination
  by (relation "measure (\<lambda>(gt, v, by, ds). 39 - by)") auto

declare vlq_read.simps [simp del]

definition get_unsigned_int :: "('s \<Rightarrow> (u8 \<times> 's) res) \<Rightarrow> 's \<Rightarrow> (unsigned_int \<times> 's) res" where
  "get_unsigned_int gt ds =
     bind_res (vlq_read gt (0 :: u64) 0 ds) (\<lambda>(v, ds). Inr (\<lparr>uint_value = ucast v\<rparr>, ds))"

section \<open>signed_int\<close>

record signed_int =
  sint_value :: i32

definition signed_int_of :: "i32 \<Rightarrow> signed_int" where
  "signed_int_of v = \<lparr>sint_value = v\<rparr>"

definition signed_int_to_int :: "signed_int \<Rightarrow> i32" where
  "signed_int_to_int v = sint_value v"

definition signed_int_assign :: "'a::len word \<Rightarrow> signed_int \<Rightarrow> signed_int" where
  "signed_int_assign v i = i\<lparr>sint_value := ucast v\<rparr>"

text \<open>
  \<open>value++\<close> and \<open>++value\<close> on an \<open>int32_t\<close>: undefined at the largest value. The result of the
  first is a \<open>signed_int\<close> made from the old value.
\<close>

definition i32_increment :: "i32 \<Rightarrow> i32 res" where
  "i32_increment v = (if sint v = 2 ^ 31 - 1 then Inl (Undefined ''signed overflow'') else Inr (v + 1))"

definition signed_int_post_increment :: "signed_int \<Rightarrow> (signed_int \<times> signed_int) res" where
  "signed_int_post_increment i =
     bind_res (i32_increment (sint_value i)) (\<lambda>v. Inr (signed_int_of (sint_value i), i\<lparr>sint_value := v\<rparr>))"

definition signed_int_pre_increment :: "signed_int \<Rightarrow> signed_int res" where
  "signed_int_pre_increment i =
     bind_res (i32_increment (sint_value i)) (\<lambda>v. Inr (i\<lparr>sint_value := v\<rparr>))"

definition signed_int_eq :: "signed_int \<Rightarrow> signed_int \<Rightarrow> bool" where
  "signed_int_eq i v \<longleftrightarrow> sint_value i = sint_value v"

definition signed_int_ne :: "signed_int \<Rightarrow> signed_int \<Rightarrow> bool" where
  "signed_int_ne i v \<longleftrightarrow> sint_value i \<noteq> sint_value v"

definition signed_int_less :: "signed_int \<Rightarrow> signed_int \<Rightarrow> bool" where
  "signed_int_less i v \<longleftrightarrow> sint (sint_value i) < sint (sint_value v)"

definition signed_int_ge :: "signed_int \<Rightarrow> signed_int \<Rightarrow> bool" where
  "signed_int_ge i v \<longleftrightarrow> sint (sint_value i) \<ge> sint (sint_value v)"

text \<open>
  \<open>uint32_t((v.value<<1) ^ (v.value>>31))\<close>: the left shift drops the sign bit as the target's
  compiler defines it, the right shift is arithmetic.
\<close>

definition zigzag :: "i32 \<Rightarrow> u32" where
  "zigzag v = push_bit 1 v XOR signed_drop_bit 31 v"

text \<open>
  \<open>(v>>1) ^ (~(v&1)+1ull)\<close>: the complement is taken in 32 bits, the sum and the exclusive or
  in 64, and the assignment to \<open>int32_t\<close> keeps the low half.
\<close>

definition unzigzag :: "u32 \<Rightarrow> i32" where
  "unzigzag v = ucast ((ucast (drop_bit 1 v) :: u64) XOR (ucast (NOT (v AND 1)) + 1))"

definition put_signed_int :: "(u8 list \<Rightarrow> 's \<Rightarrow> 's res) \<Rightarrow> signed_int \<Rightarrow> 's \<Rightarrow> 's res" where
  "put_signed_int wr v ds = vlq_write wr (zigzag (sint_value v)) ds"

definition get_signed_int :: "('s \<Rightarrow> (u8 \<times> 's) res) \<Rightarrow> 's \<Rightarrow> (signed_int \<times> 's) res" where
  "get_signed_int gt ds =
     bind_res (vlq_read gt (0 :: u32) 0 ds) (\<lambda>(v, ds). Inr (\<lparr>sint_value = unzigzag v\<rparr>, ds))"

section \<open>Zigzag coding\<close>

lemma ucast_xor_high: "(ucast ((x :: u64) XOR push_bit 32 y) :: u32) = ucast x"
  by (rule bit_word_eqI) (auto simp: bit_simps)

lemma unzigzag_alt: "unzigzag v = drop_bit 1 v XOR (if odd v then NOT 0 else 0)"
proof (cases "odd v")
  case True
  then have "v AND 1 = 1" by (simp add: and_one_eq odd_iff_mod_2_eq_one)
  then have "unzigzag v = ucast ((ucast (drop_bit 1 v) :: u64) XOR mask 32)"
    by (simp add: unzigzag_def mask_eq_exp_minus_1)
  also have "\<dots> = drop_bit 1 v XOR NOT 0"
    by (rule bit_word_eqI) (auto simp: bit_simps)
  finally show ?thesis using True by simp
next
  case False
  then have v: "v AND 1 = 0" by (simp add: and_one_eq even_iff_mod_2_eq_zero)
  have "(ucast (NOT 0 :: u32) :: u64) + 1 = push_bit 32 1"
    by code_simp
  with v have "unzigzag v = ucast ((ucast (drop_bit 1 v) :: u64) XOR push_bit 32 1)"
    by (simp only: unzigzag_def)
  also have "\<dots> = ucast (ucast (drop_bit 1 v) :: u64)"
    by (rule ucast_xor_high)
  also have "\<dots> = drop_bit 1 v"
    by (rule bit_word_eqI) (auto simp: bit_simps)
  finally show ?thesis using False by simp
qed

lemma bit_sign_fill: "i < 32 \<Longrightarrow> bit (signed_drop_bit 31 (v :: i32)) i = bit v 31"
  by (cases i) (simp_all add: bit_signed_drop_bit_iff)

lemma zigzag_bit: "i < 32 \<Longrightarrow> bit (zigzag v) i \<longleftrightarrow> (0 < i \<and> bit v (i - 1)) \<noteq> bit v 31"
proof -
  assume "i < 32"
  then have "bit (push_bit 1 v) i \<longleftrightarrow> 0 < i \<and> bit v (i - 1)"
    by (simp only: bit_push_bit_iff possible_bit_word) auto
  moreover have "i = 0 \<or> 0 < i" by auto
  moreover have "bit (signed_drop_bit 31 v) i = bit v 31"
    using \<open>i < 32\<close> by (rule bit_sign_fill)
  ultimately show ?thesis by (simp only: zigzag_def bit_xor_iff)
qed
lemma unzigzag_bit: "i < 32 \<Longrightarrow> bit (unzigzag v) i \<longleftrightarrow> bit v (i + 1) \<noteq> bit v 0"
  by (auto simp: unzigzag_alt bit_simps bit_0)
lemma unzigzag_zigzag: "unzigzag (zigzag v) = v"
proof (rule bit_word_eqI, goal_cases)
  case (1 i)
  then show ?case
    using zigzag_bit [of "i + 1" v] zigzag_bit [of 0 v] bit_imp_le_length [of "zigzag v" "i + 1"]
    by (cases "i = 31") (auto simp: unzigzag_bit)
qed
lemma zigzag_unzigzag: "zigzag (unzigzag v) = v"
proof (rule bit_word_eqI, goal_cases)
  case (1 i)
  then show ?case
    using bit_imp_le_length [of v 32]
    by (cases i) (auto simp: zigzag_bit unzigzag_bit)
qed
lemma unat_zigzag: "int (unat (zigzag v)) = (if 0 \<le> sint v then 2 * sint v else - 2 * sint v - 1)"
proof -
  have push: "unat (push_bit 1 v) = 2 * unat v mod 2 ^ 32"
    by (simp only: unat_push_mod) (simp add: mult.commute)
  show ?thesis
  proof (cases "bit v 31")
    case True
    then have half: "2 ^ 31 \<le> unat v" using bit_top_iff [of v] by simp
    have "zigzag v = NOT (push_bit 1 v)"
      using True unfolding zigzag_def
      by (intro bit_word_eqI) (auto simp: bit_xor_iff bit_not_iff bit_sign_fill)
    then have "unat (zigzag v) = 2 ^ 32 - 1 - 2 * unat v mod 2 ^ 32"
      by (simp only: unat_not push) simp
    moreover have "2 * unat v mod 2 ^ 32 = 2 * unat v - 2 ^ 32"
      using half unat_less [of v] by (simp add: mod_if)
    moreover have "sint v = int (unat v) - 2 ^ 32"
      using half by (simp add: sint_unat del: of_nat_unat)
    ultimately show ?thesis using half unat_less [of v] by (simp add: of_nat_diff del: of_nat_unat)
  next
    case False
    then have half: "unat v < 2 ^ 31" using bit_top_iff [of v] by simp
    have "zigzag v = push_bit 1 v" 
      using False unfolding zigzag_def
      by (intro bit_word_eqI) (auto simp: bit_xor_iff bit_sign_fill)
    then show ?thesis using half push by (simp add: sint_unat)
  qed
qed
section \<open>The encoding as a function of the number\<close>

text \<open>The specification: base-128 groups, lowest first, every group but the last with bit 7 set.\<close>

fun vlq_bytes :: "nat \<Rightarrow> u8 list" where
  "vlq_bytes n = (if n < 128 then [of_nat n] else of_nat (n mod 128 + 128) # vlq_bytes (n div 128))"

declare vlq_bytes.simps [simp del]

lemma vlq_group_unat:
  "unat (vlq_group (val :: 'a::len word)) = unat val mod 128 + (if 128 \<le> unat val then 128 else 0)"
proof -
  have low: "unat (ucast val AND 0x7f :: u8) = unat val mod 128"
    using nat_and_mask [of "unat (ucast val :: u8)" 7]
    by (simp add: unat_bits mask_eq_exp_minus_1 mod_mod_cancel)
  have "0 < drop_bit 7 val \<longleftrightarrow> 128 \<le> unat val"
    by (auto simp: word_less_nat_alt unat_drop_div div_greater_zero_iff)
  then show ?thesis
    using unat_or_shift [of "ucast val AND 0x7f :: u8" 7 "push_bit 7 (of_bool (0 < drop_bit 7 val))"
        "of_bool (0 < drop_bit 7 val)"] low
    by (auto simp: vlq_group_def Let_def)
qed

lemma vlq_group_eq:
  "vlq_group (val :: 'a::len word) =
     of_nat (if unat val < 128 then unat val else unat val mod 128 + 128)"
  by (simp add: word_unat_eq_iff vlq_group_unat unat_of_nat_mod)

context byte_writer
begin

lemma writes_vlq: "writes (vlq_write wr val) (vlq_bytes (unat val))"
proof (induction "unat val" arbitrary: val rule: less_induct)
  case less
  show ?case
  proof (cases "drop_bit 7 val = 0")
    case True
    then have "unat val < 128" by (simp add: word_unat_eq_iff unat_drop_div)
    with True have "vlq_write wr val = wr [of_nat (unat val)]" "vlq_bytes (unat val) = [of_nat (unat val)]"
      by (auto simp: vlq_write.simps [of wr val] vlq_group_eq vlq_bytes.simps [of "unat val"])
    then show ?thesis by simp
  next
    case False
    then have "\<not> unat val < 128" by (simp add: word_unat_eq_iff unat_drop_div)
    moreover have "writes (vlq_write wr (drop_bit 7 val)) (vlq_bytes (unat val div 128))"
      using less [OF unat_drop_bit_7_less [OF False]] by (simp add: unat_drop_div)
    ultimately show ?thesis
      using False writes_bind [OF writes_wr [of "[vlq_group val]"]]
      by (simp add: vlq_write.simps [of wr val, abs_def] vlq_group_eq vlq_bytes.simps [of "unat val"])
  qed
qed

lemma writes_unsigned_int: "writes (put_unsigned_int wr v) (vlq_bytes (unat (uint_value v)))"
  using writes_vlq [of "ucast (uint_value v) :: u64"]
  by (simp add: put_unsigned_int_def [abs_def] unat_ucast_up)

end

lemma vlq_and_7f: "unat (b AND 0x7f :: u8) = unat b mod 128"
  using nat_and_mask [of "unat b" 7] by (simp add: unat_and mask_eq_exp_minus_1)

lemma vlq_and_80: "(b AND 0x80 :: u8) \<noteq> 0 \<longleftrightarrow> 128 \<le> unat b"
proof -
  have "(b AND 0x80 \<noteq> 0) = bit b 7"
    using and_exp_eq_0_iff_not_bit [of b 7] by simp
  also have "\<dots> = bit (unat b) 7"
    by (simp add: bit_unsigned_iff)
  also have "\<dots> \<longleftrightarrow> odd (unat b div 128)"
    by (simp add: bit_iff_odd)
  also have "\<dots> \<longleftrightarrow> 128 \<le> unat b"
  proof (cases "unat b < 128")
    case False
    then have "unat b div 128 = 1" using unat_less [of b] by (intro div_nat_eqI) auto
    with False show ?thesis by simp
  qed simp
  finally show ?thesis .
qed

text \<open>One step of the accumulator: the group lands above the bits read so far.\<close>

lemma vlq_accumulate:
  fixes b :: u8 and v :: "'a::len word"
  assumes "unat v < 2 ^ k" and "32 \<le> LENGTH('a)" and "k < 32" and "m < 128" and "m * 2 ^ k < 2 ^ 32" and "unat b mod 128 = m"
  shows "unat (v OR ucast (push_bit k (ucast (b AND 0x7f) :: u32)) :: 'a word) = unat v + m * 2 ^ k"
proof (rule unat_or_shift [OF assms(1)])
  show "unat (ucast (push_bit k (ucast (b AND 0x7f) :: u32)) :: 'a word) = m * 2 ^ k"
    using assms by (simp add: unat_ucast_up unat_push_mod vlq_and_7f)
qed

context byte_reader
begin

lemma reads_vlq:
  "unat (v :: 'a::len word) < 2 ^ by \<Longrightarrow> 32 \<le> LENGTH('a) \<Longrightarrow> by < 32 \<Longrightarrow> n * 2 ^ by < 2 ^ 32 \<Longrightarrow>
   \<exists>r. unat r = unat v + n * 2 ^ by \<and> reads (vlq_read gt v by) (vlq_bytes n) r"
proof (induction n arbitrary: v "by" rule: less_induct)
  case (less n)
  let ?b = "of_nat (if n < 128 then n else n mod 128 + 128) :: u8"
  let ?r = "v OR ucast (push_bit by (ucast (?b AND 0x7f) :: u32))"
  have b: "unat ?b = (if n < 128 then n else n mod 128 + 128)"
    by (simp add: unat_of_nat_mod)
  have r: "unat ?r = unat v + n mod 128 * 2 ^ by"
  proof (rule vlq_accumulate [OF less.prems(1-3)])
    show "n mod 128 * 2 ^ by < 2 ^ 32"
      using less.prems(4) by (rule le_less_trans [rotated]) simp
  qed (simp_all add: b)
  show ?case
  proof (cases "n < 128")
    case True
    have "reads (vlq_read gt v by) [?b] ?r"
      using less.prems True b
      by (subst vlq_read.simps [abs_def], intro reads_gt_bind)
        (simp add: vlq_and_80)
    with True r show ?thesis by (auto simp: vlq_bytes.simps [of n])
  next
    case False
    have "128 * 2 ^ by \<le> n * 2 ^ by" using False by simp
    then have "128 * 2 ^ by < (2 ^ 32 :: nat)"
      using less.prems(4) by (rule le_less_trans)
    then have "(2 :: nat) ^ (by + 7) < 2 ^ 32"
      by (simp add: power_add)
    then have by32: "by + 7 < 32" by (rule power_less_imp_less_exp [rotated]) simp
    have "\<exists>r'. unat r' = unat ?r + n div 128 * 2 ^ (by + 7) \<and>
        reads (vlq_read gt ?r (by + 7)) (vlq_bytes (n div 128)) r'"
    proof (rule less.IH)
      show "n div 128 < n" using False by simp
      have "n mod 128 * 2 ^ by \<le> 127 * 2 ^ by" by simp
      moreover have "2 ^ (by + 7) = 128 * (2 :: nat) ^ by" by (simp add: power_add)
      ultimately show "unat ?r < 2 ^ (by + 7)"
        using less.prems(1) unfolding r by linarith
      have "n div 128 * 2 ^ (by + 7) = n div 128 * 128 * 2 ^ by"
        by (simp add: power_add)
      also have "\<dots> \<le> n * 2 ^ by" by (rule mult_le_mono1) simp
      finally show "n div 128 * 2 ^ (by + 7) < 2 ^ 32"
        using less.prems(4) by (rule le_less_trans)
    qed (use by32 less.prems(2) in simp_all)
    then obtain r' where r': "unat r' = unat ?r + n div 128 * 2 ^ (by + 7)"
      and rd: "reads (vlq_read gt ?r (by + 7)) (vlq_bytes (n div 128)) r'"
      by blast
    have "reads (vlq_read gt v by) (?b # vlq_bytes (n div 128)) r'"
      using less.prems False b rd
      by (subst vlq_read.simps [abs_def], intro reads_gt_bind)
        (simp add: vlq_and_80)
    moreover have "unat r' = unat v + n * 2 ^ by"
    proof -
      have "q * (P * 2 ^ 7) + m * P = (q * 128 + m) * P" for q m P :: nat
        by (simp add: algebra_simps)
      from this [of "n div 128" "2 ^ by" "n mod 128"] show ?thesis
        using r' unfolding r power_add div_mult_mod_eq by linarith
    qed
    ultimately show ?thesis
      using False by (auto simp: vlq_bytes.simps [of n])
  qed
qed

lemma reads_unsigned_int: "reads (get_unsigned_int gt) (vlq_bytes (unat v)) \<lparr>uint_value = v\<rparr>"
proof -
  obtain r where r: "unat r = unat v"
    and rd: "reads (vlq_read gt (0 :: u64) 0) (vlq_bytes (unat v)) r"
    using reads_vlq [of "0 :: u64" 0 "unat v"] unat_less [of v] by auto
  from r have "ucast r = v"
    using unat_less [of v] by (simp add: word_unat_eq_iff unat_ucast_mod)
  with reads_map [OF rd, of "\<lambda>v. \<lparr>uint_value = ucast v\<rparr>"] show ?thesis
    by (simp add: get_unsigned_int_def [abs_def])
qed

lemma reads_signed_int:
  "reads (get_signed_int gt) (vlq_bytes (unat (zigzag v))) \<lparr>sint_value = v\<rparr>"
proof -
  obtain r where r: "unat r = unat (zigzag v)"
    and rd: "reads (vlq_read gt (0 :: u32) 0) (vlq_bytes (unat (zigzag v))) r"
    using reads_vlq [of "0 :: u32" 0 "unat (zigzag v)"] unat_less [of "zigzag v"] by auto
  from r have "r = zigzag v" by (simp add: word_unat_eq_iff)
  with reads_map [OF rd, of "\<lambda>v. \<lparr>sint_value = unzigzag v\<rparr>"] unzigzag_zigzag show ?thesis
    by (simp add: get_signed_int_def [abs_def])
qed

text \<open>
  The decoder always stops within five groups: it returns after consuming between one and five
  bytes, or aborts at the end of the input, or meets a sixth group.
\<close>

lemma vlq_read_total:
  "ok s \<Longrightarrow>
   (case vlq_read gt v by s of
      Inr (r, s') \<Rightarrow> \<exists>k. 0 < k \<and> 7 * (k - 1) + by < 32 \<and> k \<le> length (view s) \<and> s' = adv k s
    | Inl e \<Rightarrow> e = Assertion ''get'' \<or> e = Undefined ''shift past the width'')"
proof (induction "39 - by" arbitrary: v "by" s rule: less_induct)
  case less
  show ?case
  proof (cases "view s")
    case Nil
    with less.prems show ?thesis by (simp add: vlq_read.simps [of gt v "by"] gt_law)
  next
    case (Cons b bs)
    let ?v = "v OR ucast (push_bit by (ucast (b AND 0x7f) :: u32))"
    have s1: "ok (adv 1 s)" "view (adv 1 s) = bs"
      using adv_ok [OF less.prems, of 1] adv_view [OF less.prems, of 1] Cons by simp_all
    have step: "vlq_read gt v by s = (if by \<ge> 32 then Inl (Undefined ''shift past the width'')
        else if b AND 0x80 \<noteq> 0 then vlq_read gt ?v (by + 7) (adv 1 s) else Inr (?v, adv 1 s))"
      using less.prems Cons by (simp add: vlq_read.simps [of gt v "by"] gt_law)
    show ?thesis
    proof (cases "by < 32 \<and> b AND 0x80 \<noteq> 0")
      case True
      then have "by < 32" by simp
      then have "39 - (by + 7) < 39 - by" by linarith
      from less.hyps [OF this s1(1), of ?v] True step s1(2) Cons show ?thesis
        by (auto simp: adv_adv split: sum.splits) (rule_tac x = "Suc k" in exI, auto)
    next
      case False
      with step Cons show ?thesis by (auto intro!: exI [of _ 1])
    qed
  qed
qed

end

section \<open>Length of the encoding\<close>

lemma length_vlq_bytes_pos: "0 < length (vlq_bytes n)"
  by (simp add: vlq_bytes.simps [of n])

lemma length_vlq_bytes_le: "length (vlq_bytes n) \<le> Suc k \<longleftrightarrow> n < 128 ^ Suc k"
proof (induction k arbitrary: n)
  case 0
  then show ?case
    using length_vlq_bytes_pos [of "n div 128"] by (auto simp: vlq_bytes.simps [of n])
next
  case (Suc k)
  have "n < 128 ^ Suc (Suc k) \<longleftrightarrow> n div 128 < 128 ^ Suc k"
    by (simp add: div_less_iff_less_mult mult.commute)
  with Suc [of "n div 128"] show ?case
    by (auto simp: vlq_bytes.simps [of n] intro: less_le_trans [of n 128])
qed

end
