(* ===== verification/Uos_Serialize.thy ===== *)
theory Uos_Serialize
  imports Uos_Varint
begin

text \<open>
  The serialization operators of core/uosio/datastream.hpp for primitive types, strings,
  sequences, variants, optionals, sets, maps, tuples and classes. An operator template takes
  the stream's \<open>write\<close> (or \<open>read\<close> and \<open>get\<close>) and the operators of its element types as
  arguments; the locale \<open>codec\<close> collects what a type's pair of operators promises, and each
  container's lemma builds the container's codec from those of its elements.
\<close>

section \<open>Primitive types\<close>

text \<open>\<open>sizeof(T)\<close> bytes of the object representation, lowest first on this target.\<close>

definition put_prim :: "(u8 list \<Rightarrow> 's \<Rightarrow> 's res) \<Rightarrow> 'a::len word \<Rightarrow> 's \<Rightarrow> 's res" where
  "put_prim wr v ds = wr (le_bytes (LENGTH('a) div 8) v) ds"

definition get_prim :: "(u32 \<Rightarrow> 's \<Rightarrow> (u8 list \<times> 's) res) \<Rightarrow> 's \<Rightarrow> ('a::len word \<times> 's) res" where
  "get_prim rd ds =
     bind_res (rd (of_nat (LENGTH('a) div 8)) ds) (\<lambda>(d, ds). Inr (le_word d, ds))"

definition put_bool :: "(u8 list \<Rightarrow> 's \<Rightarrow> 's res) \<Rightarrow> bool \<Rightarrow> 's \<Rightarrow> 's res" where
  "put_bool wr d ds = put_prim wr (of_bool d :: u8) ds"

definition get_bool :: "(u32 \<Rightarrow> 's \<Rightarrow> (u8 list \<times> 's) res) \<Rightarrow> 's \<Rightarrow> (bool \<times> 's) res" where
  "get_bool rd ds = bind_res (get_prim rd ds) (\<lambda>(t :: u8, ds). Inr (t \<noteq> 0, ds))"

section \<open>Loops over elements\<close>

fun put_elems :: "('a \<Rightarrow> 's \<Rightarrow> 's res) \<Rightarrow> 'a list \<Rightarrow> 's \<Rightarrow> 's res" where
  "put_elems enc [] ds = Inr ds"
| "put_elems enc (x # xs) ds = bind_res (enc x ds) (put_elems enc xs)"

fun get_elems :: "nat \<Rightarrow> ('s \<Rightarrow> ('a \<times> 's) res) \<Rightarrow> 's \<Rightarrow> ('a list \<times> 's) res" where
  "get_elems 0 dec ds = Inr ([], ds)"
| "get_elems (Suc n) dec ds =
     bind_res (dec ds) (\<lambda>(x, ds). bind_res (get_elems n dec ds) (\<lambda>(xs, ds). Inr (x # xs, ds)))"

text \<open>The length prefix \<open>unsigned_int( v.size() )\<close>; \<open>size_t\<close> has 32 bits.\<close>

definition put_size :: "(u8 list \<Rightarrow> 's \<Rightarrow> 's res) \<Rightarrow> nat \<Rightarrow> 's \<Rightarrow> 's res" where
  "put_size wr n ds = put_unsigned_int wr (unsigned_int_of (of_nat n)) ds"

section \<open>Sequences\<close>

definition put_list :: "(u8 list \<Rightarrow> 's \<Rightarrow> 's res) \<Rightarrow> ('a \<Rightarrow> 's \<Rightarrow> 's res) \<Rightarrow> 'a list \<Rightarrow> 's \<Rightarrow> 's res" where
  "put_list wr enc l ds = bind_res (put_size wr (length l) ds) (put_elems enc l)"

definition get_list :: "('s \<Rightarrow> (u8 \<times> 's) res) \<Rightarrow> ('s \<Rightarrow> ('a \<times> 's) res) \<Rightarrow> 's \<Rightarrow> ('a list \<times> 's) res" where
  "get_list gt dec ds =
     bind_res (get_unsigned_int gt ds) (\<lambda>(s, ds). get_elems (unat (uint_value s)) dec ds)"

definition put_deque :: "(u8 list \<Rightarrow> 's \<Rightarrow> 's res) \<Rightarrow> ('a \<Rightarrow> 's \<Rightarrow> 's res) \<Rightarrow> 'a list \<Rightarrow> 's \<Rightarrow> 's res" where
  "put_deque wr enc d ds = bind_res (put_size wr (length d) ds) (put_elems enc d)"

definition get_deque :: "('s \<Rightarrow> (u8 \<times> 's) res) \<Rightarrow> ('s \<Rightarrow> ('a \<times> 's) res) \<Rightarrow> 's \<Rightarrow> ('a list \<times> 's) res" where
  "get_deque gt dec ds =
     bind_res (get_unsigned_int gt ds) (\<lambda>(s, ds). get_elems (unat (uint_value s)) dec ds)"

definition put_vector :: "(u8 list \<Rightarrow> 's \<Rightarrow> 's res) \<Rightarrow> ('a \<Rightarrow> 's \<Rightarrow> 's res) \<Rightarrow> 'a list \<Rightarrow> 's \<Rightarrow> 's res" where
  "put_vector wr enc v ds = bind_res (put_size wr (length v) ds) (put_elems enc v)"

definition get_vector :: "('s \<Rightarrow> (u8 \<times> 's) res) \<Rightarrow> ('s \<Rightarrow> ('a \<times> 's) res) \<Rightarrow> 's \<Rightarrow> ('a list \<times> 's) res" where
  "get_vector gt dec ds =
     bind_res (get_unsigned_int gt ds) (\<lambda>(s, ds). get_elems (unat (uint_value s)) dec ds)"

text \<open>\<open>std::vector<char>\<close> and \<open>std::string\<close>: one block; an empty string writes no block.\<close>

definition put_char_vector :: "(u8 list \<Rightarrow> 's \<Rightarrow> 's res) \<Rightarrow> u8 list \<Rightarrow> 's \<Rightarrow> 's res" where
  "put_char_vector wr v ds = bind_res (put_size wr (length v) ds) (wr v)"

definition get_char_vector :: "('s \<Rightarrow> (u8 \<times> 's) res) \<Rightarrow> (u32 \<Rightarrow> 's \<Rightarrow> (u8 list \<times> 's) res) \<Rightarrow> 's \<Rightarrow> (u8 list \<times> 's) res" where
  "get_char_vector gt rd ds =
     bind_res (get_unsigned_int gt ds) (\<lambda>(s, ds). rd (uint_value s) ds)"

definition bytes_of_string :: "string \<Rightarrow> u8 list" where
  "bytes_of_string s = map (\<lambda>c. of_nat (of_char c)) s"

definition string_of_bytes :: "u8 list \<Rightarrow> string" where
  "string_of_bytes bs = map (\<lambda>b. char_of (unat b)) bs"

definition put_string :: "(u8 list \<Rightarrow> 's \<Rightarrow> 's res) \<Rightarrow> string \<Rightarrow> 's \<Rightarrow> 's res" where
  "put_string wr v ds =
     bind_res (put_size wr (length v) ds) (\<lambda>ds.
     if length v \<noteq> 0 then wr (bytes_of_string v) ds else Inr ds)"

definition get_string :: "('s \<Rightarrow> (u8 \<times> 's) res) \<Rightarrow> (u32 \<Rightarrow> 's \<Rightarrow> (u8 list \<times> 's) res) \<Rightarrow> 's \<Rightarrow> (string \<times> 's) res" where
  "get_string gt rd ds =
     bind_res (get_char_vector gt rd ds) (\<lambda>(tmp, ds).
     Inr (if length tmp \<noteq> 0 then string_of_bytes tmp else '''', ds))"

section \<open>Arrays\<close>

text \<open>\<open>std::array<T,N>\<close> has no length prefix; \<open>N\<close> is part of the type.\<close>

definition put_array :: "('a \<Rightarrow> 's \<Rightarrow> 's res) \<Rightarrow> 'a list \<Rightarrow> 's \<Rightarrow> 's res" where
  "put_array enc v ds = put_elems enc v ds"

definition get_array :: "nat \<Rightarrow> ('s \<Rightarrow> ('a \<times> 's) res) \<Rightarrow> 's \<Rightarrow> ('a list \<times> 's) res" where
  "get_array N dec ds = get_elems N dec ds"

text \<open>A C array carries its length, which the reader compares with its own.\<close>

definition put_carray :: "(u8 list \<Rightarrow> 's \<Rightarrow> 's res) \<Rightarrow> ('a \<Rightarrow> 's \<Rightarrow> 's res) \<Rightarrow> 'a list \<Rightarrow> 's \<Rightarrow> 's res" where
  "put_carray wr enc v ds = bind_res (put_size wr (length v) ds) (put_elems enc v)"

definition get_carray :: "('s \<Rightarrow> (u8 \<times> 's) res) \<Rightarrow> nat \<Rightarrow> ('s \<Rightarrow> ('a \<times> 's) res) \<Rightarrow> 's \<Rightarrow> ('a list \<times> 's) res" where
  "get_carray gt N dec ds =
     bind_res (get_unsigned_int gt ds) (\<lambda>(s, ds).
     bind_res (check (N = unat (uint_value s)) ''T[] size and unpacked size don't match'') (\<lambda>_.
     get_elems N dec ds))"

text \<open>The object representation of an array of primitives, and its elements back.\<close>

definition carray_image :: "'a::len word list \<Rightarrow> u8 list" where
  "carray_image v = concat (map (le_bytes (LENGTH('a) div 8)) v)"

fun carray_elems :: "nat \<Rightarrow> u8 list \<Rightarrow> 'a::len word list" where
  "carray_elems 0 d = []"
| "carray_elems (Suc n) d =
     le_word (take (LENGTH('a) div 8) d) # carray_elems n (drop (LENGTH('a) div 8) d)"

definition put_carray_prim :: "(u8 list \<Rightarrow> 's \<Rightarrow> 's res) \<Rightarrow> 'a::len word list \<Rightarrow> 's \<Rightarrow> 's res" where
  "put_carray_prim wr v ds = bind_res (put_size wr (length v) ds) (wr (carray_image v))"

definition get_carray_prim :: "('s \<Rightarrow> (u8 \<times> 's) res) \<Rightarrow> (u32 \<Rightarrow> 's \<Rightarrow> (u8 list \<times> 's) res) \<Rightarrow> nat \<Rightarrow> 's \<Rightarrow> ('a::len word list \<times> 's) res" where
  "get_carray_prim gt rd N ds =
     bind_res (get_unsigned_int gt ds) (\<lambda>(s, ds).
     bind_res (check (N = unat (uint_value s)) ''T[] size and unpacked size don't match'') (\<lambda>_.
     bind_res (rd (of_nat (N * (LENGTH('a) div 8))) ds) (\<lambda>(d, ds).
     Inr (carray_elems N d, ds))))"

section \<open>Variants, pairs, optionals\<close>

text \<open>
  A \<open>std::variant<Ts...>\<close> is its index and the value of the alternative at that index; the
  alternatives' operators come as a list. \<open>deserialize<I>\<close> walks the list, comparing the index,
  converted to \<open>int\<close>, with \<open>I\<close>.
\<close>

definition put_variant :: "(u8 list \<Rightarrow> 's \<Rightarrow> 's res) \<Rightarrow> ('v \<Rightarrow> 's \<Rightarrow> 's res) list \<Rightarrow> nat \<times> 'v \<Rightarrow> 's \<Rightarrow> 's res" where
  "put_variant wr encs var ds =
     bind_res (put_unsigned_int wr (unsigned_int_of (of_nat (fst var))) ds) (\<lambda>ds.
     if fst var < length encs then (encs ! fst var) (snd var) ds
     else Inl (Undefined ''bad variant access''))"

fun variant_deserialize :: "nat \<Rightarrow> ('s \<Rightarrow> ('v \<times> 's) res) list \<Rightarrow> int \<Rightarrow> 's \<Rightarrow> ((nat \<times> 'v) \<times> 's) res" where
  "variant_deserialize I [] i ds = Inl (Assertion ''invalid variant index'')"
| "variant_deserialize I (dec # decs) i ds =
     (if i = int I then bind_res (dec ds) (\<lambda>(tmp, ds). Inr ((I, tmp), ds))
      else variant_deserialize (I + 1) decs i ds)"

definition get_variant :: "('s \<Rightarrow> (u8 \<times> 's) res) \<Rightarrow> ('s \<Rightarrow> ('v \<times> 's) res) list \<Rightarrow> 's \<Rightarrow> ((nat \<times> 'v) \<times> 's) res" where
  "get_variant gt decs ds =
     bind_res (get_unsigned_int gt ds) (\<lambda>(index, ds).
     variant_deserialize 0 decs (sint (uint_value index)) ds)"

definition put_pair :: "('a \<Rightarrow> 's \<Rightarrow> 's res) \<Rightarrow> ('b \<Rightarrow> 's \<Rightarrow> 's res) \<Rightarrow> 'a \<times> 'b \<Rightarrow> 's \<Rightarrow> 's res" where
  "put_pair enc1 enc2 t ds = bind_res (enc1 (fst t) ds) (enc2 (snd t))"

definition get_pair :: "('s \<Rightarrow> ('a \<times> 's) res) \<Rightarrow> ('s \<Rightarrow> ('b \<times> 's) res) \<Rightarrow> 's \<Rightarrow> (('a \<times> 'b) \<times> 's) res" where
  "get_pair dec1 dec2 ds =
     bind_res (dec1 ds) (\<lambda>(t1, ds). bind_res (dec2 ds) (\<lambda>(t2, ds). Inr ((t1, t2), ds)))"

text \<open>\<open>opt\<close> is the destination's old value, which stays when the flag is zero.\<close>

definition put_optional :: "(u8 list \<Rightarrow> 's \<Rightarrow> 's res) \<Rightarrow> ('a \<Rightarrow> 's \<Rightarrow> 's res) \<Rightarrow> 'a option \<Rightarrow> 's \<Rightarrow> 's res" where
  "put_optional wr enc opt ds =
     (let valid = (case opt of None \<Rightarrow> 0 | Some _ \<Rightarrow> 1) :: u8 in
      bind_res (put_prim wr valid ds) (\<lambda>ds.
      case opt of None \<Rightarrow> Inr ds | Some v \<Rightarrow> enc v ds))"

definition get_optional :: "(u32 \<Rightarrow> 's \<Rightarrow> (u8 list \<times> 's) res) \<Rightarrow> ('s \<Rightarrow> ('a \<times> 's) res) \<Rightarrow> 'a option \<Rightarrow> 's \<Rightarrow> ('a option \<times> 's) res" where
  "get_optional rd dec opt ds =
     bind_res (get_prim rd ds) (\<lambda>(valid :: u8, ds).
     if valid \<noteq> 0 then bind_res (dec ds) (\<lambda>(val, ds). Inr (Some val, ds))
     else Inr (opt, ds))"

section \<open>Sets and maps\<close>

text \<open>A \<open>std::set\<close> is written in ascending order and read by inserting one element at a time.\<close>

definition put_set :: "(u8 list \<Rightarrow> 's \<Rightarrow> 's res) \<Rightarrow> ('a::linorder \<Rightarrow> 's \<Rightarrow> 's res) \<Rightarrow> 'a set \<Rightarrow> 's \<Rightarrow> 's res" where
  "put_set wr enc s ds = bind_res (put_size wr (card s) ds) (put_elems enc (sorted_list_of_set s))"

fun get_set_loop :: "nat \<Rightarrow> ('s \<Rightarrow> ('a \<times> 's) res) \<Rightarrow> 'a set \<Rightarrow> 's \<Rightarrow> ('a set \<times> 's) res" where
  "get_set_loop 0 dec s ds = Inr (s, ds)"
| "get_set_loop (Suc n) dec s ds = bind_res (dec ds) (\<lambda>(v, ds). get_set_loop n dec (insert v s) ds)"

definition get_set :: "('s \<Rightarrow> (u8 \<times> 's) res) \<Rightarrow> ('s \<Rightarrow> ('a \<times> 's) res) \<Rightarrow> 's \<Rightarrow> ('a set \<times> 's) res" where
  "get_set gt dec ds =
     bind_res (get_unsigned_int gt ds) (\<lambda>(sz, ds). get_set_loop (unat (uint_value sz)) dec {} ds)"

text \<open>
  A \<open>std::map\<close> is its entries in ascending order of the keys; \<open>emplace\<close> does nothing when the
  key is there already.
\<close>

type_synonym ('k, 'v) ordered_map = "('k \<times> 'v) list"

fun map_emplace :: "'k::linorder \<Rightarrow> 'v \<Rightarrow> ('k, 'v) ordered_map \<Rightarrow> ('k, 'v) ordered_map" where
  "map_emplace k v [] = [(k, v)]"
| "map_emplace k v ((k', v') # m) =
     (if k < k' then (k, v) # (k', v') # m
      else if k = k' then (k', v') # m
      else (k', v') # map_emplace k v m)"

definition put_map :: "(u8 list \<Rightarrow> 's \<Rightarrow> 's res) \<Rightarrow> ('k \<Rightarrow> 's \<Rightarrow> 's res) \<Rightarrow> ('v \<Rightarrow> 's \<Rightarrow> 's res) \<Rightarrow> ('k, 'v) ordered_map \<Rightarrow> 's \<Rightarrow> 's res" where
  "put_map wr enck encv m ds = bind_res (put_size wr (length m) ds) (put_elems (put_pair enck encv) m)"

fun get_map_loop :: "nat \<Rightarrow> ('s \<Rightarrow> ('k::linorder \<times> 's) res) \<Rightarrow> ('s \<Rightarrow> ('v \<times> 's) res) \<Rightarrow> ('k, 'v) ordered_map \<Rightarrow> 's \<Rightarrow> (('k, 'v) ordered_map \<times> 's) res" where
  "get_map_loop 0 deck decv m ds = Inr (m, ds)"
| "get_map_loop (Suc n) deck decv m ds =
     bind_res (deck ds) (\<lambda>(k, ds). bind_res (decv ds) (\<lambda>(v, ds).
     get_map_loop n deck decv (map_emplace k v m) ds))"

definition get_map :: "('s \<Rightarrow> (u8 \<times> 's) res) \<Rightarrow> ('s \<Rightarrow> ('k::linorder \<times> 's) res) \<Rightarrow> ('s \<Rightarrow> ('v \<times> 's) res) \<Rightarrow> 's \<Rightarrow> (('k, 'v) ordered_map \<times> 's) res" where
  "get_map gt deck decv ds =
     bind_res (get_unsigned_int gt ds) (\<lambda>(s, ds). get_map_loop (unat (uint_value s)) deck decv [] ds)"

section \<open>Tuples and classes\<close>

text \<open>
  \<open>for_each\<close> over a tuple, or over the fields of an aggregate class, runs each component's
  operator in order: the components come as the list of their operators, already applied to the
  values on the way out.
\<close>

fun put_fields :: "('s \<Rightarrow> 's res) list \<Rightarrow> 's \<Rightarrow> 's res" where
  "put_fields [] ds = Inr ds"
| "put_fields (f # fs) ds = bind_res (f ds) (put_fields fs)"

definition put_tuple :: "('s \<Rightarrow> 's res) list \<Rightarrow> 's \<Rightarrow> 's res" where
  "put_tuple fs ds = put_fields fs ds"

fun get_fields :: "('s \<Rightarrow> ('v \<times> 's) res) list \<Rightarrow> 's \<Rightarrow> ('v list \<times> 's) res" where
  "get_fields [] ds = Inr ([], ds)"
| "get_fields (f # fs) ds =
     bind_res (f ds) (\<lambda>(v, ds). bind_res (get_fields fs ds) (\<lambda>(vs, ds). Inr (v # vs, ds)))"

definition get_tuple :: "('s \<Rightarrow> ('v \<times> 's) res) list \<Rightarrow> 's \<Rightarrow> ('v list \<times> 's) res" where
  "get_tuple fs ds = get_fields fs ds"

definition put_class :: "('s \<Rightarrow> 's res) list \<Rightarrow> 's \<Rightarrow> 's res" where
  "put_class fs ds = put_fields fs ds"

definition get_class :: "('s \<Rightarrow> ('v \<times> 's) res) list \<Rightarrow> 's \<Rightarrow> ('v list \<times> 's) res" where
  "get_class fs ds = get_fields fs ds"

text \<open>
  The macros of core/uosio/serialize.hpp: the members in order, after the base class for a
  derived one.
\<close>

definition put_members :: "('s \<Rightarrow> 's res) list \<Rightarrow> 's \<Rightarrow> 's res" where
  "put_members ms ds = put_fields ms ds"

definition get_members :: "('s \<Rightarrow> ('v \<times> 's) res) list \<Rightarrow> 's \<Rightarrow> ('v list \<times> 's) res" where
  "get_members ms ds = get_fields ms ds"

definition put_derived :: "('s \<Rightarrow> 's res) \<Rightarrow> ('s \<Rightarrow> 's res) list \<Rightarrow> 's \<Rightarrow> 's res" where
  "put_derived base ms ds = bind_res (base ds) (put_fields ms)"

definition get_derived :: "('s \<Rightarrow> ('b \<times> 's) res) \<Rightarrow> ('s \<Rightarrow> ('v \<times> 's) res) list \<Rightarrow> 's \<Rightarrow> (('b \<times> 'v list) \<times> 's) res" where
  "get_derived base ms ds =
     bind_res (base ds) (\<lambda>(b, ds). bind_res (get_fields ms ds) (\<lambda>(vs, ds). Inr ((b, vs), ds)))"

section \<open>The operators write and read the same bytes\<close>

text \<open>The bytes of a length prefix.\<close>

definition size_bytes :: "nat \<Rightarrow> u8 list" where
  "size_bytes n = vlq_bytes (n mod 2 ^ 32)"

context byte_writer
begin

lemma writes_prim: "writes (put_prim wr v) (le_bytes (LENGTH('a) div 8) (v :: 'a::len word))"
  by (simp add: put_prim_def [abs_def])

lemma writes_size: "writes (put_size wr n) (size_bytes n)"
  using writes_unsigned_int [of "unsigned_int_of (of_nat n)"]
  by (simp add: put_size_def [abs_def] unsigned_int_of_def size_bytes_def unat_of_nat_mod)

lemma writes_elems:
  "(\<And>x. x \<in> set xs \<Longrightarrow> writes (enc x) (bytes x)) \<Longrightarrow>
   writes (put_elems enc xs) (concat (map bytes xs))"
  by (induction xs) (auto simp: put_elems.simps [abs_def])

lemma writes_fields: "list_all2 writes fs bss \<Longrightarrow> writes (put_fields fs) (concat bss)"
  by (induction fs bss rule: list_all2_induct) (auto simp: put_fields.simps [abs_def])

end

context byte_reader
begin

lemma reads_prim:
  assumes "LENGTH('a::len) = 8 * n" and "n < 2 ^ 32"
  shows "reads (get_prim rd) (le_bytes n v) (v :: 'a word)"
proof -
  have n: "LENGTH('a) div 8 = n" and "unat (of_nat n :: u32) = n"
    using assms by (auto simp: unat_of_nat_small)
  then have "reads (rd (of_nat n)) (le_bytes n v) (le_bytes n v)"
    by (intro reads_rd) simp
  then have "reads (get_prim rd) (le_bytes n v) (le_word (le_bytes n v) :: 'a word)"
    unfolding get_prim_def [abs_def] n by (rule reads_map)
  then show ?thesis using assms(1) by simp
qed

lemma reads_u8: "reads (get_prim rd) [v] (v :: u8)"
  using reads_prim [where 'a = 8 and n = 1 and v = v] by simp

lemma reads_elems:
  "(\<And>x. x \<in> set xs \<Longrightarrow> reads dec (bytes x) x) \<Longrightarrow>
   reads (get_elems (length xs) dec) (concat (map bytes xs)) xs"
proof (induction xs)
  case (Cons x xs)
  then have "reads (get_elems (length xs) dec) (concat (map bytes xs)) xs" by simp
  then have "reads (\<lambda>s. bind_res (get_elems (length xs) dec s) (\<lambda>(xs, s). Inr (x # xs, s)))
      (concat (map bytes xs)) (x # xs)"
    by (rule reads_map)
  with Cons.prems [of x] show ?case
    by (simp add: get_elems.simps [abs_def] reads_bind)
qed (simp add: get_elems.simps [abs_def])

text \<open>A counted container: the prefix, then whatever the count drives.\<close>

lemma reads_counted:
  assumes "n < 2 ^ 32" and "reads (h n) bs v"
  shows "reads (\<lambda>s. bind_res (get_unsigned_int gt s) (\<lambda>(sz, s). h (unat (uint_value sz)) s))
           (size_bytes n @ bs) v"
proof (rule reads_bind)
  have "unat (of_nat n :: u32) = n" using assms(1) by (rule unat_of_nat_small)
  then show "reads (get_unsigned_int gt) (size_bytes n) \<lparr>uint_value = of_nat n\<rparr>"
    using reads_unsigned_int [of "of_nat n"] assms(1) by (simp add: size_bytes_def)
  show "reads (h (unat (uint_value \<lparr>uint_value = of_nat n\<rparr>))) bs v"
    using assms by (simp add: unat_of_nat_small)
qed

lemma reads_fields:
  "list_all2 (\<lambda>f (bs, v). reads f bs v) fs bvs \<Longrightarrow>
   reads (get_fields fs) (concat (map fst bvs)) (map snd bvs)"
proof (induction fs bvs rule: list_all2_induct)
  case (Cons f fs bv bvs)
  obtain bs v where bv: "bv = (bs, v)" by (cases bv)
  have "reads (\<lambda>s. bind_res (get_fields fs s) (\<lambda>(vs, s). Inr (v # vs, s)))
      (concat (map fst bvs)) (v # map snd bvs)"
    using Cons.IH by (rule reads_map)
  with Cons.hyps(1) bv show ?case
    by (simp add: get_fields.simps [abs_def] reads_bind)
qed (simp add: get_fields.simps [abs_def])

lemma reads_set_loop:
  "(\<And>x. x \<in> set xs \<Longrightarrow> reads dec (bytes x) x) \<Longrightarrow>
   reads (get_set_loop (length xs) dec s) (concat (map bytes xs)) (s \<union> set xs)"
proof (induction xs arbitrary: s)
  case (Cons x xs)
  have "reads (get_set_loop (length xs) dec (insert x s)) (concat (map bytes xs)) (insert x s \<union> set xs)"
    by (rule Cons.IH) (simp add: Cons.prems)
  moreover have "reads dec (bytes x) x" using Cons.prems by simp
  ultimately show ?case
    using reads_bind [of dec "bytes x" x "\<lambda>v. get_set_loop (length xs) dec (insert v s)"]
    by (simp add: get_set_loop.simps [abs_def])
qed (simp add: get_set_loop.simps [abs_def])

lemma reads_map_loop:
  "(\<And>k v. (k, v) \<in> set xs \<Longrightarrow> reads deck (kb k) k \<and> reads decv (vb v) v) \<Longrightarrow>
   reads (get_map_loop (length xs) deck decv m) (concat (map (\<lambda>(k, v). kb k @ vb v) xs))
     (fold (\<lambda>(k, v). map_emplace k v) xs m)"
proof (induction xs arbitrary: m)
  case (Cons kv xs)
  obtain k v where kv: "kv = (k, v)" by (cases kv)
  let ?rest = "concat (map (\<lambda>(k, v). kb k @ vb v) xs)"
  have k: "reads deck (kb k) k" and v: "reads decv (vb v) v"
    using Cons.prems [of k v] kv by auto
  have "reads (get_map_loop (length xs) deck decv (map_emplace k v m)) ?rest
      (fold (\<lambda>(k, v). map_emplace k v) xs (map_emplace k v m))"
    by (rule Cons.IH) (rule Cons.prems, simp)
  from reads_bind [of decv "vb v" v "\<lambda>v. get_map_loop (length xs) deck decv (map_emplace k v m)", OF v this]
  have "reads (\<lambda>ds. bind_res (decv ds) (\<lambda>(v, ds). get_map_loop (length xs) deck decv (map_emplace k v m) ds))
      (vb v @ ?rest) (fold (\<lambda>(k, v). map_emplace k v) xs (map_emplace k v m))" .
  from reads_bind [of deck "kb k" k "\<lambda>k ds. bind_res (decv ds) (\<lambda>(v, ds).
      get_map_loop (length xs) deck decv (map_emplace k v m) ds)", OF k this]
  show ?case by (simp add: get_map_loop.simps [abs_def] kv)
qed (simp add: get_map_loop.simps [abs_def])

end

text \<open>Emplacing entries in ascending order rebuilds the map.\<close>

definition ordered_map_ok :: "('k::linorder, 'v) ordered_map \<Rightarrow> bool" where
  "ordered_map_ok m \<longleftrightarrow> sorted (map fst m) \<and> distinct (map fst m)"

lemma map_emplace_last: "\<forall>k' \<in> set (map fst m). k' < k \<Longrightarrow> map_emplace k v m = m @ [(k, v)]"
  by (induction k v m rule: map_emplace.induct) auto

lemma fold_map_emplace:
  "ordered_map_ok (m @ xs) \<Longrightarrow> fold (\<lambda>(k, v). map_emplace k v) xs m = m @ xs"
proof (induction xs arbitrary: m)
  case (Cons kv xs)
  obtain k v where kv: "kv = (k, v)" by (cases kv)
  have "map_emplace k v m = m @ [(k, v)]"
    using Cons.prems by (intro map_emplace_last)
      (force simp: ordered_map_ok_def kv sorted_append less_le)
  then show ?case using Cons.IH [of "m @ [kv]"] Cons.prems kv by simp
qed simp

lemma map_emplace_first:
  "map_of (map_emplace k v m) k' =
     (if k' = k then Some (case map_of m k of None \<Rightarrow> v | Some w \<Rightarrow> w) else map_of m k')"
  if "ordered_map_ok m"
  using that
proof (induction k v m rule: map_emplace.induct)
  case (2 k v k1 v1 m)
  then have "k < k1 \<Longrightarrow> map_of m k = None"
    by (auto simp: ordered_map_ok_def map_of_eq_None_iff)
  with 2 show ?case
    by (auto simp: ordered_map_ok_def split: option.splits)
qed simp

section \<open>Codecs\<close>

text \<open>
  What a type's operators promise: on a valid value \<open>operator<<\<close> writes the image \<open>img v\<close> on both
  streams, and \<open>operator>>\<close> consumes exactly that image and returns the value.
\<close>

locale codec =
  fixes put_s :: "'a \<Rightarrow> size_stream \<Rightarrow> size_stream res"
    and put_d :: "'a \<Rightarrow> datastream \<Rightarrow> datastream res"
    and get_d :: "datastream \<Rightarrow> ('a \<times> datastream) res"
    and img :: "'a \<Rightarrow> u8 list"
    and valid :: "'a \<Rightarrow> bool"
  assumes size_image: "valid v \<Longrightarrow> ssw.writes (put_s v) (img v)"
    and put_image: "valid v \<Longrightarrow> dsw.writes (put_d v) (img v)"
    and get_image: "valid v \<Longrightarrow> dsr.reads get_d (img v) v"
begin

lemma pack_image:
  "valid v \<Longrightarrow> addressable addr (length (img v)) \<Longrightarrow> pack (put_s v) (put_d v) addr = Inr (img v)"
  by (simp add: pack_writes size_image put_image)

lemma unpack_image:
  "valid v \<Longrightarrow> addressable addr (length (img v @ rest)) \<Longrightarrow>
   unpack_bytes get_d addr (img v @ rest) = Inr v"
  by (simp add: unpack_bytes_reads get_image)

lemma pack_size_image:
  "valid v \<Longrightarrow> length (img v) < 2 ^ 31 \<Longrightarrow> pack_size (put_s v) = Inr (of_nat (length (img v)))"
  by (simp add: pack_size_writes size_image)

text \<open>Packing then unpacking gives the value back, whatever follows it in the buffer.\<close>

lemma roundtrip:
  assumes "valid v" and "addressable a (length (img v))" and "addressable b (length (img v @ rest))"
  shows "bind_res (pack (put_s v) (put_d v) a) (\<lambda>bytes. unpack_bytes get_d b (bytes @ rest)) = Inr v"
  using assms by (simp add: pack_image unpack_image)

text \<open>Two valid values with the same image are equal.\<close>

lemma image_inject:
  assumes "valid v" and "valid w" and "img v = img w" and "length (img v) < 2 ^ 31"
  shows "v = w"
proof -
  have "addressable 0 (length (img v @ []))" using assms(4) by (simp add: addressable_def)
  then show ?thesis
    using unpack_image [OF assms(1), of 0 "[]"] unpack_image [OF assms(2), of 0 "[]"] assms(3) by simp
qed

end

text \<open>The codecs of the basic types.\<close>

lemma codec_prim:
  "LENGTH('a::len) = 8 * n \<Longrightarrow> n < 2 ^ 32 \<Longrightarrow>
   codec (put_prim ss_write) (put_prim ds_write) (get_prim ds_read) (le_bytes n :: 'a word \<Rightarrow> u8 list) (\<lambda>_. True)"
  using ssw.writes_prim [where 'a = 'a] dsw.writes_prim [where 'a = 'a] dsr.reads_prim [where 'a = 'a]
  by unfold_locales auto

interpretation u8_codec: codec "put_prim ss_write" "put_prim ds_write" "get_prim ds_read"
    "le_bytes 1 :: u8 \<Rightarrow> u8 list" "\<lambda>_. True"
  by (rule codec_prim) simp_all

interpretation u16_codec: codec "put_prim ss_write" "put_prim ds_write" "get_prim ds_read"
    "le_bytes 2 :: u16 \<Rightarrow> u8 list" "\<lambda>_. True"
  by (rule codec_prim) simp_all

interpretation u32_codec: codec "put_prim ss_write" "put_prim ds_write" "get_prim ds_read"
    "le_bytes 4 :: u32 \<Rightarrow> u8 list" "\<lambda>_. True"
  by (rule codec_prim) simp_all

interpretation u64_codec: codec "put_prim ss_write" "put_prim ds_write" "get_prim ds_read"
    "le_bytes 8 :: u64 \<Rightarrow> u8 list" "\<lambda>_. True"
  by (rule codec_prim) simp_all

interpretation bool_codec: codec "put_bool ss_write" "put_bool ds_write" "get_bool ds_read"
    "\<lambda>b. [of_bool b]" "\<lambda>_. True"
proof unfold_locales
  fix b :: bool
  show "ssw.writes (put_bool ss_write b) [of_bool b]" "dsw.writes (put_bool ds_write b) [of_bool b]"
    using ssw.writes_prim [of "of_bool b :: u8"] dsw.writes_prim [of "of_bool b :: u8"]
    by (simp_all add: put_bool_def [abs_def])
  show "dsr.reads (get_bool ds_read) [of_bool b] b"
    using dsr.reads_map [OF dsr.reads_u8 [of "of_bool b"], of "\<lambda>t. t \<noteq> 0"]
    by (simp add: get_bool_def [abs_def])
qed

lemma unsigned_int_collapse [simp]: "\<lparr>uint_value = uint_value v\<rparr> = v"
  by (cases v) simp

lemma signed_int_collapse [simp]: "\<lparr>sint_value = sint_value v\<rparr> = v"
  by (cases v) simp

interpretation unsigned_int_codec: codec "put_unsigned_int ss_write" "put_unsigned_int ds_write"
    "get_unsigned_int ds_get" "\<lambda>v. vlq_bytes (unat (uint_value v))" "\<lambda>_. True"
proof unfold_locales
  fix v
  show "dsr.reads (get_unsigned_int ds_get) (vlq_bytes (unat (uint_value v))) v"
    using dsr.reads_unsigned_int [of "uint_value v"] by simp
qed (simp_all add: ssw.writes_unsigned_int dsw.writes_unsigned_int)

interpretation signed_int_codec: codec "put_signed_int ss_write" "put_signed_int ds_write"
    "get_signed_int ds_get" "\<lambda>v. vlq_bytes (unat (zigzag (sint_value v)))" "\<lambda>_. True"
proof unfold_locales
  fix v
  show "dsr.reads (get_signed_int ds_get) (vlq_bytes (unat (zigzag (sint_value v)))) v"
    using dsr.reads_signed_int [of "sint_value v"] by simp
qed (simp_all add: put_signed_int_def [abs_def] ssw.writes_vlq dsw.writes_vlq)

subsection \<open>Codecs of containers from those of their elements\<close>

definition seq_image :: "('a \<Rightarrow> u8 list) \<Rightarrow> 'a list \<Rightarrow> u8 list" where
  "seq_image img xs = size_bytes (length xs) @ concat (map img xs)"

definition seq_valid :: "('a \<Rightarrow> bool) \<Rightarrow> 'a list \<Rightarrow> bool" where
  "seq_valid valid xs \<longleftrightarrow> length xs < 2 ^ 32 \<and> (\<forall>x \<in> set xs. valid x)"

definition array_valid :: "nat \<Rightarrow> ('a \<Rightarrow> bool) \<Rightarrow> 'a list \<Rightarrow> bool" where
  "array_valid N valid xs \<longleftrightarrow> length xs = N \<and> (\<forall>x \<in> set xs. valid x)"

definition string_image :: "string \<Rightarrow> u8 list" where
  "string_image s = size_bytes (length s) @ bytes_of_string s"

definition pair_image :: "('a \<Rightarrow> u8 list) \<Rightarrow> ('b \<Rightarrow> u8 list) \<Rightarrow> 'a \<times> 'b \<Rightarrow> u8 list" where
  "pair_image img1 img2 t = img1 (fst t) @ img2 (snd t)"

fun optional_image :: "('a \<Rightarrow> u8 list) \<Rightarrow> 'a option \<Rightarrow> u8 list" where
  "optional_image img None = [0]"
| "optional_image img (Some v) = 1 # img v"

definition set_image :: "('a::linorder \<Rightarrow> u8 list) \<Rightarrow> 'a set \<Rightarrow> u8 list" where
  "set_image img s = size_bytes (card s) @ concat (map img (sorted_list_of_set s))"

definition set_valid :: "('a \<Rightarrow> bool) \<Rightarrow> 'a set \<Rightarrow> bool" where
  "set_valid valid s \<longleftrightarrow> finite s \<and> card s < 2 ^ 32 \<and> (\<forall>x \<in> s. valid x)"

definition map_valid :: "('k::linorder \<Rightarrow> bool) \<Rightarrow> ('v \<Rightarrow> bool) \<Rightarrow> ('k, 'v) ordered_map \<Rightarrow> bool" where
  "map_valid vk vv m \<longleftrightarrow>
     ordered_map_ok m \<and> length m < 2 ^ 32 \<and> (\<forall>(k, v) \<in> set m. vk k \<and> vv v)"

lemma string_of_bytes_of_string [simp]: "string_of_bytes (bytes_of_string s) = s"
proof -
  have "char_of (unat (of_nat (of_char c) :: u8)) = c" for c :: char
  proof -
    have "(of_char c :: nat) < 256" by simp
    then have "unat (of_nat (of_char c) :: u8) = of_char c" by (simp add: unat_of_nat)
    then show ?thesis by simp
  qed
  then show ?thesis by (auto simp: string_of_bytes_def bytes_of_string_def intro: map_idI)
qed

lemma length_bytes_of_string [simp]: "length (bytes_of_string s) = length s"
  by (simp add: bytes_of_string_def)

context byte_writer
begin

lemma writes_seq:
  assumes "\<And>x. x \<in> set xs \<Longrightarrow> writes (enc x) (img x)"
  shows "writes (put_vector wr enc xs) (seq_image img xs)"
    and "writes (put_list wr enc xs) (seq_image img xs)"
    and "writes (put_deque wr enc xs) (seq_image img xs)"
    and "writes (put_carray wr enc xs) (seq_image img xs)"
    and "writes (put_array enc xs) (concat (map img xs))"
proof -
  have "writes (put_elems enc xs) (concat (map img xs))" using assms by (rule writes_elems)
  then show "writes (put_vector wr enc xs) (seq_image img xs)"
    "writes (put_list wr enc xs) (seq_image img xs)"
    "writes (put_deque wr enc xs) (seq_image img xs)"
    "writes (put_carray wr enc xs) (seq_image img xs)"
    "writes (put_array enc xs) (concat (map img xs))"
    unfolding put_vector_def [abs_def] put_list_def [abs_def] put_deque_def [abs_def]
      put_carray_def [abs_def] put_array_def [abs_def] seq_image_def
    by (auto intro: writes_size)
qed

lemma writes_string: "writes (put_string wr s) (string_image s)"
proof -
  have "writes (\<lambda>ds. if length s \<noteq> 0 then wr (bytes_of_string s) ds else Inr ds) (bytes_of_string s)"
    by (cases "s = []") (auto simp: bytes_of_string_def)
  then show ?thesis
    unfolding put_string_def [abs_def] string_image_def by (intro writes_bind writes_size)
qed

lemma writes_pair:
  "writes (enc1 (fst t)) (img1 (fst t)) \<Longrightarrow> writes (enc2 (snd t)) (img2 (snd t)) \<Longrightarrow>
   writes (put_pair enc1 enc2 t) (pair_image img1 img2 t)"
  unfolding put_pair_def [abs_def] pair_image_def by (rule writes_bind)

lemma writes_optional:
  "(\<And>v. opt = Some v \<Longrightarrow> writes (enc v) (img v)) \<Longrightarrow>
   writes (put_optional wr enc opt) (optional_image img opt)"
  using writes_prim [of "0 :: u8"] writes_bind [OF writes_prim [of "1 :: u8"]]
  by (cases opt) (fastforce simp: put_optional_def [abs_def])+

lemma writes_set:
  assumes "finite s" and "\<And>x. x \<in> s \<Longrightarrow> writes (enc x) (img x)"
  shows "writes (put_set wr enc s) (set_image img s)"
  unfolding put_set_def [abs_def] set_image_def
  by (intro writes_bind writes_size writes_elems) (use assms in simp)

lemma writes_map:
  "(\<And>k v. (k, v) \<in> set m \<Longrightarrow> writes (enck k) (imgk k) \<and> writes (encv v) (imgv v)) \<Longrightarrow>
   writes (put_map wr enck encv m) (seq_image (pair_image imgk imgv) m)"
  unfolding put_map_def [abs_def] seq_image_def
  by (intro writes_bind writes_size writes_elems writes_pair) force+

end

context byte_reader
begin

lemma reads_seq:
  assumes "length xs < 2 ^ 32" and "\<And>x. x \<in> set xs \<Longrightarrow> reads dec (img x) x"
  shows "reads (get_vector gt dec) (seq_image img xs) xs"
    and "reads (get_list gt dec) (seq_image img xs) xs"
    and "reads (get_deque gt dec) (seq_image img xs) xs"
proof -
  have "reads (get_elems (length xs) dec) (concat (map img xs)) xs"
    using assms(2) by (rule reads_elems)
  from reads_counted [where h = "\<lambda>n. get_elems n dec", OF assms(1) this]
  show "reads (get_vector gt dec) (seq_image img xs) xs"
    "reads (get_list gt dec) (seq_image img xs) xs"
    "reads (get_deque gt dec) (seq_image img xs) xs"
    by (simp_all add: get_vector_def [abs_def] get_list_def [abs_def] get_deque_def [abs_def]
        seq_image_def)
qed

lemma reads_array:
  "length xs = N \<Longrightarrow> (\<And>x. x \<in> set xs \<Longrightarrow> reads dec (img x) x) \<Longrightarrow>
   reads (get_array N dec) (concat (map img xs)) xs"
  using reads_elems [of xs dec img] by (auto simp: get_array_def [abs_def])

lemma reads_carray:
  assumes "length xs = N" and "N < 2 ^ 32" and "\<And>x. x \<in> set xs \<Longrightarrow> reads dec (img x) x"
  shows "reads (get_carray gt N dec) (seq_image img xs) xs"
proof -
  let ?h = "\<lambda>n ds. bind_res (check (N = n) ''T[] size and unpacked size don't match'')
    (\<lambda>_. get_elems N dec ds)"
  have "reads (get_elems N dec) (concat (map img xs)) xs"
    using reads_elems [of xs dec img] assms(1,3) by auto
  then have "reads (?h (length xs)) (concat (map img xs)) xs"
    using assms(1) by (simp add: check_def)
  from reads_counted [where h = ?h, OF _ this] show ?thesis
    using assms(1,2) by (simp add: get_carray_def [abs_def] seq_image_def)
qed

lemma reads_char_vector:
  assumes "length bs < 2 ^ 32"
  shows "reads (get_char_vector gt rd) (size_bytes (length bs) @ bs) bs"
proof -
  have "reads (rd (of_nat (length bs))) bs bs"
    using assms by (intro reads_rd) (simp add: unat_of_nat_small)
  from reads_counted [where h = "\<lambda>n. rd (of_nat n)", OF assms this]
  show ?thesis by (simp add: get_char_vector_def [abs_def])
qed

lemma reads_string:
  assumes "length s < 2 ^ 32"
  shows "reads (get_string gt rd) (string_image s) s"
proof -
  have "reads (get_char_vector gt rd) (string_image s) (bytes_of_string s)"
    using reads_char_vector [of "bytes_of_string s"] assms by (simp add: string_image_def)
  from reads_map [OF this, of "\<lambda>tmp. if length tmp \<noteq> 0 then string_of_bytes tmp else ''''"]
  have "reads (get_string gt rd) (string_image s)
      (if length (bytes_of_string s) \<noteq> 0 then string_of_bytes (bytes_of_string s) else '''')"
    by (simp only: get_string_def [abs_def])
  then show ?thesis by (cases "s = []") simp_all
qed

lemma reads_pair:
  assumes "reads dec1 (img1 (fst t)) (fst t)" and "reads dec2 (img2 (snd t)) (snd t)"
  shows "reads (get_pair dec1 dec2) (pair_image img1 img2 t) t"
proof -
  have "reads (\<lambda>ds. bind_res (dec2 ds) (\<lambda>(t2, ds). Inr ((fst t, t2), ds))) (img2 (snd t)) t"
    using reads_map [OF assms(2), of "Pair (fst t)"] by simp
  from reads_bind [where h = "\<lambda>t1 ds. bind_res (dec2 ds) (\<lambda>(t2, ds). Inr ((t1, t2), ds))",
      OF assms(1) this]
  show ?thesis by (simp add: get_pair_def [abs_def] pair_image_def)
qed

lemma reads_optional:
  assumes "\<And>v. opt = Some v \<Longrightarrow> reads dec (img v) v" and "opt = None \<Longrightarrow> old = None"
  shows "reads (get_optional rd dec old) (optional_image img opt) opt"
proof -
  let ?h = "\<lambda>valid ds. if valid \<noteq> (0 :: u8)
    then bind_res (dec ds) (\<lambda>(val, ds). Inr (Some val, ds)) else Inr (old, ds)"
  show ?thesis
  proof (cases opt)
    case None
    then have "reads (?h 0) [] opt" using assms(2) by simp
    from reads_bind [where h = ?h, OF reads_u8 [of 0] this] None
    show ?thesis by (simp add: get_optional_def [abs_def])
  next
    case (Some v)
    then have "reads (?h 1) (img v) opt"
      using reads_map [OF assms(1) [OF Some], of Some] by simp
    from reads_bind [where h = ?h, OF reads_u8 [of 1] this] Some
    show ?thesis by (simp add: get_optional_def [abs_def])
  qed
qed

lemma reads_set:
  assumes "finite s" and "card s < 2 ^ 32" and "\<And>x. x \<in> s \<Longrightarrow> reads dec (img x) x"
  shows "reads (get_set gt dec) (set_image img s) s"
proof -
  have "reads (get_set_loop (card s) dec {}) (concat (map img (sorted_list_of_set s))) s"
    using reads_set_loop [of "sorted_list_of_set s" dec img "{}"] assms(1,3) by simp
  from reads_counted [where h = "\<lambda>n. get_set_loop n dec {}", OF assms(2) this]
  show ?thesis by (simp add: get_set_def [abs_def] set_image_def)
qed

lemma reads_map_entries:
  assumes "ordered_map_ok m" and "length m < 2 ^ 32"
    and "\<And>k v. (k, v) \<in> set m \<Longrightarrow> reads deck (imgk k) k \<and> reads decv (imgv v) v"
  shows "reads (get_map gt deck decv) (seq_image (pair_image imgk imgv) m) m"
proof -
  have "pair_image imgk imgv = (\<lambda>(k, v). imgk k @ imgv v)"
    by (simp add: fun_eq_iff pair_image_def)
  then have "reads (get_map_loop (length m) deck decv []) (concat (map (pair_image imgk imgv) m)) m"
    using reads_map_loop [of m deck imgk decv imgv "[]"] assms(1,3) fold_map_emplace [of "[]" m]
    by simp
  from reads_counted [where h = "\<lambda>n. get_map_loop n deck decv []", OF assms(2) this]
  show ?thesis by (simp add: get_map_def [abs_def] seq_image_def)
qed

end

lemmas codecD = codec.size_image codec.put_image codec.get_image

lemma codec_seq:
  assumes "codec ps pd gd img valid"
  shows "codec (put_vector ss_write ps) (put_vector ds_write pd) (get_vector ds_get gd)
           (seq_image img) (seq_valid valid)"
    and "codec (put_list ss_write ps) (put_list ds_write pd) (get_list ds_get gd)
           (seq_image img) (seq_valid valid)"
    and "codec (put_deque ss_write ps) (put_deque ds_write pd) (get_deque ds_get gd)
           (seq_image img) (seq_valid valid)"
  using codecD [OF assms]
  by (unfold_locales; auto simp: seq_valid_def intro!: ssw.writes_seq dsw.writes_seq dsr.reads_seq)+

lemma codec_array:
  assumes "codec ps pd gd img valid"
  shows "codec (put_array ps) (put_array pd) (get_array N gd)
           (\<lambda>xs. concat (map img xs)) (array_valid N valid)"
    and "N < 2 ^ 32 \<Longrightarrow> codec (put_carray ss_write ps) (put_carray ds_write pd)
           (get_carray ds_get N gd) (seq_image img) (array_valid N valid)"
  using codecD [OF assms]
  by (unfold_locales; auto simp: array_valid_def
      intro!: ssw.writes_seq dsw.writes_seq dsr.reads_array dsr.reads_carray)+

lemma codec_string:
  "codec (put_string ss_write) (put_string ds_write) (get_string ds_get ds_read)
     string_image (\<lambda>s. length s < 2 ^ 32)"
  by unfold_locales (auto intro: ssw.writes_string dsw.writes_string dsr.reads_string)

lemma codec_pair:
  assumes "codec ps1 pd1 gd1 img1 valid1" and "codec ps2 pd2 gd2 img2 valid2"
  shows "codec (put_pair ps1 ps2) (put_pair pd1 pd2) (get_pair gd1 gd2)
           (pair_image img1 img2) (\<lambda>t. valid1 (fst t) \<and> valid2 (snd t))"
  using codecD [OF assms(1)] codecD [OF assms(2)]
  by (unfold_locales; auto intro!: ssw.writes_pair dsw.writes_pair dsr.reads_pair)

lemma codec_optional:
  assumes "codec ps pd gd img valid"
  shows "codec (put_optional ss_write ps) (put_optional ds_write pd) (get_optional ds_read gd None)
           (optional_image img) (pred_option valid)"
  using codecD [OF assms]
  by (unfold_locales; auto intro!: ssw.writes_optional dsw.writes_optional dsr.reads_optional)

lemma codec_set:
  assumes "codec ps pd gd img valid"
  shows "codec (put_set ss_write ps) (put_set ds_write pd) (get_set ds_get gd)
           (set_image img) (set_valid valid)"
  using codecD [OF assms]
  by (unfold_locales; auto simp: set_valid_def intro!: ssw.writes_set dsw.writes_set dsr.reads_set)

lemma codec_map:
  assumes "codec psk pdk gdk imgk validk" and "codec psv pdv gdv imgv validv"
  shows "codec (put_map ss_write psk psv) (put_map ds_write pdk pdv) (get_map ds_get gdk gdv)
           (seq_image (pair_image imgk imgv)) (map_valid validk validv)"
  using codecD [OF assms(1)] codecD [OF assms(2)]
  by (unfold_locales; fastforce simp: map_valid_def
      intro!: ssw.writes_map dsw.writes_map dsr.reads_map_entries)

interpretation string_codec: codec "put_string ss_write" "put_string ds_write"
    "get_string ds_get ds_read" string_image "\<lambda>s. length s < 2 ^ 32"
  by (rule codec_string)

subsection \<open>Variants\<close>

lemma variant_deserialize_nth:
  "variant_deserialize I decs (int (I + k)) ds =
     (if k < length decs then bind_res ((decs ! k) ds) (\<lambda>(tmp, ds). Inr ((I + k, tmp), ds))
      else Inl (Assertion ''invalid variant index''))"
proof (induction decs arbitrary: I k)
  case (Cons dec decs)
  show ?case
  proof (cases k)
    case (Suc k')
    then show ?thesis using Cons.IH [of "I + 1" k'] by simp
  qed simp
qed simp

lemma variant_deserialize_negative:
  "i < 0 \<Longrightarrow> variant_deserialize I decs i ds = Inl (Assertion ''invalid variant index'')"
  by (induction decs arbitrary: I) auto

definition variant_image :: "('v \<Rightarrow> u8 list) list \<Rightarrow> nat \<times> 'v \<Rightarrow> u8 list" where
  "variant_image imgs var = size_bytes (fst var) @ (imgs ! fst var) (snd var)"

definition variant_valid :: "('v \<Rightarrow> bool) list \<Rightarrow> nat \<times> 'v \<Rightarrow> bool" where
  "variant_valid valids var \<longleftrightarrow> fst var < length valids \<and> (valids ! fst var) (snd var)"

context byte_writer
begin

lemma writes_variant:
  assumes "fst var < length encs" and "writes ((encs ! fst var) (snd var)) ((imgs ! fst var) (snd var))"
  shows "writes (put_variant wr encs var) (variant_image imgs var)"
  using writes_bind [OF writes_size [of "fst var"] assms(2)] assms(1)
  by (simp add: put_variant_def [abs_def] variant_image_def put_size_def [abs_def])

end

context byte_reader
begin

lemma reads_variant:
  assumes "i < length decs" and "i < 2 ^ 31" and "reads (decs ! i) bs v"
  shows "reads (get_variant gt decs) (size_bytes i @ bs) (i, v)"
proof -
  let ?h = "\<lambda>index. variant_deserialize 0 decs (sint (uint_value index))"
  have i: "sint (of_nat i :: u32) = int i"
    using assms(2) by (simp add: sint_unat_small unat_of_nat_small)
  then have "reads (?h \<lparr>uint_value = of_nat i\<rparr>) bs (i, v)"
    using reads_map [OF assms(3), of "Pair i"] assms(1) variant_deserialize_nth [of 0 decs i]
    by (simp add: reads_def)
  moreover have "reads (get_unsigned_int gt) (size_bytes i) \<lparr>uint_value = of_nat i\<rparr>"
    using reads_unsigned_int [of "of_nat i"] assms(2) by (simp add: size_bytes_def unat_of_nat_mod)
  ultimately show ?thesis
    unfolding get_variant_def [abs_def] by (intro reads_bind)
qed

end

lemma codec_variant:
  assumes "length pss = n" "length pds = n" "length gds = n" "length imgs = n" "length valids = n"
    and "n < 2 ^ 31"
    and "\<And>i. i < n \<Longrightarrow> codec (pss ! i) (pds ! i) (gds ! i) (imgs ! i) (valids ! i)"
  shows "codec (put_variant ss_write pss) (put_variant ds_write pds) (get_variant ds_get gds)
           (variant_image imgs) (variant_valid valids)"
proof unfold_locales
  fix var assume v: "variant_valid valids var"
  then have i: "fst var < n" and val: "(valids ! fst var) (snd var)"
    using assms(5) by (auto simp: variant_valid_def)
  note c = codecD [OF assms(7) [OF i] val]
  show "ssw.writes (put_variant ss_write pss var) (variant_image imgs var)"
    using i c(1) assms(1) by (auto intro: ssw.writes_variant)
  show "dsw.writes (put_variant ds_write pds var) (variant_image imgs var)"
    using i c(2) assms(2) by (auto intro: dsw.writes_variant)
  show "dsr.reads (get_variant ds_get gds) (variant_image imgs var) var"
    using dsr.reads_variant [of "fst var" gds, OF _ _ c(3)] i assms(3,6)
    by (simp add: variant_image_def)
qed

end
