(* ===== verification/Uos_Name.thy ===== *)
theory Uos_Name
  imports Uos_Serialize "HOL-Library.List_Lexorder" "HOL-Library.Char_ord"
begin

text \<open>
  core/uosio/name.hpp: names of up to 13 characters packed into 64 bits, twelve of five bits
  each and a last one of four, first character in the highest bits. The lemmas read a name
  through the list of its digits: every value is the packing of exactly one list of digits
  without a trailing zero, and each operation is a plain function of that list.
\<close>

section \<open>The code\<close>

record name =
  name_value :: u64

definition name_default :: name where
  "name_default = \<lparr>name_value = 0\<rparr>"

definition name_of_value :: "u64 \<Rightarrow> name" where
  "name_of_value v = \<lparr>name_value = v\<rparr>"

definition char_to_value :: "char \<Rightarrow> u8 res" where
  "char_to_value c =
     (if c = CHR ''.'' then Inr 0
      else if CHR ''1'' \<le> c \<and> c \<le> CHR ''5'' then Inr (of_nat (of_char c) - 49 + 1)
      else if CHR ''a'' \<le> c \<and> c \<le> CHR ''z'' then Inr (of_nat (of_char c) - 97 + 6)
      else Inl (Assertion ''character is not in allowed character set for names''))"

text \<open>The loop over the first \<open>n\<close> characters.\<close>

fun name_accumulate :: "string \<Rightarrow> u64 \<Rightarrow> u64 res" where
  "name_accumulate [] v = Inr v"
| "name_accumulate (c # cs) v =
     bind_res (char_to_value c) (\<lambda>d. name_accumulate cs (push_bit 5 v OR ucast d))"

definition name_of_string :: "string \<Rightarrow> name res" where
  "name_of_string str =
     bind_res (check (length str \<le> 13) ''string is too long to be a valid name'') (\<lambda>_.
     if str = [] then Inr \<lparr>name_value = 0\<rparr>
     else
       let n = min (length str) 12 in
       bind_res (name_accumulate (take n str) 0) (\<lambda>v.
       let v = push_bit (4 + 5 * (12 - n)) v in
       if length str = 13 then
         bind_res (char_to_value (str ! 12)) (\<lambda>d.
         bind_res (check (\<not> d > 15) ''thirteenth character in name cannot be a letter that comes after j'') (\<lambda>_.
         Inr \<lparr>name_value = v OR ucast d\<rparr>))
       else Inr \<lparr>name_value = v\<rparr>))"

definition name_mask :: u64 where
  "name_mask = 0xF800000000000000"

function (sequential) name_length_loop :: "nat \<Rightarrow> u64 \<Rightarrow> u8 \<Rightarrow> u8" where
  "name_length_loop i v l =
     (if i < 13 then
        name_length_loop (i + 1) (push_bit 5 v) (if v AND name_mask > 0 then of_nat i else l)
      else l)"
  by pat_completeness auto
termination by (relation "measure (\<lambda>(i, v, l). 13 - i)") auto

definition name_length :: "name \<Rightarrow> u8" where
  "name_length n =
     (if name_value n = 0 then 0 else name_length_loop 0 (name_value n) 0 + 1)"

text \<open>The loop keeps \<open>tmp\<close> and \<open>remaining_bits_after_last_actual_dot\<close>.\<close>

function name_suffix_loop :: "u64 \<Rightarrow> int \<Rightarrow> u32 \<times> u32 \<Rightarrow> u32 \<times> u32" where
  "name_suffix_loop value remaining_bits (tmp, last_dot) =
     (if remaining_bits \<ge> 4 then
        let c = drop_bit (nat remaining_bits) value AND 0x1F in
        name_suffix_loop value (remaining_bits - 5)
          (if c = 0 then (of_int remaining_bits, last_dot) else (tmp, tmp))
      else (tmp, last_dot))"
  by pat_completeness auto
termination by (relation "measure (\<lambda>(value, r, s). nat (r + 1))") auto

declare name_length_loop.simps [simp del] name_suffix_loop.simps [simp del]

definition name_suffix :: "name \<Rightarrow> name" where
  "name_suffix n =
     (let value = name_value n;
          (tmp, last_dot) = name_suffix_loop value 59 (0, 0);
          thirteenth_character = value AND 0x0F;
          last_dot = (if thirteenth_character \<noteq> 0 then tmp else last_dot)
      in if last_dot = 0 then \<lparr>name_value = value\<rparr>
         else
           let msk = push_bit (unat last_dot) 1 - 16;
               shift = 64 - last_dot
           in \<lparr>name_value = push_bit (unat shift) (value AND msk)
                  + push_bit (unat (shift - 1)) thirteenth_character\<rparr>)"

definition name_raw :: "name \<Rightarrow> u64" where
  "name_raw n = name_value n"

definition name_bool :: "name \<Rightarrow> bool" where
  "name_bool n \<longleftrightarrow> name_value n \<noteq> 0"

definition charmap :: string where
  "charmap = ''.12345abcdefghijklmnopqrstuvwxyz''"

text \<open>
  \<open>write_as_string\<close> writes to memory from \<open>begin\<close> on and returns the end of what it wrote.
  Pointers are offsets of the block they point to.
\<close>

function name_write_loop :: "nat \<Rightarrow> u64 \<Rightarrow> u32 \<Rightarrow> (u32 \<Rightarrow> char) \<Rightarrow> u32 \<times> (u32 \<Rightarrow> char)" where
  "name_write_loop i v begin_p mem =
     (if i < 13 then
        if v = 0 then (begin_p, mem)
        else
          let indx = drop_bit (if i = 12 then 60 else 59) (v AND name_mask) in
          name_write_loop (i + 1) (push_bit 5 v) (begin_p + 1)
            (mem(begin_p := charmap ! unat indx))
      else (begin_p, mem))"
  by pat_completeness auto
termination by (relation "measure (\<lambda>(i, v, b, m). 13 - i)") auto

declare name_write_loop.simps [simp del]

definition name_write_as_string :: "name \<Rightarrow> u32 \<Rightarrow> u32 \<Rightarrow> (u32 \<Rightarrow> char) \<Rightarrow> u32 \<times> (u32 \<Rightarrow> char)" where
  "name_write_as_string n begin_p end_p mem =
     (if begin_p + 13 < begin_p \<or> begin_p + 13 > end_p then (begin_p, mem)
      else name_write_loop 0 (name_value n) begin_p mem)"

text \<open>The range of memory from \<open>b\<close> up to \<open>e\<close>.\<close>

definition mem_range :: "(u32 \<Rightarrow> 'a) \<Rightarrow> u32 \<Rightarrow> u32 \<Rightarrow> 'a list" where
  "mem_range mem b e = map (\<lambda>i. mem (b + of_nat i)) [0..<unat (e - b)]"

definition name_to_string :: "name \<Rightarrow> string" where
  "name_to_string n =
     (let (end_p, buffer) = name_write_as_string n 0 13 (\<lambda>_. CHR 0x00)
      in mem_range buffer 0 end_p)"

definition name_eq :: "name \<Rightarrow> name \<Rightarrow> bool" where
  "name_eq a b \<longleftrightarrow> name_value a = name_value b"

definition name_neq :: "name \<Rightarrow> name \<Rightarrow> bool" where
  "name_neq a b \<longleftrightarrow> name_value a \<noteq> name_value b"

definition name_less :: "name \<Rightarrow> name \<Rightarrow> bool" where
  "name_less a b \<longleftrightarrow> name_value a < name_value b"

definition put_name :: "(u8 list \<Rightarrow> 's \<Rightarrow> 's res) \<Rightarrow> name \<Rightarrow> 's \<Rightarrow> 's res" where
  "put_name wr n ds = put_members [put_prim wr (name_value n)] ds"

definition get_name :: "(u32 \<Rightarrow> 's \<Rightarrow> (u8 list \<times> 's) res) \<Rightarrow> 's \<Rightarrow> (name \<times> 's) res" where
  "get_name rd ds = bind_res (get_prim rd ds) (\<lambda>(v, ds). Inr (\<lparr>name_value = v\<rparr>, ds))"

section \<open>Digits\<close>

text \<open>The weight of position \<open>i\<close>, the largest digit there, and the value of digits from there on.\<close>

definition weight :: "nat \<Rightarrow> nat" where
  "weight i = (if i < 12 then 2 ^ (59 - 5 * i) else 1)"

definition digit_base :: "nat \<Rightarrow> nat" where
  "digit_base i = (if i < 12 then 32 else 16)"

fun digits_ok :: "nat \<Rightarrow> nat list \<Rightarrow> bool" where
  "digits_ok i [] \<longleftrightarrow> True"
| "digits_ok i (d # ds) \<longleftrightarrow> i < 13 \<and> d < digit_base i \<and> digits_ok (Suc i) ds"

fun digits_value :: "nat \<Rightarrow> nat list \<Rightarrow> nat" where
  "digits_value i [] = 0"
| "digits_value i (d # ds) = d * weight i + digits_value (Suc i) ds"

text \<open>The weight just above position \<open>i\<close>.\<close>

definition weight_above :: "nat \<Rightarrow> nat" where
  "weight_above i = (if i < 13 then digit_base i * weight i else 1)"

lemma less_13_cases:
  assumes "i < (13::nat)"
  obtains "i = 0" | "i = 1" | "i = 2" | "i = 3" | "i = 4" | "i = 5" | "i = 6" | "i = 7"
    | "i = 8" | "i = 9" | "i = 10" | "i = 11" | "i = 12"
proof -
  have "i \<in> set [0..<13]" using assms by simp
  then show thesis using that by (auto simp: upt_rec)
qed

lemma weight_above_Suc: "i < 13 \<Longrightarrow> weight_above (Suc i) = weight i"
  by (elim less_13_cases) (simp_all add: weight_above_def digit_base_def weight_def)

lemma weight_above_eq: "i < 13 \<Longrightarrow> weight_above i = digit_base i * weight i"
  by (simp add: weight_above_def)

lemma weight_above_at_13 [simp]: "weight_above 13 = 1"
  by (simp add: weight_above_def)

lemma weight_pos [simp]: "0 < weight i"
  by (simp add: weight_def)

lemma weight_shift:
  assumes "i < 13"
  shows "weight i * 32 ^ i = 2 ^ (if i = 12 then 60 else 59)"
    and "weight_above i * 32 ^ i = 2 ^ 64"
  by (rule less_13_cases [OF assms]; simp add: weight_above_def digit_base_def weight_def)+

lemma digits_value_less: "digits_ok i ds \<Longrightarrow> i \<le> 13 \<Longrightarrow> digits_value i ds < weight_above i"
proof (induction ds arbitrary: i)
  case Nil
  then show ?case by (simp add: weight_above_def digit_base_def weight_def)
next
  case (Cons d ds)
  then have "digits_value (Suc i) ds < weight i" and "d + 1 \<le> digit_base i" and "i < 13"
    by (auto simp: weight_above_Suc [symmetric])
  moreover from this(2) have "(d + 1) * weight i \<le> digit_base i * weight i" by (rule mult_le_mono1)
  ultimately show ?case by (simp add: weight_above_def)
qed

text \<open>The digits of a value, without the zeros at the end.\<close>

function digits_of :: "nat \<Rightarrow> nat \<Rightarrow> nat list" where
  "digits_of i n =
     (if i < 13 \<and> n > 0 then n div weight i # digits_of (Suc i) (n mod weight i) else [])"
  by pat_completeness auto
termination by (relation "measure (\<lambda>(i, n). 13 - i)") auto

declare digits_of.simps [simp del]

definition trimmed :: "nat list \<Rightarrow> bool" where
  "trimmed ds \<longleftrightarrow> ds = [] \<or> last ds \<noteq> 0"

lemma digits_ok_of: "n < weight_above i \<Longrightarrow> digits_ok i (digits_of i n)"
proof (induction i n rule: digits_of.induct)
  case (1 i n)
  then show ?case
    by (subst digits_of.simps)
      (auto simp: weight_above_Suc weight_above_eq less_mult_imp_div_less)
qed

lemma digits_value_of: "n < weight_above i \<Longrightarrow> i \<le> 13 \<Longrightarrow> digits_value i (digits_of i n) = n"
proof (induction i n rule: digits_of.induct)
  case (1 i n)
  then show ?case
    by (subst digits_of.simps) (auto simp: weight_above_Suc weight_above_at_13)
qed

lemma digits_value_Cons:
  assumes "digits_ok i (d # ds)"
  shows "digits_value i (d # ds) div weight i = d"
    and "digits_value i (d # ds) mod weight i = digits_value (Suc i) ds"
proof -
  have "digits_value (Suc i) ds < weight i"
    using assms digits_value_less [of "Suc i" ds] by (simp add: weight_above_Suc)
  then show "digits_value i (d # ds) div weight i = d"
    "digits_value i (d # ds) mod weight i = digits_value (Suc i) ds" by auto
qed

lemma digits_value_eq_0: "digits_value i ds = 0 \<longleftrightarrow> (\<forall>d \<in> set ds. d = 0)"
  by (induction ds arbitrary: i) (auto simp: weight_def)

lemma digits_of_value:
  "digits_ok i ds \<Longrightarrow> trimmed ds \<Longrightarrow> digits_of i (digits_value i ds) = ds"
proof (induction ds arbitrary: i)
  case Nil
  then show ?case by (subst digits_of.simps) simp
next
  case (Cons d ds)
  then have "digits_value i (d # ds) \<noteq> 0"
    unfolding digits_value_eq_0 by (metis last_in_set list.distinct(1) trimmed_def)
  moreover have "trimmed ds" using Cons.prems(2) by (auto simp: trimmed_def split: if_splits)
  ultimately show ?case
    using Cons digits_value_Cons [OF Cons.prems(1)]
    by (subst digits_of.simps) (auto simp del: digits_value.simps)
qed

lemma trimmed_digits_of: "n < weight_above i \<Longrightarrow> i \<le> 13 \<Longrightarrow> trimmed (digits_of i n)"
proof (induction i n rule: digits_of.induct)
  case (1 i n)
  show ?case
  proof (cases "i < 13 \<and> n > 0")
    case True
    let ?ds = "digits_of (Suc i) (n mod weight i)"
    have small: "n mod weight i < weight_above (Suc i)" using True by (simp add: weight_above_Suc)
    then have IH: "trimmed ?ds" using 1 True by simp
    have "n div weight i \<noteq> 0" if "?ds = []"
      using digits_value_of [OF small] True that by (auto simp: div_eq_0_iff)
    then show ?thesis using IH True by (subst digits_of.simps [of i n]) (auto simp: trimmed_def)
  next
    case False
    then have "digits_of i n = []" by (subst digits_of.simps) simp
    then show ?thesis by (simp add: trimmed_def)
  qed
qed

lemma length_digits_ok: "digits_ok i ds \<Longrightarrow> i \<le> 13 \<Longrightarrow> length ds \<le> 13 - i"
  by (induction i ds rule: digits_ok.induct) auto

section \<open>The loops over a packed value\<close>

text \<open>
  At round \<open>i\<close> the loops hold a word \<open>v\<close> whose top bits are the digits from position \<open>i\<close> on:
  its value is \<open>n * 32 ^ i\<close> where \<open>n\<close> is the value of those digits.
\<close>

definition packed :: "nat \<Rightarrow> nat \<Rightarrow> u64 \<Rightarrow> bool" where
  "packed i n v \<longleftrightarrow> n < weight_above i \<and> unat v = n * 32 ^ i"

lemma packed_0: "packed 0 (unat v) v"
  using unat_less [of v] by (simp add: packed_def weight_above_def digit_base_def weight_def)

lemma packed_eq_0: "packed i n v \<Longrightarrow> v = 0 \<longleftrightarrow> n = 0"
  by (auto simp: packed_def unat_eq_0 [symmetric])

lemma packed_shift:
  assumes "packed i n v" and "i < 13"
  shows "packed (Suc i) (n mod weight i) (push_bit 5 v)"
proof -
  have "(2::nat) ^ 64 = digit_base i * weight i * 32 ^ i"
    using weight_shift(2) [OF assms(2)] assms(2) by (simp add: weight_above_eq)
  then have *: "unat (push_bit 5 v) = (n * 32 ^ Suc i) mod (digit_base i * weight i * 32 ^ i)"
    using assms(1) by (simp add: packed_def unat_push_mod mult.assoc mult.commute [of 32])
  have "unat (push_bit 5 v) = (n mod weight i) * 32 ^ Suc i"
  proof (cases "i < 12")
    case True
    then have "digit_base i * weight i * 32 ^ i = weight i * 32 ^ Suc i"
      by (simp add: digit_base_def)
    then show ?thesis using * by (metis mult_mod_left)
  next
    case False
    then have "i = 12" using assms(2) by simp
    then show ?thesis using * by (simp add: digit_base_def weight_def)
  qed
  then show ?thesis using assms(2) by (simp add: packed_def weight_above_Suc)
qed

lemma name_mask_eq: "v AND name_mask = push_bit 59 (drop_bit 59 v)"
proof -
  have m: "name_mask = NOT (mask 59)" by (simp add: name_mask_def mask_eq_exp_minus_1)
  show ?thesis unfolding m by (rule bit_word_eqI) (auto simp: bit_simps)
qed

lemma name_mask_top: "59 \<le> k \<Longrightarrow> drop_bit k (v AND name_mask) = drop_bit k v"
  unfolding name_mask_eq by (rule bit_word_eqI) (auto simp: bit_simps dest: bit_imp_le_length)

lemma name_mask_pos: "v AND name_mask > 0 \<longleftrightarrow> 2 ^ 59 \<le> unat v"
proof -
  have "unat (v AND name_mask) = unat v div 2 ^ 59 * 2 ^ 59"
    using unat_less [of v] unfolding name_mask_eq
    by (simp add: unat_push_mod unat_drop_div)
  then show ?thesis by (simp add: word_gt_0 unat_eq_0 [symmetric] div_greater_zero_iff)
qed

lemma packed_top:
  assumes "packed i n v" and "i < 13"
  shows "unat (drop_bit (if i = 12 then 60 else 59) (v AND name_mask)) = n div weight i"
    and "v AND name_mask > 0 \<longleftrightarrow> n div weight i \<noteq> 0"
proof -
  have v: "unat v = n * 32 ^ i" using assms(1) by (simp add: packed_def)
  have "unat (drop_bit (if i = 12 then 60 else 59) v) = n * 32 ^ i div (weight i * 32 ^ i)"
    unfolding weight_shift(1) [OF assms(2)] unat_drop_div v ..
  then show "unat (drop_bit (if i = 12 then 60 else 59) (v AND name_mask)) = n div weight i"
    by (subst name_mask_top) simp_all
  show "v AND name_mask > 0 \<longleftrightarrow> n div weight i \<noteq> 0"
  proof (cases "i = 12")
    case False
    then have "2 ^ 59 = weight i * 32 ^ i" using weight_shift(1) [OF assms(2)] by simp
    then have "2 ^ 59 \<le> unat v \<longleftrightarrow> weight i \<le> n" unfolding v by (metis mult_le_cancel2 zero_less_numeral zero_less_power)
    then show ?thesis by (simp add: name_mask_pos div_eq_0_iff not_less)
  qed (simp add: name_mask_pos v weight_def Suc_le_eq)
qed

section \<open>Printing\<close>

fun write_string :: "u32 \<Rightarrow> string \<Rightarrow> (u32 \<Rightarrow> char) \<Rightarrow> (u32 \<Rightarrow> char)" where
  "write_string b [] mem = mem"
| "write_string b (c # cs) mem = write_string (b + 1) cs (mem(b := c))"

lemma name_write_loop_digits:
  "packed i n v \<Longrightarrow> i \<le> 13 \<Longrightarrow>
   name_write_loop i v b mem =
     (b + of_nat (length (digits_of i n)), write_string b (map ((!) charmap) (digits_of i n)) mem)"
proof (induction i v b mem arbitrary: n rule: name_write_loop.induct)
  case (1 i v b mem)
  show ?case
  proof (cases "i < 13 \<and> n > 0")
    case True
    let ?mem = "mem(b := charmap ! (n div weight i))"
    have "v \<noteq> 0" using True packed_eq_0 [OF "1.prems"(1)] by simp
    moreover have top: "unat (drop_bit (if i = 12 then 60 else 59) (v AND name_mask)) = n div weight i"
      using True packed_top(1) [OF "1.prems"(1)] by blast
    ultimately have "name_write_loop i v b mem = name_write_loop (i + 1) (push_bit 5 v) (b + 1) ?mem"
      using True by (subst name_write_loop.simps) (simp only: Let_def if_True if_False)
    moreover have "name_write_loop (i + 1) (push_bit 5 v) (b + 1) ?mem = (b + 1 + of_nat (length (digits_of (i + 1) (n mod weight i))),
        write_string (b + 1) (map ((!) charmap) (digits_of (i + 1) (n mod weight i))) ?mem)"
      using "1.IH" [OF _ \<open>v \<noteq> 0\<close> refl, of "n mod weight i", unfolded top] packed_shift [OF "1.prems"(1)] True
      by (simp add: fun_upd_def)
    moreover have "digits_of i n = n div weight i # digits_of (Suc i) (n mod weight i)"
      using True by (subst digits_of.simps) simp
    ultimately show ?thesis by (simp add: add.assoc)
  next
    case False
    then have "digits_of i n = []" by (subst digits_of.simps) simp
    moreover have "i < 13 \<Longrightarrow> v = 0" using False packed_eq_0 [OF "1.prems"(1)] by simp
    ultimately show ?thesis by (subst name_write_loop.simps) auto
  qed
qed

lemma write_string_other:
  "\<forall>j < length s. a \<noteq> b + of_nat j \<Longrightarrow> write_string b s mem a = mem a"
proof (induction b s mem rule: write_string.induct)
  case (2 b c cs mem)
  have "a \<noteq> b" using "2.prems" [rule_format, of 0] by simp
  moreover have "\<forall>j < length cs. a \<noteq> b + 1 + of_nat j"
    using "2.prems" [rule_format, of "Suc _"] by (simp add: add.assoc)
  ultimately show ?case using "2.IH" by (simp add: fun_upd_def)
qed simp

lemma write_string_nth:
  "i < length s \<Longrightarrow> length s \<le> 2 ^ 32 \<Longrightarrow> write_string b s mem (b + of_nat i) = s ! i"
proof (induction b s mem arbitrary: i rule: write_string.induct)
  case (2 b c cs mem)
  show ?case
  proof (cases i)
    case 0
    have "of_nat (Suc j) \<noteq> (0 :: u32)" if "j < length cs" for j
    proof -
      have "unat (of_nat (Suc j) :: u32) = Suc j"
        using that "2.prems"(2) by (intro unat_of_nat_small) simp
      then show ?thesis by (metis nat.distinct(1) unat_0)
    qed
    then have "\<forall>j < length cs. b \<noteq> b + 1 + of_nat j" by (auto simp: add.assoc)
    then show ?thesis using write_string_other [of cs b "b + 1"] 0 by simp
  next
    case (Suc k)
    then show ?thesis using "2.IH" [of k] "2.prems" by (simp add: add.assoc fun_upd_def)
  qed
qed simp

lemma mem_range_write_string:
  assumes "length s < 2 ^ 32"
  shows "mem_range (write_string b s mem) b (b + of_nat (length s)) = s"
  using assms write_string_nth [of _ s b mem]
  by (intro nth_equalityI) (auto simp: mem_range_def unat_of_nat_mod)

definition name_digits :: "name \<Rightarrow> nat list" where
  "name_digits n = digits_of 0 (unat (name_value n))"

lemma name_digits_ok [simp]: "digits_ok 0 (name_digits n)" and name_digits_trimmed [simp]: "trimmed (name_digits n)"
  and name_digits_value [simp]: "digits_value 0 (name_digits n) = unat (name_value n)"
  using packed_0 [of "name_value n"]
  by (auto simp: name_digits_def packed_def digits_ok_of trimmed_digits_of digits_value_of)

lemma length_name_digits: "length (name_digits n) \<le> 13"
  using length_digits_ok [OF name_digits_ok [of n]] by simp

lemma name_digits_unique:
  "digits_ok 0 ds \<Longrightarrow> trimmed ds \<Longrightarrow> digits_value 0 ds = unat (name_value n) \<Longrightarrow> name_digits n = ds"
  using digits_of_value by (metis name_digits_def)

lemma name_digits_inject: "name_digits a = name_digits b \<longleftrightarrow> a = b"
  by (metis name.equality name_digits_value old.unit.exhaust word_unat_eq_iff)

lemma name_write_as_string_eq:
  assumes "b + 13 \<ge> b" and "b + 13 \<le> e"
  shows "name_write_as_string n b e mem =
    (b + of_nat (length (name_digits n)), write_string b (map ((!) charmap) (name_digits n)) mem)"
  using assms name_write_loop_digits [OF packed_0 [of "name_value n"]]
  by (simp add: name_write_as_string_def name_digits_def) (auto simp: not_less)

lemma name_to_string_digits: "name_to_string n = map ((!) charmap) (name_digits n)"
  using name_write_as_string_eq [of 0 13 n "\<lambda>_. CHR 0x00"] length_name_digits [of n]
    mem_range_write_string [of "map ((!) charmap) (name_digits n)" 0]
  by (simp add: name_to_string_def)

lemma word_of_unat: "unat (w :: 'a::len word) = n \<Longrightarrow> w = of_nat n"
  by (metis mod_less unat_less unat_of_nat_mod word_unat_eq_iff)

section \<open>Parsing\<close>

definition char_digit :: "char \<Rightarrow> nat" where
  "char_digit c = (case char_to_value c of Inl _ \<Rightarrow> 0 | Inr d \<Rightarrow> unat d)"

lemma charmap_32: "d < 32 \<Longrightarrow> charmap ! d \<in> set charmap"
  by (rule nth_mem) (simp add: charmap_def)

lemma char_to_value_charmap:
  assumes "d < 32"
  shows "char_to_value (charmap ! d) = Inr (of_nat d)"
proof -
  have "\<forall>d \<in> set [0..<32]. char_to_value (charmap ! d) = Inr (of_nat d)" by code_simp
  then show ?thesis using assms by simp
qed

lemma in_charmap:
  assumes "c \<in> set charmap"
  obtains d where "d < 32" and "c = charmap ! d"
proof -
  have "length charmap = 32" by (simp add: charmap_def)
  then show thesis using assms that by (metis in_set_conv_nth)
qed

lemma char_interval:
  assumes "map char_of [of_char lo..<Suc (of_char hi) :: nat] = s" and "lo \<le> c" and "c \<le> hi"
  shows "c \<in> set s"
proof -
  have "of_char c \<in> set [of_char lo..<Suc (of_char hi) :: nat]"
    using assms(2,3) by (auto simp: less_eq_char_def)
  then have "char_of (of_char c :: nat) \<in> set s"
    unfolding assms(1) [symmetric] set_map by (rule imageI)
  then show ?thesis by simp
qed

lemma char_to_value_ok: "is_ok (char_to_value c) \<longleftrightarrow> c \<in> set charmap"
proof
  have digits: "map char_of [of_char CHR ''1''..<Suc (of_char CHR ''5'') :: nat] = ''12345''"
    and letters: "map char_of [of_char CHR ''a''..<Suc (of_char CHR ''z'') :: nat] =
      ''abcdefghijklmnopqrstuvwxyz''"
    by code_simp+
  have "set charmap = insert CHR ''.'' (set ''12345'' \<union> set ''abcdefghijklmnopqrstuvwxyz'')"
    by (auto simp: charmap_def)
  then show "c \<in> set charmap" if "is_ok (char_to_value c)"
    using that char_interval [OF digits, of c] char_interval [OF letters, of c]
    by (auto simp only: char_to_value_def is_ok_simps split: if_splits)
  show "is_ok (char_to_value c)" if "c \<in> set charmap"
    using that by (rule in_charmap) (simp add: char_to_value_charmap)
qed

lemma char_to_value_error:
  "c \<notin> set charmap \<Longrightarrow>
   char_to_value c = Inl (Assertion ''character is not in allowed character set for names'')"
  using char_to_value_ok [of c] by (auto simp: char_to_value_def split: if_splits)

lemma char_digit_charmap [simp]: "d < 32 \<Longrightarrow> char_digit (charmap ! d) = d"
  by (simp add: char_digit_def char_to_value_charmap unat_of_nat_mod)

lemma char_digit_valid:
  assumes "c \<in> set charmap"
  shows "char_to_value c = Inr (of_nat (char_digit c))" and "char_digit c < 32"
    and "charmap ! char_digit c = c"
  using assms by (auto elim!: in_charmap simp: char_to_value_charmap)

lemma accumulate_step:
  assumes "unat v < 2 ^ 59" and "d < 32"
  shows "unat (push_bit 5 v OR ucast (of_nat d :: u8) :: u64) = 32 * unat v + d"
proof -
  have "unat (ucast (of_nat d :: u8) :: u64) = d"
    using assms(2) by (simp add: unat_ucast_up unat_of_nat_small unat_of_nat_mod)
  moreover have "unat (push_bit 5 v) = unat v * 2 ^ 5" using assms(1) by (simp add: unat_push_mod)
  ultimately have "unat (ucast (of_nat d :: u8) OR push_bit 5 v :: u64) = d + unat v * 2 ^ 5"
    using assms(2) unat_or_shift [of "ucast (of_nat d :: u8) :: u64" 5 "push_bit 5 v" "unat v"] by simp
  then show ?thesis by (simp add: or.commute)
qed

lemma weight_above_power: "n \<le> 12 \<Longrightarrow> weight_above n = 2 ^ (4 + 5 * (12 - n))"
  by (rule less_13_cases [of n]) (simp_all add: weight_above_def digit_base_def weight_def)

lemma name_accumulate_eq:
  "set cs \<subseteq> set charmap \<Longrightarrow> unat v < 32 ^ i \<Longrightarrow> i + length cs \<le> 12 \<Longrightarrow>
   \<exists>w. name_accumulate cs v = Inr w \<and> unat w < 32 ^ (i + length cs) \<and>
     unat w * weight_above (i + length cs) = unat v * weight_above i + digits_value i (map char_digit cs)"
proof (induction cs arbitrary: v i)
  case (Cons c cs)
  let ?d = "char_digit c" and ?v = "push_bit 5 v OR ucast (of_nat (char_digit c) :: u8) :: u64"
  have d: "char_to_value c = Inr (of_nat ?d)" "?d < 32" and i: "i \<le> 11"
    using Cons.prems char_digit_valid [of c] by simp_all
  have "(32::nat) ^ i \<le> 32 ^ 11" using i by (rule power_increasing) simp
  then have v: "unat ?v = 32 * unat v + ?d"
    using Cons.prems(2) d(2) by (intro accumulate_step) simp_all
  then have "unat ?v < 32 ^ Suc i" using Cons.prems(2) d(2) by simp
  then obtain w where w: "name_accumulate cs ?v = Inr w" "unat w < 32 ^ (Suc i + length cs)"
    "unat w * weight_above (Suc i + length cs) = unat ?v * weight_above (Suc i) + digits_value (Suc i) (map char_digit cs)"
    using Cons.IH [of ?v "Suc i"] Cons.prems by auto
  have "weight_above (Suc i) = weight i" using i by (simp add: weight_above_Suc)
  moreover have "weight_above i = 32 * weight i" using i by (simp add: weight_above_eq digit_base_def)
  ultimately show ?case using w v d(1) by (simp add: algebra_simps)
qed simp

lemma name_accumulate_error:
  "\<not> set cs \<subseteq> set charmap \<Longrightarrow>
   name_accumulate cs v = Inl (Assertion ''character is not in allowed character set for names'')"
proof (induction cs arbitrary: v)
  case (Cons c cs)
  then show ?case
    by (cases "c \<in> set charmap") (auto simp: char_digit_valid char_to_value_error)
qed simp

lemma digits_value_append:
  "digits_value i (ds @ es) = digits_value i ds + digits_value (i + length ds) es"
  by (induction ds arbitrary: i) simp_all

text \<open>The value that the constructor gives the first twelve characters.\<close>

lemma name_prefix_value:
  assumes "set cs \<subseteq> set charmap" and "length cs \<le> 12"
  obtains w where "name_accumulate cs 0 = Inr w"
    and "unat (push_bit (4 + 5 * (12 - length cs)) w) = digits_value 0 (map char_digit cs)"
proof -
  let ?n = "length cs"
  obtain w where w: "name_accumulate cs 0 = Inr w" "unat w < 32 ^ ?n"
    "unat w * weight_above ?n = digits_value 0 (map char_digit cs)"
    using name_accumulate_eq [of cs 0 0] assms by auto
  have "unat w * weight_above ?n < 32 ^ ?n * weight_above ?n"
    using w(2) assms(2) by (simp add: weight_above_power)
  also have "32 ^ ?n * weight_above ?n = 2 ^ 64"
    using weight_shift(2) [of ?n] assms(2) by (simp add: mult.commute)
  finally have "unat (push_bit (4 + 5 * (12 - ?n)) w) = digits_value 0 (map char_digit cs)"
    using w(3) assms(2) by (simp add: unat_push_mod weight_above_power)
  with w(1) that show thesis by blast
qed

definition thirteenth_ok :: "string \<Rightarrow> bool" where
  "thirteenth_ok str \<longleftrightarrow> (length str = 13 \<longrightarrow> char_digit (str ! 12) < 16)"

text \<open>The constructor on every string.\<close>

lemma name_of_string_eq:
  "name_of_string str =
     (if length str > 13 then Inl (Assertion ''string is too long to be a valid name'')
      else if \<not> set str \<subseteq> set charmap
      then Inl (Assertion ''character is not in allowed character set for names'')
      else if \<not> thirteenth_ok str
      then Inl (Assertion ''thirteenth character in name cannot be a letter that comes after j'')
      else Inr \<lparr>name_value = of_nat (digits_value 0 (map char_digit str))\<rparr>)"
proof -
  consider "length str > 13" | "str = []" | "0 < length str" "length str \<le> 12" | "length str = 13"
    by (cases str) (auto, linarith)
  then show ?thesis
  proof cases
    case 3
    show ?thesis
    proof (cases "set str \<subseteq> set charmap")
      case True
      then obtain w where "name_accumulate str 0 = Inr w"
        "unat (push_bit (4 + 5 * (12 - length str)) w) = digits_value 0 (map char_digit str)"
        using 3 by (auto elim: name_prefix_value)
      moreover from this(2) have "push_bit (4 + 5 * (12 - length str)) w = of_nat (digits_value 0 (map char_digit str))"
        by (rule word_of_unat)
      ultimately show ?thesis
        using 3 True by (auto simp: name_of_string_def bind_check thirteenth_ok_def)
    qed (use 3 in \<open>auto simp: name_of_string_def bind_check name_accumulate_error\<close>)
  next
    case 4
    let ?c = "str ! 12" and ?cs = "take 12 str"
    have str: "str = ?cs @ [?c]" using 4 take_Suc_conv_app_nth [of 12 str] by simp
    then have set: "set str = insert ?c (set ?cs)" by (metis list.set(1,2) set_append Un_insert_right sup_bot_right)
    have ne: "str \<noteq> []" using 4 by auto
    show ?thesis
    proof (cases "set str \<subseteq> set charmap")
      case True
      then have cs: "set ?cs \<subseteq> set charmap" and c: "?c \<in> set charmap" using set by auto
      have d: "char_to_value ?c = Inr (of_nat (char_digit ?c))" "char_digit ?c < 32"
        using c by (simp_all add: char_digit_valid)
      obtain w where w: "name_accumulate ?cs 0 = Inr w"
        "unat (push_bit 4 w) = digits_value 0 (map char_digit ?cs)"
        using name_prefix_value [OF cs] 4 by auto
      have big: "of_nat (char_digit ?c) > (15 :: u8) \<longleftrightarrow> \<not> thirteenth_ok str"
        using d(2) 4 by (simp add: thirteenth_ok_def word_less_nat_alt unat_of_nat_small unat_of_nat_mod) linarith
      have "push_bit 4 w OR ucast (of_nat (char_digit ?c) :: u8) = of_nat (digits_value 0 (map char_digit str))"
        if "thirteenth_ok str"
      proof -
        have small: "char_digit ?c < 16" using that 4 by (simp add: thirteenth_ok_def)
        have "unat (ucast (of_nat (char_digit ?c) :: u8) :: u64) = char_digit ?c"
          using small by (simp add: unat_ucast_up unat_of_nat_small unat_of_nat_mod)
        moreover have "unat (push_bit 4 w) = (unat w mod 2 ^ 60) * 2 ^ 4"
          using mult_mod_left [of "unat w" "2 ^ 60" "2 ^ 4"] by (simp add: unat_push_mod)
        ultimately have "unat (ucast (of_nat (char_digit ?c) :: u8) OR push_bit 4 w) = char_digit ?c + unat (push_bit 4 w)"
          using small unat_or_shift [of "ucast (of_nat (char_digit ?c) :: u8) :: u64" 4 "push_bit 4 w" "unat w mod 2 ^ 60"]
          by simp
        also have "\<dots> = digits_value 0 (map char_digit (?cs @ [?c]))"
          using 4 w(2) by (simp add: digits_value_append weight_def)
        finally show ?thesis unfolding str [symmetric] by (simp add: or.commute word_of_unat)
      qed
      then show ?thesis
        using 4 ne w(1) d(1) big True
        by (simp add: name_of_string_def Let_def bind_check min_def)
    next
      case False
      have "bind_res (name_accumulate ?cs 0) (\<lambda>v. bind_res (char_to_value ?c) (f v)) =
          Inl (Assertion ''character is not in allowed character set for names'')" for f :: "u64 \<Rightarrow> u8 \<Rightarrow> name res"
      proof (cases "set ?cs \<subseteq> set charmap")
        case True
        moreover from this have "?c \<notin> set charmap" using False set by auto
        moreover obtain w where "name_accumulate ?cs 0 = Inr w"
          using True 4 by (auto elim: name_prefix_value [of ?cs])
        ultimately show ?thesis by (simp add: char_to_value_error)
      qed (simp add: name_accumulate_error)
      then show ?thesis
        using 4 ne False by (simp add: name_of_string_def Let_def bind_check min_def)
    qed
  qed (auto simp: name_of_string_def bind_check thirteenth_ok_def)
qed

section \<open>Names and strings\<close>

text \<open>A string without the dots at its end, and digits without the zeros at their end.\<close>

fun trim_dots :: "string \<Rightarrow> string" where
  "trim_dots [] = []"
| "trim_dots (c # cs) = (if c = CHR ''.'' \<and> trim_dots cs = [] then [] else c # trim_dots cs)"

fun trim_zeros :: "nat list \<Rightarrow> nat list" where
  "trim_zeros [] = []"
| "trim_zeros (d # ds) = (if d = 0 \<and> trim_zeros ds = [] then [] else d # trim_zeros ds)"

lemma trim_zeros_eq_Nil: "trim_zeros ds = [] \<longleftrightarrow> (\<forall>d \<in> set ds. d = 0)"
  by (induction ds) auto

lemma digits_of_trim: "digits_ok i ds \<Longrightarrow> digits_of i (digits_value i ds) = trim_zeros ds"
proof (induction ds arbitrary: i)
  case Nil
  then show ?case by (subst digits_of.simps) simp
next
  case (Cons d ds)
  have "digits_value i (d # ds) = 0 \<longleftrightarrow> trim_zeros (d # ds) = []"
    unfolding digits_value_eq_0 trim_zeros_eq_Nil ..
  then show ?case
    using Cons digits_value_Cons [OF Cons.prems]
    by (subst digits_of.simps) (auto simp del: digits_value.simps split: if_splits)
qed

lemma digits_ok_append: "digits_ok i (ds @ es) \<longleftrightarrow> digits_ok i ds \<and> digits_ok (i + length ds) es"
  by (induction ds arbitrary: i) auto

lemma digits_ok_bound: "digits_ok i ds \<Longrightarrow> d \<in> set ds \<Longrightarrow> d < 32"
  by (induction i ds rule: digits_ok.induct) (auto simp: digit_base_def split: if_splits)

lemma digits_ok_nth: "digits_ok i ds \<longleftrightarrow> (\<forall>j < length ds. i + j < 13 \<and> ds ! j < digit_base (i + j))"
proof (induction ds arbitrary: i)
  case (Cons d ds)
  show ?case
    by (auto simp: Cons nth_Cons All_less_Suc2 split: nat.splits)
qed simp

text \<open>A string the constructor accepts gives digits.\<close>

definition valid_name_string :: "string \<Rightarrow> bool" where
  "valid_name_string str \<longleftrightarrow> length str \<le> 13 \<and> set str \<subseteq> set charmap \<and> thirteenth_ok str"

lemma valid_name_string_ok: "is_ok (name_of_string str) \<longleftrightarrow> valid_name_string str"
  by (auto simp: name_of_string_eq valid_name_string_def)

lemma valid_name_digits:
  assumes "valid_name_string str"
  shows "digits_ok 0 (map char_digit str)"
  unfolding digits_ok_nth
proof (intro allI impI)
  fix j assume j: "j < length (map char_digit str)"
  then have "char_digit (str ! j) < 32" and "j < 13"
    using assms by (auto simp: valid_name_string_def intro!: char_digit_valid(2) dest: nth_mem)
  moreover have "j = 12 \<Longrightarrow> char_digit (str ! j) < 16"
    using assms j by (auto simp: valid_name_string_def thirteenth_ok_def)
  ultimately show "0 + j < 13 \<and> map char_digit str ! j < digit_base (0 + j)"
    using j by (cases "j = 12") (auto simp: digit_base_def)
qed

lemma char_digit_eq_0: "c \<in> set charmap \<Longrightarrow> char_digit c = 0 \<longleftrightarrow> c = CHR ''.''"
proof -
  assume c: "c \<in> set charmap"
  have "charmap ! 0 = CHR ''.''" by (simp add: charmap_def)
  then show ?thesis using char_digit_valid(3) [OF c] char_digit_charmap [of 0] by fastforce
qed

lemma trim_dots_subset: "set (trim_dots s) \<subseteq> set s"
  by (induction s) auto

lemma trim_zeros_char_digit:
  "set s \<subseteq> set charmap \<Longrightarrow> trim_zeros (map char_digit s) = map char_digit (trim_dots s)"
  by (induction s) (auto simp: char_digit_eq_0)

lemma map_charmap_digit: "set s \<subseteq> set charmap \<Longrightarrow> map ((!) charmap) (map char_digit s) = s"
  by (induction s) (auto simp: char_digit_valid)

lemma digits_value_0_less: "digits_ok 0 ds \<Longrightarrow> digits_value 0 ds < 2 ^ 64"
  using digits_value_less [of 0 ds] by (simp add: weight_above_def digit_base_def weight_def)

lemma name_digits_of_string:
  assumes "valid_name_string str"
  shows "name_of_string str = Inr n \<Longrightarrow> name_digits n = map char_digit (trim_dots str)"
proof -
  assume n: "name_of_string str = Inr n"
  note ok = valid_name_digits [OF assms]
  have "unat (name_value n) = digits_value 0 (map char_digit str)"
    using n assms digits_value_0_less [OF ok]
    by (auto simp: name_of_string_eq valid_name_string_def unat_of_nat_small unat_of_nat_mod)
  then show ?thesis
    using digits_of_trim [OF ok] assms
    by (simp add: name_digits_def trim_zeros_char_digit valid_name_string_def)
qed

lemma name_to_string_of_string:
  assumes "name_of_string str = Inr n"
  shows "name_to_string n = trim_dots str"
proof -
  have v: "valid_name_string str" using assms valid_name_string_ok [of str] by simp
  then have "set (trim_dots str) \<subseteq> set charmap"
    using trim_dots_subset [of str] by (auto simp: valid_name_string_def)
  then show ?thesis
    unfolding name_to_string_digits name_digits_of_string [OF v assms] by (rule map_charmap_digit)
qed

lemma name_string_valid:
  assumes "digits_ok 0 ds"
  shows "valid_name_string (map ((!) charmap) ds)" and "map char_digit (map ((!) charmap) ds) = ds"
proof -
  have bound: "\<forall>d \<in> set ds. d < 32" using assms digits_ok_bound by blast
  then show eq: "map char_digit (map ((!) charmap) ds) = ds" by (simp add: map_idI)
  have "length ds \<le> 13" using length_digits_ok [OF assms] by simp
  moreover have "length ds = 13 \<Longrightarrow> ds ! 12 < 16"
    using assms unfolding digits_ok_nth by (auto simp: digit_base_def dest: spec [of _ 12])
  ultimately show "valid_name_string (map ((!) charmap) ds)"
    using bound by (auto simp: valid_name_string_def thirteenth_ok_def charmap_32)
qed

lemma name_of_string_to_string: "name_of_string (name_to_string n) = Inr n"
proof -
  let ?s = "name_to_string n"
  have "valid_name_string ?s" and "map char_digit ?s = name_digits n"
    using name_string_valid [OF name_digits_ok [of n]] by (simp_all add: name_to_string_digits)
  then show ?thesis by (simp add: name_of_string_eq valid_name_string_def)
qed

subsection \<open>Order\<close>

lemma trimmed_Cons: "trimmed (d # ds) \<Longrightarrow> trimmed ds"
  by (auto simp: trimmed_def split: if_splits)

lemma trimmed_value_pos: "trimmed ds \<Longrightarrow> 0 < digits_value i ds \<longleftrightarrow> ds \<noteq> []"
  by (metis digits_value.simps(1) digits_value_eq_0 last_in_set neq0_conv trimmed_def)

lemma digits_value_mono:
  "digits_ok i ds \<Longrightarrow> digits_ok i es \<Longrightarrow> trimmed ds \<Longrightarrow> trimmed es \<Longrightarrow>
   digits_value i ds < digits_value i es \<longleftrightarrow> ds < es"
proof (induction ds arbitrary: i es)
  case Nil
  then show ?case using trimmed_value_pos [of es i] by (cases es) auto
next
  case (Cons d ds)
  show ?case
  proof (cases es)
    case Nil
    then show ?thesis by simp
  next
    case (Cons e es')
    have a: "digits_value (Suc i) ds < weight i" and b: "digits_value (Suc i) es' < weight i"
      using Cons.prems Cons digits_value_less [of "Suc i"] by (simp_all add: weight_above_Suc)
    have IH: "digits_value (Suc i) ds < digits_value (Suc i) es' \<longleftrightarrow> ds < es'"
      using Cons.IH [of "Suc i" es'] Cons.prems Cons trimmed_Cons by simp
    consider "d < e" | "d = e" | "e < d" by linarith
    then show ?thesis
    proof cases
      case 1
      then have "(d + 1) * weight i \<le> e * weight i" by (intro mult_le_mono1) simp
      then show ?thesis using 1 a Cons by simp
    next
      case 3
      then have "(e + 1) * weight i \<le> d * weight i" by (intro mult_le_mono1) simp
      then show ?thesis using 3 b Cons by simp
    qed (use IH Cons in simp)
  qed
qed

lemma charmap_mono: "d < 32 \<Longrightarrow> e < 32 \<Longrightarrow> charmap ! d < charmap ! e \<longleftrightarrow> d < e"
proof -
  have "\<forall>d \<in> set [0..<32]. \<forall>e \<in> set [0..<32]. charmap ! d < charmap ! e \<longleftrightarrow> d < e" by code_simp
  then show "d < 32 \<Longrightarrow> e < 32 \<Longrightarrow> ?thesis" by simp
qed

lemma map_charmap_mono:
  "\<forall>d \<in> set ds. d < 32 \<Longrightarrow> \<forall>e \<in> set es. e < 32 \<Longrightarrow>
   map ((!) charmap) ds < map ((!) charmap) es \<longleftrightarrow> ds < es"
proof (induction ds arbitrary: es)
  case Nil
  then show ?case by (cases es) auto
next
  case (Cons d ds)
  show ?case
  proof (cases es)
    case (Cons e es')
    then have de: "d < 32" "e < 32" using Cons.prems by simp_all
    then have "charmap ! d = charmap ! e \<longleftrightarrow> d = e" by (metis char_digit_charmap)
    then show ?thesis using Cons.IH [of es'] Cons.prems charmap_mono [OF de] \<open>es = e # es'\<close> by simp
  qed simp
qed

lemma name_less_string: "name_less a b \<longleftrightarrow> name_to_string a < name_to_string b"
proof -
  have "\<forall>d \<in> set (name_digits n). d < 32" for n using digits_ok_bound [OF name_digits_ok] by blast
  then have "name_to_string a < name_to_string b \<longleftrightarrow> name_digits a < name_digits b"
    unfolding name_to_string_digits by (intro map_charmap_mono) simp_all
  also have "\<dots> \<longleftrightarrow> digits_value 0 (name_digits a) < digits_value 0 (name_digits b)"
    using digits_value_mono [of 0 "name_digits a" "name_digits b"] by simp
  finally show ?thesis by (simp add: name_less_def word_less_nat_alt)
qed

subsection \<open>Length\<close>

lemma name_length_loop_digits:
  "packed i n v \<Longrightarrow> i \<le> 13 \<Longrightarrow>
   name_length_loop i v l = (if n = 0 then l else of_nat (i + length (digits_of i n) - 1))"
proof (induction i v l arbitrary: n rule: name_length_loop.induct)
  case (1 i v l)
  show ?case
  proof (cases "i < 13")
    case True
    let ?l = "if v AND name_mask > 0 then of_nat i else l"
    have "name_length_loop i v l = name_length_loop (i + 1) (push_bit 5 v) ?l"
      using True by (subst name_length_loop.simps) simp
    also have "\<dots> = (if n mod weight i = 0 then ?l else of_nat (i + 1 + length (digits_of (i + 1) (n mod weight i)) - 1))"
      using "1.IH" [OF True] packed_shift [OF "1.prems"(1) True] True by simp
    also have "\<dots> = (if n = 0 then l else of_nat (i + length (digits_of i n) - 1))"
      using True packed_top(2) [OF "1.prems"(1) True] digits_of.simps [of "Suc i" 0]
      by (subst digits_of.simps [of i n]) (auto simp: div_eq_0_iff)
    finally show ?thesis .
  next
    case False
    then have "n = 0" using "1.prems" by (simp add: packed_def)
    with False show ?thesis by (subst name_length_loop.simps) simp
  qed
qed

lemma name_length_digits: "name_length n = of_nat (length (name_digits n))"
proof (cases "name_value n = 0")
  case True
  then show ?thesis by (simp add: name_length_def name_digits_def digits_of.simps)
next
  case False
  then have "name_digits n \<noteq> []" using name_digits_value [of n] by (metis digits_value.simps(1) unat_eq_0)
  then have "Suc (length (name_digits n) - 1) = length (name_digits n)" by simp
  then have "of_nat (length (name_digits n) - 1) + 1 = (of_nat (length (name_digits n)) :: u8)"
    by (metis of_nat_Suc add.commute)
  then show ?thesis
    using name_length_loop_digits [OF packed_0 [of "name_value n"]] False
    by (simp add: name_length_def name_digits_def unat_eq_0)
qed

lemma name_length_string: "unat (name_length n) = length (name_to_string n)"
  using length_name_digits [of n]
  by (simp add: name_length_digits name_to_string_digits unat_of_nat_mod)

subsection \<open>Suffix\<close>

text \<open>The digits of positions \<open>i\<close> to 11, zeros included, and what the loop does over them.\<close>

fun place :: "nat \<Rightarrow> nat" where
  "place j = 59 - 5 * j"

fun dots :: "nat \<Rightarrow> nat list \<Rightarrow> nat \<times> nat \<Rightarrow> nat \<times> nat" where
  "dots j [] s = s"
| "dots j (d # ds) (tmp, last_dot) =
     dots (Suc j) ds (if d = 0 then (place j, last_dot) else (tmp, tmp))"

function digits_upto :: "nat \<Rightarrow> nat \<Rightarrow> nat list" where
  "digits_upto i n =
     (if i < 13 then n div weight i # digits_upto (Suc i) (n mod weight i) else [])"
  by pat_completeness auto
termination by (relation "measure (\<lambda>(i, n). 13 - i)") auto

declare digits_upto.simps [simp del]

lemma trim_digits_upto: "trim_zeros (digits_upto i n) = digits_of i n"
proof (induction i n rule: digits_upto.induct)
  case (1 i n)
  show ?case
  proof (cases "i < 13")
    case True
    have IH: "trim_zeros (digits_upto (Suc i) (n mod weight i)) = digits_of (Suc i) (n mod weight i)"
      using 1 True by simp
    have "\<not> i < 12 \<Longrightarrow> weight i = 1" by (simp add: weight_def)
    then show ?thesis
      using True IH digits_of.simps [of "Suc i" 0]
      by (subst digits_upto.simps, subst digits_of.simps [of i n])
        (auto simp: digits_of.simps [of "Suc i"] div_eq_0_iff)
  qed (simp add: digits_upto.simps digits_of.simps)
qed

lemma dots_append: "dots j (xs @ ys) s = dots (j + length xs) ys (dots j xs s)"
  by (induction j xs s rule: dots.induct) auto

lemma dots_trim: "snd (dots j ds s) = snd (dots j (trim_zeros ds) s)"
proof (induction j ds s rule: dots.induct)
  case (2 j d ds tmp last_dot)
  show ?case
  proof (cases "d = 0 \<and> trim_zeros ds = []")
    case True
    then show ?thesis using 2 by simp
  qed (use 2 in auto)
qed simp

lemma dots_nonzero: "0 \<notin> set ds \<Longrightarrow> dots j ds (tmp, l) = (if ds = [] then (tmp, l) else (tmp, tmp))"
  by (induction ds arbitrary: j l) auto

lemma name_suffix_step:
  assumes "i < 12" and "n = unat (v :: u64) mod weight_above i"
  shows "drop_bit (place i) v AND 0x1F = 0 \<longleftrightarrow> n div weight i = 0"
    and "n mod weight i = unat v mod weight_above (Suc i)"
proof -
  have w: "weight i = 2 ^ place i" and a: "weight_above i = weight i * 32"
    using assms(1) by (simp_all add: weight_def weight_above_eq digit_base_def)
  have "drop_bit (place i) v AND 0x1F = take_bit 5 (drop_bit (place i) v)"
    by (simp add: take_bit_eq_mask mask_eq_exp_minus_1)
  then have "unat (drop_bit (place i) v AND 0x1F) = take_bit 5 (unat v div weight i)"
    unfolding w by (simp only: unsigned_take_bit_eq unat_drop_div)
  then have "unat (drop_bit (place i) v AND 0x1F) = unat v div weight i mod 32"
    by (simp only: take_bit_eq_mod) simp
  also have "\<dots> = n div weight i"
    unfolding assms(2) a mod_mult2_eq by simp
  finally show "drop_bit (place i) v AND 0x1F = 0 \<longleftrightarrow> n div weight i = 0"
    by (metis unat_eq_0)
  show "n mod weight i = unat v mod weight_above (Suc i)"
    using assms a by (simp add: weight_above_Suc mod_mod_cancel)
qed

lemma name_suffix_loop_dots:
  "i \<le> 12 \<Longrightarrow> n = unat v mod weight_above i \<Longrightarrow>
   \<exists>tmp' l'. dots i (digits_upto i n) (tmp, l) =
     (if unat v mod 16 = 0 then (place 12, l') else (tmp', tmp')) \<and>
     name_suffix_loop v (59 - 5 * int i) (of_nat tmp, of_nat l) = (of_nat tmp', of_nat l')"
proof (induction "12 - i" arbitrary: i n tmp l)
  case 0
  then have i: "i = 12" by simp
  have "n = unat v mod 16" using 0 i by (simp add: weight_above_def digit_base_def weight_def)
  then have "digits_upto 12 n = [unat v mod 16]"
    by (simp add: digits_upto.simps [of 12] digits_upto.simps [of 13] weight_def)
  moreover have "name_suffix_loop v (59 - 5 * int 12) (of_nat tmp, of_nat l) = (of_nat tmp, of_nat l)"
    by (subst name_suffix_loop.simps) simp
  ultimately show ?case using i by auto
next
  case (Suc k)
  then have i: "i < 12" by simp
  note step = name_suffix_step [OF i Suc.prems(2)]
  let ?c = "n div weight i = 0"
  let ?s = "if ?c then (place i, l) else (tmp, tmp)"
  have pl: "nat (59 - 5 * int i) = place i" "59 - 5 * int i \<ge> 4" "of_int (59 - 5 * int i) = (of_nat (place i) :: u32)"
    using i by (auto simp: of_nat_diff)
  have "name_suffix_loop v (59 - 5 * int i) (of_nat tmp, of_nat l) =
      name_suffix_loop v (59 - 5 * int (Suc i)) (of_nat (fst ?s), of_nat (snd ?s))"
    using pl step(1) by (subst name_suffix_loop.simps) (simp add: Let_def algebra_simps)
  moreover have "digits_upto i n = n div weight i # digits_upto (Suc i) (n mod weight i)"
    using i by (subst digits_upto.simps) simp
  moreover have "\<exists>tmp' l'. dots (Suc i) (digits_upto (Suc i) (n mod weight i)) (fst ?s, snd ?s) =
     (if unat v mod 16 = 0 then (place 12, l') else (tmp', tmp')) \<and>
     name_suffix_loop v (59 - 5 * int (Suc i)) (of_nat (fst ?s), of_nat (snd ?s)) = (of_nat tmp', of_nat l')"
    using Suc.hyps i step(2) by (intro Suc.hyps(1)) auto
  ultimately show ?case by simp
qed

text \<open>The digits after the last zero.\<close>

definition last_segment :: "nat list \<Rightarrow> nat list" where
  "last_segment ds = rev (takeWhile (\<lambda>d. d \<noteq> 0) (rev ds))"

lemma last_segment_cases:
  obtains "0 \<notin> set ds" and "last_segment ds = ds"
  | A B where "ds = A @ 0 # B" and "0 \<notin> set B" and "last_segment ds = B"
proof (cases "0 \<in> set ds")
  case True
  then obtain A B where ds: "ds = A @ 0 # B" and B: "0 \<notin> set B"
    using split_list_last by metis
  then have "last_segment ds = B"
    by (simp add: last_segment_def takeWhile_append)
  then show thesis using that(2) ds B by blast
next
  case False
  then have "takeWhile (\<lambda>d. d \<noteq> 0) (rev ds) = rev ds"
    by (auto simp: takeWhile_eq_all_conv intro: gr0I)
  then have "last_segment ds = ds" by (simp only: last_segment_def rev_rev_ident)
  with False that(1) show thesis by blast
qed

lemma weight_dvd: "i \<le> j \<Longrightarrow> weight j dvd weight i"
  by (auto simp: weight_def intro!: le_imp_power_dvd)

lemma digits_value_dvd: "i + length ds \<le> Suc k \<Longrightarrow> weight k dvd digits_value i ds"
  by (induction ds arbitrary: i) (auto intro!: dvd_add dvd_mult weight_dvd)

text \<open>Moving digits \<open>p\<close> places up; the thirteenth digit is one bit shorter than the others.\<close>

lemma digits_value_move:
  assumes "0 < p" and "digits_ok (p + j) ds"
  shows "digits_value j ds = digits_value (p + j) ds div 16 * 16 * 2 ^ (5 * p)
     + digits_value (p + j) ds mod 16 * 2 ^ (5 * p - 1)"
  using assms(2)
proof (induction ds arbitrary: j)
  case (Cons d ds)
  let ?q = "p + j"
  have IH: "digits_value (Suc j) ds = digits_value (Suc ?q) ds div 16 * 16 * 2 ^ (5 * p)
     + digits_value (Suc ?q) ds mod 16 * 2 ^ (5 * p - 1)"
    using Cons.IH [of "Suc j"] Cons.prems by simp
  show ?case
  proof (cases "?q < 12")
    case True
    then have e: "59 - 5 * ?q = 4 + (55 - 5 * ?q)" "59 - 5 * j = (59 - 5 * ?q) + 5 * p"
      using True by (simp_all add: algebra_simps)
    have w: "weight ?q = 16 * 2 ^ (55 - 5 * ?q)"
      using True unfolding weight_def e(1) power_add by simp
    have w': "weight ?q * 2 ^ (5 * p) = weight j"
      using True unfolding weight_def e(2) power_add by simp
    have v: "digits_value ?q (d # ds) = digits_value (Suc ?q) ds + 16 * (d * 2 ^ (55 - 5 * ?q))"
      using w by simp
    have "digits_value ?q (d # ds) div 16 = d * 2 ^ (55 - 5 * ?q) + digits_value (Suc ?q) ds div 16"
      and "digits_value ?q (d # ds) mod 16 = digits_value (Suc ?q) ds mod 16"
      unfolding v by simp_all
    then show ?thesis using IH w w' by (simp add: algebra_simps)
  next
    case False
    then have q: "?q = 12" "ds = []" using Cons.prems by (cases ds; simp)+
    then have "d < 16" and "j < 12" using Cons.prems assms(1) by (simp_all add: digit_base_def)
    moreover have "59 - 5 * j = 5 * p - 1" using q(1) assms(1) by simp
    ultimately show ?thesis using q by (simp add: weight_def)
  qed
qed simp

lemma digits_ok_earlier: "digits_ok (p + j) ds \<Longrightarrow> digits_ok j ds"
  by (force simp: digits_ok_nth digit_base_def split: if_splits)

lemma mask_high_part:
  fixes v :: u64
  assumes "4 \<le> r" and "r < 64"
  shows "unat (v AND (push_bit r 1 - 16)) = unat v mod 2 ^ r div 16 * 16"
proof -
  have "(push_bit r 1 - 16 :: u64) = push_bit 4 (mask (r - 4))"
    using assms(1) power_add [of "2 :: u64" 4 "r - 4"]
    by (simp add: mask_eq_exp_minus_1 push_bit_eq_mult algebra_simps)
  also have "v AND push_bit 4 (mask (r - 4)) = push_bit 4 (take_bit (r - 4) (drop_bit 4 v))"
    by (rule bit_word_eqI) (auto simp: bit_simps)
  finally have "unat (v AND (push_bit r 1 - 16)) = (unat v div 16 mod 2 ^ (r - 4)) * 16 mod 2 ^ 64"
    by (simp only: unat_push_mod unsigned_take_bit_eq unat_drop_div) (simp add: take_bit_eq_mod)
  also have "unat v div 16 mod 2 ^ (r - 4) = unat v mod 2 ^ r div 16"
  proof -
    have "(2::nat) ^ r = 16 * 2 ^ (r - 4)" using assms(1) power_add [of "2 :: nat" 4 "r - 4"] by simp
    then show ?thesis by (simp add: mod_mult2_eq)
  qed
  also have "unat v mod 2 ^ r div 16 * 16 mod 2 ^ 64 = unat v mod 2 ^ r div 16 * 16"
  proof (rule mod_less)
    have "unat v mod 2 ^ r div 16 * 16 \<le> unat v mod 2 ^ r" by (rule div_times_less_eq_dividend)
    also have "\<dots> \<le> unat v" by (rule mod_less_eq_dividend)
    also have "\<dots> < 2 ^ 64" using unat_less [of v] by simp
    finally show "unat v mod 2 ^ r div 16 * 16 < 2 ^ 64" .
  qed
  finally show ?thesis .
qed

lemma unat_and_15: "unat (v AND 0x0F :: u64) = unat v mod 16"
proof -
  have "v AND 0x0F = take_bit 4 v" by (simp add: take_bit_eq_mask mask_eq_exp_minus_1)
  then show ?thesis by (simp only: unsigned_take_bit_eq) (simp add: take_bit_eq_mod)
qed

text \<open>The result of the shift and masks, when the last dot is at position \<open>k\<close>.\<close>

lemma name_suffix_value:
  fixes v :: u64
  assumes v: "unat v = digits_value 0 (A @ 0 # B)" and ok: "digits_ok 0 (A @ 0 # B)"
    and k: "k = length A" and k12: "k < 12"
  shows "unat (push_bit (5 + 5 * k) (v AND (push_bit (place k) 1 - 16))
           + push_bit (4 + 5 * k) (v AND 0x0F)) = digits_value 0 B"
proof -
  define m where "m = digits_value (Suc k) B"
  have okB: "digits_ok (Suc k) B" using ok k by (simp add: digits_ok_append)
  have w: "weight k = 2 ^ place k" using k12 by (simp add: weight_def)
  have m: "m < 2 ^ place k"
    using digits_value_less [OF okB] k12 w by (simp add: m_def weight_above_Suc)
  have "unat v = digits_value 0 A + m" using v k by (simp add: digits_value_append m_def)
  moreover have "weight k dvd digits_value 0 A"
    using digits_value_dvd [of 0 A k] k by simp
  ultimately have vm: "unat v mod 2 ^ place k = m"
    using m w by (metis mod_less mod_add_left_eq mod_0_imp_dvd add_0 dvd_imp_mod_0)
  have p4: "4 \<le> place k" "place k < 64" "place k + (5 + 5 * k) = 64" using k12 by simp_all
  then have "(2::nat) ^ 4 dvd 2 ^ place k" by (intro le_imp_power_dvd)
  then have "unat v mod 16 = m mod 16" using mod_mod_cancel [of 16 "2 ^ place k" "unat v"] vm by simp
  then have t: "unat (v AND 0x0F) = m mod 16" by (simp add: unat_and_15)
  have move: "digits_value 0 B = m div 16 * 16 * 2 ^ (5 + 5 * k) + m mod 16 * 2 ^ (4 + 5 * k)"
    using digits_value_move [of "Suc k" 0 B] okB by (simp add: m_def)
  moreover have "digits_value 0 B < 2 ^ 64"
    using digits_ok_earlier [of "Suc k" 0 B] okB by (intro digits_value_0_less) simp
  ultimately have lt: "m div 16 * 16 * 2 ^ (5 + 5 * k) < 2 ^ 64" "m mod 16 * 2 ^ (4 + 5 * k) < 2 ^ 64"
    and sum: "m div 16 * 16 * 2 ^ (5 + 5 * k) + m mod 16 * 2 ^ (4 + 5 * k) < 2 ^ 64" by linarith+
  have "unat (push_bit (5 + 5 * k) (v AND (push_bit (place k) 1 - 16))) = m div 16 * 16 * 2 ^ (5 + 5 * k)"
    using lt(1) by (simp only: unat_push_mod mask_high_part [OF p4(1,2)] vm) simp
  moreover have "unat (push_bit (4 + 5 * k) (v AND 0x0F)) = m mod 16 * 2 ^ (4 + 5 * k)"
    using lt(2) by (simp only: unat_push_mod t) simp
  ultimately show ?thesis
    unfolding move using sum by (simp add: unat_word_ariths)
qed

lemma dots_last:
  assumes "ds = A @ 0 # B" and "0 \<notin> set B" and "B \<noteq> []"
  shows "snd (dots j ds s) = place (j + length A)"
  using assms by (cases s; cases "dots j A s") (simp add: dots_append dots_nonzero)

lemma dots_none: "0 \<notin> set ds \<Longrightarrow> snd (dots j ds (0, 0)) = 0"
  by (simp add: dots_nonzero)

text \<open>The loop and the test of the thirteenth character find the last dot.\<close>

lemma name_suffix_last_dot:
  defines "last_dot n \<equiv> snd (dots 0 (name_digits n) (0, 0))"
  shows "name_suffix n =
     (let value = name_value n; shift = 64 - (of_nat (last_dot n) :: u32) in
      if (of_nat (last_dot n) :: u32) = 0 then n
      else \<lparr>name_value = push_bit (unat shift) (value AND (push_bit (unat (of_nat (last_dot n) :: u32)) 1 - 16))
              + push_bit (unat (shift - 1)) (value AND 0x0F)\<rparr>)"
proof -
  let ?v = "name_value n"
  have "unat ?v = unat ?v mod weight_above 0"
    using unat_less [of ?v] by (simp add: weight_above_def digit_base_def weight_def)
  then obtain tmp l where d: "dots 0 (digits_upto 0 (unat ?v)) (0, 0) =
      (if unat ?v mod 16 = 0 then (place 12, l) else (tmp, tmp))"
    and loop: "name_suffix_loop ?v 59 (0, 0) = (of_nat tmp, of_nat l)"
    using name_suffix_loop_dots [of 0 "unat ?v" ?v 0 0] by auto
  have t: "?v AND 0x0F = 0 \<longleftrightarrow> unat ?v mod 16 = 0"
    using unat_and_15 [of ?v] by (metis unat_eq_0)
  have "last_dot n = (if unat ?v mod 16 = 0 then l else tmp)"
    unfolding last_dot_def name_digits_def trim_digits_upto [symmetric] dots_trim [symmetric] d by simp
  then show ?thesis
    using loop t by (simp add: name_suffix_def Let_def)
qed

lemma name_digits_suffix: "name_digits (name_suffix n) = last_segment (name_digits n)"
proof (cases "name_digits n" rule: last_segment_cases)
  case 1
  then have "name_suffix n = n" by (simp add: name_suffix_last_dot dots_none)
  then show ?thesis using 1 by simp
next
  case (2 A B)
  let ?k = "length A"
  note ok = name_digits_ok [of n, unfolded 2(1)]
  have "last (A @ 0 # B) \<noteq> 0"
    using name_digits_trimmed [of n] 2(1) by (metis append_is_Nil_conv list.distinct(1) trimmed_def)
  then have ne: "B \<noteq> []" by auto
  then have k: "?k < 12"
    using length_digits_ok [OF ok] by (cases B) simp_all
  have last: "snd (dots 0 (name_digits n) (0, 0)) = place ?k"
    using dots_last [OF 2(1,2) ne, of 0 "(0, 0)"] by simp
  have r: "unat (of_nat (place ?k) :: u32) = place ?k" by (intro unat_of_nat_small) simp
  have shift: "64 - (of_nat (place ?k) :: u32) = of_nat (5 + 5 * ?k)"
    "of_nat (5 + 5 * ?k) - 1 = (of_nat (4 + 5 * ?k) :: u32)"
    using k by (simp_all add: of_nat_diff)
  have u: "unat (of_nat (5 + 5 * ?k) :: u32) = 5 + 5 * ?k" "unat (of_nat (4 + 5 * ?k) :: u32) = 4 + 5 * ?k"
    using k by (intro unat_of_nat_small; simp)+
  have nz: "(of_nat (place ?k) :: u32) \<noteq> 0"
  proof
    assume "(of_nat (place ?k) :: u32) = 0"
    then have "place ?k = 0" using r by simp
    then show False using k by simp
  qed
  have "unat (name_value (name_suffix n)) = digits_value 0 B"
  proof -
    have "unat (name_value n) = digits_value 0 (A @ 0 # B)" using name_digits_value [of n] 2(1) by simp
    from name_suffix_value [OF this ok refl k] show ?thesis
      unfolding name_suffix_last_dot last Let_def r shift u if_not_P [OF nz] name.select_convs .
  qed
  moreover have "digits_ok 0 B"
    using ok digits_ok_earlier [of "Suc ?k" 0 B] by (simp add: digits_ok_append)
  moreover have "trimmed B"
    using \<open>last (A @ 0 # B) \<noteq> 0\<close> ne by (simp add: trimmed_def)
  ultimately show ?thesis using 2(3) by (simp add: name_digits_unique)
qed

text \<open>In terms of strings: the characters after the last dot.\<close>

definition after_last_dot :: "string \<Rightarrow> string" where
  "after_last_dot s = rev (takeWhile (\<lambda>c. c \<noteq> CHR ''.'') (rev s))"

lemma charmap_dot: "d < 32 \<Longrightarrow> charmap ! d = CHR ''.'' \<longleftrightarrow> d = 0"
  using char_digit_eq_0 [OF charmap_32] by (metis char_digit_charmap)

lemma name_suffix_string: "name_to_string (name_suffix n) = after_last_dot (name_to_string n)"
proof -
  have "takeWhile (\<lambda>c. c \<noteq> CHR ''.'') (map ((!) charmap) ds) = map ((!) charmap) (takeWhile (\<lambda>d. d \<noteq> 0) ds)"
    if "\<forall>d \<in> set ds. d < 32" for ds
    using that by (induction ds) (simp_all add: charmap_dot)
  moreover have "\<forall>d \<in> set (rev (name_digits n)). d < 32"
    using digits_ok_bound [OF name_digits_ok [of n]] by simp
  ultimately show ?thesis
    by (simp add: name_to_string_digits name_digits_suffix last_segment_def after_last_dot_def rev_map)
qed

section \<open>Serialization\<close>

lemma name_collapse [simp]: "\<lparr>name_value = name_value n\<rparr> = n"
  by simp

definition name_image :: "name \<Rightarrow> u8 list" where
  "name_image n = le_bytes 8 (name_value n)"

interpretation name_codec: codec "put_name ss_write" "put_name ds_write" "get_name ds_read"
    name_image "\<lambda>_. True"
proof unfold_locales
  fix n
  show "ssw.writes (put_name ss_write n) (name_image n)" "dsw.writes (put_name ds_write n) (name_image n)"
    using ssw.writes_fields [of "[put_prim ss_write (name_value n)]" "[le_bytes 8 (name_value n)]"]
      dsw.writes_fields [of "[put_prim ds_write (name_value n)]" "[le_bytes 8 (name_value n)]"]
      ssw.writes_prim [of "name_value n"] dsw.writes_prim [of "name_value n"]
    by (simp_all add: put_name_def [abs_def] put_members_def [abs_def] name_image_def del: put_fields.simps)
  show "dsr.reads (get_name ds_read) (name_image n) n"
    using dsr.reads_map [OF u64_codec.get_image [of "name_value n"], of "\<lambda>v. \<lparr>name_value = v\<rparr>"]
    by (simp add: get_name_def [abs_def] name_image_def)
qed

end
