(* ===== verification/Uos_Print.thy ===== *)
theory Uos_Print
  imports Uos_Check
begin

text \<open>
  core/uosio/print.hpp: the overloads of \<open>print\<close> as the list of host calls they make. The
  arguments are the overloads' cases: a C string is its characters before the terminator, a
  floating point number its bits, and an object stands for what its own \<open>print()\<close> calls.
\<close>

datatype print_call =
    Prints string
  | Prints_l string
  | Printi i64
  | Printui u64
  | Printi128 u128
  | Printui128 u128
  | Printsf u32
  | Printdf u64
  | Printqf u128
  | Printn u64
  | Printhex "u8 list"

datatype printable =
    P_cstr string
  | P_signed i64
  | P_int128 u128
  | P_char char
  | P_unsigned u64
  | P_uint128 u128
  | P_bool bool
  | P_float u32
  | P_double u64
  | P_quad u128
  | P_string string
  | P_object "print_call list"

definition printhex :: "u8 list \<Rightarrow> print_call list" where
  "printhex bytes = [Printhex bytes]"

definition printl :: "string \<Rightarrow> print_call list" where
  "printl s = [Prints_l s]"

text \<open>The signed, unsigned, floating and class overloads.\<close>

fun print_signed :: "printable \<Rightarrow> print_call list" where
  "print_signed (P_int128 n) = [Printi128 n]"
| "print_signed (P_char c) = [Prints_l [c]]"
| "print_signed (P_signed n) = [Printi n]"
| "print_signed _ = []"

fun print_unsigned :: "printable \<Rightarrow> print_call list" where
  "print_unsigned (P_uint128 n) = [Printui128 n]"
| "print_unsigned (P_bool b) = [Prints (if b then ''true'' else ''false'')]"
| "print_unsigned (P_unsigned n) = [Printui n]"
| "print_unsigned _ = []"

fun print_floating :: "printable \<Rightarrow> print_call list" where
  "print_floating (P_float n) = [Printsf n]"
| "print_floating (P_double n) = [Printdf n]"
| "print_floating (P_quad n) = [Printqf n]"
| "print_floating _ = []"

fun print_class :: "printable \<Rightarrow> print_call list" where
  "print_class (P_string s) = [Prints_l s]"
| "print_class (P_cstr s) = [Prints s]"
| "print_class (P_object calls) = calls"
| "print_class _ = []"

text \<open>Overload resolution.\<close>

definition print_one :: "printable \<Rightarrow> print_call list" where
  "print_one v = (case v of
     P_signed _ \<Rightarrow> print_signed v | P_int128 _ \<Rightarrow> print_signed v | P_char _ \<Rightarrow> print_signed v
   | P_unsigned _ \<Rightarrow> print_unsigned v | P_uint128 _ \<Rightarrow> print_unsigned v | P_bool _ \<Rightarrow> print_unsigned v
   | P_float _ \<Rightarrow> print_floating v | P_double _ \<Rightarrow> print_floating v | P_quad _ \<Rightarrow> print_floating v
   | _ \<Rightarrow> print_class v)"

fun print_f :: "string \<Rightarrow> printable list \<Rightarrow> print_call list" where
  "print_f s [] = [Prints s]"
| "print_f [] (val # rest) = []"
| "print_f (c # s) (val # rest) =
     (if c = CHR ''%'' then print_one val @ print_f s rest
      else Prints_l [c] # print_f s (val # rest))"

fun print_all :: "printable list \<Rightarrow> print_call list" where
  "print_all [] = []"
| "print_all (a # args) = print_one a @ print_all args"

definition cout_put :: "print_call list \<Rightarrow> printable \<Rightarrow> print_call list" where
  "cout_put out v = out @ print_one v"

section \<open>Format strings\<close>

text \<open>A format with one text before each argument, and one after the last.\<close>

fun format_of :: "string list \<Rightarrow> string \<Rightarrow> string" where
  "format_of [] final = final"
| "format_of (t # ts) final = t @ CHR ''%'' # format_of ts final"

fun formatted :: "string list \<Rightarrow> string \<Rightarrow> printable list \<Rightarrow> print_call list" where
  "formatted (t # ts) final (v # vs) =
     map (\<lambda>c. Prints_l [c]) t @ print_one v @ formatted ts final vs"
| "formatted ts final vs = [Prints final]"

lemma print_f_text:
  "CHR ''%'' \<notin> set t \<Longrightarrow>
   print_f (t @ s) (v # vs) = map (\<lambda>c. Prints_l [c]) t @ print_f s (v # vs)"
  by (induction t) auto

lemma print_f_format:
  "length ts = length vs \<Longrightarrow> \<forall>t \<in> set ts. CHR ''%'' \<notin> set t \<Longrightarrow>
   print_f (format_of ts final) vs = formatted ts final vs"
proof (induction vs arbitrary: ts)
  case (Cons v vs)
  then obtain t ts' where "ts = t # ts'" by (cases ts) auto
  with Cons show ?case by (simp add: print_f_text)
qed simp

text \<open>Arguments beyond the last percent sign are dropped, and the text before them is printed.\<close>

lemma print_f_surplus:
  "CHR ''%'' \<notin> set s \<Longrightarrow> vs \<noteq> [] \<Longrightarrow> print_f s vs = map (\<lambda>c. Prints_l [c]) s"
  using print_f_text [of s "[]"] by (cases vs) auto

end
