(* ===== verification/Uos_Symbol.thy ===== *)
theory Uos_Symbol
  imports Uos_Name Uos_Print
begin

text \<open>
  core/uosio/symbol.hpp: symbol codes of up to seven capital letters, first letter in the lowest
  byte; symbols, a code above a byte of precision; extended symbols, which add a contract. The
  lemmas read a code as the little-endian bytes of its letters.
\<close>

section \<open>symbol\_code\<close>

record symbol_code =
  code_value :: u64

definition symbol_code_of_raw :: "u64 \<Rightarrow> symbol_code" where
  "symbol_code_of_raw v = \<lparr>code_value = v\<rparr>"

text \<open>The loop of the constructor, over the characters from last to first.\<close>

fun symbol_code_accumulate :: "string \<Rightarrow> u64 \<Rightarrow> u64 res" where
  "symbol_code_accumulate [] v = Inr v"
| "symbol_code_accumulate (c # cs) v =
     bind_res (check (\<not> (c < CHR ''A'' \<or> c > CHR ''Z'')) ''only uppercase letters allowed in symbol_code string'') (\<lambda>_.
     symbol_code_accumulate cs (push_bit 8 v OR of_nat (of_char c)))"

definition symbol_code_of_string :: "string \<Rightarrow> symbol_code res" where
  "symbol_code_of_string str =
     bind_res (check (\<not> length str > 7) ''string is too long to be a valid symbol_code'') (\<lambda>_.
     bind_res (symbol_code_accumulate (rev str) 0) (\<lambda>v. Inr \<lparr>code_value = v\<rparr>))"

text \<open>
  \<open>is_valid\<close>: the inner \<open>do ... while\<close> gives the values of \<open>i\<close> and \<open>sm\<close> it ends with, or
  nothing when it returns \<open>false\<close>.
\<close>

function code_valid_rest :: "nat \<Rightarrow> u64 \<Rightarrow> (nat \<times> u64) option" where
  "code_valid_rest i sm =
     (let sm = drop_bit 8 sm in
      if sm AND 0xFF \<noteq> 0 then None
      else if i + 1 < 7 then code_valid_rest (i + 1) sm
      else Some (i + 1, sm))"
  by pat_completeness auto
termination by (relation "measure (\<lambda>(i, sm). 7 - i)") auto

declare code_valid_rest.simps [simp del]

lemma code_valid_rest_index: "code_valid_rest i sm = Some (j, sm') \<Longrightarrow> i < j"
proof (induction i sm rule: code_valid_rest.induct)
  case (1 i sm)
  then show ?case
    by (subst (asm) (2) code_valid_rest.simps) (auto simp: Let_def split: if_splits)
qed

function code_valid_loop :: "nat \<Rightarrow> u64 \<Rightarrow> bool" where
  "code_valid_loop i sm =
     (if i < 7 then
        let c = sm AND 0xFF in
        if \<not> (65 \<le> c \<and> c \<le> 90) then False
        else
          let sm = drop_bit 8 sm in
          if sm AND 0xFF = 0 then
            (case code_valid_rest i sm of None \<Rightarrow> False | Some (j, sm) \<Rightarrow> code_valid_loop (j + 1) sm)
          else code_valid_loop (i + 1) sm
      else True)"
  by pat_completeness auto
termination
  by (relation "measure (\<lambda>(i, sm). 7 - i)") (auto dest!: code_valid_rest_index)

declare code_valid_loop.simps [simp del]

definition symbol_code_is_valid :: "symbol_code \<Rightarrow> bool" where
  "symbol_code_is_valid sc = code_valid_loop 0 (code_value sc)"

function code_length_loop :: "u32 \<Rightarrow> u64 \<Rightarrow> u32" where
  "code_length_loop len sm =
     (if sm AND 0xFF \<noteq> 0 \<and> len \<le> 7 then code_length_loop (len + 1) (drop_bit 8 sm) else len)"
  by pat_completeness auto
termination
proof (relation "measure (\<lambda>(len, sm). 8 - unat len)")
  fix len :: u32 and sm :: u64
  assume "sm AND 0xFF \<noteq> 0 \<and> len \<le> 7"
  then have "unat len \<le> 7" by (simp add: word_le_nat_alt)
  then have "unat (len + 1) = unat len + 1" by (simp add: unat_word_ariths)
  then show "((len + 1, drop_bit 8 sm), (len, sm)) \<in> measure (\<lambda>(len, sm). 8 - unat len)"
    using \<open>unat len \<le> 7\<close> by simp
qed simp

declare code_length_loop.simps [simp del]

definition symbol_code_length :: "symbol_code \<Rightarrow> u32" where
  "symbol_code_length sc = code_length_loop 0 (code_value sc)"

definition symbol_code_raw :: "symbol_code \<Rightarrow> u64" where
  "symbol_code_raw sc = code_value sc"

definition symbol_code_bool :: "symbol_code \<Rightarrow> bool" where
  "symbol_code_bool sc \<longleftrightarrow> code_value sc \<noteq> 0"

function code_write_loop :: "nat \<Rightarrow> u64 \<Rightarrow> u32 \<Rightarrow> (u32 \<Rightarrow> char) \<Rightarrow> u32 \<times> (u32 \<Rightarrow> char)" where
  "code_write_loop i v begin_p mem =
     (if i < 7 then
        if v = 0 then (begin_p, mem)
        else code_write_loop (i + 1) (drop_bit 8 v) (begin_p + 1) (mem(begin_p := char_of (unat (v AND 0xFF))))
      else (begin_p, mem))"
  by pat_completeness auto
termination by (relation "measure (\<lambda>(i, v, b, m). 7 - i)") auto

declare code_write_loop.simps [simp del]

definition symbol_code_write_as_string :: "symbol_code \<Rightarrow> u32 \<Rightarrow> u32 \<Rightarrow> (u32 \<Rightarrow> char) \<Rightarrow> u32 \<times> (u32 \<Rightarrow> char)" where
  "symbol_code_write_as_string sc begin_p end_p mem =
     (if begin_p + 7 < begin_p \<or> begin_p + 7 > end_p then (begin_p, mem)
      else code_write_loop 0 (code_value sc) begin_p mem)"

definition symbol_code_to_string :: "symbol_code \<Rightarrow> string" where
  "symbol_code_to_string sc =
     (let (end_p, buffer) = symbol_code_write_as_string sc 0 7 (\<lambda>_. CHR 0x00)
      in mem_range buffer 0 end_p)"

definition symbol_code_print :: "symbol_code \<Rightarrow> print_call list" where
  "symbol_code_print sc =
     (let (end_p, buffer) = symbol_code_write_as_string sc 0 7 (\<lambda>_. CHR 0x00)
      in if 0 < end_p then printl (mem_range buffer 0 end_p) else [])"

definition symbol_code_eq :: "symbol_code \<Rightarrow> symbol_code \<Rightarrow> bool" where
  "symbol_code_eq a b \<longleftrightarrow> code_value a = code_value b"

definition symbol_code_neq :: "symbol_code \<Rightarrow> symbol_code \<Rightarrow> bool" where
  "symbol_code_neq a b \<longleftrightarrow> code_value a \<noteq> code_value b"

definition symbol_code_less :: "symbol_code \<Rightarrow> symbol_code \<Rightarrow> bool" where
  "symbol_code_less a b \<longleftrightarrow> code_value a < code_value b"

definition put_symbol_code :: "(u8 list \<Rightarrow> 's \<Rightarrow> 's res) \<Rightarrow> symbol_code \<Rightarrow> 's \<Rightarrow> 's res" where
  "put_symbol_code wr sc ds = wr (le_bytes 8 (symbol_code_raw sc)) ds"

definition get_symbol_code :: "(u32 \<Rightarrow> 's \<Rightarrow> (u8 list \<times> 's) res) \<Rightarrow> 's \<Rightarrow> (symbol_code \<times> 's) res" where
  "get_symbol_code rd ds =
     bind_res (rd 8 ds) (\<lambda>(raw, ds). Inr (symbol_code_of_raw (le_word raw), ds))"

section \<open>symbol\<close>

record symbol =
  symbol_value :: u64

definition symbol_default :: symbol where
  "symbol_default = \<lparr>symbol_value = 0\<rparr>"

definition symbol_of_raw :: "u64 \<Rightarrow> symbol" where
  "symbol_of_raw v = \<lparr>symbol_value = v\<rparr>"

definition symbol_of_code :: "symbol_code \<Rightarrow> u8 \<Rightarrow> symbol" where
  "symbol_of_code sc precision = \<lparr>symbol_value = push_bit 8 (symbol_code_raw sc) OR ucast precision\<rparr>"

definition symbol_of_string :: "string \<Rightarrow> u8 \<Rightarrow> symbol res" where
  "symbol_of_string ss precision =
     bind_res (symbol_code_of_string ss) (\<lambda>sc.
     Inr \<lparr>symbol_value = push_bit 8 (symbol_code_raw sc) OR ucast precision\<rparr>)"

definition symbol_precision :: "symbol \<Rightarrow> u8" where
  "symbol_precision s = ucast (symbol_value s AND 0xFF)"

definition symbol_code_of :: "symbol \<Rightarrow> symbol_code" where
  "symbol_code_of s = symbol_code_of_raw (drop_bit 8 (symbol_value s))"

definition symbol_is_valid :: "symbol \<Rightarrow> bool" where
  "symbol_is_valid s = symbol_code_is_valid (symbol_code_of s)"

definition symbol_raw :: "symbol \<Rightarrow> u64" where
  "symbol_raw s = symbol_value s"

definition symbol_bool :: "symbol \<Rightarrow> bool" where
  "symbol_bool s \<longleftrightarrow> symbol_value s \<noteq> 0"

text \<open>
  The buffer goes to the two-argument \<open>print\<close>, as a C string and then its length as a signed
  integer. The buffer is not initialised and has no room for a terminator: \<open>mem\<close> is what it
  held, and \<open>after\<close> the bytes behind it, which the host reads up to the first zero.
\<close>

definition symbol_print :: "symbol \<Rightarrow> bool \<Rightarrow> (u32 \<Rightarrow> char) \<Rightarrow> string \<Rightarrow> print_call list" where
  "symbol_print s show_precision mem after =
     (let out = (if show_precision
                 then print_all [P_unsigned (ucast (symbol_precision s)), P_cstr '','']
                 else []);
          (end_p, buffer) = symbol_code_write_as_string (symbol_code_of s) 0 7 mem
      in if 0 < end_p then
           out @ print_all [P_cstr (c_string (mem_range buffer 0 7 @ after)), P_signed (ucast end_p)]
         else out)"

definition symbol_eq :: "symbol \<Rightarrow> symbol \<Rightarrow> bool" where
  "symbol_eq a b \<longleftrightarrow> symbol_value a = symbol_value b"

definition symbol_neq :: "symbol \<Rightarrow> symbol \<Rightarrow> bool" where
  "symbol_neq a b \<longleftrightarrow> symbol_value a \<noteq> symbol_value b"

definition symbol_less :: "symbol \<Rightarrow> symbol \<Rightarrow> bool" where
  "symbol_less a b \<longleftrightarrow> symbol_value a < symbol_value b"

definition put_symbol :: "(u8 list \<Rightarrow> 's \<Rightarrow> 's res) \<Rightarrow> symbol \<Rightarrow> 's \<Rightarrow> 's res" where
  "put_symbol wr s ds = wr (le_bytes 8 (symbol_raw s)) ds"

definition get_symbol :: "(u32 \<Rightarrow> 's \<Rightarrow> (u8 list \<times> 's) res) \<Rightarrow> 's \<Rightarrow> (symbol \<times> 's) res" where
  "get_symbol rd ds = bind_res (rd 8 ds) (\<lambda>(raw, ds). Inr (symbol_of_raw (le_word raw), ds))"

section \<open>extended\_symbol\<close>

record extended_symbol =
  ext_symbol :: symbol
  ext_contract :: name

definition extended_symbol_of :: "symbol \<Rightarrow> name \<Rightarrow> extended_symbol" where
  "extended_symbol_of sm con = \<lparr>ext_symbol = sm, ext_contract = con\<rparr>"

definition extended_get_symbol :: "extended_symbol \<Rightarrow> symbol" where
  "extended_get_symbol e = ext_symbol e"

definition extended_get_contract :: "extended_symbol \<Rightarrow> name" where
  "extended_get_contract e = ext_contract e"

definition name_print :: "name \<Rightarrow> print_call list" where
  "name_print n = [Printn (name_value n)]"

definition extended_symbol_print :: "extended_symbol \<Rightarrow> bool \<Rightarrow> (u32 \<Rightarrow> char) \<Rightarrow> string \<Rightarrow> print_call list" where
  "extended_symbol_print e show_precision mem after =
     symbol_print (ext_symbol e) show_precision mem after
       @ print_all [P_cstr ''@'', P_object (name_print (ext_contract e))]"

definition extended_symbol_eq :: "extended_symbol \<Rightarrow> extended_symbol \<Rightarrow> bool" where
  "extended_symbol_eq a b \<longleftrightarrow>
     symbol_eq (ext_symbol a) (ext_symbol b) \<and> name_eq (ext_contract a) (ext_contract b)"

definition extended_symbol_neq :: "extended_symbol \<Rightarrow> extended_symbol \<Rightarrow> bool" where
  "extended_symbol_neq a b \<longleftrightarrow>
     \<not> (symbol_eq (ext_symbol a) (ext_symbol b) \<and> name_eq (ext_contract a) (ext_contract b))"

text \<open>\<open>std::tie\<close> compares the components in order, each with its own \<open><\<close>.\<close>

definition extended_symbol_less :: "extended_symbol \<Rightarrow> extended_symbol \<Rightarrow> bool" where
  "extended_symbol_less a b \<longleftrightarrow>
     symbol_less (ext_symbol a) (ext_symbol b) \<or>
     \<not> symbol_less (ext_symbol b) (ext_symbol a) \<and> name_less (ext_contract a) (ext_contract b)"

definition put_extended_symbol :: "(u8 list \<Rightarrow> 's \<Rightarrow> 's res) \<Rightarrow> extended_symbol \<Rightarrow> 's \<Rightarrow> 's res" where
  "put_extended_symbol wr e ds =
     put_members [put_symbol wr (ext_symbol e), put_name wr (ext_contract e)] ds"

definition get_extended_symbol :: "(u32 \<Rightarrow> 's \<Rightarrow> (u8 list \<times> 's) res) \<Rightarrow> 's \<Rightarrow> (extended_symbol \<times> 's) res" where
  "get_extended_symbol rd ds =
     bind_res (get_symbol rd ds) (\<lambda>(s, ds). bind_res (get_name rd ds) (\<lambda>(n, ds).
     Inr (\<lparr>ext_symbol = s, ext_contract = n\<rparr>, ds)))"

section \<open>Codes as bytes\<close>

lemma le_word_Cons:
  assumes "length bs < 8"
  shows "(le_word (b # bs) :: u64) AND 0xFF = ucast b"
    and "drop_bit 8 (le_word (b # bs) :: u64) = le_word bs"
proof -
  let ?w = "le_word (b # bs) :: u64"
  have le: "le_bytes (Suc (length bs)) ?w = b # bs"
    using le_bytes_word [of "b # bs", where 'a = 64] assms by (simp del: le_word.simps le_bytes.simps)
  then have "ucast ?w = b" and high: "le_bytes (length bs) (drop_bit 8 ?w) = bs" by (simp_all del: le_word.simps)
  moreover have "?w AND 0xFF = ucast (ucast ?w :: u8)"
  proof -
    have "?w AND 0xFF = take_bit 8 ?w" by (simp add: take_bit_eq_mask mask_eq_exp_minus_1)
    also have "\<dots> = ucast (ucast ?w :: u8)"
      by (rule bit_word_eqI) (auto simp: bit_simps simp del: le_word.simps dest: bit_imp_le_length)
    finally show ?thesis .
  qed
  ultimately show "?w AND 0xFF = ucast b" by simp
  have "bit (le_word bs :: u64) i \<Longrightarrow> i < 8 * length bs" for i
    using bit_le_word_bytes [of "length bs" "le_word bs :: u64" i] le_bytes_word [of bs, where 'a = 64] assms
    by auto
  then show "drop_bit 8 ?w = le_word bs"
    using assms by (intro bit_word_eqI) (fastforce simp: bit_simps dest: bit_imp_le_length)
qed

lemma le_word_eq_0:
  assumes "length bs \<le> 8"
  shows "(le_word bs :: u64) = 0 \<longleftrightarrow> (\<forall>b \<in> set bs. b = 0)"
proof
  have z: "le_bytes n (0 :: u64) = replicate n 0" for n by (induction n) simp_all
  assume "(le_word bs :: u64) = 0"
  then have "bs = replicate (length bs) 0"
    using le_bytes_word [of bs, where 'a = 64] assms z by simp
  then show "\<forall>b \<in> set bs. b = 0" by (metis in_set_replicate)
next
  show "\<forall>b \<in> set bs. b = 0 \<Longrightarrow> (le_word bs :: u64) = 0" by (induction bs) simp_all
qed

lemma le_word_less: "length bs \<le> 8 \<Longrightarrow> unat (le_word bs :: u64) < 2 ^ (8 * length bs)"
proof (induction bs)
  case (Cons b bs)
  then have w: "unat (le_word bs :: u64) < 2 ^ (8 * length bs)" by simp
  also have "(2::nat) ^ (8 * length bs) \<le> 2 ^ 56" using Cons.prems by (intro power_increasing) simp_all
  finally have "unat (push_bit 8 (le_word bs :: u64)) = unat (le_word bs :: u64) * 2 ^ 8"
    by (simp add: unat_push_mod)
  moreover have b: "unat (ucast b :: u64) < 2 ^ 8" using unat_less [of b] by (simp add: unat_ucast_up)
  ultimately have "unat (le_word (b # bs) :: u64) = unat (ucast b :: u64) + unat (le_word bs :: u64) * 2 ^ 8"
    using unat_or_shift [of "ucast b :: u64" 8] by simp
  then show ?case using b w by (simp add: power_add)
qed simp

definition code_bytes :: "symbol_code \<Rightarrow> u8 list" where
  "code_bytes sc = le_bytes 8 (code_value sc)"

definition letter :: "u8 \<Rightarrow> bool" where
  "letter b \<longleftrightarrow> 65 \<le> b \<and> b \<le> 90"

text \<open>The bytes of a code in memory order, and its value from them.\<close>

lemma length_code_bytes [simp]: "length (code_bytes sc) = 8"
  by (simp add: code_bytes_def)

lemma le_word_code_bytes [simp]: "le_word (code_bytes sc) = code_value sc"
  by (simp add: code_bytes_def)

lemma code_bytes_value: "length bs = 8 \<Longrightarrow> code_bytes \<lparr>code_value = le_word bs\<rparr> = bs"
  using le_bytes_word [of bs, where 'a = 64] by (simp add: code_bytes_def)

lemma u8_zero: "(ucast (b :: u8) :: u64) = 0 \<longleftrightarrow> b = 0"
proof -
  have "unat (ucast b :: u64) = unat b" by (simp add: unat_ucast_up)
  then show ?thesis by (metis unat_eq_0)
qed

subsection \<open>Parsing and printing\<close>

definition capitals :: "string \<Rightarrow> bool" where
  "capitals s \<longleftrightarrow> (\<forall>c \<in> set s. CHR ''A'' \<le> c \<and> c \<le> CHR ''Z'')"

lemma symbol_code_accumulate_eq:
  "symbol_code_accumulate cs (le_word bs) =
     (if capitals cs then Inr (le_word (bytes_of_string (rev cs) @ bs))
      else Inl (Assertion ''only uppercase letters allowed in symbol_code string''))"
proof (induction cs arbitrary: bs)
  case (Cons c cs)
  have "(of_nat (of_char c) :: u64) = ucast (of_nat (of_char c) :: u8)"
  proof (rule word_unat_eq_iff [THEN iffD2])
    have "(of_char c :: nat) < 256" by simp
    then show "unat (of_nat (of_char c) :: u64) = unat (ucast (of_nat (of_char c) :: u8) :: u64)"
      by (simp add: unat_ucast_up unat_of_nat_mod less_trans [of _ 256])
  qed
  then have "push_bit 8 (le_word bs) OR of_nat (of_char c) = (le_word (of_nat (of_char c) # bs) :: u64)"
    by (simp add: or.commute)
  then show ?case
    using Cons.IH [of "of_nat (of_char c) # bs"]
    by (auto simp: bind_check capitals_def bytes_of_string_def not_less)
qed (simp add: capitals_def bytes_of_string_def)

lemma symbol_code_of_string_eq:
  "symbol_code_of_string str =
     (if length str > 7 then Inl (Assertion ''string is too long to be a valid symbol_code'')
      else if \<not> capitals str
      then Inl (Assertion ''only uppercase letters allowed in symbol_code string'')
      else Inr \<lparr>code_value = le_word (bytes_of_string str)\<rparr>)"
  using symbol_code_accumulate_eq [of "rev str" "[]"]
  by (auto simp: symbol_code_of_string_def bind_check capitals_def)

text \<open>The bytes up to the last one that is not zero.\<close>

fun trim_bytes :: "u8 list \<Rightarrow> u8 list" where
  "trim_bytes [] = []"
| "trim_bytes (b # bs) = (if b = 0 \<and> trim_bytes bs = [] then [] else b # trim_bytes bs)"

lemma trim_bytes_eq_Nil: "trim_bytes bs = [] \<longleftrightarrow> (\<forall>b \<in> set bs. b = 0)"
  by (induction bs) auto

lemma code_write_loop_bytes:
  "i \<le> 7 \<Longrightarrow> length bs = 8 - i \<Longrightarrow>
   code_write_loop i (le_word bs) b mem =
     (let s = string_of_bytes (take (7 - i) (trim_bytes bs)) in (b + of_nat (length s), write_string b s mem))"
proof (induction "7 - i" arbitrary: i bs b mem)
  case 0
  then show ?case by (subst code_write_loop.simps) (simp add: string_of_bytes_def)
next
  case (Suc k)
  then obtain x xs where bs: "bs = x # xs" "length xs = 7 - i" by (cases bs) auto
  show ?case
  proof (cases "le_word bs = (0 :: u64)")
    case True
    then have "trim_bytes bs = []" using Suc.prems le_word_eq_0 [of bs] by (simp add: trim_bytes_eq_Nil)
    then show ?thesis using True by (subst code_write_loop.simps) (simp add: string_of_bytes_def)
  next
    case False
    then have "trim_bytes bs = x # trim_bytes xs"
      using le_word_eq_0 [of bs] Suc.prems bs trim_bytes_eq_Nil [of bs] by auto
    moreover have "7 - i = Suc (7 - Suc i)" using Suc.hyps(2) by simp
    moreover have "unat (le_word bs AND 0xFF :: u64) = unat x"
      using le_word_Cons(1) [of xs x] bs by (simp add: unat_ucast_up del: le_word.simps)
    moreover have "drop_bit 8 (le_word bs :: u64) = le_word xs"
      using le_word_Cons(2) [of xs x] bs Suc.hyps(2) by simp
    ultimately show ?thesis
      using False Suc.hyps(1) [of "Suc i" xs] Suc.hyps(2) bs(2)
      by (subst code_write_loop.simps) (simp add: string_of_bytes_def Let_def add.assoc)
  qed
qed

lemma symbol_code_to_string_eq:
  "symbol_code_to_string sc = string_of_bytes (take 7 (trim_bytes (code_bytes sc)))"
proof -
  let ?s = "string_of_bytes (take 7 (trim_bytes (code_bytes sc)))"
  have "length ?s \<le> 7" by (simp add: string_of_bytes_def)
  then have "mem_range (write_string 0 ?s mem) 0 (0 + of_nat (length ?s)) = ?s" for mem
    by (intro mem_range_write_string) simp
  then show ?thesis
    using code_write_loop_bytes [of 0 "code_bytes sc" 0]
    by (simp add: symbol_code_to_string_def symbol_code_write_as_string_def Let_def)
qed

lemma le_word_replicate_0: "le_word (replicate n 0) = 0"
  by (induction n) simp_all

lemma le_word_append_zeros: "le_word (bs @ replicate n 0) = le_word bs"
  by (induction bs) (simp_all add: le_word_replicate_0)

lemma capitals_bytes: "capitals s \<Longrightarrow> b \<in> set (bytes_of_string s) \<Longrightarrow> letter b"
proof -
  assume "capitals s" "b \<in> set (bytes_of_string s)"
  then obtain c where c: "b = of_nat (of_char c)" "CHR ''A'' \<le> c" "c \<le> CHR ''Z''"
    by (auto simp: capitals_def bytes_of_string_def)
  then have "65 \<le> (of_char c :: nat)" "(of_char c :: nat) \<le> 90" by (simp_all add: less_eq_char_def)
  then show "letter b" using c(1) by (simp add: letter_def word_le_nat_alt unat_of_nat_mod)
qed

lemma letter_byte: "(65 \<le> (ucast b :: u64) \<and> (ucast b :: u64) \<le> 90) \<longleftrightarrow> letter b"
proof -
  have "unat (ucast b :: u64) = unat b" by (simp add: unat_ucast_up)
  then show ?thesis by (simp add: letter_def word_le_nat_alt)
qed

lemma letter_nonzero: "letter b \<Longrightarrow> b \<noteq> 0"
  by (auto simp: letter_def)

lemma trim_bytes_append_zeros: "\<forall>b \<in> set bs. b \<noteq> 0 \<Longrightarrow> trim_bytes (bs @ replicate n 0) = bs"
  by (induction bs) (auto simp: trim_bytes_eq_Nil)

lemma symbol_code_to_string_of_string:
  assumes "symbol_code_of_string s = Inr sc"
  shows "symbol_code_to_string sc = s"
    and "code_bytes sc = bytes_of_string s @ replicate (8 - length s) 0"
proof -
  let ?bs = "bytes_of_string s @ replicate (8 - length s) 0"
  have len: "length s \<le> 7" and cap: "capitals s" and sc: "sc = \<lparr>code_value = le_word ?bs\<rparr>"
    using assms by (auto simp: symbol_code_of_string_eq le_word_append_zeros split: if_splits)
  then show bytes: "code_bytes sc = ?bs" using code_bytes_value [of ?bs] by simp
  have "trim_bytes ?bs = bytes_of_string s"
    using cap capitals_bytes letter_nonzero by (intro trim_bytes_append_zeros) blast
  then show "symbol_code_to_string sc = s" using len by (simp add: symbol_code_to_string_eq bytes)
qed

subsection \<open>Validity\<close>

lemma code_valid_rest_eq:
  "i < 7 \<Longrightarrow> length bs = 7 - i \<Longrightarrow>
   code_valid_rest i (le_word bs) = (if \<forall>b \<in> set (tl bs). b = 0 then Some (7, 0) else None)"
proof (induction "6 - i" arbitrary: i bs)
  case 0
  then have i: "i = 6" by simp
  with 0 obtain x where bs: "bs = [x]" by (cases bs) auto
  then show ?case
    using i le_word_Cons(2) [of "[]" x] by (subst code_valid_rest.simps) (simp del: le_word.simps(2))
next
  case (Suc k)
  then obtain x y ys where bs: "bs = x # y # ys" "length ys = 5 - i"
    by (cases bs; cases "tl bs") auto
  then have "drop_bit 8 (le_word bs :: u64) = le_word (y # ys)" "le_word (y # ys) AND 0xFF = (ucast y :: u64)"
    using le_word_Cons(2) [of "y # ys" x] le_word_Cons(1) [of ys y] Suc.hyps(2)
    by (simp_all del: le_word.simps)
  moreover have "code_valid_rest (i + 1) (le_word (y # ys)) =
      (if \<forall>b \<in> set ys. b = 0 then Some (7, 0) else None)"
    using Suc.hyps(1) [of "i + 1" "y # ys"] Suc.hyps(2) bs by (simp del: le_word.simps)
  moreover have "i < 6" using Suc.hyps(2) by simp
  ultimately show ?case
    unfolding bs(1) by (cases "y = 0"; subst code_valid_rest.simps)
      (simp_all add: Let_def u8_zero del: le_word.simps)
qed

definition letters_then_zeros :: "u8 list \<Rightarrow> bool" where
  "letters_then_zeros bs \<longleftrightarrow>
     (let n = length (takeWhile letter bs) in
      1 \<le> n \<and> (length bs \<le> n + 1 \<or> (\<forall>b \<in> set (drop n bs). b = 0)))"

lemma letters_then_zeros_Cons:
  "letters_then_zeros (x # y # ys) \<longleftrightarrow>
     letter x \<and> (ys = [] \<or> (if y = 0 then \<forall>b \<in> set ys. b = 0 else letters_then_zeros (y # ys)))"
  using letter_nonzero [of y] by (cases ys) (auto simp: letters_then_zeros_def Let_def)

lemma code_valid_loop_eq:
  "i < 7 \<Longrightarrow> length bs = 8 - i \<Longrightarrow> code_valid_loop i (le_word bs) = letters_then_zeros bs"
proof (induction "6 - i" arbitrary: i bs)
  case 0
  then have i: "i = 6" by simp
  with 0 obtain x y where bs: "bs = [x, y]"
    by (cases bs; cases "tl bs"; cases "tl (tl bs)") auto
  have end_of_loop: "code_valid_loop j w" if "7 \<le> j" for j w
    using that by (subst code_valid_loop.simps) simp
  have "code_valid_rest 6 (le_word [y]) = Some (7, 0)"
    using code_valid_rest_eq [of 6 "[y]"] by (simp del: le_word.simps)
  then show ?case
    using le_word_Cons [of "[y]" x] unfolding i bs letters_then_zeros_Cons
    by (subst code_valid_loop.simps)
      (simp add: Let_def end_of_loop del: le_word.simps flip: letter_byte)
next
  case (Suc k)
  then obtain x y ys where bs: "bs = x # y # ys" "length ys = 6 - i"
    by (cases bs; cases "tl bs") auto
  then have "ys \<noteq> []" using Suc.hyps(2) by auto
  have "code_valid_rest i (le_word (y # ys)) = (if \<forall>b \<in> set ys. b = 0 then Some (7, 0) else None)"
    using code_valid_rest_eq [of i "y # ys"] Suc.hyps(2) bs(2) by (simp del: le_word.simps)
  moreover have "code_valid_loop 8 w" for w by (subst code_valid_loop.simps) simp
  moreover have "code_valid_loop (i + 1) (le_word (y # ys)) = letters_then_zeros (y # ys)"
    using Suc.hyps(1) [of "i + 1" "y # ys"] Suc.hyps(2) bs(2) by (simp del: le_word.simps)
  moreover have "le_word (y # ys) AND 0xFF = (ucast y :: u64)"
    using le_word_Cons(1) [of ys y] Suc.hyps(2) bs(2) by (simp del: le_word.simps)
  moreover have "le_word (x # y # ys) AND 0xFF = (ucast x :: u64)"
    and "drop_bit 8 (le_word (x # y # ys) :: u64) = le_word (y # ys)" and "i < 6"
    using le_word_Cons [of "y # ys" x] Suc.hyps(2) bs(2) by (simp_all del: le_word.simps)
  ultimately show ?case
    using \<open>ys \<noteq> []\<close> unfolding bs(1) letters_then_zeros_Cons
    by (cases "y = 0"; cases "letter x"; subst code_valid_loop.simps)
      (auto simp: Let_def u8_zero simp del: le_word.simps simp flip: letter_byte)
qed

lemma symbol_code_is_valid_eq: "symbol_code_is_valid sc \<longleftrightarrow> letters_then_zeros (code_bytes sc)"
  using code_valid_loop_eq [of 0 "code_bytes sc"] by (simp add: symbol_code_is_valid_def)

lemma bytes_of_string_of_bytes [simp]: "bytes_of_string (string_of_bytes bs) = bs"
proof -
  have "of_nat (unat b mod 256) = b" for b :: u8
    using unat_less [of b] by simp
  then show ?thesis by (simp add: bytes_of_string_def string_of_bytes_def map_idI)
qed

lemma capitals_of_letters: "\<forall>b \<in> set bs. letter b \<Longrightarrow> capitals (string_of_bytes bs)"
  by (auto simp: capitals_def string_of_bytes_def letter_def less_eq_char_def word_le_nat_alt)

lemma code_bytes_top:
  assumes "code_value sc < 2 ^ 56"
  shows "code_bytes sc ! 7 = 0"
proof -
  have "unat (code_value sc) < 2 ^ 56" using assms by (simp add: word_less_nat_alt)
  then have "drop_bit 56 (code_value sc) = 0"
    by (metis div_less unat_drop_div unat_eq_0)
  moreover have "code_bytes sc ! 7 = ucast (drop_bit 56 (code_value sc))"
    by (simp add: code_bytes_def numeral_eq_Suc)
  ultimately show ?thesis by simp
qed

text \<open>A valid code whose top byte is clear is the code of its own string, and conversely.\<close>

lemma symbol_code_of_string_to_string:
  assumes "symbol_code_is_valid sc" and "code_value sc < 2 ^ 56"
  shows "symbol_code_of_string (symbol_code_to_string sc) = Inr sc" and "symbol_code_to_string sc \<noteq> []"
proof -
  let ?bs = "code_bytes sc" and ?n = "length (takeWhile letter (code_bytes sc))"
  have v: "1 \<le> ?n" "8 \<le> ?n + 1 \<or> (\<forall>b \<in> set (drop ?n ?bs). b = 0)"
    using assms(1) by (simp_all add: symbol_code_is_valid_eq letters_then_zeros_def Let_def)
  have top: "?bs ! 7 = 0" using assms(2) by (rule code_bytes_top)
  have n: "?n \<le> 7"
  proof (rule ccontr)
    assume "\<not> ?n \<le> 7"
    then have "letter (?bs ! 7)" by (metis not_le nth_mem set_takeWhileD takeWhile_nth)
    then show False using top letter_nonzero by blast
  qed
  have zeros: "\<forall>b \<in> set (drop ?n ?bs). b = 0"
  proof (cases "?n = 7")
    case True
    have "drop 7 ?bs = [?bs ! 7]" using Cons_nth_drop_Suc [of 7 ?bs] by simp
    then show ?thesis using True top by simp
  qed (use v n in auto)
  define s where "s = string_of_bytes (take ?n ?bs)"
  have take: "take ?n ?bs = takeWhile letter ?bs" by (rule takeWhile_eq_take [symmetric])
  have "capitals s" unfolding s_def take by (intro capitals_of_letters) (auto dest: set_takeWhileD)
  moreover have len: "length s = ?n" by (simp add: s_def take string_of_bytes_def)
  moreover have "le_word (bytes_of_string s) = code_value sc"
  proof -
    have "drop ?n ?bs = replicate (length (drop ?n ?bs)) 0"
      using zeros by (metis replicate_length_same)
    then have "?bs = bytes_of_string s @ replicate (8 - ?n) 0"
      by (metis append_take_drop_id bytes_of_string_of_bytes length_code_bytes length_drop s_def)
    then show ?thesis by (metis le_word_append_zeros le_word_code_bytes)
  qed
  ultimately have ctor: "symbol_code_of_string s = Inr sc"
    using n by (simp add: symbol_code_of_string_eq)
  then show "symbol_code_of_string (symbol_code_to_string sc) = Inr sc"
    using symbol_code_to_string_of_string(1) by simp
  show "symbol_code_to_string sc \<noteq> []"
    using symbol_code_to_string_of_string(1) [OF ctor] len v(1) by auto
qed

lemma symbol_code_of_string_valid:
  assumes "symbol_code_of_string s = Inr sc" and "s \<noteq> []"
  shows "symbol_code_is_valid sc" and "code_value sc < 2 ^ 56"
proof -
  have len: "length s \<le> 7" and cap: "capitals s" and sc: "code_value sc = le_word (bytes_of_string s)"
    using assms(1) by (auto simp: symbol_code_of_string_eq split: if_splits)
  have b: "code_bytes sc = bytes_of_string s @ replicate (8 - length s) 0"
    using symbol_code_to_string_of_string(2) [OF assms(1)] .
  moreover have "\<not> letter 0" by (simp add: letter_def)
  ultimately have "takeWhile letter (code_bytes sc) = bytes_of_string s"
    using cap capitals_bytes by (subst b) (simp add: takeWhile_append)
  then show "symbol_code_is_valid sc"
    using assms(2) b by (simp add: symbol_code_is_valid_eq letters_then_zeros_def Suc_le_eq)
  have "unat (code_value sc) < 2 ^ (8 * length s)"
    using len le_word_less [of "bytes_of_string s"] by (simp add: sc)
  also have "(2::nat) ^ (8 * length s) \<le> 2 ^ 56" using len by (intro power_increasing) simp_all
  finally show "code_value sc < 2 ^ 56" by (simp add: word_less_nat_alt)
qed

text \<open>\<open>length\<close> counts the bytes before the first zero.\<close>

lemma code_length_loop_eq:
  "length bs = 8 - unat len \<Longrightarrow> unat len \<le> 8 \<Longrightarrow>
   unat (code_length_loop len (le_word bs)) = unat len + length (takeWhile (\<lambda>b. b \<noteq> 0) bs)"
proof (induction bs arbitrary: len)
  case Nil
  then have "\<not> len \<le> 7" by (simp add: word_le_nat_alt)
  then show ?case using Nil by (subst code_length_loop.simps) simp
next
  case (Cons b bs)
  then have len: "unat len \<le> 7" "len \<le> 7" by (simp_all add: word_le_nat_alt)
  then have Suc: "unat (len + 1) = unat len + 1" by (simp add: unat_word_ariths)
  have "length bs < 8" using Cons.prems by simp
  note w = le_word_Cons [OF this, of b]
  have "unat (code_length_loop (len + 1) (le_word bs)) = unat (len + 1) + length (takeWhile (\<lambda>b. b \<noteq> 0) bs)"
    using Cons Suc len by (intro Cons.IH) simp_all
  then show ?case
    using w len Suc by (subst code_length_loop.simps) (simp add: u8_zero del: le_word.simps)
qed

lemma symbol_code_length_eq:
  "unat (symbol_code_length sc) = length (takeWhile (\<lambda>b. b \<noteq> 0) (code_bytes sc))"
  using code_length_loop_eq [of "code_bytes sc" 0] by (simp add: symbol_code_length_def)

lemma symbol_code_length_string:
  assumes "symbol_code_of_string s = Inr sc"
  shows "unat (symbol_code_length sc) = length s"
proof -
  have "capitals s" using assms by (auto simp: symbol_code_of_string_eq split: if_splits)
  then have "\<forall>b \<in> set (bytes_of_string s). b \<noteq> 0" using capitals_bytes letter_nonzero by blast
  then have "takeWhile (\<lambda>b. b \<noteq> 0) (code_bytes sc) = bytes_of_string s"
    unfolding symbol_code_to_string_of_string(2) [OF assms] by (simp add: takeWhile_append)
  then show ?thesis by (simp add: symbol_code_length_eq)
qed

section \<open>Symbols\<close>

lemma symbol_fields:
  "symbol_precision (symbol_of_code sc p) = p"
  "code_value sc < 2 ^ 56 \<Longrightarrow> symbol_code_of (symbol_of_code sc p) = sc"
  "symbol_of_code (symbol_code_of s) (symbol_precision s) = s"
  "code_value (symbol_code_of s) < 2 ^ 56"
proof -
  have and255: "(w :: u64) AND 0xFF = take_bit 8 w" for w by (simp add: take_bit_eq_mask mask_eq_exp_minus_1)
  show "symbol_precision (symbol_of_code sc p) = p"
    unfolding symbol_precision_def symbol_of_code_def and255
    by (rule bit_word_eqI) (auto simp: bit_simps)
  show "symbol_of_code (symbol_code_of s) (symbol_precision s) = s"
  proof -
    have "push_bit 8 (drop_bit 8 v) OR ucast (ucast (take_bit 8 v) :: u8) = v" for v :: u64
      by (rule bit_word_eqI) (auto simp: bit_simps)
    then show ?thesis
      unfolding symbol_precision_def symbol_of_code_def symbol_code_of_def and255
      by (simp add: symbol_code_raw_def symbol_code_of_raw_def)
  qed
  show "code_value (symbol_code_of s) < 2 ^ 56"
    using unat_less [of "symbol_value s"]
    by (simp add: symbol_code_of_def symbol_code_of_raw_def word_less_nat_alt unat_drop_div less_mult_imp_div_less)
  assume "code_value sc < 2 ^ 56"
  then have "unat (code_value sc) < 2 ^ 56" by (simp add: word_less_nat_alt)
  then have small: "take_bit 56 (code_value sc) = code_value sc"
    by (simp add: word_unat_eq_iff unsigned_take_bit_eq take_bit_nat_eq_self)
  have "drop_bit 8 (push_bit 8 v OR ucast p) = take_bit 56 v" for v :: u64
    by (rule bit_word_eqI) (auto simp: bit_simps dest: bit_imp_le_length)
  then show "symbol_code_of (symbol_of_code sc p) = sc"
    using small by (simp add: symbol_of_code_def symbol_code_of_def symbol_code_raw_def symbol_code_of_raw_def)
qed

lemma symbol_of_string_eq:
  "symbol_of_string ss p = bind_res (symbol_code_of_string ss) (\<lambda>sc. Inr (symbol_of_code sc p))"
  by (simp add: symbol_of_string_def symbol_of_code_def)

lemma symbol_of_string_fields:
  assumes "symbol_of_string ss p = Inr s"
  shows "symbol_precision s = p" and "symbol_code_to_string (symbol_code_of s) = ss"
    and "symbol_is_valid s \<longleftrightarrow> ss \<noteq> []"
proof -
  obtain sc where sc: "symbol_code_of_string ss = Inr sc" "s = symbol_of_code sc p"
    using assms by (auto simp: symbol_of_string_eq bind_res_eq_Inr)
  have "ss = [] \<Longrightarrow> code_value sc = 0"
    using sc(1) by (auto simp: symbol_code_of_string_eq bytes_of_string_def split: if_splits)
  then have "code_value sc < 2 ^ 56" and e: "ss = [] \<Longrightarrow> sc = \<lparr>code_value = 0\<rparr>"
    using symbol_code_of_string_valid [OF sc(1)] by (cases "ss = []"; simp)+
  then have code: "symbol_code_of s = sc" by (simp add: sc(2) symbol_fields)
  then show "symbol_precision s = p" "symbol_code_to_string (symbol_code_of s) = ss"
    using symbol_code_to_string_of_string [OF sc(1)] sc(2) by (simp_all add: symbol_fields)
  have "\<not> symbol_code_is_valid \<lparr>code_value = 0\<rparr>"
    by (simp add: symbol_code_is_valid_def code_valid_loop.simps)
  then show "symbol_is_valid s \<longleftrightarrow> ss \<noteq> []"
    using symbol_code_of_string_valid(1) [OF sc(1)] e by (auto simp: symbol_is_valid_def code)
qed

text \<open>A symbol is valid exactly when some nonempty string and its precision build it.\<close>

lemma symbol_is_valid_iff:
  "symbol_is_valid s \<longleftrightarrow> (\<exists>ss. ss \<noteq> [] \<and> symbol_of_string ss (symbol_precision s) = Inr s)"
proof
  assume "symbol_is_valid s"
  then have "symbol_code_is_valid (symbol_code_of s)" by (simp add: symbol_is_valid_def)
  from symbol_code_of_string_to_string [OF this symbol_fields(4)]
  show "\<exists>ss. ss \<noteq> [] \<and> symbol_of_string ss (symbol_precision s) = Inr s"
    by (intro exI [of _ "symbol_code_to_string (symbol_code_of s)"]) (simp add: symbol_of_string_eq symbol_fields)
qed (use symbol_of_string_fields(3) in blast)

section \<open>Extended symbols\<close>

lemma extended_symbol_eq_iff: "extended_symbol_eq a b \<longleftrightarrow> a = b"
  by (auto simp: extended_symbol_eq_def symbol_eq_def name_eq_def)

lemma extended_symbol_neq_iff: "extended_symbol_neq a b \<longleftrightarrow> a \<noteq> b"
  by (auto simp: extended_symbol_neq_def symbol_eq_def name_eq_def)

text \<open>\<open>operator<\<close> is a strict total order, as the keys of a table need.\<close>

lemma extended_symbol_less_trans:
  "extended_symbol_less a b \<Longrightarrow> extended_symbol_less b c \<Longrightarrow> extended_symbol_less a c"
  by (auto simp: extended_symbol_less_def symbol_less_def name_less_def)

lemma extended_symbol_less_total:
  "extended_symbol_less a b \<or> a = b \<or> extended_symbol_less b a"
  by (auto simp: extended_symbol_less_def symbol_less_def name_less_def
      intro!: extended_symbol.equality symbol.equality name.equality)

lemma extended_symbol_less_irrefl: "\<not> extended_symbol_less a a"
  by (simp add: extended_symbol_less_def symbol_less_def name_less_def)

section \<open>Serialization\<close>

lemma symbol_collapses [simp]:
  "\<lparr>code_value = code_value sc\<rparr> = sc"
  "\<lparr>symbol_value = symbol_value s\<rparr> = s"
  "\<lparr>ext_symbol = ext_symbol e, ext_contract = ext_contract e\<rparr> = e"
  by simp_all

definition symbol_code_image :: "symbol_code \<Rightarrow> u8 list" where
  "symbol_code_image sc = le_bytes 8 (code_value sc)"

definition symbol_image :: "symbol \<Rightarrow> u8 list" where
  "symbol_image s = le_bytes 8 (symbol_value s)"

definition extended_symbol_image :: "extended_symbol \<Rightarrow> u8 list" where
  "extended_symbol_image e = symbol_image (ext_symbol e) @ name_image (ext_contract e)"

interpretation symbol_code_codec: codec "put_symbol_code ss_write" "put_symbol_code ds_write"
    "get_symbol_code ds_read" symbol_code_image "\<lambda>_. True"
proof unfold_locales
  fix v :: symbol_code
  have "dsr.reads (ds_read 8) (le_bytes 8 (code_value v)) (le_bytes 8 (code_value v))"
    by (rule dsr.reads_rd) simp
  from dsr.reads_map [OF this, of "\<lambda>raw. symbol_code_of_raw (le_word raw)"]
  show "dsr.reads (get_symbol_code ds_read) (symbol_code_image v) v"
    by (simp add: get_symbol_code_def [abs_def] symbol_code_image_def symbol_code_of_raw_def)
qed (simp_all add: put_symbol_code_def [abs_def] symbol_code_image_def symbol_code_raw_def)

interpretation symbol_codec: codec "put_symbol ss_write" "put_symbol ds_write"
    "get_symbol ds_read" symbol_image "\<lambda>_. True"
proof unfold_locales
  fix v :: symbol
  have "dsr.reads (ds_read 8) (le_bytes 8 (symbol_value v)) (le_bytes 8 (symbol_value v))"
    by (rule dsr.reads_rd) simp
  from dsr.reads_map [OF this, of "\<lambda>raw. symbol_of_raw (le_word raw)"]
  show "dsr.reads (get_symbol ds_read) (symbol_image v) v"
    by (simp add: get_symbol_def [abs_def] symbol_image_def symbol_of_raw_def)
qed (simp_all add: put_symbol_def [abs_def] symbol_image_def symbol_raw_def)

context byte_writer
begin

lemma writes_two_members:
  "writes f xs \<Longrightarrow> writes g ys \<Longrightarrow> writes (put_members [f, g]) (xs @ ys)"
  using writes_fields [of "[f, g]" "[xs, ys]"] by (simp add: put_members_def [abs_def] del: put_fields.simps)

end

context byte_reader
begin

lemma reads_two_members:
  assumes "reads g xs a" and "reads h ys b"
  shows "reads (\<lambda>s. bind_res (g s) (\<lambda>(x, s). bind_res (h s) (\<lambda>(y, s). Inr (f x y, s)))) (xs @ ys) (f a b)"
  using assms(1) by (rule reads_bind) (rule reads_map [OF assms(2)])

end

interpretation extended_symbol_codec: codec "put_extended_symbol ss_write" "put_extended_symbol ds_write"
    "get_extended_symbol ds_read" extended_symbol_image "\<lambda>_. True"
proof unfold_locales
  fix v :: extended_symbol
  show "ssw.writes (put_extended_symbol ss_write v) (extended_symbol_image v)"
    "dsw.writes (put_extended_symbol ds_write v) (extended_symbol_image v)"
    unfolding put_extended_symbol_def [abs_def] extended_symbol_image_def
    by (simp_all add: ssw.writes_two_members dsw.writes_two_members symbol_codec.size_image
        name_codec.size_image symbol_codec.put_image name_codec.put_image)
  show "dsr.reads (get_extended_symbol ds_read) (extended_symbol_image v) v"
    using dsr.reads_two_members [OF symbol_codec.get_image [of "ext_symbol v"] name_codec.get_image [of "ext_contract v"],
        of "\<lambda>s n. \<lparr>ext_symbol = s, ext_contract = n\<rparr>"]
    by (simp add: get_extended_symbol_def [abs_def] extended_symbol_image_def)
qed

end
