(* ===== verification/Uos_Asset.thy ===== *)
theory Uos_Asset
  imports Uos_Symbol
begin

text \<open>
  core/uosio/asset.hpp: amounts of a symbol with checked arithmetic, and amounts owned by a
  contract. Amounts are 64-bit signed words; an operation either gives its result, fails one of
  the code's checks, or overflows the type (\<open>Undefined\<close>). The lemmas read amounts as integers:
  the operators are the exact operations of \<^typ>\<open>int\<close>, cut to the range of \<open>max_amount\<close>.
\<close>

section \<open>asset\<close>

record asset =
  asset_amount :: i64
  asset_symbol :: symbol

definition max_amount :: int where
  "max_amount = 2 ^ 62 - 1"

definition asset_default :: asset where
  "asset_default = \<lparr>asset_amount = 0, asset_symbol = symbol_default\<rparr>"

definition is_amount_within_range :: "asset \<Rightarrow> bool" where
  "is_amount_within_range x \<longleftrightarrow> - max_amount \<le> sint (asset_amount x) \<and> sint (asset_amount x) \<le> max_amount"

definition asset_make :: "i64 \<Rightarrow> symbol \<Rightarrow> asset res" where
  "asset_make a s =
     (let this = \<lparr>asset_amount = a, asset_symbol = s\<rparr> in
      bind_res (check (is_amount_within_range this) ''magnitude of asset amount must be less than 2^62'') (\<lambda>_.
      bind_res (check (symbol_is_valid (asset_symbol this)) ''invalid symbol name'') (\<lambda>_.
      Inr this)))"

definition asset_is_valid :: "asset \<Rightarrow> bool" where
  "asset_is_valid x \<longleftrightarrow> is_amount_within_range x \<and> symbol_is_valid (asset_symbol x)"

definition asset_set_amount :: "asset \<Rightarrow> i64 \<Rightarrow> asset res" where
  "asset_set_amount this a =
     (let this = this\<lparr>asset_amount := a\<rparr> in
      bind_res (check (is_amount_within_range this) ''magnitude of asset amount must be less than 2^62'') (\<lambda>_.
      Inr this))"

definition asset_neg :: "asset \<Rightarrow> asset res" where
  "asset_neg this = bind_res (i64_of (- sint (asset_amount this))) (\<lambda>v. Inr (this\<lparr>asset_amount := v\<rparr>))"

definition asset_sub_assign :: "asset \<Rightarrow> asset \<Rightarrow> asset res" where
  "asset_sub_assign this a =
     bind_res (check (symbol_eq (asset_symbol a) (asset_symbol this)) ''attempt to subtract asset with different symbol'') (\<lambda>_.
     bind_res (i64_of (sint (asset_amount this) - sint (asset_amount a))) (\<lambda>v.
     bind_res (check (- max_amount \<le> sint v) ''subtraction underflow'') (\<lambda>_.
     bind_res (check (sint v \<le> max_amount) ''subtraction overflow'') (\<lambda>_.
     Inr (this\<lparr>asset_amount := v\<rparr>)))))"

definition asset_add_assign :: "asset \<Rightarrow> asset \<Rightarrow> asset res" where
  "asset_add_assign this a =
     bind_res (check (symbol_eq (asset_symbol a) (asset_symbol this)) ''attempt to add asset with different symbol'') (\<lambda>_.
     bind_res (i64_of (sint (asset_amount this) + sint (asset_amount a))) (\<lambda>v.
     bind_res (check (- max_amount \<le> sint v) ''addition underflow'') (\<lambda>_.
     bind_res (check (sint v \<le> max_amount) ''addition overflow'') (\<lambda>_.
     Inr (this\<lparr>asset_amount := v\<rparr>)))))"

definition asset_add :: "asset \<Rightarrow> asset \<Rightarrow> asset res" where
  "asset_add a b = asset_add_assign a b"

definition asset_sub :: "asset \<Rightarrow> asset \<Rightarrow> asset res" where
  "asset_sub a b = asset_sub_assign a b"

text \<open>The product is taken in 128 bits, where it cannot overflow.\<close>

definition asset_mul_assign :: "asset \<Rightarrow> i64 \<Rightarrow> asset res" where
  "asset_mul_assign this a =
     (let tmp = sint (asset_amount this) * sint a in
      bind_res (check (tmp \<le> max_amount) ''multiplication overflow'') (\<lambda>_.
      bind_res (check (tmp \<ge> - max_amount) ''multiplication underflow'') (\<lambda>_.
      Inr (this\<lparr>asset_amount := word_of_int tmp\<rparr>))))"

definition asset_mul :: "asset \<Rightarrow> i64 \<Rightarrow> asset res" where
  "asset_mul a b = asset_mul_assign a b"

definition asset_mul_left :: "i64 \<Rightarrow> asset \<Rightarrow> asset res" where
  "asset_mul_left b a = asset_mul_assign a b"

definition asset_div_assign :: "asset \<Rightarrow> i64 \<Rightarrow> asset res" where
  "asset_div_assign this a =
     bind_res (check (a \<noteq> 0) ''divide by zero'') (\<lambda>_.
     bind_res (check (\<not> (sint (asset_amount this) = - (2 ^ 63) \<and> a = - 1)) ''signed division overflow'') (\<lambda>_.
     bind_res (i64_of (sint (asset_amount this) sdiv sint a)) (\<lambda>v.
     Inr (this\<lparr>asset_amount := v\<rparr>))))"

definition asset_div :: "asset \<Rightarrow> i64 \<Rightarrow> asset res" where
  "asset_div a b = asset_div_assign a b"

definition asset_ratio :: "asset \<Rightarrow> asset \<Rightarrow> i64 res" where
  "asset_ratio a b =
     bind_res (check (asset_amount b \<noteq> 0) ''divide by zero'') (\<lambda>_.
     bind_res (check (symbol_eq (asset_symbol a) (asset_symbol b)) ''comparison of assets with different symbols is not allowed'') (\<lambda>_.
     i64_of (sint (asset_amount a) sdiv sint (asset_amount b))))"

definition asset_eq :: "asset \<Rightarrow> asset \<Rightarrow> bool res" where
  "asset_eq a b =
     bind_res (check (symbol_eq (asset_symbol a) (asset_symbol b)) ''comparison of assets with different symbols is not allowed'') (\<lambda>_.
     Inr (asset_amount a = asset_amount b))"

definition asset_neq :: "asset \<Rightarrow> asset \<Rightarrow> bool res" where
  "asset_neq a b = bind_res (asset_eq a b) (\<lambda>e. Inr (\<not> e))"

definition asset_less :: "asset \<Rightarrow> asset \<Rightarrow> bool res" where
  "asset_less a b =
     bind_res (check (symbol_eq (asset_symbol a) (asset_symbol b)) ''comparison of assets with different symbols is not allowed'') (\<lambda>_.
     Inr (asset_amount a <s asset_amount b))"

definition asset_le :: "asset \<Rightarrow> asset \<Rightarrow> bool res" where
  "asset_le a b =
     bind_res (check (symbol_eq (asset_symbol a) (asset_symbol b)) ''comparison of assets with different symbols is not allowed'') (\<lambda>_.
     Inr (asset_amount a \<le>s asset_amount b))"

definition asset_gt :: "asset \<Rightarrow> asset \<Rightarrow> bool res" where
  "asset_gt a b =
     bind_res (check (symbol_eq (asset_symbol a) (asset_symbol b)) ''comparison of assets with different symbols is not allowed'') (\<lambda>_.
     Inr (asset_amount b <s asset_amount a))"

definition asset_ge :: "asset \<Rightarrow> asset \<Rightarrow> bool res" where
  "asset_ge a b =
     bind_res (check (symbol_eq (asset_symbol a) (asset_symbol b)) ''comparison of assets with different symbols is not allowed'') (\<lambda>_.
     Inr (asset_amount b \<le>s asset_amount a))"

text \<open>Decimal digits, and the conversion \<open>%lld\<close> of \<open>snprintf\<close>.\<close>

definition digit_char :: "nat \<Rightarrow> char" where
  "digit_char d = char_of (48 + d)"

fun dec_nat :: "nat \<Rightarrow> string" where
  "dec_nat n = (if n < 10 then [digit_char n] else dec_nat (n div 10) @ [digit_char (n mod 10)])"

declare dec_nat.simps [simp del]

definition lld :: "int \<Rightarrow> string" where
  "lld x = (if x < 0 then CHR ''-'' # dec_nat (nat (- x)) else dec_nat (nat x))"

fun p10_loop :: "nat \<Rightarrow> i64 \<Rightarrow> i64 res" where
  "p10_loop 0 p10 = Inr p10"
| "p10_loop (Suc p) p10 = bind_res (i64_of (sint p10 * 10)) (p10_loop p)"

text \<open>The loop that fills \<open>fraction\<close> from its end; the second argument is what it has filled.\<close>

fun fraction_loop :: "nat \<Rightarrow> int \<Rightarrow> string \<Rightarrow> string" where
  "fraction_loop 0 change fraction = fraction"
| "fraction_loop (Suc i) change fraction =
     fraction_loop i (change sdiv 10) (char_of (nat (change smod 10 + 48)) # fraction)"

definition asset_to_string :: "asset \<Rightarrow> string res" where
  "asset_to_string this =
     (let p = unat (symbol_precision (asset_symbol this)); amount = asset_amount this in
      bind_res (p10_loop p 1) (\<lambda>p10.
      let invert = (if sint amount < 0 then - 1 else 1 :: int) in
      bind_res (i64_of ((sint amount smod sint p10) * invert)) (\<lambda>change.
      let fraction = fraction_loop p (sint change) '''' in
      bind_res (i64_of (sint amount sdiv sint p10)) (\<lambda>quotient.
      let text = lld (sint quotient) @ (if fraction \<noteq> '''' then ''.'' else '''') @ c_string fraction
                   @ '' '' @ c_string (symbol_code_to_string (symbol_code_of (asset_symbol this)))
      in Inr (take (p + 31) text)))))"

definition asset_print :: "asset \<Rightarrow> print_call list res" where
  "asset_print this = bind_res (asset_to_string this) (\<lambda>s. Inr (print_one (P_string s)))"

definition put_asset :: "(u8 list \<Rightarrow> 's \<Rightarrow> 's res) \<Rightarrow> asset \<Rightarrow> 's \<Rightarrow> 's res" where
  "put_asset wr x ds = put_members [put_prim wr (asset_amount x), put_symbol wr (asset_symbol x)] ds"

definition get_asset :: "(u32 \<Rightarrow> 's \<Rightarrow> (u8 list \<times> 's) res) \<Rightarrow> 's \<Rightarrow> (asset \<times> 's) res" where
  "get_asset rd ds =
     bind_res (get_prim rd ds) (\<lambda>(a, ds). bind_res (get_symbol rd ds) (\<lambda>(s, ds).
     Inr (\<lparr>asset_amount = a, asset_symbol = s\<rparr>, ds)))"

section \<open>extended\_asset\<close>

record extended_asset =
  quantity :: asset
  asset_contract :: name

definition get_extended_symbol_of :: "extended_asset \<Rightarrow> extended_symbol" where
  "get_extended_symbol_of x = extended_symbol_of (asset_symbol (quantity x)) (asset_contract x)"

definition extended_asset_make :: "i64 \<Rightarrow> extended_symbol \<Rightarrow> extended_asset res" where
  "extended_asset_make v s =
     bind_res (asset_make v (extended_get_symbol s)) (\<lambda>q.
     Inr \<lparr>quantity = q, asset_contract = extended_get_contract s\<rparr>)"

definition extended_asset_of :: "asset \<Rightarrow> name \<Rightarrow> extended_asset" where
  "extended_asset_of a c = \<lparr>quantity = a, asset_contract = c\<rparr>"

definition extended_asset_print :: "extended_asset \<Rightarrow> print_call list res" where
  "extended_asset_print x =
     bind_res (asset_print (quantity x)) (\<lambda>out.
     Inr (out @ print_all [P_cstr ''@'', P_object (name_print (asset_contract x))]))"

definition extended_asset_neg :: "extended_asset \<Rightarrow> extended_asset res" where
  "extended_asset_neg x =
     bind_res (asset_neg (quantity x)) (\<lambda>q. Inr (extended_asset_of q (asset_contract x)))"

definition extended_asset_sub :: "extended_asset \<Rightarrow> extended_asset \<Rightarrow> extended_asset res" where
  "extended_asset_sub a b =
     bind_res (check (name_eq (asset_contract a) (asset_contract b)) ''type mismatch'') (\<lambda>_.
     bind_res (asset_sub (quantity a) (quantity b)) (\<lambda>q. Inr (extended_asset_of q (asset_contract a))))"

definition extended_asset_add :: "extended_asset \<Rightarrow> extended_asset \<Rightarrow> extended_asset res" where
  "extended_asset_add a b =
     bind_res (check (name_eq (asset_contract a) (asset_contract b)) ''type mismatch'') (\<lambda>_.
     bind_res (asset_add (quantity a) (quantity b)) (\<lambda>q. Inr (extended_asset_of q (asset_contract a))))"

definition extended_asset_add_assign :: "extended_asset \<Rightarrow> extended_asset \<Rightarrow> extended_asset res" where
  "extended_asset_add_assign a b =
     bind_res (check (name_eq (asset_contract a) (asset_contract b)) ''type mismatch'') (\<lambda>_.
     bind_res (asset_add_assign (quantity a) (quantity b)) (\<lambda>q. Inr (a\<lparr>quantity := q\<rparr>)))"

definition extended_asset_sub_assign :: "extended_asset \<Rightarrow> extended_asset \<Rightarrow> extended_asset res" where
  "extended_asset_sub_assign a b =
     bind_res (check (name_eq (asset_contract a) (asset_contract b)) ''type mismatch'') (\<lambda>_.
     bind_res (asset_sub_assign (quantity a) (quantity b)) (\<lambda>q. Inr (a\<lparr>quantity := q\<rparr>)))"

definition extended_asset_less :: "extended_asset \<Rightarrow> extended_asset \<Rightarrow> bool res" where
  "extended_asset_less a b =
     bind_res (check (name_eq (asset_contract a) (asset_contract b)) ''type mismatch'') (\<lambda>_.
     asset_less (quantity a) (quantity b))"

text \<open>\<open>std::tie\<close> compares the quantities first, and the contracts only if they are equal.\<close>

definition extended_asset_eq :: "extended_asset \<Rightarrow> extended_asset \<Rightarrow> bool res" where
  "extended_asset_eq a b =
     bind_res (asset_eq (quantity a) (quantity b)) (\<lambda>e.
     Inr (e \<and> name_eq (asset_contract a) (asset_contract b)))"

definition extended_asset_neq :: "extended_asset \<Rightarrow> extended_asset \<Rightarrow> bool res" where
  "extended_asset_neq a b = bind_res (extended_asset_eq a b) (\<lambda>e. Inr (\<not> e))"

definition extended_asset_le :: "extended_asset \<Rightarrow> extended_asset \<Rightarrow> bool res" where
  "extended_asset_le a b =
     bind_res (check (name_eq (asset_contract a) (asset_contract b)) ''type mismatch'') (\<lambda>_.
     asset_le (quantity a) (quantity b))"

definition extended_asset_ge :: "extended_asset \<Rightarrow> extended_asset \<Rightarrow> bool res" where
  "extended_asset_ge a b =
     bind_res (check (name_eq (asset_contract a) (asset_contract b)) ''type mismatch'') (\<lambda>_.
     asset_ge (quantity a) (quantity b))"

definition put_extended_asset :: "(u8 list \<Rightarrow> 's \<Rightarrow> 's res) \<Rightarrow> extended_asset \<Rightarrow> 's \<Rightarrow> 's res" where
  "put_extended_asset wr x ds =
     put_members [put_asset wr (quantity x), put_name wr (asset_contract x)] ds"

definition get_extended_asset :: "(u32 \<Rightarrow> 's \<Rightarrow> (u8 list \<times> 's) res) \<Rightarrow> 's \<Rightarrow> (extended_asset \<times> 's) res" where
  "get_extended_asset rd ds =
     bind_res (get_asset rd ds) (\<lambda>(q, ds). bind_res (get_name rd ds) (\<lambda>(n, ds).
     Inr (\<lparr>quantity = q, asset_contract = n\<rparr>, ds)))"

section \<open>Arithmetic is exact\<close>

lemma in_range_i64: "- max_amount \<le> x \<Longrightarrow> x \<le> max_amount \<Longrightarrow> in_i64 x"
  by (simp add: max_amount_def in_i64_def)

definition amount :: "asset \<Rightarrow> int" where
  "amount x = sint (asset_amount x)"

definition in_range :: "int \<Rightarrow> bool" where
  "in_range x \<longleftrightarrow> - max_amount \<le> x \<and> x \<le> max_amount"

lemma within_range_iff: "is_amount_within_range x \<longleftrightarrow> in_range (amount x)"
  by (simp add: is_amount_within_range_def in_range_def amount_def)

lemma asset_is_valid_iff: "asset_is_valid x \<longleftrightarrow> in_range (amount x) \<and> symbol_is_valid (asset_symbol x)"
  by (simp add: asset_is_valid_def within_range_iff)

lemma symbol_eq_iff: "symbol_eq a b \<longleftrightarrow> a = b"
  by (auto simp: symbol_eq_def)

lemma name_eq_iff: "name_eq a b \<longleftrightarrow> a = b"
  by (auto simp: name_eq_def)

lemma in_range_imp_i64: "in_range x \<Longrightarrow> in_i64 x"
  by (simp add: in_range_def in_range_i64)

text \<open>The asset with an exact amount, for amounts in range.\<close>

definition with_amount :: "int \<Rightarrow> asset \<Rightarrow> asset" where
  "with_amount n x = x\<lparr>asset_amount := word_of_int n\<rparr>"

lemma with_amount_simps [simp]:
  "in_range n \<Longrightarrow> amount (with_amount n x) = n"
  "asset_symbol (with_amount n x) = asset_symbol x"
  by (simp_all add: with_amount_def amount_def in_range_imp_i64)

lemma with_amount_self [simp]: "with_amount (amount x) x = x"
  by (simp add: with_amount_def amount_def)

lemma asset_make_eq:
  "asset_make a s =
     (if \<not> in_range (sint a) then Inl (Assertion ''magnitude of asset amount must be less than 2^62'')
      else if \<not> symbol_is_valid s then Inl (Assertion ''invalid symbol name'')
      else Inr \<lparr>asset_amount = a, asset_symbol = s\<rparr>)"
  by (simp add: asset_make_def bind_check within_range_iff amount_def)

text \<open>
  The outcome of an addition or subtraction: \<open>n\<close> is the exact sum or difference, \<open>op\<close> the word
  of the messages. Amounts that already are in range cannot overflow the type.
\<close>

definition arith_outcome :: "string \<Rightarrow> string \<Rightarrow> int \<Rightarrow> asset \<Rightarrow> asset \<Rightarrow> asset res" where
  "arith_outcome verb noun n x y =
     (if asset_symbol y \<noteq> asset_symbol x
      then Inl (Assertion (''attempt to '' @ verb @ '' asset with different symbol''))
      else if \<not> in_i64 n then Inl (Undefined ''signed overflow'')
      else if n < - max_amount then Inl (Assertion (noun @ '' underflow''))
      else if max_amount < n then Inl (Assertion (noun @ '' overflow''))
      else Inr (with_amount n x))"

lemma checked_arith:
  "bind_res (check same m) (\<lambda>_. bind_res (i64_of n) (\<lambda>v.
     bind_res (check (- max_amount \<le> sint v) m1) (\<lambda>_.
     bind_res (check (sint v \<le> max_amount) m2) (\<lambda>_. Inr (x\<lparr>asset_amount := v\<rparr>))))) =
   (if \<not> same then Inl (Assertion m)
    else if \<not> in_i64 n then Inl (Undefined ''signed overflow'')
    else if n < - max_amount then Inl (Assertion m1)
    else if max_amount < n then Inl (Assertion m2)
    else Inr (with_amount n x))"
  by (simp add: bind_check i64_of_def with_amount_def not_le)

lemma asset_add_assign_eq:
  "asset_add_assign x y = arith_outcome ''add'' ''addition'' (amount x + amount y) x y"
  unfolding asset_add_assign_def checked_arith symbol_eq_iff arith_outcome_def amount_def by simp

lemma asset_sub_assign_eq:
  "asset_sub_assign x y = arith_outcome ''subtract'' ''subtraction'' (amount x - amount y) x y"
  unfolding asset_sub_assign_def checked_arith symbol_eq_iff arith_outcome_def amount_def by simp

lemma in_range_arith_i64:
  "in_range m \<Longrightarrow> in_range n \<Longrightarrow> in_i64 (m + n)"
  "in_range m \<Longrightarrow> in_range n \<Longrightarrow> in_i64 (m - n)"
  "in_range m \<Longrightarrow> in_i64 (- m)"
  by (simp_all add: in_range_def max_amount_def in_i64_def)

lemma arith_outcome_Inr:
  "arith_outcome verb noun n x y = Inr z \<longleftrightarrow>
     asset_symbol x = asset_symbol y \<and> in_range n \<and> z = with_amount n x"
  by (auto simp: arith_outcome_def in_range_def in_range_i64)

text \<open>On assets in range no outcome is undefined.\<close>

lemma asset_add_defined:
  assumes "in_range (amount x)" and "in_range (amount y)"
  shows "asset_add x y \<noteq> Inl (Undefined u)" and "asset_sub x y \<noteq> Inl (Undefined u)"
  using in_range_arith_i64(1,2) [OF assms]
  by (auto simp: asset_add_def asset_sub_def asset_add_assign_eq asset_sub_assign_eq arith_outcome_def)

lemma asset_mul_assign_eq:
  "asset_mul_assign x k =
     (let n = amount x * sint k in
      if max_amount < n then Inl (Assertion ''multiplication overflow'')
      else if n < - max_amount then Inl (Assertion ''multiplication underflow'')
      else Inr (with_amount n x))"
  by (simp add: asset_mul_assign_def bind_check Let_def amount_def with_amount_def not_le)

text \<open>The 128-bit product fits its type.\<close>

lemma asset_product_fits: "\<bar>amount x * sint (k :: i64)\<bar> < 2 ^ 127"
proof -
  have b: "\<bar>sint w\<bar> \<le> 2 ^ 63" for w :: i64
    using in_i64_sint [of w] by (auto simp: in_i64_def)
  have "\<bar>amount x * sint k\<bar> \<le> 2 ^ 63 * 2 ^ 63"
    unfolding abs_mult amount_def by (intro mult_mono b) simp_all
  then show ?thesis by simp
qed

lemma sdiv_range:
  assumes "in_i64 m" and "in_i64 n" and "n \<noteq> 0" and "\<not> (m = - (2 ^ 63) \<and> n = - 1)"
  shows "in_i64 (m sdiv n)"
proof -
  consider "n = 1" | "n = - 1" | "2 \<le> \<bar>n\<bar>" using assms(3) by linarith
  then show ?thesis
  proof cases
    case 3
    have "\<bar>m sdiv n\<bar> \<le> \<bar>m\<bar> div \<bar>n\<bar>"
      by (auto simp: signed_divide_int_def abs_mult abs_sgn_eq pos_imp_zdiv_nonneg_iff)
    also have "\<dots> \<le> \<bar>m\<bar> div 2" using 3 by (intro zdiv_mono2) simp_all
    also have "\<dots> \<le> 2 ^ 63 div 2" using assms(1) by (intro zdiv_mono1) (auto simp: in_i64_def abs_le_iff)
    finally show ?thesis by (auto simp: in_i64_def abs_le_iff)
  qed (use assms in \<open>auto simp: in_i64_def\<close>)
qed

text \<open>Division truncates towards zero, and never leaves the type once its checks have passed.\<close>

lemma asset_div_assign_eq:
  "asset_div_assign x k =
     (if k = 0 then Inl (Assertion ''divide by zero'')
      else if amount x = - (2 ^ 63) \<and> k = - 1 then Inl (Assertion ''signed division overflow'')
      else Inr (with_amount (amount x sdiv sint k) x))"
proof -
  have "k = - 1 \<longleftrightarrow> sint k = - 1" using i64_of_eq_Inr [of "- 1" k] by (auto simp: i64_of_def in_i64_def)
  moreover have "k = 0 \<longleftrightarrow> sint k = 0" using i64_of_eq_Inr [of 0 k] by (auto simp: i64_of_def in_i64_def)
  ultimately show ?thesis
    using sdiv_range [of "sint (asset_amount x)" "sint k"]
    by (auto simp: asset_div_assign_def bind_check i64_of_def amount_def with_amount_def)
qed

lemma sdiv_in_range: "in_range m \<Longrightarrow> in_range (m sdiv n)"
  using sdiv_int_range [of m n] by (auto simp: in_range_def)

text \<open>Every operation that succeeds on valid assets gives a valid asset.\<close>

lemma asset_ops_valid:
  assumes "asset_is_valid x"
  shows "asset_add x y = Inr z \<Longrightarrow> asset_is_valid z"
    and "asset_sub x y = Inr z \<Longrightarrow> asset_is_valid z"
    and "asset_mul x k = Inr z \<Longrightarrow> asset_is_valid z"
    and "asset_mul_left k x = Inr z \<Longrightarrow> asset_is_valid z"
    and "asset_div x k = Inr z \<Longrightarrow> asset_is_valid z"
    and "asset_neg x = Inr z \<Longrightarrow> asset_is_valid z"
proof -
  have valid: "in_range (amount x)" "symbol_is_valid (asset_symbol x)"
    using assms by (simp_all add: asset_is_valid_iff)
  show "asset_add x y = Inr z \<Longrightarrow> asset_is_valid z" "asset_sub x y = Inr z \<Longrightarrow> asset_is_valid z"
    using valid(2)
    by (auto simp: asset_add_def asset_sub_def asset_add_assign_eq asset_sub_assign_eq arith_outcome_Inr
        asset_is_valid_iff)
  show "asset_mul x k = Inr z \<Longrightarrow> asset_is_valid z" "asset_mul_left k x = Inr z \<Longrightarrow> asset_is_valid z"
    using valid(2)
    by (auto simp: asset_mul_def asset_mul_left_def asset_mul_assign_eq Let_def asset_is_valid_iff in_range_def
        split: if_splits)
  show "asset_div x k = Inr z \<Longrightarrow> asset_is_valid z"
    using valid sdiv_in_range [OF valid(1)]
    by (auto simp: asset_div_def asset_div_assign_eq asset_is_valid_iff split: if_splits)
  have "in_range (- amount x)" using valid(1) by (simp add: in_range_def)
  then show "asset_neg x = Inr z \<Longrightarrow> asset_is_valid z"
    using valid(2) in_range_imp_i64
    by (auto simp: asset_neg_def bind_res_eq_Inr i64_of_eq_Inr amount_def asset_is_valid_iff)
qed

lemma asset_neg_eq: "in_range (amount x) \<Longrightarrow> asset_neg x = Inr (with_amount (- amount x) x)"
  using in_range_arith_i64(3) [of "amount x"] by (simp add: asset_neg_def i64_of_def amount_def with_amount_def)

text \<open>The amounts of one symbol are an ordered group cut to the range.\<close>

lemma asset_add_sub_cancel:
  assumes "in_range (amount x)" and "asset_add x y = Inr z"
  shows "asset_sub z y = Inr x"
proof -
  from assms(2) have z: "z = with_amount (amount x + amount y) x" "in_range (amount x + amount y)"
    "asset_symbol x = asset_symbol y"
    by (auto simp: asset_add_def asset_add_assign_eq arith_outcome_Inr)
  then have "with_amount (amount x) z = x" by (simp add: with_amount_def amount_def)
  then show ?thesis
    using z assms(1) by (simp add: asset_sub_def asset_sub_assign_eq arith_outcome_Inr)
qed

lemma asset_add_commute: "asset_add x y = Inr z \<Longrightarrow> asset_add y x = Inr z"
  by (cases x; cases y)
    (auto simp: asset_add_def asset_add_assign_eq arith_outcome_Inr with_amount_def amount_def add.commute)

lemma asset_comparisons:
  "asset_symbol a = asset_symbol b \<Longrightarrow>
     asset_eq a b = Inr (a = b) \<and> asset_neq a b = Inr (a \<noteq> b) \<and>
     asset_less a b = Inr (amount a < amount b) \<and> asset_le a b = Inr (amount a \<le> amount b) \<and>
     asset_gt a b = Inr (amount b < amount a) \<and> asset_ge a b = Inr (amount b \<le> amount a)"
  by (cases a; cases b)
    (auto simp: asset_eq_def asset_neq_def asset_less_def asset_le_def asset_gt_def asset_ge_def
      symbol_eq_iff amount_def word_sless_alt word_sle_eq)

lemma asset_comparisons_error:
  assumes "asset_symbol a \<noteq> asset_symbol b"
  defines "e \<equiv> Inl (Assertion ''comparison of assets with different symbols is not allowed'')"
  shows "asset_eq a b = e" "asset_neq a b = e" "asset_less a b = e" "asset_le a b = e"
    "asset_gt a b = e" "asset_ge a b = e"
  using assms by (simp_all add: asset_eq_def asset_neq_def asset_less_def asset_le_def asset_gt_def
      asset_ge_def symbol_eq_iff)

section \<open>Printing amounts\<close>

lemma i64_of_in_range:
  assumes "in_i64 n"
  obtains w where "i64_of n = Inr w" and "sint w = n"
  using assms by (simp add: i64_of_def)

lemma p10_loop_eq:
  "sint v = 10 ^ k \<Longrightarrow>
   p10_loop p v = (if p + k \<le> 18 \<or> p = 0 then Inr (word_of_int (10 ^ (p + k)))
                   else Inl (Undefined ''signed overflow''))"
proof (induction p arbitrary: v k)
  case 0
  have "word_of_int (sint v) = v" by simp
  then show ?case using 0 by (simp only: add_0 p10_loop.simps) simp
next
  case (Suc p)
  show ?case
  proof (cases "k < 18")
    case True
    then have "(10::int) ^ Suc k \<le> 10 ^ 18" by (intro power_increasing) simp_all
    moreover have "(0::int) \<le> 10 ^ Suc k" by simp
    moreover have "(10::int) ^ 18 < 2 ^ 63" "- (2 ^ 63) \<le> (0::int)" by simp_all
    ultimately have "in_i64 (10 ^ Suc k)" unfolding in_i64_def by (meson le_less_trans order_trans)
    then obtain w where w: "i64_of (10 ^ Suc k) = Inr w" "sint w = 10 ^ Suc k"
      by (rule i64_of_in_range)
    have "sint v * 10 = 10 ^ Suc k" using Suc.prems by simp
    then have "p10_loop (Suc p) v = p10_loop p w" using w(1) by (simp only: p10_loop.simps) simp
    then show ?thesis using Suc.IH [OF w(2)] True by auto
  next
    case False
    then have "(10::int) ^ 19 \<le> 10 ^ Suc k" by (intro power_increasing) simp_all
    then have "\<not> in_i64 (10 ^ Suc k)" by (simp add: in_i64_def)
    then show ?thesis using Suc.prems False by (simp add: i64_of_def mult.commute)
  qed
qed

text \<open>The last \<open>p\<close> decimal digits of a number.\<close>

fun fixed_dec :: "nat \<Rightarrow> nat \<Rightarrow> string" where
  "fixed_dec 0 n = []"
| "fixed_dec (Suc p) n = fixed_dec p (n div 10) @ [digit_char (n mod 10)]"

lemma fraction_loop_eq: "fraction_loop p (int n) acc = fixed_dec p n @ acc"
proof (induction p arbitrary: n acc)
  case (Suc p)
  have "int n sdiv 10 = int (n div 10)" and "nat (int n smod 10 + 48) = 48 + n mod 10"
    by (simp_all add: signed_divide_int_def signed_modulo_int_def nat_add_distrib sgn_if zdiv_int nat_mod_distrib)
  then show ?case using Suc by (simp add: digit_char_def)
qed simp

lemma fixed_dec_mod: "fixed_dec p (n mod 10 ^ p) = fixed_dec p n"
proof (induction p arbitrary: n)
  case (Suc p)
  have "n mod 10 ^ Suc p div 10 = n div 10 mod 10 ^ p" by (simp add: mod_mult2_eq)
  moreover have "n mod 10 ^ Suc p mod 10 = n mod 10" by (simp add: mod_mod_cancel)
  ultimately show ?case using Suc [of "n div 10"] by (simp only: fixed_dec.simps)
qed simp

lemma length_fixed_dec [simp]: "length (fixed_dec p n) = p"
  by (induction p arbitrary: n) simp_all

text \<open>The text of an amount: sign and quotient, then the digits of the rest.\<close>

definition amount_text :: "nat \<Rightarrow> int \<Rightarrow> string" where
  "amount_text p n =
     lld (n sdiv 10 ^ p) @ (if p = 0 then '''' else CHR ''.'' # fixed_dec p (nat \<bar>n\<bar>))"

lemma digit_char_range: "d < 10 \<Longrightarrow> digit_char d \<noteq> CHR 0x00 \<and> digit_char d \<noteq> CHR '' '' \<and> digit_char d \<noteq> CHR ''-'' \<and> digit_char d \<noteq> CHR ''.''"
proof -
  have "\<forall>d \<in> set [0..<10]. digit_char d \<noteq> CHR 0x00 \<and> digit_char d \<noteq> CHR '' '' \<and> digit_char d \<noteq> CHR ''-'' \<and> digit_char d \<noteq> CHR ''.''"
    by code_simp
  then show "d < 10 \<Longrightarrow> ?thesis" by simp
qed

lemma set_fixed_dec: "c \<in> set (fixed_dec p n) \<Longrightarrow> \<exists>d < 10. c = digit_char d"
  by (induction p arbitrary: n) (auto intro: exI [of _ "_ mod 10"])

lemma set_dec_nat: "c \<in> set (dec_nat n) \<Longrightarrow> \<exists>d < 10. c = digit_char d"
proof (induction n rule: dec_nat.induct)
  case (1 n)
  then show ?case
    by (subst (asm) (2) dec_nat.simps) (auto split: if_splits intro: exI [of _ "n mod 10"])
qed

lemma length_dec_nat: "n < 10 ^ Suc k \<Longrightarrow> length (dec_nat n) \<le> Suc k"
proof (induction k arbitrary: n)
  case 0
  then show ?case by (subst dec_nat.simps) simp
next
  case (Suc k)
  then have "n div 10 < 10 ^ Suc k" by (simp add: less_mult_imp_div_less mult.commute)
  then show ?case using Suc.IH [of "n div 10"] by (subst dec_nat.simps) auto
qed

lemma length_lld: "in_i64 x \<Longrightarrow> length (lld x) \<le> 20"
proof -
  assume "in_i64 x"
  then have "nat x < 10 ^ Suc 18" and "nat (- x) < 10 ^ Suc 18" by (auto simp: in_i64_def)
  from this [THEN length_dec_nat] show ?thesis by (simp add: lld_def)
qed

lemma c_string_id: "CHR 0x00 \<notin> set s \<Longrightarrow> c_string s = s"
  by (simp add: c_string_def takeWhile_eq_all_conv) auto

lemma fixed_dec_text: "CHR 0x00 \<notin> set (fixed_dec p n)"
  using set_fixed_dec digit_char_range by metis

lemma length_symbol_code_to_string: "length (symbol_code_to_string sc) \<le> 7"
  by (simp add: symbol_code_to_string_eq string_of_bytes_def)

text \<open>The whole function: with at most 18 decimals it always prints; with more it overflows.\<close>

lemma asset_to_string_eq:
  fixes x :: asset
  defines "p \<equiv> unat (symbol_precision (asset_symbol x))"
  shows "asset_to_string x =
    (if p \<le> 18 then Inr (amount_text p (amount x) @ '' '' @ c_string (symbol_code_to_string (symbol_code_of (asset_symbol x))))
     else Inl (Undefined ''signed overflow''))"
proof (cases "p \<le> 18")
  case False
  then show ?thesis
    using p10_loop_eq [of 1 0 p] by (simp add: asset_to_string_def Let_def flip: p_def)
next
  case True
  let ?n = "amount x" and ?q = "(10::int) ^ p" and ?code = "c_string (symbol_code_to_string (symbol_code_of (asset_symbol x)))"
  have p10: "p10_loop p 1 = Inr (word_of_int ?q)" using p10_loop_eq [of 1 0 p] True by simp
  have "?q \<le> 10 ^ 18" using True by (intro power_increasing) simp_all
  moreover have "(10::int) ^ 18 < 2 ^ 63" "- (2 ^ 63) \<le> (0::int)" "0 < ?q" by simp_all
  ultimately have q: "in_i64 ?q" "0 < ?q" unfolding in_i64_def by linarith+
  then have sq: "sint (word_of_int ?q :: i64) = ?q" by (intro sint_word_of_int_i64)
  have change: "(?n smod ?q) * (if ?n < 0 then - 1 else 1) = int (nat \<bar>?n\<bar> mod 10 ^ p)"
    by (simp add: signed_modulo_int_def sgn_if nat_mod_distrib zmod_int)
  have "int (nat \<bar>?n\<bar> mod 10 ^ p) < int (10 ^ p)" by (simp only: of_nat_less_iff) simp
  then have "int (nat \<bar>?n\<bar> mod 10 ^ p) < ?q" and "0 \<le> int (nat \<bar>?n\<bar> mod 10 ^ p)" by simp_all
  then have ci: "in_i64 (int (nat \<bar>?n\<bar> mod 10 ^ p))" using q(1) unfolding in_i64_def by linarith
  have "in_i64 ?n" by (simp add: amount_def)
  then have si: "in_i64 (?n sdiv ?q)" using q by (intro sdiv_range) linarith+
  have frac: "fraction_loop p (int (nat \<bar>?n\<bar> mod 10 ^ p)) '''' = fixed_dec p (nat \<bar>?n\<bar>)"
    by (simp add: fraction_loop_eq fixed_dec_mod)
  have shown: "lld (?n sdiv ?q) @ (if fixed_dec p (nat \<bar>?n\<bar>) \<noteq> '''' then ''.'' else '''') @ c_string (fixed_dec p (nat \<bar>?n\<bar>)) @ '' '' @ ?code
      = amount_text p ?n @ '' '' @ ?code"
    using length_fixed_dec [of p "nat \<bar>?n\<bar>"]
    by (auto simp: amount_text_def c_string_id fixed_dec_text simp del: length_fixed_dec)
  have "length ?code \<le> 7"
    using length_symbol_code_to_string [of "symbol_code_of (asset_symbol x)"]
    by (simp add: c_string_def) (meson le_trans length_takeWhile_le)
  then have "length (amount_text p ?n @ '' '' @ ?code) \<le> p + 31"
    using length_lld [OF si] by (auto simp: amount_text_def)
  moreover obtain c where "i64_of (int (nat \<bar>?n\<bar> mod 10 ^ p)) = Inr c" "sint c = int (nat \<bar>?n\<bar> mod 10 ^ p)"
    using ci by (rule i64_of_in_range)
  moreover obtain d where "i64_of (?n sdiv ?q) = Inr d" "sint d = ?n sdiv ?q"
    using si by (rule i64_of_in_range)
  moreover have "asset_to_string x = bind_res (p10_loop p 1) (\<lambda>p10.
      bind_res (i64_of ((?n smod sint p10) * (if ?n < 0 then - 1 else 1))) (\<lambda>change.
      bind_res (i64_of (?n sdiv sint p10)) (\<lambda>quotient.
      Inr (take (p + 31) (lld (sint quotient) @ (if fraction_loop p (sint change) '''' \<noteq> '''' then ''.'' else '''')
        @ c_string (fraction_loop p (sint change) '''') @ '' '' @ ?code)))))"
    by (simp add: asset_to_string_def Let_def amount_def flip: p_def)
  ultimately show ?thesis
    using True by (simp only: p10 sq change frac shown bind_res.simps) simp
qed

text \<open>Reading the digits of an amount back.\<close>

definition digit_value :: "char \<Rightarrow> nat" where
  "digit_value c = of_char c - 48"

definition dec_value :: "string \<Rightarrow> nat" where
  "dec_value s = foldl (\<lambda>a c. 10 * a + digit_value c) 0 s"

definition digits_in :: "string \<Rightarrow> string" where
  "digits_in s = filter (\<lambda>c. CHR ''0'' \<le> c \<and> c \<le> CHR ''9'') s"

lemma digit_value_char [simp]: "d < 10 \<Longrightarrow> digit_value (digit_char d) = d"
  by (simp add: digit_value_def digit_char_def)

lemma foldl_fixed_dec: "foldl (\<lambda>a c. 10 * a + digit_value c) a (fixed_dec p n) = a * 10 ^ p + n mod 10 ^ p"
proof (induction p arbitrary: n)
  case (Suc p)
  have "n mod 10 ^ Suc p = 10 * (n div 10 mod 10 ^ p) + n mod 10" by (simp add: mod_mult2_eq)
  then show ?case using Suc [of "n div 10"] by (simp add: algebra_simps)
qed simp

lemma foldl_dec_nat: "foldl (\<lambda>a c. 10 * a + digit_value c) 0 (dec_nat n) = n"
proof (induction n rule: dec_nat.induct)
  case (1 n)
  then show ?case by (subst dec_nat.simps) auto
qed

lemma digits_in_digits: "\<forall>c \<in> set s. \<exists>d < 10. c = digit_char d \<Longrightarrow> digits_in s = s"
proof -
  have "\<forall>d \<in> set [0..<10]. CHR ''0'' \<le> digit_char d \<and> digit_char d \<le> CHR ''9''" by code_simp
  then show "\<forall>c \<in> set s. \<exists>d < 10. c = digit_char d \<Longrightarrow> ?thesis"
    unfolding digits_in_def by (intro filter_True) auto
qed

lemma digits_in_append: "digits_in (s @ t) = digits_in s @ digits_in t"
  by (simp add: digits_in_def)

lemma digits_in_lld: "digits_in (lld x) = dec_nat (nat \<bar>x\<bar>)"
proof -
  have "digits_in (dec_nat n) = dec_nat n" for n using set_dec_nat by (intro digits_in_digits) blast
  moreover have "digits_in (CHR ''-'' # s) = digits_in s" for s
    by (simp add: digits_in_def)
  ultimately show ?thesis by (simp add: lld_def)
qed

lemma amount_text_digits: "dec_value (digits_in (amount_text p n)) = nat \<bar>n\<bar>"
proof -
  have "digits_in (fixed_dec p (nat \<bar>n\<bar>)) = fixed_dec p (nat \<bar>n\<bar>)"
    using set_fixed_dec by (intro digits_in_digits) blast
  moreover have "digits_in (CHR ''.'' # s) = digits_in s" for s by (simp add: digits_in_def)
  moreover have "nat \<bar>n sdiv 10 ^ p\<bar> = nat \<bar>n\<bar> div 10 ^ p"
  proof -
    have "\<bar>n sdiv 10 ^ p\<bar> = \<bar>n\<bar> div 10 ^ p"
      by (cases "n = 0") (simp_all add: signed_divide_int_def abs_mult abs_sgn_eq pos_imp_zdiv_nonneg_iff)
    then show ?thesis by (simp add: nat_div_distrib nat_power_eq)
  qed
  ultimately have "digits_in (amount_text p n) = dec_nat (nat \<bar>n\<bar> div 10 ^ p) @ fixed_dec p (nat \<bar>n\<bar>)"
    by (simp add: amount_text_def digits_in_append digits_in_lld) (simp add: digits_in_def)
  then show ?thesis
    by (simp only: dec_value_def foldl_append foldl_dec_nat foldl_fixed_dec div_mult_mod_eq)
qed

text \<open>The sign is the sign of the quotient: it is lost when the quotient is zero.\<close>

lemma amount_text_sign:
  "\<bar>n\<bar> < 10 ^ p \<Longrightarrow> amount_text p n = amount_text p \<bar>n\<bar>"
  by (simp add: amount_text_def signed_divide_int_def)

section \<open>Extended assets\<close>

lemma extended_asset_add_Inr:
  "extended_asset_add a b = Inr c \<longleftrightarrow>
     asset_contract a = asset_contract b \<and> asset_contract c = asset_contract a \<and>
     asset_add (quantity a) (quantity b) = Inr (quantity c)"
  by (cases c) (auto simp: extended_asset_add_def bind_check name_eq_iff bind_res_eq_Inr extended_asset_of_def)

lemma extended_asset_sub_Inr:
  "extended_asset_sub a b = Inr c \<longleftrightarrow>
     asset_contract a = asset_contract b \<and> asset_contract c = asset_contract a \<and>
     asset_sub (quantity a) (quantity b) = Inr (quantity c)"
  by (cases c) (auto simp: extended_asset_sub_def bind_check name_eq_iff bind_res_eq_Inr extended_asset_of_def)

lemma extended_asset_assign_eq:
  "extended_asset_add_assign a b = extended_asset_add a b"
  "extended_asset_sub_assign a b = extended_asset_sub a b"
  by (cases a; simp add: extended_asset_add_assign_def extended_asset_add_def extended_asset_sub_assign_def
      extended_asset_sub_def asset_add_def asset_sub_def extended_asset_of_def)+

lemma extended_asset_eq_outcome:
  "extended_asset_eq a b =
     (if asset_symbol (quantity a) = asset_symbol (quantity b) then Inr (a = b)
      else Inl (Assertion ''comparison of assets with different symbols is not allowed''))"
  by (cases a; cases b) (auto simp: extended_asset_eq_def asset_comparisons asset_comparisons_error name_eq_iff)

section \<open>Serialization\<close>

definition asset_image :: "asset \<Rightarrow> u8 list" where
  "asset_image x = le_bytes 8 (asset_amount x) @ symbol_image (asset_symbol x)"

definition extended_asset_image :: "extended_asset \<Rightarrow> u8 list" where
  "extended_asset_image x = asset_image (quantity x) @ name_image (asset_contract x)"

lemma asset_collapses [simp]:
  "\<lparr>asset_amount = asset_amount x, asset_symbol = asset_symbol x\<rparr> = x"
  "\<lparr>quantity = quantity e, asset_contract = asset_contract e\<rparr> = e"
  by simp_all

interpretation asset_codec: codec "put_asset ss_write" "put_asset ds_write"
    "get_asset ds_read" asset_image "\<lambda>_. True"
proof unfold_locales
  fix v :: asset
  show "ssw.writes (put_asset ss_write v) (asset_image v)" "dsw.writes (put_asset ds_write v) (asset_image v)"
    unfolding put_asset_def [abs_def] asset_image_def
    by (simp_all add: ssw.writes_two_members dsw.writes_two_members symbol_codec.size_image
        u64_codec.size_image symbol_codec.put_image u64_codec.put_image)
  show "dsr.reads (get_asset ds_read) (asset_image v) v"
    using dsr.reads_two_members [OF u64_codec.get_image [of "asset_amount v"] symbol_codec.get_image [of "asset_symbol v"],
        of "\<lambda>a s. \<lparr>asset_amount = a, asset_symbol = s\<rparr>"]
    by (simp add: get_asset_def [abs_def] asset_image_def)
qed

interpretation extended_asset_codec: codec "put_extended_asset ss_write" "put_extended_asset ds_write"
    "get_extended_asset ds_read" extended_asset_image "\<lambda>_. True"
proof unfold_locales
  fix v :: extended_asset
  show "ssw.writes (put_extended_asset ss_write v) (extended_asset_image v)"
    "dsw.writes (put_extended_asset ds_write v) (extended_asset_image v)"
    unfolding put_extended_asset_def [abs_def] extended_asset_image_def
    by (simp_all add: ssw.writes_two_members dsw.writes_two_members asset_codec.size_image
        name_codec.size_image asset_codec.put_image name_codec.put_image)
  show "dsr.reads (get_extended_asset ds_read) (extended_asset_image v) v"
    using dsr.reads_two_members [OF asset_codec.get_image [of "quantity v"] name_codec.get_image [of "asset_contract v"],
        of "\<lambda>q n. \<lparr>quantity = q, asset_contract = n\<rparr>"]
    by (simp add: get_extended_asset_def [abs_def] extended_asset_image_def)
qed

end
