(* ===== verification/Uos_Memory.thy ===== *)
theory Uos_Memory
  imports Uos_Prelude
begin

text \<open>
  The linear memory of a wasm32 program, the byte routines of memory.cpp and the \<open>sbrk\<close> of
  malloc.cpp. Pointers and \<open>size_t\<close> are 32-bit words; an access outside the current pages is
  the outcome \<open>Undefined\<close>. The host's \<open>memory.grow\<close> is the argument \<open>grow\<close>: whether it
  grants so many more pages.
\<close>

record machine =
  mem :: "u32 \<Rightarrow> u8"
  pages :: u32
  sbrk_initialized :: bool
  sbrk_bytes :: u32

definition mem_limit :: "machine \<Rightarrow> nat" where
  "mem_limit m = unat (pages m) * 65536"

abbreviation out_of_bounds :: "'a res" where
  "out_of_bounds \<equiv> Inl (Undefined ''memory access out of bounds'')"

definition load8 :: "u32 \<Rightarrow> machine \<Rightarrow> u8 res" where
  "load8 a m = (if unat a < mem_limit m then Inr (mem m a) else out_of_bounds)"

definition store8 :: "u32 \<Rightarrow> u8 \<Rightarrow> machine \<Rightarrow> machine res" where
  "store8 a v m = (if unat a < mem_limit m then Inr (m\<lparr>mem := (mem m)(a := v)\<rparr>) else out_of_bounds)"

definition mem_word :: "(u32 \<Rightarrow> u8) \<Rightarrow> u32 \<Rightarrow> u32" where
  "mem_word f a = le_word [f a, f (a + 1), f (a + 2), f (a + 3)]"

definition put_word :: "u32 \<Rightarrow> u32 \<Rightarrow> (u32 \<Rightarrow> u8) \<Rightarrow> (u32 \<Rightarrow> u8)" where
  "put_word a v f =
     f(a := ucast v, a + 1 := ucast (drop_bit 8 v), a + 2 := ucast (drop_bit 16 v), a + 3 := ucast (drop_bit 24 v))"

definition load32 :: "u32 \<Rightarrow> machine \<Rightarrow> u32 res" where
  "load32 a m = (if unat a + 4 \<le> mem_limit m then Inr (mem_word (mem m) a) else out_of_bounds)"

definition store32 :: "u32 \<Rightarrow> u32 \<Rightarrow> machine \<Rightarrow> machine res" where
  "store32 a v m = (if unat a + 4 \<le> mem_limit m then Inr (m\<lparr>mem := put_word a v (mem m)\<rparr>) else out_of_bounds)"

section \<open>memory.cpp\<close>

text \<open>Each loop runs \<open>i\<close> up to \<open>n\<close>; the fourth argument is what is left, \<open>n - i\<close>.\<close>

fun memset_loop :: "u32 \<Rightarrow> u8 \<Rightarrow> nat \<Rightarrow> nat \<Rightarrow> machine \<Rightarrow> machine res" where
  "memset_loop p c i 0 m = Inr m"
| "memset_loop p c i (Suc k) m = bind_res (store8 (p + of_nat i) c m) (memset_loop p c (i + 1) k)"

definition memset :: "u32 \<Rightarrow> i32 \<Rightarrow> u32 \<Rightarrow> machine \<Rightarrow> (u32 \<times> machine) res" where
  "memset ptr c n m = bind_res (memset_loop ptr (ucast c) 0 (unat n) m) (\<lambda>m. Inr (ptr, m))"

fun memcpy_loop :: "u32 \<Rightarrow> u32 \<Rightarrow> nat \<Rightarrow> nat \<Rightarrow> machine \<Rightarrow> machine res" where
  "memcpy_loop p1 p2 i 0 m = Inr m"
| "memcpy_loop p1 p2 i (Suc k) m =
     bind_res (load8 (p2 + of_nat i) m) (\<lambda>b.
     bind_res (store8 (p1 + of_nat i) b m) (memcpy_loop p1 p2 (i + 1) k))"

definition memcpy :: "u32 \<Rightarrow> u32 \<Rightarrow> u32 \<Rightarrow> machine \<Rightarrow> (u32 \<times> machine) res" where
  "memcpy ptr1 ptr2 n m = bind_res (memcpy_loop ptr1 ptr2 0 (unat n) m) (\<lambda>m. Inr (ptr1, m))"

text \<open>\<open>new\<close> and \<open>delete[]\<close> come from the C++ runtime, as arguments.\<close>

definition memmove ::
  "(u32 \<Rightarrow> machine \<Rightarrow> (u32 \<times> machine) res) \<Rightarrow> (u32 \<Rightarrow> machine \<Rightarrow> machine res) \<Rightarrow>
   u32 \<Rightarrow> u32 \<Rightarrow> u32 \<Rightarrow> machine \<Rightarrow> (u32 \<times> machine) res" where
  "memmove new_array delete_array ptr1 ptr2 n m =
     bind_res (new_array n m) (\<lambda>(p3, m).
     bind_res (memcpy p3 ptr2 n m) (\<lambda>(_, m).
     bind_res (memcpy ptr1 p3 n m) (\<lambda>(_, m).
     bind_res (delete_array p3 m) (\<lambda>m.
     Inr (ptr1, m)))))"

fun memcmp_loop :: "u32 \<Rightarrow> u32 \<Rightarrow> nat \<Rightarrow> nat \<Rightarrow> machine \<Rightarrow> int res" where
  "memcmp_loop p1 p2 i 0 m = Inr 0"
| "memcmp_loop p1 p2 i (Suc k) m =
     bind_res (load8 (p1 + of_nat i) m) (\<lambda>a.
     bind_res (load8 (p2 + of_nat i) m) (\<lambda>b.
     if a < b then Inr (- 1)
     else if a > b then Inr 1
     else memcmp_loop p1 p2 (i + 1) k m))"

definition memcmp :: "u32 \<Rightarrow> u32 \<Rightarrow> u32 \<Rightarrow> machine \<Rightarrow> int res" where
  "memcmp ptr1 ptr2 n m = memcmp_loop ptr1 ptr2 0 (unat n) m"

section \<open>sbrk\<close>

definition INT32_MAX :: u32 where
  "INT32_MAX = 0x7FFFFFFF"

text \<open>The pointer \<open>-1\<close> reports failure.\<close>

definition sbrk :: "(u32 \<Rightarrow> u32 \<Rightarrow> bool) \<Rightarrow> u32 \<Rightarrow> machine \<Rightarrow> u32 \<times> machine" where
  "sbrk grow num_bytes m =
     (let m = (if \<not> sbrk_initialized m
               then m\<lparr>sbrk_bytes := pages m * 65536, sbrk_initialized := True\<rparr> else m) in
      if num_bytes > INT32_MAX then (- 1, m)
      else
        let prev_num_bytes = sbrk_bytes m;
            current_pages = pages m;
            num_bytes = (num_bytes + 7) AND NOT 7;
            num_desired_pages = drop_bit 16 (sbrk_bytes m + num_bytes + 65536 - 1)
        in if num_desired_pages > current_pages then
             (if grow current_pages (num_desired_pages - current_pages)
              then (prev_num_bytes, m\<lparr>pages := num_desired_pages, sbrk_bytes := sbrk_bytes m + num_bytes\<rparr>)
              else (- 1, m))
           else (prev_num_bytes, m\<lparr>sbrk_bytes := sbrk_bytes m + num_bytes\<rparr>))"

section \<open>Ranges of memory\<close>

text \<open>The bytes from \<open>p\<close> on, and the addresses they have.\<close>

definition bytes_at :: "(u32 \<Rightarrow> u8) \<Rightarrow> u32 \<Rightarrow> nat \<Rightarrow> u8 list" where
  "bytes_at f p n = map (\<lambda>i. f (p + of_nat i)) [0..<n]"

definition span :: "u32 \<Rightarrow> nat \<Rightarrow> u32 set" where
  "span p n = {a. unat p \<le> unat a \<and> unat a < unat p + n}"

definition within :: "u32 \<Rightarrow> nat \<Rightarrow> machine \<Rightarrow> bool" where
  "within p n m \<longleftrightarrow> unat p + n \<le> mem_limit m"

lemma mem_limit_le: "pages m \<le> 65536 \<Longrightarrow> mem_limit m \<le> 2 ^ 32"
  by (simp add: mem_limit_def word_le_nat_alt)

lemma length_bytes_at [simp]: "length (bytes_at f p n) = n"
  by (simp add: bytes_at_def)

lemma bytes_at_0 [simp]: "bytes_at f p 0 = []"
  by (simp add: bytes_at_def)

lemma nth_bytes_at: "i < n \<Longrightarrow> bytes_at f p n ! i = f (p + of_nat i)"
  by (simp add: bytes_at_def)

lemma unat_plus_small: "unat (p :: u32) + n < 2 ^ 32 \<Longrightarrow> unat (p + of_nat n) = unat p + n"
  by (simp add: unat_word_ariths unat_of_nat_mod)

lemma span_iff:
  "unat p + n \<le> 2 ^ 32 \<Longrightarrow> a \<in> span p n \<longleftrightarrow> (\<exists>i < n. a = p + of_nat i)"
proof
  assume n: "unat p + n \<le> 2 ^ 32" and "a \<in> span p n"
  then have "unat p \<le> unat a" "unat a < unat p + n" by (simp_all add: span_def)
  then have "unat a = unat (p + of_nat (unat a - unat p))"
    using unat_plus_small [of p "unat a - unat p"] unat_less [of a] by simp
  then have "a = p + of_nat (unat a - unat p)" by (simp only: word_unat_eq_iff)
  moreover have "unat a - unat p < n" using \<open>unat p \<le> unat a\<close> \<open>unat a < unat p + n\<close> by linarith
  ultimately show "\<exists>i < n. a = p + of_nat i" by blast
next
  assume n: "unat p + n \<le> 2 ^ 32" and "\<exists>i < n. a = p + of_nat i"
  then obtain i where "i < n" "a = p + of_nat i" by blast
  then show "a \<in> span p n" using n unat_plus_small [of p i] by (simp add: span_def)
qed

lemma bytes_at_Suc: "bytes_at f p (Suc n) = f p # bytes_at f (p + 1) n"
  by (rule nth_equalityI) (auto simp: nth_bytes_at nth_Cons' add.assoc gr0_conv_Suc)

lemma bytes_at_cong:
  "unat p + n \<le> 2 ^ 32 \<Longrightarrow> (\<And>a. a \<in> span p n \<Longrightarrow> f a = g a) \<Longrightarrow> bytes_at f p n = bytes_at g p n"
  unfolding bytes_at_def by (rule map_cong) (auto simp: span_iff)

section \<open>The byte routines\<close>

text \<open>Memory after writing a list of bytes from \<open>p\<close> on.\<close>

fun put_bytes :: "u32 \<Rightarrow> u8 list \<Rightarrow> (u32 \<Rightarrow> u8) \<Rightarrow> (u32 \<Rightarrow> u8)" where
  "put_bytes p [] f = f"
| "put_bytes p (b # bs) f = put_bytes (p + 1) bs (f(p := b))"

lemma unat_plus_1: "unat (p :: u32) + Suc n \<le> 2 ^ 32 \<Longrightarrow> 0 < n \<Longrightarrow> unat (p + 1) = unat p + 1"
  using unat_plus_small [of p 1] by simp

lemma put_bytes_apply:
  "unat p + length bs \<le> 2 ^ 32 \<Longrightarrow>
   put_bytes p bs f a = (if a \<in> span p (length bs) then bs ! (unat a - unat p) else f a)"
proof (induction p bs f rule: put_bytes.induct)
  case (2 p b bs f)
  show ?case
  proof (cases "bs = []")
    case True
    then show ?thesis
      by (auto simp: span_def word_unat_eq_iff)
  next
    case False
    then have p1: "unat (p + 1) = unat p + 1" using 2 unat_plus_1 [of p "length bs"] by simp
    have IH: "put_bytes (p + 1) bs (f(p := b)) a =
        (if a \<in> span (p + 1) (length bs) then bs ! (unat a - unat (p + 1)) else (f(p := b)) a)"
      using 2 p1 by (simp add: fun_upd_def)
    have "a \<in> span p (Suc (length bs)) \<longleftrightarrow> a = p \<or> a \<in> span (p + 1) (length bs)"
      by (auto simp: span_def p1 word_unat_eq_iff)
    then show ?thesis
      using IH p1 by (auto simp: span_def nth_Cons' word_unat_eq_iff)
  qed
qed (auto simp: span_def)

lemma bytes_at_put_bytes:
  "unat p + length bs \<le> 2 ^ 32 \<Longrightarrow> bytes_at (put_bytes p bs f) p (length bs) = bs"
  by (intro nth_equalityI)
    (auto simp: nth_bytes_at put_bytes_apply span_def unat_plus_small)

lemma bytes_at_put_bytes_other:
  assumes "unat p + length bs \<le> 2 ^ 32" and "unat q + n \<le> 2 ^ 32"
    and "unat q + n \<le> unat p \<or> unat p + length bs \<le> unat q"
  shows "bytes_at (put_bytes p bs f) q n = bytes_at f q n"
  using assms by (intro bytes_at_cong) (auto simp: put_bytes_apply span_def)

definition upd_mem :: "((u32 \<Rightarrow> u8) \<Rightarrow> (u32 \<Rightarrow> u8)) \<Rightarrow> machine \<Rightarrow> machine" where
  "upd_mem u m = m\<lparr>mem := u (mem m)\<rparr>"

lemma upd_mem_simps [simp]:
  "mem (upd_mem u m) = u (mem m)"
  "pages (upd_mem u m) = pages m"
  "mem_limit (upd_mem u m) = mem_limit m"
  "sbrk_bytes (upd_mem u m) = sbrk_bytes m"
  "sbrk_initialized (upd_mem u m) = sbrk_initialized m"
  by (simp_all add: upd_mem_def mem_limit_def)

lemma upd_mem_comp [simp]: "upd_mem u (upd_mem v m) = upd_mem (\<lambda>f. u (v f)) m"
  by (simp add: upd_mem_def)

lemma upd_mem_id [simp]: "upd_mem (\<lambda>f. f) m = m"
  by (simp add: upd_mem_def)

lemma load8_eq: "unat a < mem_limit m \<Longrightarrow> load8 a m = Inr (mem m a)"
  by (simp add: load8_def)

lemma store8_eq: "unat a < mem_limit m \<Longrightarrow> store8 a v m = Inr (upd_mem (\<lambda>f. f(a := v)) m)"
  by (simp add: store8_def upd_mem_def)

lemma memset_loop_eq:
  "unat p + i + k \<le> mem_limit m \<Longrightarrow> mem_limit m \<le> 2 ^ 32 \<Longrightarrow>
   memset_loop p c i k m = Inr (upd_mem (put_bytes (p + of_nat i) (replicate k c)) m)"
proof (induction k arbitrary: i m)
  case (Suc k)
  have "unat (p + of_nat i) = unat p + i" using Suc.prems by (intro unat_plus_small) simp
  then have "store8 (p + of_nat i) c m = Inr (upd_mem (\<lambda>f. f(p + of_nat i := c)) m)"
    using Suc.prems by (intro store8_eq) simp
  moreover have "p + of_nat (i + 1) = p + of_nat i + 1" by simp
  ultimately show ?case
    using Suc.IH [of "i + 1" "upd_mem (\<lambda>f. f(p + of_nat i := c)) m"] Suc.prems
    by (simp only: memset_loop.simps bind_res.simps upd_mem_simps upd_mem_comp replicate_Suc put_bytes.simps)
qed simp

text \<open>\<open>memset\<close> fills the range and leaves the rest of memory alone.\<close>

lemma memset_eq:
  "within p (unat n) m \<Longrightarrow> mem_limit m \<le> 2 ^ 32 \<Longrightarrow>
   memset p c n m = Inr (p, upd_mem (put_bytes p (replicate (unat n) (ucast c))) m)"
  using memset_loop_eq [of p 0 "unat n" m "ucast c"] by (simp add: memset_def within_def)

text \<open>A forward copy, when the destination does not overlap the part of the source still to come.\<close>

lemma memcpy_loop_eq:
  assumes "unat p1 + i + k \<le> mem_limit m" and "unat p2 + i + k \<le> mem_limit m" and "mem_limit m \<le> 2 ^ 32"
    and "unat p1 + k + i \<le> unat p2 \<or> unat p2 + k + i \<le> unat p1"
  shows "memcpy_loop p1 p2 i k m =
     Inr (upd_mem (put_bytes (p1 + of_nat i) (bytes_at (mem m) (p2 + of_nat i) k)) m)"
  using assms
proof (induction k arbitrary: i m)
  case (Suc k)
  let ?a = "p1 + of_nat i" and ?b = "p2 + of_nat i"
  have u: "unat ?a = unat p1 + i" "unat ?b = unat p2 + i"
    using Suc.prems by (auto intro!: unat_plus_small)
  let ?m = "upd_mem (\<lambda>f. f(?a := mem m ?b)) m"
  have step: "memcpy_loop p1 p2 i (Suc k) m = memcpy_loop p1 p2 (i + 1) k ?m"
    using Suc.prems u by (simp add: load8_eq store8_eq)
  have IH: "memcpy_loop p1 p2 (i + 1) k ?m =
      Inr (upd_mem (put_bytes (p1 + of_nat (i + 1)) (bytes_at (mem ?m) (p2 + of_nat (i + 1)) k)) ?m)"
    using Suc.prems by (intro Suc.IH) auto
  have "bytes_at (mem ?m) (p2 + of_nat (i + 1)) k = bytes_at (mem m) (p2 + of_nat (i + 1)) k"
    unfolding bytes_at_def
  proof (rule map_cong [OF refl])
    fix j assume "j \<in> set [0..<k]"
    then have "unat (p2 + of_nat (i + 1 + j)) = unat p2 + (i + 1 + j)"
      using Suc.prems by (intro unat_plus_small) auto
    then have "p2 + of_nat (i + 1) + of_nat j \<noteq> ?a"
      using u Suc.prems(4) \<open>j \<in> set [0..<k]\<close> by (auto simp: add.assoc word_unat_eq_iff)
    then show "mem ?m (p2 + of_nat (i + 1) + of_nat j) = mem m (p2 + of_nat (i + 1) + of_nat j)" by simp
  qed
  moreover have "bytes_at (mem m) ?b (Suc k) = mem m ?b # bytes_at (mem m) (p2 + of_nat (i + 1)) k"
    by (simp add: bytes_at_Suc add.commute add.left_commute)
  moreover have "p1 + of_nat (i + 1) = ?a + 1" by simp
  ultimately show ?case
    unfolding step IH by (simp only: upd_mem_comp put_bytes.simps)
qed simp

lemma memcpy_eq:
  assumes "within p1 (unat n) m" and "within p2 (unat n) m" and "mem_limit m \<le> 2 ^ 32"
    and "unat p1 + unat n \<le> unat p2 \<or> unat p2 + unat n \<le> unat p1"
  shows "memcpy p1 p2 n m = Inr (p1, upd_mem (put_bytes p1 (bytes_at (mem m) p2 (unat n))) m)"
  using memcpy_loop_eq [of p1 0 "unat n" m p2] assms by (simp add: memcpy_def within_def)

text \<open>
  What \<open>memmove\<close> needs of \<open>new\<close> and \<open>delete[]\<close>: the fresh array is in memory, away from both
  ranges, and neither call changes memory there.
\<close>

definition fresh_array :: "(u32 \<Rightarrow> machine \<Rightarrow> (u32 \<times> machine) res) \<Rightarrow> u32 \<Rightarrow> u32 \<Rightarrow> u32 \<Rightarrow> u32 \<Rightarrow> machine \<Rightarrow> machine \<Rightarrow> bool" where
  "fresh_array new_array n p3 p1 p2 m m' \<longleftrightarrow>
     new_array n m = Inr (p3, m') \<and> within p3 (unat n) m' \<and>
     mem_limit m \<le> mem_limit m' \<and> mem_limit m' \<le> 2 ^ 32 \<and>
     bytes_at (mem m') p2 (unat n) = bytes_at (mem m) p2 (unat n) \<and>
     (unat p3 + unat n \<le> unat p2 \<or> unat p2 + unat n \<le> unat p3) \<and>
     (unat p3 + unat n \<le> unat p1 \<or> unat p1 + unat n \<le> unat p3)"

definition releases :: "(u32 \<Rightarrow> machine \<Rightarrow> machine res) \<Rightarrow> u32 \<Rightarrow> u32 \<Rightarrow> nat \<Rightarrow> machine \<Rightarrow> machine \<Rightarrow> bool" where
  "releases delete_array p3 p1 n m m' \<longleftrightarrow>
     delete_array p3 m = Inr m' \<and> bytes_at (mem m') p1 n = bytes_at (mem m) p1 n"

text \<open>Overlapping or not, the destination receives the source's old bytes.\<close>

lemma memmove_copies:
  assumes "within p1 (unat n) m" and "within p2 (unat n) m"
    and fresh: "fresh_array new_array n p3 p1 p2 m m1"
    and rel: "\<And>m2. mem_limit m2 = mem_limit m1 \<Longrightarrow> releases delete_array p3 p1 (unat n) m2 (d m2)"
  shows "\<exists>m'. memmove new_array delete_array p1 p2 n m = Inr (p1, m') \<and>
    bytes_at (mem m') p1 (unat n) = bytes_at (mem m) p2 (unat n)"
proof -
  let ?src = "bytes_at (mem m) p2 (unat n)"
  from fresh have new: "new_array n m = Inr (p3, m1)" "within p3 (unat n) m1" "mem_limit m1 \<le> 2 ^ 32"
    "within p1 (unat n) m1" "within p2 (unat n) m1" "bytes_at (mem m1) p2 (unat n) = ?src"
    using assms(1,2) by (auto simp: fresh_array_def within_def)
  define m2 where "m2 = upd_mem (put_bytes p3 ?src) m1"
  define m3 where "m3 = upd_mem (put_bytes p1 ?src) m2"
  have len: "length ?src = unat n" by simp
  have w3: "unat p3 + unat n \<le> 2 ^ 32" "unat p1 + unat n \<le> 2 ^ 32" using new by (auto simp: within_def)
  have c1: "memcpy p3 p2 n m1 = Inr (p3, m2)"
    using memcpy_eq [of p3 n m1 p2] fresh new by (auto simp: m2_def fresh_array_def)
  have "bytes_at (mem m2) p3 (unat n) = ?src"
    using bytes_at_put_bytes [of p3 ?src "mem m1"] w3 by (simp add: m2_def)
  then have c2: "memcpy p1 p3 n m2 = Inr (p1, m3)"
    using memcpy_eq [of p1 n m2 p3] fresh new by (auto simp: m2_def m3_def fresh_array_def within_def)
  have "mem_limit m3 = mem_limit m1" by (simp add: m2_def m3_def)
  then have r: "releases delete_array p3 p1 (unat n) m3 (d m3)" by (rule rel)
  have "bytes_at (mem m3) p1 (unat n) = ?src"
    using bytes_at_put_bytes [of p1 ?src "mem m2"] w3 by (simp add: m3_def)
  then show ?thesis
    using new c1 c2 r by (simp add: memmove_def releases_def)
qed

text \<open>\<open>memcmp\<close> orders byte strings of one length as lists of unsigned bytes.\<close>

fun compare_bytes :: "u8 list \<Rightarrow> u8 list \<Rightarrow> int" where
  "compare_bytes (a # as) (b # bs) = (if a < b then - 1 else if a > b then 1 else compare_bytes as bs)"
| "compare_bytes _ _ = 0"

lemma memcmp_loop_eq:
  "unat p1 + i + k \<le> mem_limit m \<Longrightarrow> unat p2 + i + k \<le> mem_limit m \<Longrightarrow> mem_limit m \<le> 2 ^ 32 \<Longrightarrow>
   memcmp_loop p1 p2 i k m =
     Inr (compare_bytes (bytes_at (mem m) (p1 + of_nat i) k) (bytes_at (mem m) (p2 + of_nat i) k))"
proof (induction k arbitrary: i)
  case (Suc k)
  have "unat (p1 + of_nat i) = unat p1 + i" "unat (p2 + of_nat i) = unat p2 + i"
    using Suc.prems by (auto intro!: unat_plus_small)
  then have "load8 (p1 + of_nat i) m = Inr (mem m (p1 + of_nat i))"
    "load8 (p2 + of_nat i) m = Inr (mem m (p2 + of_nat i))"
    using Suc.prems by (auto intro!: load8_eq)
  then show ?case
    using Suc.IH [of "i + 1"] Suc.prems by (simp add: bytes_at_Suc add.commute add.left_commute)
qed simp

lemma memcmp_eq:
  "within p1 (unat n) m \<Longrightarrow> within p2 (unat n) m \<Longrightarrow> mem_limit m \<le> 2 ^ 32 \<Longrightarrow>
   memcmp p1 p2 n m = Inr (compare_bytes (bytes_at (mem m) p1 (unat n)) (bytes_at (mem m) p2 (unat n)))"
  using memcmp_loop_eq [of p1 0 "unat n" m p2] by (simp add: memcmp_def within_def)

lemma compare_bytes_0: "length as = length bs \<Longrightarrow> compare_bytes as bs = 0 \<longleftrightarrow> as = bs"
  by (induction as bs rule: list_induct2) (auto simp: not_less)

lemma compare_bytes_sym: "length as = length bs \<Longrightarrow> compare_bytes bs as = - compare_bytes as bs"
  by (induction as bs rule: list_induct2) auto

section \<open>Words in memory\<close>

lemma mem_word_put_word [simp]: "mem_word (put_word a v f) a = v"
proof -
  have "le_word (le_bytes 4 v) = v" by simp
  then have "(le_word [ucast v, ucast (drop_bit 8 v), ucast (drop_bit 16 v), ucast (drop_bit 24 v)] :: u32) = v"
    by (simp add: numeral_eq_Suc del: le_word.simps le_word_bytes)
  then show ?thesis by (simp add: mem_word_def put_word_def del: le_word.simps)
qed

lemma mem_word_cong:
  "unat a + 4 \<le> 2 ^ 32 \<Longrightarrow> (\<And>b. b \<in> span a 4 \<Longrightarrow> f b = g b) \<Longrightarrow> mem_word f a = mem_word g a"
proof -
  assume a: "unat a + 4 \<le> 2 ^ 32" and eq: "\<And>b. b \<in> span a 4 \<Longrightarrow> f b = g b"
  have "f (a + of_nat i) = g (a + of_nat i)" if "i < 4" for i
    using that a by (intro eq) (auto simp: span_iff)
  from this [of 0] this [of 1] this [of 2] this [of 3] show ?thesis by (simp add: mem_word_def)
qed

lemma put_word_other:
  assumes "unat a + 4 \<le> 2 ^ 32" and "b \<notin> span a 4"
  shows "put_word a v f b = f b"
proof -
  have "b \<noteq> a + of_nat i" if "i < 4" for i using that assms by (auto simp: span_iff)
  from this [of 0] this [of 1] this [of 2] this [of 3] show ?thesis by (simp add: put_word_def)
qed

lemma mem_word_put_other:
  assumes "unat a + 4 \<le> 2 ^ 32" and "unat b + 4 \<le> 2 ^ 32" and "unat b + 4 \<le> unat a \<or> unat a + 4 \<le> unat b"
  shows "mem_word (put_word a v f) b = mem_word f b"
  using assms by (intro mem_word_cong put_word_other) (auto simp: span_def)

lemma load32_eq: "unat a + 4 \<le> mem_limit m \<Longrightarrow> load32 a m = Inr (mem_word (mem m) a)"
  by (simp add: load32_def)

lemma store32_eq: "unat a + 4 \<le> mem_limit m \<Longrightarrow> store32 a v m = Inr (upd_mem (put_word a v) m)"
  by (simp add: store32_def upd_mem_def)

end
