(* ===== verification/Uos_Malloc.thy ===== *)
theory Uos_Malloc
  imports Uos_Memory Uos_Check
begin

text \<open>
  malloc.cpp: \<open>memory_manager\<close> with its array of \<open>memory\<close> heaps, each a chain of blocks behind
  four-byte headers that hold a block's size and, in the top bit, whether it is allocated. The
  model is byte-exact on the wasm32 target. A loop that the code does not bound is a
  \<open>partial_function\<close> into \<^typ>\<open>'a option\<close>, where \<open>None\<close> means that it never returns.
\<close>

type_synonym 'a out = "'a res option"

fun bind_out :: "'a out \<Rightarrow> ('a \<Rightarrow> 'b out) \<Rightarrow> 'b out" where
  "bind_out None f = None"
| "bind_out (Some (Inl e)) f = Some (Inl e)"
| "bind_out (Some (Inr v)) f = f v"

lemma bind_out_eq_Inr: "bind_out m f = Some (Inr v) \<longleftrightarrow> (\<exists>x. m = Some (Inr x) \<and> f x = Some (Inr v))"
  by (cases m; cases "the m") auto

text \<open>
  A loop: each round gives either the state of the next round (\<open>Inl\<close>) or the result (\<open>Inr\<close>).
\<close>

lemma mono_case_sum [partial_function_mono]:
  "(\<And>e. mono_option (\<lambda>f. F e f)) \<Longrightarrow> (\<And>v. mono_option (\<lambda>f. G v f)) \<Longrightarrow>
   mono_option (\<lambda>f. case x of Inl e \<Rightarrow> F e f | Inr v \<Rightarrow> G v f)"
  by (cases x) simp_all

partial_function (option) loop_out :: "('s \<Rightarrow> ('s + 'r) out) \<Rightarrow> 's \<Rightarrow> 'r out" where
  "loop_out step s =
     (case step s of
        None \<Rightarrow> None
      | Some out \<Rightarrow>
          (case out of
             Inl e \<Rightarrow> Some (Inl e)
           | Inr r \<Rightarrow> (case r of Inl s' \<Rightarrow> loop_out step s' | Inr v \<Rightarrow> Some (Inr v))))"

declare loop_out.simps [code]

text \<open>
  The environment: whether the host grants more pages, the value of a pointer cast to
  \<open>int64_t\<close>, and the address the linker gives \<open>_initial_heap\<close>.
\<close>

record env =
  grow :: "u32 \<Rightarrow> u32 \<Rightarrow> bool"
  ptr_int64 :: "u32 \<Rightarrow> i64"
  initial_heap :: u32

definition size_marker :: u32 where
  "size_marker = 4"

definition mem_block :: u32 where
  "mem_block = 8"

definition rem_mem_block_mask :: u32 where
  "rem_mem_block_mask = mem_block - 1"

definition initial_heap_size :: u32 where
  "initial_heap_size = 8192"

definition heaps_size :: u32 where
  "heaps_size = 16"

definition alloc_memory_mask :: u32 where
  "alloc_memory_mask = push_bit 31 1"

section \<open>buffer\_ptr\<close>

record buffer_ptr =
  bp_ptr :: u32
  bp_size :: u32
  bp_heap_end :: u32

definition buffer_ptr_of :: "u32 \<Rightarrow> u32 \<Rightarrow> machine \<Rightarrow> buffer_ptr res" where
  "buffer_ptr_of ptr heap_end m =
     bind_res (load32 (ptr - size_marker) m) (\<lambda>h.
     Inr \<lparr>bp_ptr = ptr, bp_size = h AND NOT alloc_memory_mask, bp_heap_end = heap_end\<rparr>)"

text \<open>The member function \<open>size(val)\<close> keeps the state of the block.\<close>

definition bp_set_size :: "u32 \<Rightarrow> buffer_ptr \<Rightarrow> machine \<Rightarrow> (buffer_ptr \<times> machine) res" where
  "bp_set_size val b m =
     bind_res (load32 (bp_ptr b - size_marker) m) (\<lambda>h.
     let memory_state = h AND alloc_memory_mask in
     bind_res (store32 (bp_ptr b - size_marker) (val OR memory_state) m) (\<lambda>m.
     Inr (b\<lparr>bp_size := val\<rparr>, m)))"

definition buffer_ptr_make :: "u32 \<Rightarrow> u32 \<Rightarrow> u32 \<Rightarrow> machine \<Rightarrow> (buffer_ptr \<times> machine) res" where
  "buffer_ptr_make ptr buff_size heap_end m =
     bp_set_size buff_size \<lparr>bp_ptr = ptr, bp_size = 0, bp_heap_end = heap_end\<rparr> m"

definition bp_end :: "buffer_ptr \<Rightarrow> u32" where
  "bp_end b = bp_ptr b + bp_size b"

definition bp_next_ptr :: "buffer_ptr \<Rightarrow> u32" where
  "bp_next_ptr b = (let next = bp_end b + size_marker in if next \<ge> bp_heap_end b then 0 else next)"

definition bp_mark_alloc :: "buffer_ptr \<Rightarrow> machine \<Rightarrow> machine res" where
  "bp_mark_alloc b m =
     bind_res (load32 (bp_ptr b - size_marker) m) (\<lambda>h.
     store32 (bp_ptr b - size_marker) (h OR alloc_memory_mask) m)"

definition bp_mark_free :: "buffer_ptr \<Rightarrow> machine \<Rightarrow> machine res" where
  "bp_mark_free b m =
     bind_res (load32 (bp_ptr b - size_marker) m) (\<lambda>h.
     store32 (bp_ptr b - size_marker) (h AND NOT alloc_memory_mask) m)"

definition bp_is_alloc :: "buffer_ptr \<Rightarrow> machine \<Rightarrow> bool res" where
  "bp_is_alloc b m =
     bind_res (load32 (bp_ptr b - size_marker) m) (\<lambda>h. Inr (h AND alloc_memory_mask \<noteq> 0))"

text \<open>The loop of \<open>merge_contiguous\<close> over the blocks that follow.\<close>

definition merge_step :: "machine \<Rightarrow> u32 \<Rightarrow> u32 \<Rightarrow> u32 \<Rightarrow> u32 \<Rightarrow> (u32 + u32) out" where
  "merge_step m ptr h_end needed_size possible_size =
     (if possible_size < needed_size \<and> ptr + possible_size < h_end then
        Some (bind_res (load32 (ptr + possible_size) m) (\<lambda>next_mem_flag_size.
        Inr (if next_mem_flag_size AND alloc_memory_mask \<noteq> 0 then Inr possible_size
             else Inl (possible_size + ((next_mem_flag_size AND NOT alloc_memory_mask) + size_marker)))))
      else Some (Inr (Inr possible_size)))"

definition merge_loop :: "machine \<Rightarrow> u32 \<Rightarrow> u32 \<Rightarrow> u32 \<Rightarrow> u32 \<Rightarrow> u32 out" where
  "merge_loop m ptr h_end needed_size = loop_out (merge_step m ptr h_end needed_size)"

definition bp_merge_contiguous :: "u32 \<Rightarrow> bool \<Rightarrow> buffer_ptr \<Rightarrow> machine \<Rightarrow> (bool \<times> buffer_ptr \<times> machine) out" where
  "bp_merge_contiguous needed_size all_or_nothing b m =
     (if all_or_nothing \<and> bp_heap_end b - bp_ptr b < needed_size then Some (Inr (False, b, m))
      else
        bind_out (merge_loop m (bp_ptr b) (bp_heap_end b) needed_size (bp_size b)) (\<lambda>possible_size.
        if all_or_nothing \<and> possible_size < needed_size then Some (Inr (False, b, m))
        else
          let new_size = (if possible_size < needed_size then possible_size else needed_size) in
          Some (bind_res (bp_set_size new_size b m) (\<lambda>(b, m).
          bind_res
            (if possible_size > needed_size then
               let freed_size = possible_size - needed_size - size_marker in
               bind_res (buffer_ptr_make (bp_ptr b + needed_size + size_marker) freed_size (bp_heap_end b) m)
                 (\<lambda>(freed_remainder, m). bp_mark_free freed_remainder m)
             else Inr m) (\<lambda>m.
          Inr (new_size = needed_size, b, m))))))"

definition bp_merge_if_available :: "u32 \<Rightarrow> buffer_ptr \<Rightarrow> machine \<Rightarrow> (bool \<times> buffer_ptr \<times> machine) out" where
  "bp_merge_if_available needed_size b m = bp_merge_contiguous needed_size True b m"

section \<open>memory\<close>

record heap =
  heap_size :: u32
  heap_base :: u32
  heap_offset :: u32

definition heap_default :: heap where
  "heap_default = \<lparr>heap_size = 0, heap_base = 0, heap_offset = 0\<rparr>"

definition heap_init :: "u32 \<Rightarrow> u32 \<Rightarrow> heap \<Rightarrow> heap" where
  "heap_init mem_heap sz h = h\<lparr>heap_size := sz, heap_base := mem_heap\<rparr>"

definition heap_is_init :: "heap \<Rightarrow> bool" where
  "heap_is_init h \<longleftrightarrow> heap_base h \<noteq> 0"

definition heap_end :: "heap \<Rightarrow> u32" where
  "heap_end h = heap_base h + heap_size h"

definition heap_is_in_heap :: "u32 \<Rightarrow> heap \<Rightarrow> bool" where
  "heap_is_in_heap ptr h \<longleftrightarrow> ptr \<ge> heap_base h + size_marker \<and> ptr < heap_end h"

definition heap_is_capacity_remaining :: "heap \<Rightarrow> bool" where
  "heap_is_capacity_remaining h \<longleftrightarrow> heap_offset h + size_marker < heap_size h"

definition heap_malloc :: "u32 \<Rightarrow> heap \<Rightarrow> machine \<Rightarrow> (u32 \<times> heap \<times> machine) res" where
  "heap_malloc sz h m =
     (let used_up_size = heap_offset h + sz + size_marker in
      if used_up_size > heap_size h then Inr (0, h, m)
      else
        bind_res (buffer_ptr_make (heap_base h + heap_offset h + size_marker) sz (heap_end h) m) (\<lambda>(new_buff, m).
        let h = h\<lparr>heap_offset := heap_offset h + (sz + size_marker)\<rparr> in
        bind_res (bp_mark_alloc new_buff m) (\<lambda>m.
        Inr (bp_ptr new_buff, h, m))))"

definition from_freed_step :: "u32 \<Rightarrow> u32 \<Rightarrow> u32 \<times> machine \<Rightarrow> ((u32 \<times> machine) + (u32 \<times> machine)) out" where
  "from_freed_step sz h_end = (\<lambda>(current, m).
     if current \<noteq> 0 then
       bind_out (Some (buffer_ptr_of current h_end m)) (\<lambda>current_buffer.
       bind_out (Some (bp_is_alloc current_buffer m)) (\<lambda>is_alloc.
       if \<not> is_alloc then
         bind_out (bp_merge_contiguous sz False current_buffer m) (\<lambda>(enough, current_buffer, m).
         if enough then Some (bind_res (bp_mark_alloc current_buffer m) (\<lambda>m. Inr (Inr (current, m))))
         else Some (Inr (Inl (bp_next_ptr current_buffer, m))))
       else Some (Inr (Inl (bp_next_ptr current_buffer, m)))))
     else Some (Inr (Inr (0, m))))"

definition heap_malloc_from_freed :: "u32 \<Rightarrow> heap \<Rightarrow> machine \<Rightarrow> (u32 \<times> machine) out" where
  "heap_malloc_from_freed sz h m =
     bind_out (Some (check (heap_offset h = heap_size h)
       ''malloc_from_freed was designed to only be called after _heap was completely allocated'')) (\<lambda>_.
     loop_out (from_freed_step sz (heap_end h)) (heap_base h + size_marker, m))"

text \<open>The result is the pointer, the original size reported to the caller, and the new state.\<close>

definition heap_realloc_in_place :: "u32 \<Rightarrow> u32 \<Rightarrow> heap \<Rightarrow> machine \<Rightarrow> (u32 \<times> u32 \<times> heap \<times> machine) out" where
  "heap_realloc_in_place ptr sz h m =
     (let end_of_buffer = heap_end h in
      bind_out (Some (buffer_ptr_of ptr end_of_buffer m)) (\<lambda>orig_buffer.
      let orig_ptr_size = bp_size orig_buffer; orig_buffer_end = bp_end orig_buffer in
      if orig_buffer_end > end_of_buffer then Some (Inr (0, 0, h, m))
      else if ptr > end_of_buffer - sz then Some (Inr (0, orig_ptr_size, h, m))
      else if orig_ptr_size > sz then
        let new_ptr = ptr + sz + size_marker in
        Some (bind_res (buffer_ptr_make new_ptr (orig_ptr_size - sz) end_of_buffer m) (\<lambda>(excess_to_free, m).
        bind_res (bp_mark_free excess_to_free m) (\<lambda>m.
        Inr (ptr, orig_ptr_size, h, m))))
      else if orig_buffer_end = heap_base h + heap_offset h then
        Some (bind_res (bp_set_size sz orig_buffer m) (\<lambda>(_, m).
        Inr (ptr, orig_ptr_size, h\<lparr>heap_offset := heap_offset h + (sz - orig_ptr_size)\<rparr>, m)))
      else if sz = orig_ptr_size then Some (Inr (ptr, orig_ptr_size, h, m))
      else
        bind_out (bp_merge_if_available sz orig_buffer m) (\<lambda>(merged, orig_buffer, m).
        if \<not> merged then Some (Inr (0, orig_ptr_size, h, m))
        else Some (bind_res (bp_mark_alloc orig_buffer m) (\<lambda>m. Inr (ptr, orig_ptr_size, h, m))))))"

definition heap_free :: "u32 \<Rightarrow> heap \<Rightarrow> machine \<Rightarrow> machine res" where
  "heap_free ptr h m =
     bind_res (buffer_ptr_of ptr (heap_end h) m) (\<lambda>to_free. bp_mark_free to_free m)"

definition heap_cleanup_remaining :: "heap \<Rightarrow> machine \<Rightarrow> (heap \<times> machine) res" where
  "heap_cleanup_remaining h m =
     (if heap_offset h = heap_size h then Inr (h, m)
      else
        let sz = heap_size h - heap_offset h - size_marker in
        bind_res (buffer_ptr_make (heap_base h + heap_offset h + size_marker) sz (heap_end h) m) (\<lambda>(new_buff, m).
        let h = h\<lparr>heap_offset := heap_size h\<rparr> in
        bind_res (bp_mark_free new_buff m) (\<lambda>m. Inr (h, m))))"

definition heap_expand_memory :: "u32 \<Rightarrow> u32 \<Rightarrow> heap \<Rightarrow> bool \<times> heap" where
  "heap_expand_memory exp_mem sz h =
     (if heap_base h + heap_size h \<noteq> exp_mem then (False, h)
      else (True, h\<lparr>heap_size := heap_size h + sz\<rparr>))"

section \<open>memory\_manager\<close>

record manager =
  machine :: machine
  available_heaps :: "heap list"
  heaps_actual_size :: u32
  active_heap :: u32
  active_free_heap :: u32

text \<open>An access to \<open>_available_heaps\<close>, whose length is \<open>_heaps_size\<close>.\<close>

definition get_heap :: "u32 \<Rightarrow> manager \<Rightarrow> heap res" where
  "get_heap i s =
     (if i < heaps_size then Inr (available_heaps s ! unat i)
      else Inl (Undefined ''heap index out of bounds''))"

definition set_heap :: "u32 \<Rightarrow> heap \<Rightarrow> manager \<Rightarrow> manager res" where
  "set_heap i h s =
     (if i < heaps_size then Inr (s\<lparr>available_heaps := (available_heaps s)[unat i := h]\<rparr>)
      else Inl (Undefined ''heap index out of bounds''))"

text \<open>The constructor; memory itself starts as the program's loader leaves it.\<close>

definition manager_init :: "machine \<Rightarrow> manager" where
  "manager_init m =
     \<lparr>machine = m, available_heaps = replicate (unat heaps_size) heap_default,
      heaps_actual_size = 0, active_heap = 0, active_free_heap = 0\<rparr>"

definition sbrk_manager :: "env \<Rightarrow> u32 \<Rightarrow> manager \<Rightarrow> u32 \<times> manager" where
  "sbrk_manager e n s = (let (p, m) = sbrk (grow e) n (machine s) in (p, s\<lparr>machine := m\<rparr>))"

definition wasm_page_size :: u32 where
  "wasm_page_size = 64 * 1024"

definition heap_adjustment :: "u32 \<Rightarrow> u32" where
  "heap_adjustment current_memory_size =
     (if current_memory_size mod wasm_page_size \<le> wasm_page_size - 1024
      then (current_memory_size + wasm_page_size) - (current_memory_size mod wasm_page_size) - current_memory_size
      else (current_memory_size + wasm_page_size * 2) - (current_memory_size mod (wasm_page_size * 2)) - current_memory_size)"

definition cleanup_heap :: "u32 \<Rightarrow> manager \<Rightarrow> manager res" where
  "cleanup_heap i s =
     bind_res (get_heap i s) (\<lambda>h.
     bind_res (heap_cleanup_remaining h (machine s)) (\<lambda>(h, m).
     set_heap i h (s\<lparr>machine := m\<rparr>)))"

text \<open>
  The index of the next heap, or nothing for \<open>nullptr\<close>. \<open>size_t\<close> converts to \<open>int64_t\<close> without
  a change of value, so that the first test compares an unsigned value with zero.
\<close>

definition next_active_heap :: "env \<Rightarrow> manager \<Rightarrow> (u32 option \<times> manager) res" where
  "next_active_heap e s =
     (let current_memory = active_heap s;
          (current_memory_size, s) = sbrk_manager e 0 s in
      if int (unat current_memory_size) < 0 then Inr (None, s)
      else
        let heap_adj = heap_adjustment current_memory_size;
            (new_memory_start, s) = sbrk_manager e heap_adj s in
        if ptr_int64 e new_memory_start = - 1 then
          bind_res (cleanup_heap current_memory s) (\<lambda>s.
          let s = s\<lparr>active_heap := active_heap s + 1\<rparr> in
          Inr (None, s\<lparr>heaps_actual_size := active_heap s\<rparr>))
        else
          bind_res (get_heap current_memory s) (\<lambda>h.
          let (expanded, h) = heap_expand_memory new_memory_start heap_adj h in
          if expanded then bind_res (set_heap current_memory h s) (\<lambda>s. Inr (Some current_memory, s))
          else
            bind_res (cleanup_heap current_memory s) (\<lambda>s.
            let s = s\<lparr>active_heap := active_heap s + 1\<rparr>; next = active_heap s in
            bind_res (get_heap next s) (\<lambda>h.
            bind_res (set_heap next (heap_init new_memory_start heap_adj h) s) (\<lambda>s.
            Inr (Some next, s))))))"

definition adjust_to_mem_block :: "u32 \<Rightarrow> u32" where
  "adjust_to_mem_block sz =
     (let remainder = (sz + size_marker) AND rem_mem_block_mask in
      if remainder > 0 then sz + (mem_block - remainder) else sz)"

text \<open>The first loop of \<open>malloc\<close>: try the current heap, then ask for more memory.\<close>

definition malloc_step :: "env \<Rightarrow> u32 \<Rightarrow> u32 option \<times> manager \<Rightarrow> ((u32 option \<times> manager) + (u32 \<times> manager)) out" where
  "malloc_step e sz = (\<lambda>(current, s).
     Some (case current of
       None \<Rightarrow> Inr (Inr (0, s))
     | Some i \<Rightarrow>
         bind_res (get_heap i s) (\<lambda>h.
         bind_res (heap_malloc sz h (machine s)) (\<lambda>(buffer, h, m).
         bind_res (set_heap i h (s\<lparr>machine := m\<rparr>)) (\<lambda>s.
         if buffer \<noteq> 0 then Inr (Inr (buffer, s))
         else bind_res (next_active_heap e s) (\<lambda>next. Inr (Inl next)))))))"

text \<open>The second loop: search the heaps for freed blocks, once around.\<close>

definition freed_step :: "u32 \<Rightarrow> u32 \<Rightarrow> manager \<Rightarrow> (manager + (u32 \<times> manager)) out" where
  "freed_step sz end_free_heap = (\<lambda>s.
     bind_out (Some (get_heap (active_free_heap s) s)) (\<lambda>h.
     bind_out (heap_malloc_from_freed sz h (machine s)) (\<lambda>(buffer, m).
     let s = s\<lparr>machine := m\<rparr> in
     if buffer \<noteq> 0 then Some (Inr (Inr (buffer, s)))
     else
       let s = s\<lparr>active_free_heap := active_free_heap s + 1\<rparr>;
           s = (if active_free_heap s = heaps_actual_size s then s\<lparr>active_free_heap := 0\<rparr> else s)
       in if active_free_heap s \<noteq> end_free_heap then Some (Inr (Inl s)) else Some (Inr (Inr (0, s))))))"

definition manager_malloc :: "env \<Rightarrow> u32 \<Rightarrow> manager \<Rightarrow> (u32 \<times> manager) out" where
  "manager_malloc e sz s =
     (if sz = 0 then Some (Inr (0, s))
      else
        let s = (if heaps_actual_size s = 0 then s\<lparr>heaps_actual_size := heaps_size\<rparr> else s);
            sz = adjust_to_mem_block sz in
        bind_out (Some
          (if active_heap s < heaps_actual_size s then
             bind_res (get_heap (active_heap s) s) (\<lambda>start_heap.
             if active_heap s = 0 \<and> \<not> heap_is_init start_heap
             then bind_res (set_heap 0 (heap_init (initial_heap e) initial_heap_size start_heap) s)
                    (\<lambda>s. Inr (Some (active_heap s), s))
             else Inr (Some (active_heap s), s))
           else Inr (None, s))) (\<lambda>(current, s).
        bind_out (loop_out (malloc_step e sz) (current, s)) (\<lambda>(buffer, s).
        if buffer \<noteq> 0 then Some (Inr (buffer, s))
        else loop_out (freed_step sz (active_free_heap s)) s)))"

text \<open>The loop of \<open>free\<close> and \<open>realloc\<close> over the heaps in use, from index \<open>i\<close>.\<close>

function find_heap :: "u32 \<Rightarrow> nat \<Rightarrow> manager \<Rightarrow> u32 option res" where
  "find_heap ptr i s =
     (if i < unat (heaps_actual_size s) then
        bind_res (get_heap (of_nat i) s) (\<lambda>h.
        if \<not> heap_is_init h then Inr None
        else if heap_is_in_heap ptr h then Inr (Some (of_nat i))
        else find_heap ptr (i + 1) s)
      else Inr None)"
  by pat_completeness auto
termination by (relation "measure (\<lambda>(ptr, i, s). unat (heaps_actual_size s) - i)") auto

declare find_heap.simps [simp del]

definition manager_free :: "u32 \<Rightarrow> manager \<Rightarrow> manager res" where
  "manager_free ptr s =
     (if ptr = 0 then Inr s
      else
        bind_res (find_heap ptr 0 s) (\<lambda>found.
        case found of
          None \<Rightarrow> Inr s
        | Some i \<Rightarrow>
            bind_res (get_heap i s) (\<lambda>h.
            bind_res (heap_free ptr h (machine s)) (\<lambda>m. Inr (s\<lparr>machine := m\<rparr>)))))"

definition manager_realloc :: "env \<Rightarrow> u32 \<Rightarrow> u32 \<Rightarrow> manager \<Rightarrow> (u32 \<times> manager) out" where
  "manager_realloc e ptr sz s =
     (if sz = 0 then Some (bind_res (manager_free ptr s) (\<lambda>s. Inr (0, s)))
      else
        let sz = adjust_to_mem_block sz in
        bind_out
          (if ptr \<noteq> 0 then
             bind_out (Some (find_heap ptr 0 s)) (\<lambda>found.
             case found of
               None \<Rightarrow> Some (Inr (0, 0, s))
             | Some i \<Rightarrow>
                 bind_out (Some (get_heap i s)) (\<lambda>h.
                 bind_out (heap_realloc_in_place ptr sz h (machine s)) (\<lambda>(realloc_ptr, orig_ptr_size, h, m).
                 Some (bind_res (set_heap i h (s\<lparr>machine := m\<rparr>)) (\<lambda>s. Inr (realloc_ptr, orig_ptr_size, s))))))
           else Some (Inr (0, 0, s))) (\<lambda>(realloc_ptr, orig_ptr_size, s).
        if realloc_ptr \<noteq> 0 then Some (Inr (realloc_ptr, s))
        else
          bind_out (manager_malloc e sz s) (\<lambda>(new_alloc, s).
          if new_alloc = 0 then Some (Inr (0, s))
          else
            let copy_size = (if sz < orig_ptr_size then sz else orig_ptr_size) in
            if copy_size > 0 then
              Some (bind_res (memcpy new_alloc ptr copy_size (machine s)) (\<lambda>(_, m).
              bind_res (manager_free ptr (s\<lparr>machine := m\<rparr>)) (\<lambda>s. Inr (new_alloc, s))))
            else Some (Inr (new_alloc, s)))))"

section \<open>The C interface\<close>

definition c_malloc :: "env \<Rightarrow> u32 \<Rightarrow> manager \<Rightarrow> (u32 \<times> manager) out" where
  "c_malloc e sz s = manager_malloc e sz s"

definition c_calloc :: "env \<Rightarrow> u32 \<Rightarrow> u32 \<Rightarrow> manager \<Rightarrow> (u32 \<times> manager) out" where
  "c_calloc e count sz s =
     bind_out (manager_malloc e (count * sz) s) (\<lambda>(ptr, s).
     Some (bind_res (memset ptr 0 (count * sz) (machine s)) (\<lambda>(_, m). Inr (ptr, s\<lparr>machine := m\<rparr>))))"

definition c_realloc :: "env \<Rightarrow> u32 \<Rightarrow> u32 \<Rightarrow> manager \<Rightarrow> (u32 \<times> manager) out" where
  "c_realloc e ptr sz s = manager_realloc e ptr sz s"

definition c_free :: "u32 \<Rightarrow> manager \<Rightarrow> manager res" where
  "c_free ptr s = manager_free ptr s"

end
