(* ===== verification/Uos_Heap.thy ===== *)
theory Uos_Heap
  imports Uos_Malloc
begin

text \<open>
  What one heap of malloc.cpp is: a list of blocks behind their headers. Each operation of the
  class \<open>memory\<close> is an operation on that list, and changes no byte but headers.
\<close>

section \<open>Headers\<close>

type_synonym block = "nat \<times> bool"

definition header :: "nat \<Rightarrow> bool \<Rightarrow> u32" where
  "header n alloc = of_nat n OR (if alloc then alloc_memory_mask else 0)"

definition extent :: "block list \<Rightarrow> nat" where
  "extent bs = sum_list (map (\<lambda>(n, _). n + 4) bs)"

fun blocks_at :: "(u32 \<Rightarrow> u8) \<Rightarrow> nat \<Rightarrow> block list \<Rightarrow> bool" where
  "blocks_at f a [] \<longleftrightarrow> True"
| "blocks_at f a ((n, alloc) # bs) \<longleftrightarrow>
     mem_word f (of_nat a) = header n alloc \<and> blocks_at f (a + n + 4) bs"

lemma extent_simps [simp]:
  "extent [] = 0" "extent ((n, alloc) # bs) = n + 4 + extent bs" "extent (bs @ cs) = extent bs + extent cs"
  by (simp_all add: extent_def)

lemma blocks_at_append:
  "blocks_at f a (bs @ cs) \<longleftrightarrow> blocks_at f a bs \<and> blocks_at f (a + extent bs) cs"
  by (induction f a bs rule: blocks_at.induct) (auto simp: ac_simps)

lemma header_bits:
  assumes "n < 2 ^ 31"
  shows "header n alloc AND NOT alloc_memory_mask = of_nat n"
    and "header n alloc AND alloc_memory_mask \<noteq> 0 \<longleftrightarrow> alloc"
    and "header n alloc OR alloc_memory_mask = header n True"
    and "(of_nat n OR (w AND alloc_memory_mask)) OR alloc_memory_mask = header n True"
    and "(of_nat n OR (w AND alloc_memory_mask)) AND NOT alloc_memory_mask = header n False"
    and "header n alloc AND NOT alloc_memory_mask = header n False"
    and "of_nat k OR (header n alloc AND alloc_memory_mask) = header k alloc"
proof -
  have top: "\<not> bit (of_nat n :: u32) i" if "31 \<le> i" for i
  proof -
    have "bit (of_nat n :: u32) i \<longleftrightarrow> i < 32 \<and> bit n i" by (simp add: bit_simps)
    moreover have "n < 2 ^ i" using assms power_increasing [OF that, of "2 :: nat"] by simp
    ultimately show ?thesis by (simp add: bit_iff_odd)
  qed
  have m: "bit alloc_memory_mask i \<longleftrightarrow> i = 31" for i
    unfolding alloc_memory_mask_def by (auto simp: bit_push_bit_iff bit_1_iff simp del: push_bit_of_1)
  show "header n alloc AND NOT alloc_memory_mask = of_nat n"
    "header n alloc OR alloc_memory_mask = header n True"
    "(of_nat n OR (w AND alloc_memory_mask)) OR alloc_memory_mask = header n True"
    "(of_nat n OR (w AND alloc_memory_mask)) AND NOT alloc_memory_mask = header n False"
    "header n alloc AND NOT alloc_memory_mask = header n False"
    using top [of 31] by (intro bit_word_eqI; auto simp: header_def bit_and_iff bit_or_iff bit_not_iff m)+
  show "of_nat k OR (header n alloc AND alloc_memory_mask) = header k alloc"
    using top [of 31] by (intro bit_word_eqI) (auto simp: header_def bit_and_iff bit_or_iff m)
  have "bit (header n alloc AND alloc_memory_mask) 31 \<longleftrightarrow> alloc"
    using top [of 31] by (simp add: header_def bit_and_iff bit_or_iff m)
  moreover have "\<not> bit (header n alloc AND alloc_memory_mask) i" if "i \<noteq> 31" for i
    using that by (simp add: bit_and_iff m)
  ultimately show "header n alloc AND alloc_memory_mask \<noteq> 0 \<longleftrightarrow> alloc"
    by (metis bit_0_eq bot_apply bot_bool_def bit_eq_iff)
qed

text \<open>Only the bytes between the ends of the chain matter.\<close>

lemma blocks_at_cong:
  "a + extent bs \<le> 2 ^ 32 \<Longrightarrow> (\<And>b. a \<le> unat b \<Longrightarrow> unat b < a + extent bs \<Longrightarrow> f b = g b) \<Longrightarrow>
   blocks_at f a bs = blocks_at g a bs"
proof (induction f a bs rule: blocks_at.induct)
  case (2 f a n alloc bs)
  have a: "unat (of_nat a :: u32) = a" using "2.prems"(1) by (simp add: unat_of_nat_mod)
  then have "mem_word f (of_nat a) = mem_word g (of_nat a)"
    using "2.prems" by (intro mem_word_cong) (auto simp: span_def)
  moreover have "blocks_at f (a + n + 4) bs = blocks_at g (a + n + 4) bs"
    using "2.prems" by (intro "2.IH") auto
  ultimately show ?case by simp
qed simp

lemma unat_of_nat_u32: "n < 2 ^ 32 \<Longrightarrow> unat (of_nat n :: u32) = n"
  by (simp add: unat_of_nat_mod)

lemma header_False: "header n False = of_nat n"
  by (simp add: header_def)

section \<open>The members of \<open>buffer_ptr\<close>\<close>

text \<open>A block whose header is at \<open>a\<close>, in memory.\<close>

definition block_at :: "nat \<Rightarrow> machine \<Rightarrow> bool" where
  "block_at a m \<longleftrightarrow> a + 4 \<le> mem_limit m \<and> mem_limit m < 2 ^ 31"

abbreviation data_ptr :: "nat \<Rightarrow> u32" where
  "data_ptr a \<equiv> of_nat a + size_marker"

lemma data_ptr_header [simp]: "data_ptr a - size_marker = of_nat a"
  by simp

lemma block_at_unat: "block_at a m \<Longrightarrow> unat (of_nat a :: u32) = a"
  by (simp add: block_at_def unat_of_nat_mod)

lemma block_at_update [simp]: "block_at a (upd_mem u m) \<longleftrightarrow> block_at a m"
  by (simp add: block_at_def)

lemma block_at_access:
  assumes "block_at a m"
  shows "load32 (of_nat a) m = Inr (mem_word (mem m) (of_nat a))"
    and "store32 (of_nat a) v m = Inr (upd_mem (put_word (of_nat a) v) m)"
  using assms block_at_unat [OF assms] by (simp_all add: load32_eq store32_eq block_at_def)

lemma put_word_twice [simp]: "put_word a v (put_word a w f) = put_word a v f"
proof -
  have "a + 1 \<noteq> a" "a + 2 \<noteq> a" "a + 3 \<noteq> a" "a + 2 \<noteq> a + 1" "a + 3 \<noteq> a + 1" "a + 3 \<noteq> a + 2" by simp_all
  then show ?thesis by (auto simp: put_word_def fun_eq_iff)
qed

lemma buffer_ptr_of_eq:
  assumes "block_at a m" and "mem_word (mem m) (of_nat a) = header n alloc" and "n < 2 ^ 31"
  shows "buffer_ptr_of (data_ptr a) e m = Inr \<lparr>bp_ptr = data_ptr a, bp_size = of_nat n, bp_heap_end = e\<rparr>"
  using assms by (simp add: buffer_ptr_of_def block_at_access header_bits)

lemma bp_mark_alloc_eq:
  "block_at a m \<Longrightarrow> bp_ptr b = data_ptr a \<Longrightarrow>
   bp_mark_alloc b m = Inr (upd_mem (put_word (of_nat a) (mem_word (mem m) (of_nat a) OR alloc_memory_mask)) m)"
  by (simp add: bp_mark_alloc_def block_at_access)

lemma bp_mark_free_eq:
  "block_at a m \<Longrightarrow> bp_ptr b = data_ptr a \<Longrightarrow>
   bp_mark_free b m = Inr (upd_mem (put_word (of_nat a) (mem_word (mem m) (of_nat a) AND NOT alloc_memory_mask)) m)"
  by (simp add: bp_mark_free_def block_at_access)

lemma bp_set_size_eq:
  "block_at a m \<Longrightarrow> bp_ptr b = data_ptr a \<Longrightarrow>
   bp_set_size v b m =
     Inr (b\<lparr>bp_size := v\<rparr>, upd_mem (put_word (of_nat a) (v OR (mem_word (mem m) (of_nat a) AND alloc_memory_mask))) m)"
  by (simp add: bp_set_size_def block_at_access)

lemma buffer_ptr_make_eq:
  "block_at a m \<Longrightarrow>
   buffer_ptr_make (data_ptr a) v e m =
     Inr (\<lparr>bp_ptr = data_ptr a, bp_size = v, bp_heap_end = e\<rparr>,
       upd_mem (put_word (of_nat a) (v OR (mem_word (mem m) (of_nat a) AND alloc_memory_mask))) m)"
  by (simp add: buffer_ptr_make_def bp_set_size_eq)

section \<open>A heap and its blocks\<close>

definition heap_ok :: "heap \<Rightarrow> machine \<Rightarrow> block list \<Rightarrow> bool" where
  "heap_ok h m bs \<longleftrightarrow>
     heap_base h \<noteq> 0 \<and> unat (heap_base h) + unat (heap_size h) \<le> mem_limit m \<and> mem_limit m < 2 ^ 31 \<and>
     unat (heap_size h) mod 8 = 0 \<and>
     unat (heap_offset h) = extent bs \<and> extent bs \<le> unat (heap_size h) \<and>
     (\<forall>b \<in> set bs. fst b mod 8 = 4) \<and>
     blocks_at (mem m) (unat (heap_base h)) bs"

definition heap_full :: "heap \<Rightarrow> bool" where
  "heap_full h \<longleftrightarrow> heap_offset h = heap_size h"

lemma extent_mod_8: "\<forall>b \<in> set bs. fst b mod 8 = 4 \<Longrightarrow> extent bs mod 8 = 0"
proof (induction bs)
  case (Cons b bs)
  obtain n alloc where b: "b = (n, alloc)" by (cases b)
  then have "n mod 8 = 4" "extent bs mod 8 = 0" using Cons by simp_all
  then show ?case unfolding b extent_simps by presburger
qed simp

lemma heap_ok_unat_end:
  "heap_ok h m bs \<Longrightarrow> unat (heap_end h) = unat (heap_base h) + unat (heap_size h)"
  by (simp add: heap_ok_def heap_end_def unat_word_ariths)

lemma heap_ok_block_at:
  "heap_ok h m (xs @ (n, alloc) # ys) \<Longrightarrow> block_at (unat (heap_base h) + extent xs) m"
  "heap_ok h m bs \<Longrightarrow> extent bs < unat (heap_size h) \<Longrightarrow> block_at (unat (heap_base h) + extent bs) m"
proof -
  show "heap_ok h m (xs @ (n, alloc) # ys) \<Longrightarrow> block_at (unat (heap_base h) + extent xs) m"
    by (simp add: heap_ok_def block_at_def)
  assume ok: "heap_ok h m bs" "extent bs < unat (heap_size h)"
  then have "extent bs mod 8 = 0" "unat (heap_size h) mod 8 = 0" using extent_mod_8 by (auto simp: heap_ok_def)
  then have "extent bs + 4 \<le> unat (heap_size h)" using ok(2) by presburger
  then show "block_at (unat (heap_base h) + extent bs) m" using ok by (simp add: heap_ok_def block_at_def)
qed

lemma heap_ok_nth:
  assumes "heap_ok h m (xs @ (n, alloc) # ys)"
  shows "mem_word (mem m) (of_nat (unat (heap_base h) + extent xs)) = header n alloc" and "n < 2 ^ 31" and "n mod 8 = 4"
  using assms by (auto simp: heap_ok_def blocks_at_append)

text \<open>Writing one header leaves the other blocks of the chain as they are.\<close>

lemma blocks_at_put_header:
  assumes "blocks_at f a (xs @ (n, alloc) # ys)" and "a + extent (xs @ (n, alloc) # ys) < 2 ^ 31"
  shows "blocks_at (put_word (of_nat (a + extent xs)) (header n alloc') f) a (xs @ (n, alloc') # ys)"
proof -
  let ?h = "a + extent xs" and ?f = "put_word (of_nat (a + extent xs)) (header n alloc') f"
  have u: "unat (of_nat ?h :: u32) = ?h" using assms(2) by (intro unat_of_nat_u32) simp
  then have "?f b = f b" if "unat b < ?h \<or> ?h + 4 \<le> unat b" for b
    using that assms(2) by (intro put_word_other) (auto simp: span_def)
  then have "blocks_at ?f a xs = blocks_at f a xs"
    and "blocks_at ?f (?h + n + 4) ys = blocks_at f (?h + n + 4) ys"
    using assms(2) by (intro blocks_at_cong; simp)+
  then show ?thesis using assms(1) by (simp add: blocks_at_append)
qed

lemma heap_ok_put_header:
  assumes "heap_ok h m (xs @ (n, alloc) # ys)"
  shows "heap_ok h (upd_mem (put_word (of_nat (unat (heap_base h) + extent xs)) (header n alloc')) m)
           (xs @ (n, alloc') # ys)"
  using assms blocks_at_put_header [of "mem m" "unat (heap_base h)" xs n alloc ys alloc']
  by (auto simp: heap_ok_def)

text \<open>A new block after the last one.\<close>

lemma blocks_at_snoc:
  assumes "blocks_at f a bs" and "a + extent bs + 4 < 2 ^ 31"
  shows "blocks_at (put_word (of_nat (a + extent bs)) (header n alloc) f) a (bs @ [(n, alloc)])"
proof -
  let ?h = "a + extent bs"
  have "unat (of_nat ?h :: u32) = ?h" using assms(2) by (intro unat_of_nat_u32) simp
  then have "put_word (of_nat ?h) (header n alloc) f b = f b" if "unat b < ?h" for b
    using that assms(2) by (intro put_word_other) (auto simp: span_def)
  then have "blocks_at (put_word (of_nat ?h) (header n alloc) f) a bs = blocks_at f a bs"
    using assms(2) by (intro blocks_at_cong) simp_all
  then show ?thesis using assms(1) by (simp add: blocks_at_append)
qed

lemma heap_ok_snoc:
  assumes "heap_ok h m bs" and "extent bs + n + 4 \<le> unat (heap_size h)" and "n mod 8 = 4"
    and "unat off = extent bs + n + 4"
  shows "heap_ok (h\<lparr>heap_offset := off\<rparr>)
    (upd_mem (put_word (of_nat (unat (heap_base h) + extent bs)) (header n alloc)) m) (bs @ [(n, alloc)])"
  using assms blocks_at_snoc [of "mem m" "unat (heap_base h)" bs n alloc]
  by (auto simp: heap_ok_def)

section \<open>The operations of \<open>memory\<close>\<close>

text \<open>The address of the header of the block after \<open>xs\<close>, and its data pointer.\<close>

definition block_addr :: "heap \<Rightarrow> block list \<Rightarrow> nat" where
  "block_addr h xs = unat (heap_base h) + extent xs"

definition header_update :: "heap \<Rightarrow> block list \<Rightarrow> nat \<Rightarrow> bool \<Rightarrow> machine \<Rightarrow> machine" where
  "header_update h xs n alloc = upd_mem (put_word (of_nat (block_addr h xs)) (header n alloc))"

lemma heap_malloc_eq:
  assumes ok: "heap_ok h m bs" and n: "unat sz mod 8 = 4" "unat sz < 2 ^ 31 - 8"
  shows "heap_malloc sz h m =
    (if unat (heap_size h) < extent bs + unat sz + 4 then Inr (0, h, m)
     else Inr (data_ptr (block_addr h bs), h\<lparr>heap_offset := of_nat (extent bs + unat sz + 4)\<rparr>,
            header_update h bs (unat sz) True m))"
proof -
  have lim: "unat (heap_offset h) = extent bs" "extent bs < 2 ^ 31" using ok by (auto simp: heap_ok_def)
  then have used: "unat (heap_offset h + sz + size_marker) = extent bs + unat sz + 4"
    using n by (simp add: unat_word_ariths size_marker_def)
  show ?thesis
  proof (cases "unat (heap_size h) < extent bs + unat sz + 4")
    case True
    then show ?thesis using used by (simp add: heap_malloc_def word_less_nat_alt)
  next
    case False
    then have "block_at (block_addr h bs) m"
      using heap_ok_block_at(2) [OF ok] by (simp add: block_addr_def)
    moreover have "heap_base h + of_nat (extent bs) = of_nat (block_addr h bs)"
      by (simp add: block_addr_def)
    moreover have "heap_offset h = of_nat (extent bs)" by (simp flip: lim(1))
    ultimately show ?thesis
      using False used n(2) header_bits(4) [of "unat sz"]
      by (simp add: heap_malloc_def Let_def word_less_nat_alt header_update_def buffer_ptr_make_eq
          bp_mark_alloc_eq add.assoc) (simp add: size_marker_def)
  qed
qed

lemma heap_malloc_ok:
  assumes "heap_ok h m bs" and "unat sz mod 8 = 4" and "extent bs + unat sz + 4 \<le> unat (heap_size h)"
  shows "heap_ok (h\<lparr>heap_offset := of_nat (extent bs + unat sz + 4)\<rparr>)
    (header_update h bs (unat sz) True m) (bs @ [(unat sz, True)])"
proof -
  have "unat (heap_size h) < 2 ^ 32" using unat_less [of "heap_size h"] by simp
  then have "unat (of_nat (extent bs + unat sz + 4) :: u32) = extent bs + unat sz + 4"
    using assms(3) by (intro unat_of_nat_u32) simp
  then show ?thesis
    using heap_ok_snoc [OF assms(1,3,2)] by (simp add: header_update_def block_addr_def)
qed

lemma heap_free_eq:
  assumes ok: "heap_ok h m (xs @ (n, alloc) # ys)"
  shows "heap_free (data_ptr (block_addr h xs)) h m = Inr (header_update h xs n False m)"
    and "heap_ok h (header_update h xs n False m) (xs @ (n, False) # ys)"
proof -
  have b: "block_at (block_addr h xs) m" using heap_ok_block_at(1) [OF ok] by (simp add: block_addr_def)
  have "mem_word (mem m) (of_nat (block_addr h xs)) = header n alloc"
    using heap_ok_nth(1) [OF ok] by (simp only: block_addr_def)
  then show "heap_free (data_ptr (block_addr h xs)) h m = Inr (header_update h xs n False m)"
    using heap_ok_nth(2) [OF ok] b
    by (simp add: heap_free_def buffer_ptr_of_eq bp_mark_free_eq header_bits header_update_def header_False)
  show "heap_ok h (header_update h xs n False m) (xs @ (n, False) # ys)"
    using heap_ok_put_header [OF ok] by (simp add: header_update_def block_addr_def)
qed

lemma heap_full_iff: "heap_ok h m bs \<Longrightarrow> heap_full h \<longleftrightarrow> extent bs = unat (heap_size h)"
  by (auto simp: heap_full_def heap_ok_def word_unat_eq_iff)

lemma cleanup_size:
  "(e :: nat) mod 8 = 0 \<Longrightarrow> s mod 8 = 0 \<Longrightarrow> e < s \<Longrightarrow> e + (s - e - 4) + 4 = s \<and> (s - e - 4) mod 8 = 4"
proof -
  assume "e mod 8 = 0" "s mod 8 = 0" "e < s"
  then obtain a b where "e = 8 * a" "s = 8 * b" "a < b" by (metis mod_0_imp_dvd dvd_def nat_mult_less_cancel1 zero_less_numeral)
  moreover from this obtain k where "b = Suc (a + k)" using less_iff_Suc_add by blast
  ultimately show ?thesis by simp
qed

lemma heap_cleanup_remaining_eq:
  assumes ok: "heap_ok h m bs" and full: "\<not> heap_full h"
  defines "n \<equiv> unat (heap_size h) - extent bs - 4"
  shows "heap_cleanup_remaining h m =
      Inr (h\<lparr>heap_offset := heap_size h\<rparr>, header_update h bs n False m)"
    and "heap_ok (h\<lparr>heap_offset := heap_size h\<rparr>) (header_update h bs n False m) (bs @ [(n, False)])"
    and "heap_full (h\<lparr>heap_offset := heap_size h\<rparr>)"
proof -
  have ext: "extent bs mod 8 = 0" "unat (heap_size h) mod 8 = 0" "extent bs \<le> unat (heap_size h)"
    "unat (heap_offset h) = extent bs" "unat (heap_size h) < 2 ^ 31"
    using ok extent_mod_8 by (auto simp: heap_ok_def)
  moreover have "extent bs \<noteq> unat (heap_size h)" using full heap_full_iff [OF ok] by simp
  ultimately have n: "extent bs + n + 4 = unat (heap_size h)" "n mod 8 = 4" "n < 2 ^ 31"
    using cleanup_size [of "extent bs" "unat (heap_size h)"] unfolding n_def by auto
  then have b: "block_at (block_addr h bs) m" using heap_ok_block_at(2) [OF ok] by (simp add: block_addr_def)
  have "heap_size h = of_nat (extent bs + n + 4)" using n(1) by simp
  moreover have off: "heap_offset h = of_nat (extent bs)" by (simp flip: ext(4))
  ultimately have sz: "heap_size h - heap_offset h - size_marker = of_nat n" by (simp add: size_marker_def)
  have "heap_base h + of_nat (extent bs) = of_nat (block_addr h bs)" by (simp add: block_addr_def)
  then have ptr: "heap_base h + heap_offset h + size_marker = data_ptr (block_addr h bs)" by (simp add: off)
  have "heap_offset h \<noteq> heap_size h" using full by (simp add: heap_full_def)
  then show "heap_cleanup_remaining h m =
      Inr (h\<lparr>heap_offset := heap_size h\<rparr>, header_update h bs n False m)"
    using b header_bits(5) [OF n(3)]
    by (simp add: heap_cleanup_remaining_def Let_def sz ptr buffer_ptr_make_eq bp_mark_free_eq header_update_def)
  show "heap_ok (h\<lparr>heap_offset := heap_size h\<rparr>) (header_update h bs n False m) (bs @ [(n, False)])"
    unfolding header_update_def block_addr_def
    by (rule heap_ok_snoc [OF ok _ n(2)]) (simp_all only: n(1) order_refl)
  show "heap_full (h\<lparr>heap_offset := heap_size h\<rparr>)" by (simp add: heap_full_def)
qed

text \<open>A heap that is full stays as it is.\<close>

lemma heap_cleanup_full: "heap_full h \<Longrightarrow> heap_cleanup_remaining h m = Inr (h, m)"
  by (simp add: heap_full_def heap_cleanup_remaining_def)

lemma heap_expand_ok:
  assumes "heap_ok h m bs" and "unat (heap_base h) + unat (heap_size h) + unat sz \<le> mem_limit m'"
    and "mem_limit m' < 2 ^ 31" and "mem m' = mem m" and "unat sz mod 8 = 0"
  shows "heap_ok (h\<lparr>heap_size := heap_size h + sz\<rparr>) m' bs"
proof -
  have "unat (heap_size h + sz) = unat (heap_size h) + unat sz"
    using assms(2,3) by (simp add: unat_word_ariths)
  then show ?thesis using assms by (auto simp: heap_ok_def mod_add_eq)
qed

text \<open>Blocks of one heap do not overlap, and lie inside the heap behind its first header.\<close>

lemma block_span:
  assumes ok: "heap_ok h m (xs @ (n, alloc) # ys)"
  shows "unat (data_ptr (block_addr h xs)) = block_addr h xs + 4"
    and "unat (heap_base h) + 4 \<le> block_addr h xs + 4"
    and "block_addr h xs + 4 + n \<le> unat (heap_base h) + unat (heap_size h)"
proof -
  have "unat (of_nat (block_addr h xs) :: u32) = block_addr h xs"
    using heap_ok_block_at(1) [OF ok] by (simp add: block_addr_def block_at_unat del: of_nat_add)
  moreover have "block_addr h xs + 4 < 2 ^ 31" using ok by (simp add: heap_ok_def block_addr_def)
  ultimately show "unat (data_ptr (block_addr h xs)) = block_addr h xs + 4"
    by (simp add: unat_word_ariths size_marker_def)
  show "unat (heap_base h) + 4 \<le> block_addr h xs + 4" by (simp add: block_addr_def)
  show "block_addr h xs + 4 + n \<le> unat (heap_base h) + unat (heap_size h)"
    using ok by (simp add: heap_ok_def block_addr_def)
qed

lemma blocks_disjoint:
  assumes "bs = xs @ (n, alloc) # ys" and "bs = xs' @ (n', alloc') # ys'" and "length xs < length xs'"
  shows "block_addr h xs + 4 + n \<le> block_addr h xs'"
proof -
  have "xs' = take (length xs) xs' @ xs' ! length xs # drop (Suc (length xs)) xs'"
    using assms(3) by (rule id_take_nth_drop)
  moreover have "take (length xs) xs' = take (length xs) bs" using assms(2,3) by simp
  moreover have "xs' ! length xs = bs ! length xs" using assms(2,3) by (simp add: nth_append)
  ultimately have "xs' = xs @ (n, alloc) # drop (Suc (length xs)) xs'" using assms(1) by simp
  then have "extent xs' = extent xs + n + 4 + extent (drop (Suc (length xs)) xs')"
    by (metis add.assoc extent_simps(2,3))
  then show ?thesis by (simp add: block_addr_def)
qed

end
