(* ===== verification/Uos_Freed.thy ===== *)
theory Uos_Freed
  imports Uos_Heap
begin

text \<open>
  The search for freed memory: \<open>malloc_from_freed\<close> walks the blocks of a heap that is full,
  joins the free blocks it meets and takes the first that is large enough. It is a function of
  the block list, and it leaves the contents of every allocated block alone.
\<close>

section \<open>Allocated ranges\<close>

text \<open>Address and length of the data of the allocated blocks.\<close>

fun live :: "nat \<Rightarrow> block list \<Rightarrow> (nat \<times> nat) set" where
  "live a [] = {}"
| "live a ((n, alloc) # bs) = (if alloc then {(a + 4, n)} else {}) \<union> live (a + n + 4) bs"

lemma live_append: "live a (xs @ ys) = live a xs \<union> live (a + extent xs) ys"
  by (induction a xs rule: live.induct) (auto simp: ac_simps)

lemma live_range: "(p, n) \<in> live a bs \<Longrightarrow> a + 4 \<le> p \<and> p + n \<le> a + extent bs"
  by (induction a bs rule: live.induct) (force split: if_splits)+

lemma live_free: "\<forall>b \<in> set bs. \<not> snd b \<Longrightarrow> live a bs = {}"
  by (induction a bs rule: live.induct) auto

text \<open>The allocated ranges of one heap do not overlap.\<close>

lemma live_disjoint:
  "(p, n) \<in> live a bs \<Longrightarrow> (q, k) \<in> live a bs \<Longrightarrow> (p, n) = (q, k) \<or> p + n + 4 \<le> q \<or> q + k + 4 \<le> p"
proof (induction a bs rule: live.induct)
  case (2 a l alloc bs)
  have "p = a + 4 \<and> n = l \<or> (p, n) \<in> live (a + l + 4) bs"
    and "q = a + 4 \<and> k = l \<or> (q, k) \<in> live (a + l + 4) bs"
    using "2.prems" by (auto split: if_splits)
  then show ?case using "2.IH" live_range [of p n "a + l + 4" bs] live_range [of q k "a + l + 4" bs] by fastforce
qed simp

text \<open>Memory agrees on a set of ranges.\<close>

definition same_on :: "(nat \<times> nat) set \<Rightarrow> machine \<Rightarrow> machine \<Rightarrow> bool" where
  "same_on L m m' \<longleftrightarrow>
     mem_limit m' = mem_limit m \<and> sbrk_bytes m' = sbrk_bytes m \<and> sbrk_initialized m' = sbrk_initialized m \<and> pages m' = pages m \<and>
     (\<forall>(p, n) \<in> L. \<forall>b. p \<le> unat b \<and> unat b < p + n \<longrightarrow> mem m' b = mem m b)"

lemma same_on_refl [simp]: "same_on L m m"
  by (simp add: same_on_def)

lemma same_on_trans: "same_on L m m' \<Longrightarrow> same_on L m' m'' \<Longrightarrow> same_on L m m''"
  by (fastforce simp: same_on_def)

lemma same_on_mono: "same_on L m m' \<Longrightarrow> K \<subseteq> L \<Longrightarrow> same_on K m m'"
  unfolding same_on_def by (metis (no_types, lifting) subsetD)

lemma same_on_put_word:
  assumes "a + 4 < 2 ^ 32" and "\<forall>(p, n) \<in> L. p + n \<le> a \<or> a + 4 \<le> p"
  shows "same_on L m (upd_mem (put_word (of_nat a) v) m)"
proof -
  have "unat (of_nat a :: u32) = a" using assms(1) by (intro unat_of_nat_u32) simp
  then have "put_word (of_nat a) v (mem m) b = mem m b" if "unat b < a \<or> a + 4 \<le> unat b" for b
    using that assms(1) by (intro put_word_other) (auto simp: span_def)
  then show ?thesis using assms(2) by (fastforce simp: same_on_def)
qed

text \<open>The memory that is not part of a heap.\<close>

definition outside :: "heap \<Rightarrow> (nat \<times> nat) set" where
  "outside h = {(0, unat (heap_base h)), (unat (heap_base h) + unat (heap_size h), 2 ^ 32)}"

lemma same_on_header_update:
  assumes "block_addr h xs + 4 < 2 ^ 32" and "block_addr h xs + 4 \<le> unat (heap_base h) + unat (heap_size h)"
    and "L = live (unat (heap_base h)) xs \<union> live (block_addr h xs + 4 + k) ys \<union> outside h"
  shows "same_on L m (header_update h xs n alloc m)"
  unfolding header_update_def
proof (rule same_on_put_word [OF assms(1)])
  show "\<forall>(p, l) \<in> L. p + l \<le> block_addr h xs \<or> block_addr h xs + 4 \<le> p"
    using live_range [of _ _ "unat (heap_base h)" xs] live_range [of _ _ "block_addr h xs + 4 + k" ys] assms(2)
    by (fastforce simp: assms(3) block_addr_def outside_def)
qed

section \<open>Joining free blocks\<close>

fun gather :: "nat \<Rightarrow> nat \<Rightarrow> block list \<Rightarrow> nat \<times> block list" where
  "gather k n ((l, False) # bs) = (if n < k then gather k (n + l + 4) bs else (n, (l, False) # bs))"
| "gather k n [] = (n, [])"
| "gather k n ((l, True) # bs) = (n, (l, True) # bs)"

lemma gather_split:
  "gather k n bs = (t, rest) \<Longrightarrow> \<exists>zs. bs = zs @ rest \<and> (\<forall>b \<in> set zs. \<not> snd b) \<and> t = n + extent zs"
proof (induction k n bs rule: gather.induct)
  case (1 k n l bs)
  show ?case
  proof (cases "n < k")
    case True
    then obtain zs where "bs = zs @ rest" "\<forall>b \<in> set zs. \<not> snd b" "t = n + l + 4 + extent zs"
      using 1 by auto
    then show ?thesis by (intro exI [of _ "(l, False) # zs"]) auto
  qed (use 1 in auto)
qed auto

text \<open>The loop of \<open>merge_contiguous\<close> computes \<open>gather\<close>, over a chain that ends at the end of the heap.\<close>

lemma merge_loop_gather:
  assumes "blocks_at (mem m) (a + n + 4) bs" and "a + n + 4 + extent bs \<le> mem_limit m" and "mem_limit m < 2 ^ 31"
    and "unat h_end = a + n + 4 + extent bs"
  shows "merge_loop m (data_ptr a) h_end needed (of_nat n) = Some (Inr (of_nat (fst (gather (unat needed) n bs))))"
  using assms
proof (induction "unat needed" n bs rule: gather.induct)
  case (1 n l bs)
  let ?at = "of_nat (a + n + 4) :: u32"
  have u: "unat (of_nat n :: u32) = n" "unat ?at = a + n + 4"
    using "1.prems" by (intro unat_of_nat_u32; simp)+
  have ptr: "data_ptr a + of_nat n = ?at" by (simp add: size_marker_def)
  have lt: "data_ptr a + of_nat n < h_end" unfolding ptr word_less_nat_alt u "1.prems"(4) by simp
  have l: "l < 2 ^ 31" using "1.prems" by simp
  have load: "load32 (data_ptr a + of_nat n) m = Inr (header l False)"
    unfolding ptr using "1.prems" u(2) by (subst load32_eq) (simp_all del: of_nat_add)
  show ?case
  proof (cases "n < unat needed")
    case True
    have "merge_step m (data_ptr a) h_end needed (of_nat n) = Some (Inr (Inl (of_nat (n + l + 4))))"
      using True u(1) lt load header_bits(1,2) [OF l, of False]
      by (simp add: merge_step_def word_less_nat_alt size_marker_def ac_simps)
    then have "merge_loop m (data_ptr a) h_end needed (of_nat n) = merge_loop m (data_ptr a) h_end needed (of_nat (n + l + 4))"
      unfolding merge_loop_def by (subst loop_out.simps) simp
    then show ?thesis using "1.hyps" True "1.prems" by (simp add: ac_simps del: of_nat_add)
  next
    case False
    then show ?thesis using u(1) unfolding merge_loop_def
      by (subst loop_out.simps) (simp add: merge_step_def word_less_nat_alt)
  qed
next
  case (2 n)
  have ptr: "data_ptr a + of_nat n = of_nat (a + n + 4)" by (simp add: size_marker_def)
  have "unat (of_nat (a + n + 4) :: u32) = a + n + 4" using "2.prems" by (intro unat_of_nat_u32) simp
  then have "\<not> data_ptr a + of_nat n < h_end" unfolding ptr word_less_nat_alt using "2.prems" by simp
  then show ?case unfolding merge_loop_def by (subst loop_out.simps) (simp add: merge_step_def)
next
  case (3 n l bs)
  let ?at = "of_nat (a + n + 4) :: u32"
  have u: "unat ?at = a + n + 4" using "3.prems" by (intro unat_of_nat_u32) simp
  have ptr: "data_ptr a + of_nat n = ?at" by (simp add: size_marker_def)
  have load: "load32 (data_ptr a + of_nat n) m = Inr (header l True)"
    unfolding ptr using "3.prems" u by (subst load32_eq) (simp_all del: of_nat_add)
  have "l < 2 ^ 31" using "3.prems" by simp
  then show ?case
    using load header_bits(2) [of l True] unfolding merge_loop_def
    by (subst loop_out.simps) (simp add: merge_step_def)
qed

text \<open>What a block becomes when it has joined \<open>t\<close> bytes and \<open>k\<close> are needed.\<close>

definition joined :: "nat \<Rightarrow> nat \<Rightarrow> bool \<Rightarrow> block list" where
  "joined k t alloc =
     (if t < k then [(t, False)] else if t = k then [(k, alloc)] else [(k, alloc), (t - k - 4, False)])"

lemma mod_8_split:
  assumes "(t :: nat) mod 8 = 4" and "k mod 8 = 4" and "k < t"
  shows "k + 4 + (t - k - 4) = t" and "(t - k - 4) mod 8 = 4" and "k + 8 \<le> t"
proof -
  have "t = 8 * (t div 8) + 4" and "k = 8 * (k div 8) + 4" using assms by presburger+
  moreover from this have "k div 8 < t div 8" using assms(3) by linarith
  then obtain j where "t div 8 = Suc (k div 8 + j)" using less_iff_Suc_add by auto
  ultimately have "t - k - 4 = 8 * j + 4" and "k + 8 \<le> t" by linarith+
  then show "k + 4 + (t - k - 4) = t" "(t - k - 4) mod 8 = 4" "k + 8 \<le> t" by simp_all
qed

lemma extent_joined:
  "t mod 8 = 4 \<Longrightarrow> k mod 8 = 4 \<Longrightarrow> extent (joined k t alloc) = t + 4"
  using mod_8_split [of t k] by (auto simp: joined_def)

lemma gather_mod_8:
  assumes "gather k n bs = (t, rest)" and "n mod 8 = 4" and "\<forall>b \<in> set bs. fst b mod 8 = 4"
  shows "t mod 8 = 4" and "\<forall>b \<in> set rest. fst b mod 8 = 4" and "extent bs = t - n + extent rest" and "n \<le> t"
proof -
  obtain zs where zs: "bs = zs @ rest" "t = n + extent zs" using gather_split [OF assms(1)] by blast
  then have "extent zs mod 8 = 0" using assms(3) by (intro extent_mod_8) auto
  then show "t mod 8 = 4" using assms(2) unfolding zs(2) by presburger
  show "\<forall>b \<in> set rest. fst b mod 8 = 4" "extent bs = t - n + extent rest" "n \<le> t"
    using assms(3) zs by auto
qed

text \<open>Replacing a stretch of a chain by blocks of the same extent whose headers are in place.\<close>

lemma heap_ok_replace:
  assumes ok: "heap_ok h m (xs @ us @ ys)" and ext: "extent vs = extent us"
    and mod8: "\<forall>b \<in> set vs. fst b mod 8 = 4"
    and lim: "mem_limit m' = mem_limit m"
    and vs: "blocks_at (mem m') (block_addr h xs) vs"
    and same: "\<And>b. unat b < block_addr h xs \<or> block_addr h xs + extent us \<le> unat b \<Longrightarrow> mem m' b = mem m b"
  shows "heap_ok h m' (xs @ vs @ ys)"
proof -
  have b: "unat (heap_base h) + extent (xs @ us @ ys) \<le> 2 ^ 32" using ok by (simp add: heap_ok_def)
  have "blocks_at (mem m') (unat (heap_base h)) xs = blocks_at (mem m) (unat (heap_base h)) xs"
    using b by (intro blocks_at_cong same) (auto simp: block_addr_def)
  moreover have "blocks_at (mem m') (block_addr h xs + extent us) ys = blocks_at (mem m) (block_addr h xs + extent us) ys"
    using b by (intro blocks_at_cong same) (auto simp: block_addr_def)
  ultimately show ?thesis
    using assms by (auto simp: heap_ok_def blocks_at_append block_addr_def ac_simps)
qed

lemma put_header_word: "a + 4 < 2 ^ 32 \<Longrightarrow> unat b < a \<or> a + 4 \<le> unat b \<Longrightarrow> put_word (of_nat a) v f b = f b"
  using unat_of_nat_u32 [of a] by (intro put_word_other) (auto simp: span_def)

lemma header_word_other:
  "a + 4 < 2 ^ 32 \<Longrightarrow> c + 4 < 2 ^ 32 \<Longrightarrow> a + 4 \<le> c \<or> c + 4 \<le> a \<Longrightarrow>
   mem_word (put_word (of_nat a) v f) (of_nat c) = mem_word f (of_nat c)"
  using unat_of_nat_u32 [of a] unat_of_nat_u32 [of c] by (intro mem_word_put_other) auto

definition joined_machine :: "nat \<Rightarrow> nat \<Rightarrow> nat \<Rightarrow> machine \<Rightarrow> machine" where
  "joined_machine a k t m =
     (let m = upd_mem (put_word (of_nat a) (header (min t k) False)) m in
      if k < t then upd_mem (put_word (of_nat (a + k + 4)) (header (t - k - 4) False)) m else m)"

lemma make_free:
  "block_at a m \<Longrightarrow> n < 2 ^ 31 \<Longrightarrow>
   bind_res (buffer_ptr_make (data_ptr a) (of_nat n) e m) (\<lambda>(b, m). bp_mark_free b m) =
     Inr (upd_mem (put_word (of_nat a) (header n False)) m)"
  by (simp add: buffer_ptr_make_eq bp_mark_free_eq header_bits)

lemma merge_contiguous_eq:
  assumes b: "block_at a m" "mem_word (mem m) (of_nat a) = header n False" and n: "n < 2 ^ 31"
    and t: "merge_loop m (data_ptr a) e sz (of_nat n) = Some (Inr (of_nat t))" "a + t + 4 \<le> mem_limit m"
    and mod8: "t mod 8 = 4" "unat sz mod 8 = 4"
  shows "bp_merge_contiguous sz False \<lparr>bp_ptr = data_ptr a, bp_size = of_nat n, bp_heap_end = e\<rparr> m =
    Some (Inr (unat sz \<le> t, \<lparr>bp_ptr = data_ptr a, bp_size = of_nat (min t (unat sz)), bp_heap_end = e\<rparr>,
      joined_machine a (unat sz) t m))"
proof -
  let ?k = "unat sz"
  have lim: "a + t + 4 < 2 ^ 31" using t(2) b(1) by (simp add: block_at_def)
  then have ut: "unat (of_nat t :: u32) = t" by (intro unat_of_nat_u32) simp
  have new: "(if of_nat t < sz then of_nat t else sz) = of_nat (min t ?k)"
    using ut by (simp add: word_less_nat_alt min_def)
  have eqk: "of_nat (min t ?k) = sz \<longleftrightarrow> ?k \<le> t"
    using ut unat_of_nat_u32 [of "min t ?k"] lim by (auto simp: word_unat_eq_iff min_def)
  let ?b = "\<lparr>bp_ptr = data_ptr a, bp_size = of_nat n, bp_heap_end = e\<rparr>"
  have "header n False AND alloc_memory_mask = 0"
    using header_bits(2) [OF n, of False] by simp
  then have set: "bp_set_size (of_nat (min t ?k)) ?b m =
      Inr (?b\<lparr>bp_size := of_nat (min t ?k)\<rparr>, upd_mem (put_word (of_nat a) (header (min t ?k) False)) m)"
    using bp_set_size_eq [of a m ?b] b by (simp add: header_False)
  show ?thesis
  proof (cases "?k < t")
    case True
    note s = mod_8_split [OF mod8 True]
    let ?r = "a + ?k + 4"
    have r: "block_at ?r (upd_mem (put_word (of_nat a) (header (min t ?k) False)) m)"
      using t(2) b(1) s by (simp add: block_at_def)
    have sub: "of_nat t - sz - size_marker = of_nat (t - ?k - 4)"
      using s(1) by (subst s(1) [symmetric]) (simp add: size_marker_def)
    have ptr: "data_ptr a + sz + size_marker = data_ptr ?r" by (simp add: size_marker_def)
    have "t - ?k - 4 < 2 ^ 31" using lim by simp
    then have "bind_res (buffer_ptr_make (data_ptr ?r) (of_nat (t - ?k - 4)) e
        (upd_mem (put_word (of_nat a) (header (min t ?k) False)) m)) (\<lambda>(freed_remainder, m). bp_mark_free freed_remainder m) =
        Inr (joined_machine a ?k t m)"
      unfolding joined_machine_def Let_def if_P [OF True] by (rule make_free [OF r])
    from this [folded ptr sub] have
      "bind_res (bind_res (buffer_ptr_make (data_ptr a + sz + size_marker) (of_nat t - sz - size_marker) e
        (upd_mem (put_word (of_nat a) (header (min t ?k) False)) m)) (\<lambda>(freed_remainder, m). bp_mark_free freed_remainder m)) f =
        f (joined_machine a ?k t m)" for f :: "machine \<Rightarrow> (bool \<times> buffer_ptr \<times> machine) res"
      by simp
    moreover have "sz < of_nat t" "\<not> of_nat t < sz" using True ut by (simp_all add: word_less_nat_alt)
    ultimately show ?thesis
      using t(1) set True eqk
      unfolding bp_merge_contiguous_def Let_def new buffer_ptr.select_convs
      by (simp only: bind_out.simps bind_res.simps prod.case buffer_ptr.select_convs buffer_ptr.update_convs if_True) simp
  next
    case False
    then have "\<not> sz < of_nat t" using ut by (simp add: word_less_nat_alt)
    then show ?thesis
      using t(1) set False eqk by (simp add: bp_merge_contiguous_def Let_def new joined_machine_def)
  qed
qed

lemma joined_machine_other:
  assumes "a + t + 4 < 2 ^ 32" and "t mod 8 = 4" and "k mod 8 = 4" and "unat b < a \<or> a + t + 4 \<le> unat b"
  shows "mem (joined_machine a k t m) b = mem m b"
proof -
  show ?thesis
  proof (cases "k < t")
    case True
    have k8: "k + 8 \<le> t" using mod_8_split(3) [OF assms(2,3) True] .
    have r: "a + k + 4 + 4 < 2 ^ 32" "unat b < a + k + 4 \<or> a + k + 4 + 4 \<le> unat b"
      using assms(1,4) k8 by auto
    have a: "a + 4 < 2 ^ 32" "unat b < a \<or> a + 4 \<le> unat b" using assms by auto
    show ?thesis
      using put_header_word [OF r] put_header_word [OF a] True
      by (simp add: joined_machine_def Let_def del: of_nat_add)
  next
    case False
    have a: "a + 4 < 2 ^ 32" "unat b < a \<or> a + 4 \<le> unat b" using assms by auto
    show ?thesis using put_header_word [OF a] False by (simp add: joined_machine_def Let_def)
  qed
qed

lemma joined_machine_simps [simp]:
  "mem_limit (joined_machine a k t m) = mem_limit m"
  "pages (joined_machine a k t m) = pages m"
  "sbrk_bytes (joined_machine a k t m) = sbrk_bytes m"
  "sbrk_initialized (joined_machine a k t m) = sbrk_initialized m"
  by (simp_all add: joined_machine_def Let_def)

lemma blocks_at_joined:
  assumes "a + t + 4 < 2 ^ 31" and "t mod 8 = 4" and "k mod 8 = 4"
  shows "blocks_at (mem (joined_machine a k t m)) a (joined k t False)"
proof (cases "k < t")
  case True
  have "a + k + 8 < 2 ^ 32" using assms(1) mod_8_split(3) [OF assms(2,3) True] by simp
  then have "mem_word (put_word (of_nat (a + k + 4)) v f) (of_nat a) = mem_word f (of_nat a)" for v f
    by (intro header_word_other) simp_all
  then show ?thesis using True by (simp add: joined_machine_def joined_def Let_def del: of_nat_add)
next
  case False
  then show ?thesis by (auto simp: joined_machine_def joined_def Let_def min_def)
qed

lemma heap_merge:
  assumes ok: "heap_ok h m (xs @ (n, False) # bs)" and g: "gather k n bs = (t, rest)" and k: "k mod 8 = 4"
  defines "a \<equiv> block_addr h xs"
  shows "heap_ok h (joined_machine a k t m) (xs @ joined k t False @ rest)"
    and "same_on (live (unat (heap_base h)) xs \<union> live (a + t + 4) rest \<union> outside h) m (joined_machine a k t m)"
    and "a + t + 4 \<le> mem_limit m" and "t mod 8 = 4"
proof -
  have mods: "n mod 8 = 4" "\<forall>b \<in> set bs. fst b mod 8 = 4" using ok by (auto simp: heap_ok_def)
  note t = gather_mod_8 [OF g mods]
  obtain zs where zs: "bs = zs @ rest" "t = n + extent zs" using gather_split [OF g] by blast
  have lim: "a + t + 4 + extent rest \<le> mem_limit m" "mem_limit m < 2 ^ 31"
    using ok zs by (auto simp: heap_ok_def a_def block_addr_def)
  then show "a + t + 4 \<le> mem_limit m" by simp
  show "t mod 8 = 4" by (rule t(1))
  have other: "mem (joined_machine a k t m) b = mem m b" if "unat b < a \<or> a + t + 4 \<le> unat b" for b
    using lim by (intro joined_machine_other t(1) k that) simp
  have "heap_ok h (joined_machine a k t m) (xs @ joined k t False @ rest)"
  proof (rule heap_ok_replace)
    show "heap_ok h m (xs @ ((n, False) # zs) @ rest)" using ok zs by simp
    show "extent (joined k t False) = extent ((n, False) # zs)" using extent_joined [OF t(1) k] zs by simp
    show "\<forall>b \<in> set (joined k t False). fst b mod 8 = 4"
      using t(1) k mod_8_split(2) [OF t(1) k] by (auto simp: joined_def)
    show "blocks_at (mem (joined_machine a k t m)) (block_addr h xs) (joined k t False)"
      using lim by (fold a_def) (intro blocks_at_joined t(1) k, simp)
    show "mem (joined_machine a k t m) b = mem m b"
      if "unat b < block_addr h xs \<or> block_addr h xs + extent ((n, False) # zs) \<le> unat b" for b
      using that zs by (intro other) (auto simp: a_def)
  qed simp
  then show "heap_ok h (joined_machine a k t m) (xs @ joined k t False @ rest)" .
  have "a + t + 4 \<le> unat (heap_base h) + unat (heap_size h)" "unat (heap_base h) \<le> a"
    using ok zs by (auto simp: heap_ok_def a_def block_addr_def)
  then show "same_on (live (unat (heap_base h)) xs \<union> live (a + t + 4) rest \<union> outside h) m (joined_machine a k t m)"
    unfolding same_on_def outside_def
    using other live_range [of _ _ "unat (heap_base h)" xs] live_range [of _ _ "a + t + 4" rest]
    by (fastforce simp: a_def block_addr_def)
qed

section \<open>The search\<close>

text \<open>The position of the block taken, counted from the first header, and the blocks afterwards.\<close>

function reuse :: "nat \<Rightarrow> block list \<Rightarrow> nat option \<times> block list" where
  "reuse k [] = (None, [])"
| "reuse k ((n, True) # bs) =
     (let (r, bs') = reuse k bs in (map_option ((+) (n + 4)) r, (n, True) # bs'))"
| "reuse k ((n, False) # bs) =
     (let (t, rest) = gather k n bs in
      if k \<le> t then (Some 0, joined k t True @ rest)
      else let (r, bs') = reuse k rest in (map_option ((+) (t + 4)) r, (t, False) # bs'))"
  by pat_completeness auto
termination
proof (relation "measure (\<lambda>(k, bs). length bs)")
  fix k n :: nat and bs :: "block list" and g t rest
  assume "g = gather k n bs" and "(t, rest) = g"
  then obtain zs where "bs = zs @ rest" using gather_split by metis
  then show "((k, rest), (k, (n, False) # bs)) \<in> measure (\<lambda>(k, bs). length bs)" by simp
qed auto

lemma next_block:
  assumes "heap_ok h m (xs @ (n, alloc) # bs)" and "extent (xs @ (n, alloc) # bs) = unat (heap_size h)"
  shows "bp_next_ptr \<lparr>bp_ptr = data_ptr (block_addr h xs), bp_size = of_nat n, bp_heap_end = heap_end h\<rparr> =
    (if bs = [] then 0 else data_ptr (block_addr h (xs @ [(n, alloc)])))"
proof -
  let ?a = "block_addr h (xs @ [(n, alloc)])"
  have h: "unat (heap_end h) = ?a + extent bs"
    using heap_ok_unat_end [OF assms(1)] assms(2) by (simp add: block_addr_def)
  have lt: "?a + extent bs < 2 ^ 31" using assms by (auto simp: heap_ok_def block_addr_def)
  have nxt: "bp_ptr b + bp_size b + size_marker = of_nat (?a + 4)"
    if "b = \<lparr>bp_ptr = data_ptr (block_addr h xs), bp_size = of_nat n, bp_heap_end = heap_end h\<rparr>" for b
    using that by (simp add: block_addr_def size_marker_def)
  have u: "unat (of_nat (?a + 4) :: u32) = ?a + 4" using lt by (intro unat_of_nat_u32) simp
  have "heap_end h \<le> of_nat (?a + 4) \<longleftrightarrow> bs = []"
  proof (cases bs)
    case (Cons b bs')
    obtain l al where "b = (l, al)" by (cases b)
    moreover have "fst b mod 8 = 4" using assms(1) Cons by (simp add: heap_ok_def)
    ultimately have "extent bs > 4" using Cons by (cases l) auto
    then show ?thesis using Cons unfolding word_le_nat_alt u h by simp
  qed (simp only: word_le_nat_alt u h, simp)
  then show ?thesis
    unfolding bp_next_ptr_def bp_end_def nxt [OF refl] Let_def by (simp add: size_marker_def)
qed

lemma live_gather:
  assumes "gather k n bs = (t, rest)"
  shows "live (a + n + 4) bs = live (a + t + 4) rest"
proof -
  obtain zs where zs: "bs = zs @ rest" "\<forall>b \<in> set zs. \<not> snd b" "t = n + extent zs"
    using gather_split [OF assms] by blast
  then show ?thesis by (simp add: live_append live_free ac_simps)
qed

lemma loop_out_stop: "step s = Some (Inr (Inr v)) \<Longrightarrow> loop_out step s = Some (Inr v)"
  by (subst loop_out.simps) simp

lemma loop_out_next: "step s = Some (Inr (Inl s')) \<Longrightarrow> loop_out step s = loop_out step s'"
  by (subst loop_out.simps) simp

lemma heap_ok_block:
  assumes "heap_ok h m (xs @ (n, alloc) # ys)"
  shows "block_at (block_addr h xs) m" and "mem_word (mem m) (of_nat (block_addr h xs)) = header n alloc"
    and "n < 2 ^ 31" and "n mod 8 = 4" and "data_ptr (block_addr h xs) \<noteq> 0"
proof -
  show "block_at (block_addr h xs) m" using heap_ok_block_at(1) [OF assms] by (simp add: block_addr_def)
  show "mem_word (mem m) (of_nat (block_addr h xs)) = header n alloc"
    using heap_ok_nth(1) [OF assms] by (simp only: block_addr_def)
  show "n < 2 ^ 31" "n mod 8 = 4" using heap_ok_nth(2,3) [OF assms] .
  show "data_ptr (block_addr h xs) \<noteq> 0" using block_span(1) [OF assms] by (metis add_is_0 unat_0 zero_neq_numeral)
qed

text \<open>One round at an allocated block, and one at a free block.\<close>

lemma from_freed_step_alloc:
  assumes ok: "heap_ok h m (xs @ (n, True) # bs)" and ext: "extent (xs @ (n, True) # bs) = unat (heap_size h)"
  shows "from_freed_step sz (heap_end h) (data_ptr (block_addr h xs), m) =
    Some (Inr (Inl (if bs = [] then 0 else data_ptr (block_addr h (xs @ [(n, True)])), m)))"
proof -
  note b = heap_ok_block [OF ok]
  have "buffer_ptr_of (data_ptr (block_addr h xs)) (heap_end h) m =
      Inr \<lparr>bp_ptr = data_ptr (block_addr h xs), bp_size = of_nat n, bp_heap_end = heap_end h\<rparr>"
    by (rule buffer_ptr_of_eq) (use b in simp_all)
  moreover have "bp_is_alloc \<lparr>bp_ptr = data_ptr (block_addr h xs), bp_size = of_nat n, bp_heap_end = heap_end h\<rparr> m = Inr True"
    using b header_bits(2) [OF b(3), of True] by (simp add: bp_is_alloc_def block_at_access(1))
  ultimately show ?thesis using b(5) next_block [OF ok ext] by (simp add: from_freed_step_def)
qed

lemma from_freed_step_free:
  assumes ok: "heap_ok h m (xs @ (n, False) # bs)" and ext: "extent (xs @ (n, False) # bs) = unat (heap_size h)"
    and k: "unat sz mod 8 = 4" and g: "gather (unat sz) n bs = (t, rest)"
  defines "a \<equiv> block_addr h xs"
  defines "m1 \<equiv> joined_machine a (unat sz) t m"
  shows "from_freed_step sz (heap_end h) (data_ptr a, m) =
    Some (Inr (if unat sz \<le> t then Inr (data_ptr a, header_update h xs (unat sz) True m1)
               else Inl (if rest = [] then 0 else data_ptr (block_addr h (xs @ [(t, False)])), m1)))"
proof -
  note b = heap_ok_block [OF ok, folded a_def]
  note hm = heap_merge [OF ok g k, folded a_def, folded m1_def]
  have lim: "mem_limit m < 2 ^ 31" using ok by (simp add: heap_ok_def)
  have h: "unat (heap_end h) = a + n + 4 + extent bs"
    using heap_ok_unat_end [OF ok] ext by (simp add: a_def block_addr_def)
  have "blocks_at (mem m) (a + n + 4) bs" and "a + n + 4 + extent bs \<le> mem_limit m"
    using ok by (auto simp: heap_ok_def blocks_at_append a_def block_addr_def)
  from merge_loop_gather [OF this lim h, of sz] have
    ml: "merge_loop m (data_ptr a) (heap_end h) sz (of_nat n) = Some (Inr (of_nat t))" by (simp add: g)
  note mc = merge_contiguous_eq [OF b(1-3) ml hm(3,4) k, folded m1_def]
  have buf: "buffer_ptr_of (data_ptr a) (heap_end h) m = Inr \<lparr>bp_ptr = data_ptr a, bp_size = of_nat n, bp_heap_end = heap_end h\<rparr>"
    using b by (intro buffer_ptr_of_eq) simp_all
  have fr: "bp_is_alloc \<lparr>bp_ptr = data_ptr a, bp_size = of_nat n, bp_heap_end = heap_end h\<rparr> m = Inr False"
    using b header_bits(2) [OF b(3), of False] by (simp add: bp_is_alloc_def block_at_access(1))
  show ?thesis
  proof (cases "unat sz \<le> t")
    case True
    have "\<exists>ws. heap_ok h m1 (xs @ (unat sz, False) # ws)"
      using hm(1) True by (cases "t = unat sz") (auto simp: joined_def)
    then obtain ws where ws: "heap_ok h m1 (xs @ (unat sz, False) # ws)" ..
    note b1 = heap_ok_block [OF ws, folded a_def]
    have "bp_mark_alloc \<lparr>bp_ptr = data_ptr a, bp_size = of_nat (min t (unat sz)), bp_heap_end = heap_end h\<rparr> m1 =
        Inr (header_update h xs (unat sz) True m1)"
      using b1(1,2) header_bits(3) [OF b1(3), of False] by (simp add: bp_mark_alloc_eq header_update_def a_def)
    then show ?thesis using True b(5) buf fr mc by (simp add: from_freed_step_def)
  next
    case False
    then have ok1: "heap_ok h m1 (xs @ (t, False) # rest)" using hm(1) by (simp add: joined_def)
    have "extent (xs @ (t, False) # rest) = unat (heap_size h)"
      using ok1 ok ext by (simp add: heap_ok_def)
    note nb = next_block [OF ok1 this, folded a_def]
    have "min t (unat sz) = t" using False by simp
    then show ?thesis using False b(5) buf fr mc nb by (simp add: from_freed_step_def)
  qed
qed

lemma header_update_simps [simp]:
  "mem_limit (header_update h xs n alloc m) = mem_limit m"
  "pages (header_update h xs n alloc m) = pages m"
  "sbrk_bytes (header_update h xs n alloc m) = sbrk_bytes m"
  "sbrk_initialized (header_update h xs n alloc m) = sbrk_initialized m"
  by (simp_all add: header_update_def)

text \<open>The result of the search, as the code returns it.\<close>

definition reuse_ptr :: "heap \<Rightarrow> block list \<Rightarrow> nat option \<Rightarrow> u32" where
  "reuse_ptr h xs r = (case r of None \<Rightarrow> 0 | Some d \<Rightarrow> data_ptr (block_addr h xs + d))"

lemma reuse_ptr_shift:
  "reuse_ptr h (xs @ [(n, alloc)]) r = reuse_ptr h xs (map_option ((+) (n + 4)) r)"
  by (cases r) (simp_all add: reuse_ptr_def block_addr_def ac_simps)

lemma from_freed_loop:
  assumes "heap_ok h m (xs @ ys)" and "extent (xs @ ys) = unat (heap_size h)" and "unat sz mod 8 = 4"
    and "reuse (unat sz) ys = (r, ys')"
  shows "\<exists>m'. loop_out (from_freed_step sz (heap_end h)) (if ys = [] then 0 else data_ptr (block_addr h xs), m) =
      Some (Inr (reuse_ptr h xs r, m')) \<and>
    heap_ok h m' (xs @ ys') \<and> same_on (live (unat (heap_base h)) (xs @ ys) \<union> outside h) m m'"
  using assms
proof (induction "unat sz" ys arbitrary: xs m r ys' rule: reuse.induct)
  case 1
  then show ?case by (auto simp: from_freed_step_def reuse_ptr_def loop_out_stop)
next
  case (2 n bs)
  obtain q bs' where q: "reuse (unat sz) bs = (q, bs')" by fastforce
  then have r: "r = map_option ((+) (n + 4)) q" "ys' = (n, True) # bs'" using "2.prems"(4) by simp_all
  have "loop_out (from_freed_step sz (heap_end h)) (data_ptr (block_addr h xs), m) =
      loop_out (from_freed_step sz (heap_end h)) (if bs = [] then 0 else data_ptr (block_addr h (xs @ [(n, True)])), m)"
    by (rule loop_out_next) (rule from_freed_step_alloc [OF "2.prems"(1,2)])
  then show ?case
    using "2.hyps" [of m "xs @ [(n, True)]" q bs'] "2.prems" q unfolding r
    by (simp add: reuse_ptr_shift)
next
  case (3 n bs)
  obtain t rest where g: "gather (unat sz) n bs = (t, rest)" by fastforce
  let ?m = "joined_machine (block_addr h xs) (unat sz) t m"
  note step = from_freed_step_free [OF "3.prems"(1-3) g]
  note hm = heap_merge [OF "3.prems"(1) g "3.prems"(3)]
  have lv: "live (unat (heap_base h)) (xs @ (n, False) # bs) =
      live (unat (heap_base h)) xs \<union> live (block_addr h xs + t + 4) rest"
    using live_gather [OF g, of "block_addr h xs"] by (simp add: live_append block_addr_def)
  show ?case
  proof (cases "unat sz \<le> t")
    case True
    then have r: "r = Some 0" "ys' = joined (unat sz) t True @ rest" using "3.prems"(4) g by simp_all
    have "\<exists>ws. joined (unat sz) t False = (unat sz, False) # ws \<and> joined (unat sz) t True = (unat sz, True) # ws"
      using True by (cases "t = unat sz") (auto simp: joined_def)
    then obtain ws where ws: "joined (unat sz) t False = (unat sz, False) # ws" "joined (unat sz) t True = (unat sz, True) # ws"
      by blast
    have "heap_ok h ?m (xs @ (unat sz, False) # (ws @ rest))" using hm(1) ws by simp
    then have "heap_ok h (header_update h xs (unat sz) True ?m) (xs @ (unat sz, True) # (ws @ rest))"
      unfolding header_update_def block_addr_def by (rule heap_ok_put_header)
    moreover have "block_addr h xs + 4 \<le> unat (heap_base h) + unat (heap_size h)"
      using "3.prems"(1) by (simp add: heap_ok_def block_addr_def)
    then have "same_on (live (unat (heap_base h)) xs \<union> live (block_addr h xs + t + 4) rest \<union> outside h) ?m (header_update h xs (unat sz) True ?m)"
      using hm(3) "3.prems"(1) by (intro same_on_header_update [where k = t]) (auto simp: heap_ok_def ac_simps)
    ultimately show ?thesis
      using step True r ws hm(2) same_on_trans
      by (fastforce simp: lv reuse_ptr_def loop_out_stop)
  next
    case False
    then have ok1: "heap_ok h ?m ((xs @ [(t, False)]) @ rest)" using hm(1) by (simp add: joined_def)
    have ext: "extent ((xs @ [(t, False)]) @ rest) = unat (heap_size h)"
      using ok1 "3.prems"(1,2) by (simp add: heap_ok_def)
    obtain q bs' where q: "reuse (unat sz) rest = (q, bs')" by fastforce
    then have r: "r = map_option ((+) (t + 4)) q" "ys' = (t, False) # bs'" using "3.prems"(4) False g by simp_all
    have "loop_out (from_freed_step sz (heap_end h)) (data_ptr (block_addr h xs), m) =
      loop_out (from_freed_step sz (heap_end h)) (if rest = [] then 0 else data_ptr (block_addr h (xs @ [(t, False)])), ?m)"
      using step False by (intro loop_out_next) simp
    moreover obtain m' where "loop_out (from_freed_step sz (heap_end h))
        (if rest = [] then 0 else data_ptr (block_addr h (xs @ [(t, False)])), ?m) =
        Some (Inr (reuse_ptr h (xs @ [(t, False)]) q, m'))"
      "heap_ok h m' ((xs @ [(t, False)]) @ bs')" "same_on (live (unat (heap_base h)) ((xs @ [(t, False)]) @ rest) \<union> outside h) ?m m'"
      using "3.hyps" [OF g [symmetric] refl False ok1 ext "3.prems"(3) q] by blast
    moreover from this have "same_on (live (unat (heap_base h)) xs \<union> live (block_addr h xs + t + 4) rest \<union> outside h) m m'"
      using hm(2) same_on_trans by (fastforce simp: live_append block_addr_def ac_simps)
    ultimately show ?thesis unfolding r lv by (simp add: reuse_ptr_shift)
  qed
qed

lemma heap_malloc_from_freed_eq:
  assumes ok: "heap_ok h m bs" and full: "heap_full h" and bs: "bs \<noteq> []"
    and k: "unat sz mod 8 = 4" and r: "reuse (unat sz) bs = (r, bs')"
  shows "\<exists>m'. heap_malloc_from_freed sz h m = Some (Inr (reuse_ptr h [] r, m')) \<and>
    heap_ok h m' bs' \<and> same_on (live (unat (heap_base h)) bs \<union> outside h) m m'"
proof -
  have "heap_base h + size_marker = data_ptr (block_addr h [])" by (simp add: block_addr_def)
  moreover have "extent bs = unat (heap_size h)" using heap_full_iff [OF ok] full by simp
  ultimately show ?thesis
    using from_freed_loop [of h m "[]" bs, OF _ _ k r] ok full bs
    by (simp add: heap_malloc_from_freed_def heap_full_def check_def)
qed

text \<open>The search adds exactly the range it returns.\<close>

lemma live_joined:
  "t mod 8 = 4 \<Longrightarrow> k mod 8 = 4 \<Longrightarrow> k \<le> t \<Longrightarrow> live a (joined k t True @ rest) = {(a + 4, k)} \<union> live (a + t + 4) rest"
  using mod_8_split(1) [of t k] by (auto simp: joined_def live_append ac_simps)

lemma live_reuse:
  assumes "reuse k bs = (r, bs')" and "k mod 8 = 4" and "\<forall>b \<in> set bs. fst b mod 8 = 4"
  shows "live a bs' = live a bs \<union> (case r of None \<Rightarrow> {} | Some d \<Rightarrow> {(a + d + 4, k)}) \<and>
    (\<forall>d. r = Some d \<longrightarrow> (a + d + 4, k) \<notin> live a bs)"
  using assms
proof (induction k bs arbitrary: a r bs' rule: reuse.induct)
  case (2 k n bs)
  obtain q bs'' where q: "reuse k bs = (q, bs'')" by fastforce
  then show ?case using "2.IH" [OF q, of "a + n + 4"] "2.prems"
    by (cases q) (auto simp: ac_simps)
next
  case (3 k n bs)
  obtain t rest where g: "gather k n bs = (t, rest)" by fastforce
  have n: "n mod 8 = 4" "\<forall>b \<in> set bs. fst b mod 8 = 4" using "3.prems" by auto
  note t = gather_mod_8 [OF g n]
  show ?case
  proof (cases "k \<le> t")
    case True
    then have r: "r = Some 0" "bs' = joined k t True @ rest" using "3.prems"(1) g by simp_all
    have "(a + 4, k) \<notin> live (a + n + 4) bs" using live_range [of "a + 4" k "a + n + 4" bs] by auto
    then show ?thesis using live_joined [OF t(1) "3.prems"(2) True, of a rest] live_gather [OF g, of a] r by simp
  next
    case False
    obtain q bs'' where q: "reuse k rest = (q, bs'')" by fastforce
    then have r: "r = map_option ((+) (t + 4)) q" "bs' = (t, False) # bs''" using "3.prems"(1) False g by simp_all
    show ?thesis
      using "3.IH" [OF g [symmetric] refl False q "3.prems"(2) t(2), of "a + t + 4"] live_gather [OF g, of a]
      unfolding r by (cases q) (auto simp: ac_simps)
  qed
qed simp

lemma unat_reuse_ptr:
  assumes "heap_ok h m bs" and "(unat (heap_base h) + d + 4, n) \<in> live (unat (heap_base h)) bs"
  shows "unat (reuse_ptr h [] (Some d)) = unat (heap_base h) + d + 4"
proof -
  have "unat (heap_base h) + d + 4 < 2 ^ 32" using live_range [OF assms(2)] assms(1) by (simp add: heap_ok_def)
  moreover have "reuse_ptr h [] (Some d) = of_nat (unat (heap_base h) + d + 4)"
    by (simp add: reuse_ptr_def block_addr_def size_marker_def)
  ultimately show ?thesis by (metis unat_of_nat_u32)
qed

text \<open>The search fails only where no run of adjacent free blocks has the room.\<close>

lemma gather_short:
  "gather k n bs = (t, rest) \<Longrightarrow> t < k \<Longrightarrow> rest = [] \<or> snd (hd rest)"
  by (induction k n bs rule: gather.induct) (auto split: if_splits)

lemma free_run_split:
  assumes "us @ vs = xs @ zs @ ys" and "\<forall>b \<in> set zs. \<not> snd b" and "vs = [] \<or> snd (hd vs)" and "zs \<noteq> []"
  shows "(\<exists>ws. us = xs @ zs @ ws) \<or> (\<exists>ws. vs = ws @ zs @ ys)"
proof -
  consider ws where "us = xs @ ws" "ws @ vs = zs @ ys" | ws where "us @ ws = xs" "vs = ws @ zs @ ys"
    using iffD1 [OF append_eq_append_conv2 assms(1)] by blast
  then show ?thesis
  proof cases
    case 1
    consider w where "ws = zs @ w" | w where "ws @ w = zs" "vs = w @ ys"
      using iffD1 [OF append_eq_append_conv2 1(2)] by blast
    then show ?thesis
    proof cases
      case (2 w)
      show ?thesis
      proof (cases w)
        case (Cons b w')
        then show ?thesis using 2 assms(2,3) by auto
      qed (use 2 1 in simp)
    qed (use 1 in simp)
  qed blast
qed

lemma reuse_None:
  assumes "reuse k bs = (None, bs')" and "bs = xs @ zs @ ys" and "\<forall>b \<in> set zs. \<not> snd b" and "zs \<noteq> []"
  shows "extent zs < k + 4"
  using assms
proof (induction k bs arbitrary: xs bs' rule: reuse.induct)
  case (2 k n bs)
  then obtain xs' where "xs = (n, True) # xs'" by (cases xs; cases zs) auto
  then show ?case using 2 by (auto split: prod.splits)
next
  case (3 k n bs)
  obtain t rest where g: "gather k n bs = (t, rest)" by fastforce
  then have t: "t < k" using "3.prems"(1) by (auto split: if_splits prod.splits)
  obtain us where us: "bs = us @ rest" "t = n + extent us" using gather_split [OF g] by blast
  have "((n, False) # us) @ rest = xs @ zs @ ys" using "3.prems"(2) us(1) by simp
  from free_run_split [OF this "3.prems"(3) gather_short [OF g t] "3.prems"(4)]
  consider ws where "(n, False) # us = xs @ zs @ ws" | ws where "rest = ws @ zs @ ys" by metis
  then show ?case
  proof cases
    case 1
    have "extent zs \<le> extent (xs @ zs @ ws)" by simp
    then show ?thesis using us(2) t unfolding 1 [symmetric] by simp
  next
    case (2 ws)
    obtain bs'' where "reuse k rest = (None, bs'')" using "3.prems"(1) g t by (auto split: prod.splits)
    then show ?thesis using "3.IH" [OF g [symmetric] refl _ _ 2] "3.prems" t by simp
  qed
qed simp

end
