(* ===== verification/Uos_Allocator.thy ===== *)
theory Uos_Allocator
  imports Uos_Malloc
begin

text \<open>
  What a C++ program asks of \<open>malloc\<close> and \<open>free\<close>, as a locale that both allocators of
  the library (malloc.cpp and simple\_malloc.cpp) satisfy, and the runs of a program that uses
  one: any sequence of allocations, releases of blocks it owns and stores into them.
\<close>

section \<open>Contents that stay\<close>

definition same_bytes :: "(nat \<times> nat) set \<Rightarrow> machine \<Rightarrow> machine \<Rightarrow> bool" where
  "same_bytes L m m' \<longleftrightarrow>
     mem_limit m \<le> mem_limit m' \<and> (\<forall>(p, n) \<in> L. \<forall>b. p \<le> unat b \<and> unat b < p + n \<longrightarrow> mem m' b = mem m b)"

lemma same_bytes_refl [simp]: "same_bytes L m m"
  by (simp add: same_bytes_def)

lemma same_bytes_trans: "same_bytes L m m' \<Longrightarrow> same_bytes L m' m'' \<Longrightarrow> same_bytes L m m''"
  by (fastforce simp: same_bytes_def)

lemma same_bytes_mono: "same_bytes L m m' \<Longrightarrow> K \<subseteq> L \<Longrightarrow> same_bytes K m m'"
  unfolding same_bytes_def by (metis (no_types, lifting) subsetD)

lemma same_bytes_mem: "mem m' = mem m \<Longrightarrow> mem_limit m \<le> mem_limit m' \<Longrightarrow> same_bytes L m m'"
  by (simp add: same_bytes_def)

lemma same_bytes_cover:
  assumes "same_bytes L m m'" and "\<forall>(p, n) \<in> K. \<exists>(q, k) \<in> L. q \<le> p \<and> p + n \<le> q + k"
  shows "same_bytes K m m'"
proof -
  have "mem m' b = mem m b" if K: "(p, n) \<in> K" and b: "p \<le> unat b" "unat b < p + n" for p n b
  proof -
    obtain q k where "(q, k) \<in> L" "q \<le> p" "p + n \<le> q + k" using assms(2) K by fastforce
    moreover from this b have "q \<le> unat b" "unat b < q + k" by simp_all
    ultimately show ?thesis using assms(1) unfolding same_bytes_def by fastforce
  qed
  then show ?thesis using assms(1) by (auto simp: same_bytes_def)
qed

section \<open>Runs\<close>

text \<open>
  A block is the address and the size that were handed out. A run starts in a state \<open>s0\<close> in
  which none is; a call that aborts the action ends it.
\<close>

inductive alloc_run ::
  "(u32 \<Rightarrow> 's \<Rightarrow> (u32 \<times> 's) out) \<Rightarrow> (u32 \<Rightarrow> 's \<Rightarrow> 's res) \<Rightarrow> ('s \<Rightarrow> machine) \<Rightarrow> (machine \<Rightarrow> 's \<Rightarrow> 's) \<Rightarrow>
   (u32 \<Rightarrow> bool) \<Rightarrow> 's \<Rightarrow> 's \<Rightarrow> (nat \<times> nat) set \<Rightarrow> bool"
  for alloc release mach set_mach served s0
where
  start: "alloc_run alloc release mach set_mach served s0 s0 {}"
| malloc: "alloc_run alloc release mach set_mach served s0 s B \<Longrightarrow> served sz \<Longrightarrow> alloc sz s = Some (Inr (p, s')) \<Longrightarrow>
    alloc_run alloc release mach set_mach served s0 s' (if p = 0 then B else insert (unat p, unat sz) B)"
| free: "alloc_run alloc release mach set_mach served s0 s B \<Longrightarrow> (unat p, n) \<in> B \<Longrightarrow> release p s = Inr s' \<Longrightarrow>
    alloc_run alloc release mach set_mach served s0 s' (B - {(unat p, n)})"
| store: "alloc_run alloc release mach set_mach served s0 s B \<Longrightarrow> (p, n) \<in> B \<Longrightarrow> p \<le> unat a \<Longrightarrow> unat a < p + n \<Longrightarrow>
    store8 a v (mach s) = Inr m' \<Longrightarrow> alloc_run alloc release mach set_mach served s0 (set_mach m' s) B"

section \<open>The contract\<close>

locale allocator =
  fixes alloc :: "u32 \<Rightarrow> 's \<Rightarrow> (u32 \<times> 's) out"
    and release :: "u32 \<Rightarrow> 's \<Rightarrow> 's res"
    and mach :: "'s \<Rightarrow> machine"
    and set_mach :: "machine \<Rightarrow> 's \<Rightarrow> 's"
    and served :: "u32 \<Rightarrow> bool"
    and holds :: "'s \<Rightarrow> (nat \<times> nat) set \<Rightarrow> bool"
  assumes alloc_ok: "holds s B \<Longrightarrow> served sz \<Longrightarrow>
      (\<exists>err. alloc sz s = Some (Inl err)) \<or>
      (\<exists>p s'. alloc sz s = Some (Inr (p, s')) \<and> same_bytes B (mach s) (mach s') \<and>
        holds s' (if p = 0 then B else insert (unat p, unat sz) B) \<and> (unat p, unat sz) \<notin> B)"
    and release_ok: "holds s B \<Longrightarrow> (unat p, n) \<in> B \<Longrightarrow>
      \<exists>s'. release p s = Inr s' \<and> same_bytes (B - {(unat p, n)}) (mach s) (mach s') \<and> holds s' (B - {(unat p, n)})"
    and store_ok: "holds s B \<Longrightarrow> (x, n) \<in> B \<Longrightarrow> x \<le> unat a \<Longrightarrow> unat a < x + n \<Longrightarrow>
      store8 a v (mach s) = Inr m' \<Longrightarrow> holds (set_mach m' s) B"
    and apart_ok: "holds s B \<Longrightarrow> (x, n) \<in> B \<Longrightarrow> (y, k) \<in> B \<Longrightarrow> (x, n) = (y, k) \<or> x + n \<le> y \<or> y + k \<le> x"
    and inside_ok: "holds s B \<Longrightarrow> (x, n) \<in> B \<Longrightarrow> 0 < x \<and> 0 < n \<and> x + n \<le> mem_limit (mach s)"
begin

lemma run_holds:
  assumes "alloc_run alloc release mach set_mach served s0 s B" and "holds s0 {}"
  shows "holds s B"
  using assms
proof (induction rule: alloc_run.induct)
  case (malloc s B sz p s')
  then show ?case using alloc_ok [of s B sz] by auto
next
  case (free s B p n s')
  then show ?case using release_ok [of s B p n] by auto
qed (auto intro: store_ok)

text \<open>In every state of a run, blocks are in memory and do not overlap.\<close>

lemma run_blocks:
  assumes "alloc_run alloc release mach set_mach served s0 s B" and "holds s0 {}" and "(p, n) \<in> B"
  shows "0 < p \<and> p + n \<le> mem_limit (mach s)" and "(q, k) \<in> B \<Longrightarrow> (p, n) \<noteq> (q, k) \<Longrightarrow> p + n \<le> q \<or> q + k \<le> p"
  using run_holds [OF assms(1,2)] assms(3) inside_ok apart_ok by blast+

text \<open>A call of \<open>malloc\<close> ends; when it does not abort, the new block overlaps no other.\<close>

lemma run_malloc:
  assumes "alloc_run alloc release mach set_mach served s0 s B" and "holds s0 {}" and "served sz"
  shows "alloc sz s \<noteq> None"
    and "alloc sz s = Some (Inr (p, s')) \<Longrightarrow> same_bytes B (mach s) (mach s')"
    and "alloc sz s = Some (Inr (p, s')) \<Longrightarrow> p \<noteq> 0 \<Longrightarrow> unat p + unat sz \<le> mem_limit (mach s') \<and>
      (\<forall>(q, k) \<in> B. unat p + unat sz \<le> q \<or> q + k \<le> unat p)"
proof -
  have a: "(\<exists>err. alloc sz s = Some (Inl err)) \<or>
      (\<exists>p s'. alloc sz s = Some (Inr (p, s')) \<and> same_bytes B (mach s) (mach s') \<and>
        holds s' (if p = 0 then B else insert (unat p, unat sz) B) \<and> (unat p, unat sz) \<notin> B)"
    using alloc_ok run_holds assms by blast
  then show "alloc sz s \<noteq> None" by auto
  show "alloc sz s = Some (Inr (p, s')) \<Longrightarrow> same_bytes B (mach s) (mach s')" using a by auto
  assume "alloc sz s = Some (Inr (p, s'))" "p \<noteq> 0"
  then have h: "holds s' (insert (unat p, unat sz) B)" and new: "(unat p, unat sz) \<notin> B" using a by auto
  have "unat p + unat sz \<le> q \<or> q + k \<le> unat p" if "(q, k) \<in> B" for q k
    using apart_ok [OF h insertI1, of q k] that new by fastforce
  then show "unat p + unat sz \<le> mem_limit (mach s') \<and> (\<forall>(q, k) \<in> B. unat p + unat sz \<le> q \<or> q + k \<le> unat p)"
    using inside_ok [OF h insertI1] by blast
qed

text \<open>Releasing a block succeeds, and so does a store into one.\<close>

lemma run_free:
  assumes "alloc_run alloc release mach set_mach served s0 s B" and "holds s0 {}" and "(unat p, n) \<in> B"
  shows "\<exists>s'. release p s = Inr s' \<and> same_bytes (B - {(unat p, n)}) (mach s) (mach s')"
  using release_ok run_holds assms by blast

lemma run_store:
  assumes "alloc_run alloc release mach set_mach served s0 s B" and "holds s0 {}" and "(p, n) \<in> B"
    and "p \<le> unat a" and "unat a < p + n"
  shows "is_ok (store8 a v (mach s))"
  using run_blocks(1) [OF assms(1-3)] assms(4,5) by (simp add: store8_def is_ok_def)

end

end
