(* ===== verification/Uos_Manager.thy ===== *)
theory Uos_Manager
  imports Uos_Freed Uos_Allocator
begin

text \<open>
  The allocator as its callers see it. The state of \<open>memory_manager\<close> is a list of heaps with
  their blocks; what it promises is a set of ranges that never overlap, to which \<open>malloc\<close> adds
  one and from which \<open>free\<close> takes one, with the contents of all the others left alone.
\<close>

section \<open>Layouts\<close>

type_synonym layout = "(heap \<times> block list) list"

definition layout_live :: "layout \<Rightarrow> (nat \<times> nat) set" where
  "layout_live l = (\<Union>(h, bs) \<in> set l. live (unat (heap_base h)) bs)"

definition apart :: "heap \<times> block list \<Rightarrow> heap \<times> block list \<Rightarrow> bool" where
  "apart x y \<longleftrightarrow> unat (heap_base (fst x)) + unat (heap_size (fst x)) \<le> unat (heap_base (fst y))"

definition layout_ok :: "machine \<Rightarrow> layout \<Rightarrow> bool" where
  "layout_ok m l \<longleftrightarrow> (\<forall>(h, bs) \<in> set l. heap_ok h m bs \<and> 0 < unat (heap_size h)) \<and> sorted_wrt apart l"

lemma layout_live_simps [simp]:
  "layout_live [] = {}"
  "layout_live ((h, bs) # l) = live (unat (heap_base h)) bs \<union> layout_live l"
  "layout_live (k @ l) = layout_live k \<union> layout_live l"
  by (auto simp: layout_live_def)

lemma layout_ok_heap:
  "layout_ok m (us @ (h, bs) # vs) \<Longrightarrow> heap_ok h m bs"
  "layout_ok m (us @ (h, bs) # vs) \<Longrightarrow> 0 < unat (heap_size h)"
  by (simp_all add: layout_ok_def)

text \<open>A heap keeps its blocks when its bytes stay and memory only grows.\<close>

lemma same_on_bytes: "same_on L m m' \<Longrightarrow> same_bytes L m m'"
  by (auto simp: same_on_def same_bytes_def)

lemma heap_ok_cong:
  assumes ok: "heap_ok h m bs" and same: "same_bytes {(unat (heap_base h), unat (heap_size h))} m m'"
    and lim: "mem_limit m' < 2 ^ 31"
  shows "heap_ok h m' bs"
proof -
  have "blocks_at (mem m') (unat (heap_base h)) bs = blocks_at (mem m) (unat (heap_base h)) bs"
    using ok same by (intro blocks_at_cong) (auto simp: heap_ok_def same_bytes_def)
  then show ?thesis using ok same lim by (auto simp: heap_ok_def same_bytes_def)
qed

lemma outside_apart:
  "apart x (h, bs) \<or> apart (h, bs) x \<Longrightarrow> heap_ok (fst x) m cs \<Longrightarrow>
   \<exists>(q, k) \<in> outside h. q \<le> unat (heap_base (fst x)) \<and> unat (heap_base (fst x)) + unat (heap_size (fst x)) \<le> q + k"
  by (auto simp: outside_def apart_def heap_ok_def)

text \<open>An operation on one heap that leaves the memory outside it as it is.\<close>

lemma layout_ok_update:
  assumes ok: "layout_ok m (us @ (h, bs) # vs)" and h': "heap_ok h' m' bs'"
    and sz: "heap_base h' = heap_base h" "heap_size h' = heap_size h"
    and same: "same_bytes (outside h) m m'"
  shows "layout_ok m' (us @ (h', bs') # vs)"
proof -
  have lim: "mem_limit m' < 2 ^ 31" using h' by (simp add: heap_ok_def)
  have "heap_ok g m' cs" if g: "(g, cs) \<in> set us \<union> set vs" for g cs
  proof -
    have gok: "heap_ok g m cs" and "apart (g, cs) (h, bs) \<or> apart (h, bs) (g, cs)"
      using ok g by (auto simp: layout_ok_def sorted_wrt_append)
    then have "same_bytes {(unat (heap_base g), unat (heap_size g))} m m'"
      using outside_apart [of "(g, cs)" h bs m cs] by (intro same_bytes_cover [OF same]) simp
    then show ?thesis using heap_ok_cong gok lim by blast
  qed
  then show ?thesis using ok h' sz by (fastforce simp: layout_ok_def sorted_wrt_append apart_def)
qed

lemma layout_live_range:
  assumes "layout_ok m l" and "(p, n) \<in> layout_live l"
  shows "\<exists>us h bs vs. l = us @ (h, bs) # vs \<and> (p, n) \<in> live (unat (heap_base h)) bs \<and>
    unat (heap_base h) + 4 \<le> p \<and> p + n \<le> unat (heap_base h) + unat (heap_size h)"
proof -
  obtain h bs where hb: "(h, bs) \<in> set l" "(p, n) \<in> live (unat (heap_base h)) bs"
    using assms(2) by (auto simp: layout_live_def)
  then obtain us vs where "l = us @ (h, bs) # vs" by (meson split_list)
  moreover have "extent bs \<le> unat (heap_size h)" using hb(1) assms(1) by (auto simp: layout_ok_def heap_ok_def)
  ultimately show ?thesis using hb live_range [OF hb(2)] by fastforce
qed

lemma same_bytes_layout:
  assumes ok: "layout_ok m (us @ (h, bs) # vs)"
    and same: "same_bytes (live (unat (heap_base h)) bs \<union> outside h) m m'"
  shows "same_bytes (layout_live (us @ (h, bs) # vs)) m m'"
proof (rule same_bytes_cover [OF same], clarify)
  fix p n assume pn: "(p, n) \<in> layout_live (us @ (h, bs) # vs)"
  show "\<exists>(q, k) \<in> live (unat (heap_base h)) bs \<union> outside h. q \<le> p \<and> p + n \<le> q + k"
  proof (cases "(p, n) \<in> live (unat (heap_base h)) bs")
    case False
    then obtain g cs where g: "(g, cs) \<in> set us \<union> set vs" "(p, n) \<in> live (unat (heap_base g)) cs"
      using pn by (auto simp: layout_live_def)
    then have gok: "heap_ok g m cs" and "apart (g, cs) (h, bs) \<or> apart (h, bs) (g, cs)"
      using ok by (auto simp: layout_ok_def sorted_wrt_append)
    then obtain q k where q: "(q, k) \<in> outside h" "q \<le> unat (heap_base g)" "unat (heap_base g) + unat (heap_size g) \<le> q + k"
      using outside_apart [of "(g, cs)" h bs m cs] by auto
    have "extent cs \<le> unat (heap_size g)" using gok by (simp add: heap_ok_def)
    then have "q \<le> p" "p + n \<le> q + k" using q live_range [OF g(2)] by simp_all
    then show ?thesis using q(1) by blast
  qed auto
qed

text \<open>The allocated ranges of all heaps are apart.\<close>

lemma layout_live_disjoint:
  assumes ok: "layout_ok m l" and p: "(p, n) \<in> layout_live l" and q: "(q, k) \<in> layout_live l"
  shows "(p, n) = (q, k) \<or> p + n + 4 \<le> q \<or> q + k + 4 \<le> p"
  using assms
proof (induction l)
  case (Cons x l)
  obtain h bs where x: "x = (h, bs)" by (cases x)
  let ?e = "unat (heap_base h) + unat (heap_size h)"
  have okl: "layout_ok m l" using Cons.prems(1) by (auto simp: layout_ok_def)
  have h: "r + j \<le> ?e" if "(r, j) \<in> live (unat (heap_base h)) bs" for r j
    using live_range [OF that] Cons.prems(1) unfolding x by (auto simp: layout_ok_def heap_ok_def)
  have l: "?e + 4 \<le> r" if rj: "(r, j) \<in> layout_live l" for r j
  proof -
    obtain us g cs vs where "l = us @ (g, cs) # vs" "unat (heap_base g) + 4 \<le> r"
      using layout_live_range [OF okl rj] by blast
    then show ?thesis using Cons.prems(1) unfolding x by (auto simp: layout_ok_def apart_def)
  qed
  consider "(p, n) \<in> live (unat (heap_base h)) bs" "(q, k) \<in> live (unat (heap_base h)) bs"
    | "(p, n) \<in> live (unat (heap_base h)) bs" "(q, k) \<in> layout_live l"
    | "(q, k) \<in> live (unat (heap_base h)) bs" "(p, n) \<in> layout_live l"
    | "(p, n) \<in> layout_live l" "(q, k) \<in> layout_live l"
    using Cons.prems(2,3) x by auto
  then show ?case
  proof cases
    case 1
    then show ?thesis using live_disjoint by blast
  next
    case 2
    then show ?thesis using h l by fastforce
  next
    case 3
    then show ?thesis using h l by fastforce
  next
    case 4
    then show ?thesis using Cons.IH okl by blast
  qed
qed simp

section \<open>The state of the allocator\<close>

text \<open>
  What is asked of the host: memory stays below two gigabytes, and only a refused \<open>sbrk\<close>
  compares equal to -1.
\<close>

definition host_ok :: "env \<Rightarrow> bool" where
  "host_ok e \<longleftrightarrow>
     (\<forall>c n. grow e c n \<longrightarrow> unat c + unat n \<le> 32767) \<and> (\<forall>p. ptr_int64 e p = - 1 \<longrightarrow> p = - 1)"

definition brk_ok :: "machine \<Rightarrow> bool" where
  "brk_ok m \<longleftrightarrow> mem_limit m < 2 ^ 31 \<and> (sbrk_initialized m \<longrightarrow> sbrk_bytes m = pages m * 65536)"

definition brk_done :: "machine \<Rightarrow> machine" where
  "brk_done m = m\<lparr>sbrk_bytes := pages m * 65536, sbrk_initialized := True\<rparr>"

lemma brk_done_simps [simp]:
  "mem (brk_done m) = mem m" "sbrk_bytes (brk_done m) = pages m * 65536" "pages (brk_done m) = pages m" "mem_limit (brk_done m) = mem_limit m"
  "brk_ok (brk_done m) \<longleftrightarrow> mem_limit m < 2 ^ 31"
  by (simp_all add: brk_done_def mem_limit_def brk_ok_def)

lemma unat_pages: "mem_limit m < 2 ^ 31 \<Longrightarrow> unat (pages m * 65536) = mem_limit m"
  by (simp add: mem_limit_def unat_word_ariths)

lemma sbrk_0:
  assumes "brk_ok m"
  shows "sbrk g 0 m = (pages m * 65536, brk_done m)"
proof -
  have "unat (pages m) < 32768" using assms by (simp add: brk_ok_def mem_limit_def)
  then have "unat (pages m * 65536 + 65535) = unat (pages m) * 65536 + 65535" by (simp add: unat_word_ariths)
  then have "unat (drop_bit 16 (pages m * 65536 + 65535)) = unat (pages m)"
    by (simp add: unat_drop_bit_eq drop_bit_eq_div unat_div)
  then have d: "drop_bit 16 (65535 + pages m * 65536) = pages m" by (simp add: word_unat_eq_iff add.commute)
  have "(if \<not> sbrk_initialized m then m\<lparr>sbrk_bytes := pages m * 65536, sbrk_initialized := True\<rparr> else m) = brk_done m"
    using assms by (cases m) (auto simp: brk_ok_def brk_done_def)
  then show ?thesis
    unfolding sbrk_def by (simp only: Let_def) (simp add: brk_done_def d INT32_MAX_def)
qed

lemma sbrk_page:
  assumes "mem_limit m < 2 ^ 31"
  shows "sbrk g 65536 (brk_done m) =
    (if g (pages m) 1 then (pages m * 65536, brk_done (m\<lparr>pages := pages m + 1\<rparr>)) else (- 1, brk_done m))"
proof -
  have P: "unat (pages m) < 32768" using assms by (simp add: mem_limit_def)
  then have "unat (pages m * 65536 + 65536 + 65535) = unat (pages m + 1) * 65536 + 65535" by (simp add: unat_word_ariths)
  then have "unat (drop_bit 16 (pages m * 65536 + 65536 + 65535)) = unat (pages m + 1)"
    by (simp add: unat_drop_bit_eq drop_bit_eq_div unat_div)
  then have d: "drop_bit 16 (131071 + pages m * 65536) = 1 + pages m" by (simp add: word_unat_eq_iff add.commute)
  have "(65536 + 7 :: u32) AND NOT 7 = 65536" by simp
  moreover have "pages m < 1 + pages m" using P by (simp add: word_less_nat_alt unat_word_ariths)
  moreover have "\<not> INT32_MAX < 65536" by (simp add: INT32_MAX_def word_less_nat_alt)
  ultimately show ?thesis
    using d by (cases m) (simp add: sbrk_def brk_done_def Let_def algebra_simps)
qed

lemma heap_adjustment_page:
  assumes "mem_limit m < 2 ^ 31"
  shows "heap_adjustment (pages m * 65536) = 65536"
proof -
  have "unat (pages m * 65536 mod 65536) = 0" using unat_pages [OF assms] by (simp add: unat_mod mem_limit_def)
  then have "pages m * 65536 mod 65536 = 0" by (simp add: word_unat_eq_iff)
  then show ?thesis by (simp add: heap_adjustment_def wasm_page_size_def)
qed

text \<open>
  The phases of the manager: before the first call, while memory can still be asked for (the
  heaps before the last are full), and when it has run out (all heaps are full).
\<close>

definition manager_phase :: "manager \<Rightarrow> layout \<Rightarrow> bool" where
  "manager_phase s l \<longleftrightarrow>
     (if l = [] then heaps_actual_size s = 0 \<and> active_heap s = 0 \<and> active_free_heap s = 0
      else if unat (active_heap s) + 1 = length l
        then heaps_actual_size s = heaps_size \<and> active_free_heap s = 0 \<and> (\<forall>(h, _) \<in> set (butlast l). heap_full h)
        else unat (active_heap s) = length l \<and> heaps_actual_size s = active_heap s \<and>
          unat (active_free_heap s) < length l \<and> (\<forall>(h, _) \<in> set l. heap_full h))"

definition manager_heaps :: "manager \<Rightarrow> layout \<Rightarrow> bool" where
  "manager_heaps s l \<longleftrightarrow>
     length l \<le> 2 \<and> available_heaps s = map fst l @ replicate (16 - length l) heap_default \<and>
     layout_ok (machine s) l \<and> brk_ok (machine s) \<and>
     (length l = 2 \<longrightarrow> unat (heap_base (fst (l ! 1))) + unat (heap_size (fst (l ! 1))) = mem_limit (machine s))"

definition manager_ok :: "env \<Rightarrow> manager \<Rightarrow> layout \<Rightarrow> bool" where
  "manager_ok e s l \<longleftrightarrow>
     manager_heaps s l \<and> manager_phase s l \<and>
     (l = [] \<longrightarrow> initial_heap e \<noteq> 0 \<and> unat (initial_heap e) + 8192 \<le> mem_limit (machine s))"

lemma get_heap_eq:
  assumes "manager_heaps s (us @ (h, bs) # vs)"
  shows "get_heap (of_nat (length us)) s = Inr h"
proof -
  have n: "length us < 2" using assms by (simp add: manager_heaps_def)
  then have u: "unat (of_nat (length us) :: u32) = length us" by (intro unat_of_nat_u32) simp
  then have "(of_nat (length us) :: u32) < heaps_size" using n by (simp add: heaps_size_def word_less_nat_alt)
  then show ?thesis using assms u by (simp add: get_heap_def manager_heaps_def nth_append)
qed


text \<open>The manager after an operation on one heap.\<close>

definition with_heap :: "manager \<Rightarrow> layout \<Rightarrow> machine \<Rightarrow> manager" where
  "with_heap s l m = s\<lparr>machine := m, available_heaps := map fst l @ replicate (16 - length l) heap_default\<rparr>"

lemma with_heap_simps [simp]:
  "machine (with_heap s l m) = m" "heaps_actual_size (with_heap s l m) = heaps_actual_size s"
  "active_heap (with_heap s l m) = active_heap s" "active_free_heap (with_heap s l m) = active_free_heap s"
  "available_heaps (with_heap s l m) = map fst l @ replicate (16 - length l) heap_default"
  "with_heap (with_heap s k n) l m = with_heap s l m"
  "manager_phase (with_heap s l m) k \<longleftrightarrow> manager_phase s k"
  by (simp_all add: with_heap_def manager_phase_def)

lemma set_heap_eq:
  assumes "manager_heaps s (us @ (h, bs) # vs)"
  shows "set_heap (of_nat (length us)) h' (s\<lparr>machine := m\<rparr>) = Inr (with_heap s (us @ (h', bs') # vs) m)"
proof -
  have n: "length us < 2" using assms by (simp add: manager_heaps_def)
  then have u: "unat (of_nat (length us) :: u32) = length us" by (intro unat_of_nat_u32) simp
  then have "(of_nat (length us) :: u32) < heaps_size" using n by (simp add: heaps_size_def word_less_nat_alt)
  then show ?thesis using assms u by (simp add: set_heap_def manager_heaps_def list_update_append with_heap_def)
qed

lemma with_heap_same: "manager_heaps s l \<Longrightarrow> s\<lparr>machine := m\<rparr> = with_heap s l m"
  by (cases s) (simp add: manager_heaps_def with_heap_def)

lemma same_on_brk: "same_on L m m' \<Longrightarrow> brk_ok m \<Longrightarrow> brk_ok m'"
  by (simp add: same_on_def brk_ok_def)

lemma get_with_heap: "length us < 2 \<Longrightarrow> get_heap (of_nat (length us)) (with_heap s (us @ (h, bs) # vs) m) = Inr h"
proof -
  assume n: "length us < 2"
  then have u: "unat (of_nat (length us) :: u32) = length us" by (intro unat_of_nat_u32) simp
  then have "(of_nat (length us) :: u32) < heaps_size" using n by (simp add: heaps_size_def word_less_nat_alt)
  then show ?thesis using u by (simp add: get_heap_def nth_append)
qed

text \<open>An operation on one heap, seen from the manager.\<close>

lemma manager_heaps_update:
  assumes mh: "manager_heaps s (us @ (h, bs) # vs)" and h': "heap_ok h' m' bs'"
    and sz: "heap_base h' = heap_base h" "heap_size h' = heap_size h"
    and same: "same_on (live (unat (heap_base h)) bs \<union> outside h) (machine s) m'"
  shows "manager_heaps (with_heap s (us @ (h', bs') # vs) m') (us @ (h', bs') # vs)"
    and "same_bytes (layout_live (us @ (h, bs) # vs)) (machine s) m'"
proof -
  have ok: "layout_ok (machine s) (us @ (h, bs) # vs)" using mh by (simp add: manager_heaps_def)
  have "same_bytes (outside h) (machine s) m'"
    using same_bytes_mono [OF same_on_bytes [OF same]] by simp
  then have "layout_ok m' (us @ (h', bs') # vs)" by (rule layout_ok_update [OF ok h' sz])
  moreover have "mem_limit m' = mem_limit (machine s)" using same by (simp add: same_on_def)
  ultimately show "manager_heaps (with_heap s (us @ (h', bs') # vs) m') (us @ (h', bs') # vs)"
    using mh sz same_on_brk [OF same] by (auto simp: manager_heaps_def nth_append nth_Cons split: nat.splits)
  show "same_bytes (layout_live (us @ (h, bs) # vs)) (machine s) m'"
    using same_bytes_layout [OF ok same_on_bytes [OF same]] .
qed

lemma same_on_last_header:
  assumes "heap_ok h m bs" and "extent bs + 4 \<le> unat (heap_size h)"
  shows "same_on (live (unat (heap_base h)) bs \<union> outside h) m (header_update h bs n alloc m)"
  using assms by (intro same_on_header_update [where ys = "[]"]) (auto simp: heap_ok_def block_addr_def)

lemma live_snoc: "live a (bs @ [(n, alloc)]) = live a bs \<union> (if alloc then {(a + extent bs + 4, n)} else {})"
  by (simp add: live_append)

text \<open>The active heap has room.\<close>

lemma malloc_step_fit:
  assumes mh: "manager_heaps s (us @ [(h, bs)])" and k: "unat sz mod 8 = 4" "unat sz < 2 ^ 31 - 8"
    and fit: "extent bs + unat sz + 4 \<le> unat (heap_size h)"
  defines "h' \<equiv> h\<lparr>heap_offset := of_nat (extent bs + unat sz + 4)\<rparr>"
    and "m' \<equiv> header_update h bs (unat sz) True (machine s)"
  shows "malloc_step e sz (Some (of_nat (length us)), s) =
      Some (Inr (Inr (data_ptr (block_addr h bs), with_heap s (us @ [(h', bs @ [(unat sz, True)])]) m')))"
    and "manager_heaps (with_heap s (us @ [(h', bs @ [(unat sz, True)])]) m') (us @ [(h', bs @ [(unat sz, True)])])"
    and "same_bytes (layout_live (us @ [(h, bs)])) (machine s) m'"
    and "unat (data_ptr (block_addr h bs)) = block_addr h bs + 4"
proof -
  have ok: "heap_ok h (machine s) bs" using mh by (auto simp: manager_heaps_def layout_ok_def)
  have ok': "heap_ok h' m' (bs @ [(unat sz, True)])"
    unfolding h'_def m'_def by (rule heap_malloc_ok [OF ok k(1) fit])
  show p: "unat (data_ptr (block_addr h bs)) = block_addr h bs + 4"
    using block_span(1) [of h' m' bs "unat sz" True "[]"] ok' by (simp add: h'_def block_addr_def)
  then have nz: "data_ptr (block_addr h bs) \<noteq> 0" by (metis add_is_0 unat_0 zero_neq_numeral)
  have m: "heap_malloc sz h (machine s) = Inr (data_ptr (block_addr h bs), h', m')"
    using heap_malloc_eq [OF ok k] fit by (simp add: h'_def m'_def)
  show "malloc_step e sz (Some (of_nat (length us)), s) =
      Some (Inr (Inr (data_ptr (block_addr h bs), with_heap s (us @ [(h', bs @ [(unat sz, True)])]) m')))"
    using nz m get_heap_eq [OF mh] set_heap_eq [OF mh, of h' m' "bs @ [(unat sz, True)]"]
    by (simp add: malloc_step_def)
  have same: "same_on (live (unat (heap_base h)) bs \<union> outside h) (machine s) m'"
    unfolding m'_def using fit by (intro same_on_last_header ok) simp
  show "manager_heaps (with_heap s (us @ [(h', bs @ [(unat sz, True)])]) m') (us @ [(h', bs @ [(unat sz, True)])])"
    "same_bytes (layout_live (us @ [(h, bs)])) (machine s) m'"
    by (rule manager_heaps_update [OF mh ok' _ _ same]; simp add: h'_def)+
qed

text \<open>It has not: the heap stays as it is and the manager asks for memory.\<close>

lemma malloc_step_full:
  assumes mh: "manager_heaps s (us @ [(h, bs)])" and k: "unat sz mod 8 = 4" "unat sz < 2 ^ 31 - 8"
    and fit: "unat (heap_size h) < extent bs + unat sz + 4"
  shows "malloc_step e sz (Some (of_nat (length us)), s) = Some (bind_res (next_active_heap e s) (\<lambda>next. Inr (Inl next)))"
proof -
  have ok: "heap_ok h (machine s) bs" using mh by (auto simp: manager_heaps_def layout_ok_def)
  have "with_heap s (us @ [(h, bs)]) (machine s) = s"
    using with_heap_same [OF mh, of "machine s"] by simp
  then show ?thesis
    using heap_malloc_eq [OF ok k] fit get_heap_eq [OF mh] set_heap_eq [OF mh, of h "machine s" bs]
    by (simp add: malloc_step_def)
qed

lemma cleanup_heap_ok:
  assumes mh: "manager_heaps s (us @ (h, bs) # vs)"
  shows "\<exists>h' bs' m'. cleanup_heap (of_nat (length us)) s = Inr (with_heap s (us @ (h', bs') # vs) m') \<and>
    heap_full h' \<and> live (unat (heap_base h')) bs' = live (unat (heap_base h)) bs \<and>
    heap_base h' = heap_base h \<and> heap_size h' = heap_size h \<and>
    manager_heaps (with_heap s (us @ (h', bs') # vs) m') (us @ (h', bs') # vs) \<and>
    same_bytes (layout_live (us @ (h, bs) # vs)) (machine s) m' \<and>
    mem_limit m' = mem_limit (machine s) \<and> pages m' = pages (machine s)"
proof (cases "heap_full h")
  case True
  have "with_heap s (us @ (h, bs) # vs) (machine s) = s" using with_heap_same [OF mh, of "machine s"] by simp
  then show ?thesis
    using True mh get_heap_eq [OF mh] set_heap_eq [OF mh, of h "machine s" bs]
    by (intro exI [of _ h] exI [of _ bs] exI [of _ "machine s"]) (simp add: cleanup_heap_def heap_cleanup_full)
next
  case False
  have ok: "heap_ok h (machine s) bs" using mh by (auto simp: manager_heaps_def layout_ok_def)
  let ?n = "unat (heap_size h) - extent bs - 4"
  let ?h = "h\<lparr>heap_offset := heap_size h\<rparr>" and ?bs = "bs @ [(?n, False)]" and ?m = "header_update h bs ?n False (machine s)"
  note c = heap_cleanup_remaining_eq [OF ok False]
  have "extent ?bs \<le> unat (heap_size h)" using c(2) by (simp add: heap_ok_def)
  then have same: "same_on (live (unat (heap_base h)) bs \<union> outside h) (machine s) ?m"
    by (intro same_on_last_header ok) simp
  have "manager_heaps (with_heap s (us @ (?h, ?bs) # vs) ?m) (us @ (?h, ?bs) # vs)"
    "same_bytes (layout_live (us @ (h, bs) # vs)) (machine s) ?m"
    by (rule manager_heaps_update [OF mh c(2) _ _ same]; simp)+
  then show ?thesis
    using c get_heap_eq [OF mh] set_heap_eq [OF mh, of ?h ?m ?bs] same
    by (intro exI [of _ ?h] exI [of _ ?bs] exI [of _ ?m]) (simp add: cleanup_heap_def live_snoc same_on_def)
qed

section \<open>Asking for memory\<close>

lemma layout_ok_grow:
  assumes "layout_ok m l" and "mem m' = mem m" and "mem_limit m \<le> mem_limit m'" and "mem_limit m' < 2 ^ 31"
  shows "layout_ok m' l"
  using assms heap_ok_cong [OF _ same_bytes_mem [of m' m] assms(4)] by (fastforce simp: layout_ok_def)

text \<open>Memory after the host has granted one more page.\<close>

definition one_page :: "machine \<Rightarrow> machine" where
  "one_page m = brk_done (m\<lparr>pages := pages m + 1\<rparr>)"

lemma one_page_simps:
  assumes "host_ok e" and "grow e (pages m) 1"
  shows "mem (one_page m) = mem m" and "unat (pages (one_page m)) = unat (pages m) + 1"
    and "mem_limit (one_page m) = mem_limit m + 65536" and "mem_limit m + 65536 < 2 ^ 31" and "brk_ok (one_page m)"
proof -
  have n: "unat (pages m) + 1 \<le> 32767" using assms by (force simp: host_ok_def)
  then have p: "unat (pages m + 1) = unat (pages m) + 1" by (simp add: unat_word_ariths)
  show "mem (one_page m) = mem m" "unat (pages (one_page m)) = unat (pages m) + 1" using p by (simp_all add: one_page_def)
  show l: "mem_limit (one_page m) = mem_limit m + 65536" using p by (simp add: one_page_def mem_limit_def)
  show "mem_limit m + 65536 < 2 ^ 31" using n by (simp add: mem_limit_def)
  then show "brk_ok (one_page m)" using l by (simp add: one_page_def)
qed

text \<open>The two calls of \<open>sbrk\<close> in \<open>next_active_heap\<close>.\<close>

lemma sbrk_calls:
  assumes "manager_heaps s l"
  shows "sbrk_manager e 0 s = (pages (machine s) * 65536, with_heap s l (brk_done (machine s)))"
    and "sbrk_manager e 65536 (with_heap s l (brk_done (machine s))) =
      (if grow e (pages (machine s)) 1 then (pages (machine s) * 65536, with_heap s l (one_page (machine s)))
       else (- 1, with_heap s l (brk_done (machine s))))"
proof -
  have "brk_ok (machine s)" using assms by (simp add: manager_heaps_def)
  then show "sbrk_manager e 0 s = (pages (machine s) * 65536, with_heap s l (brk_done (machine s)))"
    using with_heap_same [OF assms] by (simp add: sbrk_manager_def sbrk_0)
  have "mem_limit (machine s) < 2 ^ 31" using \<open>brk_ok (machine s)\<close> by (simp add: brk_ok_def)
  from sbrk_page [OF this]
  show "sbrk_manager e 65536 (with_heap s l (brk_done (machine s))) =
      (if grow e (pages (machine s)) 1 then (pages (machine s) * 65536, with_heap s l (one_page (machine s)))
       else (- 1, with_heap s l (brk_done (machine s))))"
    by (simp add: sbrk_manager_def with_heap_def one_page_def)
qed

lemma new_memory_start:
  assumes "host_ok e" and "mem_limit m < 2 ^ 31"
  shows "ptr_int64 e (pages m * 65536) \<noteq> - 1"
proof
  assume "ptr_int64 e (pages m * 65536) = - 1"
  then have "pages m * 65536 = (- 1 :: u32)" using assms(1) by (simp add: host_ok_def)
  then have "mem_limit m = unat (- 1 :: u32)" using unat_pages [OF assms(2)] by metis
  then show False using assms(2) by (simp add: unsigned_minus_1_eq_mask mask_eq_exp_minus_1)
qed

lemma heap_expand_iff:
  assumes "heap_ok h m bs"
  shows "heap_base h + heap_size h = pages m * 65536 \<longleftrightarrow> unat (heap_base h) + unat (heap_size h) = mem_limit m"
proof -
  have "mem_limit m < 2 ^ 31" using assms by (simp add: heap_ok_def)
  then show ?thesis
    using heap_ok_unat_end [OF assms] unat_pages [of m] by (auto simp: heap_end_def word_unat_eq_iff)
qed

text \<open>The host grants a page next to the active heap: the heap grows.\<close>

lemma next_active_heap_expand:
  assumes mh: "manager_heaps s (us @ [(h, bs)])" and act: "active_heap s = of_nat (length us)"
    and host: "host_ok e" and gr: "grow e (pages (machine s)) 1"
    and at_end: "unat (heap_base h) + unat (heap_size h) = mem_limit (machine s)"
  defines "l' \<equiv> us @ [(h\<lparr>heap_size := heap_size h + 65536\<rparr>, bs)]"
  shows "next_active_heap e s = Inr (Some (active_heap s), with_heap s l' (one_page (machine s)))"
    and "manager_heaps (with_heap s l' (one_page (machine s))) l'"
proof -
  let ?m = "one_page (machine s)" and ?h = "h\<lparr>heap_size := heap_size h + 65536\<rparr>"
  note pg = one_page_simps [OF host gr]
  have ok: "layout_ok (machine s) (us @ [(h, bs)])" "heap_ok h (machine s) bs"
    using mh by (auto simp: manager_heaps_def layout_ok_def)
  have lim: "mem_limit (machine s) < 2 ^ 31" using pg(4) by simp
  have exp: "heap_base h + heap_size h = pages (machine s) * 65536" using heap_expand_iff [OF ok(2)] at_end by simp
  have "manager_heaps s (us @ (h, bs) # [])" using mh by simp
  from set_heap_eq [OF this, of ?h ?m bs] have
    "set_heap (of_nat (length us)) ?h (with_heap s (us @ [(h, bs)]) ?m) = Inr (with_heap s l' ?m)"
    using with_heap_same [OF mh] by (simp add: l'_def)
  moreover have "length us < 2" using mh by (simp add: manager_heaps_def)
  then have "get_heap (of_nat (length us)) (with_heap s (us @ [(h, bs)]) ?m) = Inr h" by (rule get_with_heap)
  ultimately show "next_active_heap e s = Inr (Some (active_heap s), with_heap s l' ?m)"
    using sbrk_calls [OF mh] gr new_memory_start [OF host lim] act exp
    by (simp add: next_active_heap_def heap_adjustment_page [OF lim] heap_expand_memory_def Let_def)
  have sz: "unat (heap_size h + 65536) = unat (heap_size h) + 65536"
    using at_end pg(4) by (simp add: unat_word_ariths)
  have "heap_ok ?h ?m bs"
    using at_end pg by (intro heap_expand_ok [OF ok(2)]) simp_all
  moreover have "layout_ok (machine s) us" using ok(1) by (simp add: layout_ok_def sorted_wrt_append)
  then have "layout_ok ?m us" by (rule layout_ok_grow) (use pg in simp_all)
  ultimately have "layout_ok ?m l'"
    using ok(1) sz unfolding l'_def by (simp add: layout_ok_def sorted_wrt_append apart_def)
  then show "manager_heaps (with_heap s l' ?m) l'"
    using mh at_end sz pg by (auto simp: manager_heaps_def l'_def nth_append nth_Cons split: nat.splits)
qed

lemma with_heap_active [simp]:
  "(with_heap s l m)\<lparr>active_heap := i\<rparr> = with_heap (s\<lparr>active_heap := i\<rparr>) l m"
  "(with_heap s l m)\<lparr>heaps_actual_size := i\<rparr> = with_heap (s\<lparr>heaps_actual_size := i\<rparr>) l m"
  "(with_heap s l m)\<lparr>active_free_heap := i\<rparr> = with_heap (s\<lparr>active_free_heap := i\<rparr>) l m"
  by (simp_all add: with_heap_def)

lemma manager_heaps_cong:
  "available_heaps s' = available_heaps s \<Longrightarrow> machine s' = machine s \<Longrightarrow> manager_heaps s' l = manager_heaps s l"
  by (simp add: manager_heaps_def)

text \<open>A slot that is not in use yet.\<close>

lemma new_slot:
  assumes "length l < 3"
  shows "get_heap (of_nat (length l)) (with_heap s l m) = Inr heap_default"
    and "set_heap (of_nat (length l)) h (with_heap s l m) = Inr (with_heap s (l @ [(h, bs)]) m)"
proof -
  have u: "unat (of_nat (length l) :: u32) = length l" using assms by (intro unat_of_nat_u32) simp
  then have i: "(of_nat (length l) :: u32) < heaps_size" using assms by (simp add: heaps_size_def word_less_nat_alt)
  then show "get_heap (of_nat (length l)) (with_heap s l m) = Inr heap_default"
    using u assms by (simp add: get_heap_def nth_append)
  have "16 - length l = Suc (15 - length l)" using assms by simp
  then show "set_heap (of_nat (length l)) h (with_heap s l m) = Inr (with_heap s (l @ [(h, bs)]) m)"
    using u i by (simp add: set_heap_def with_heap_def list_update_append)
qed

lemma with_heap_grow:
  assumes "manager_heaps s l" and "length l < 2" and "mem m = mem (machine s)" and "mem_limit (machine s) \<le> mem_limit m" and "brk_ok m"
  shows "manager_heaps (with_heap s l m) l"
  using assms layout_ok_grow [of "machine s" l m] by (simp add: manager_heaps_def brk_ok_def)

lemma with_heap_brk: "manager_heaps s l \<Longrightarrow> manager_heaps (with_heap s l (brk_done (machine s))) l"
  using layout_ok_grow [of "machine s" l "brk_done (machine s)"] by (auto simp: manager_heaps_def brk_ok_def)

text \<open>The host grants a page elsewhere: it becomes a new heap.\<close>

lemma next_active_heap_new:
  assumes mh: "manager_heaps s [(h, bs)]" and act: "active_heap s = 0"
    and host: "host_ok e" and gr: "grow e (pages (machine s)) 1"
    and at_end: "unat (heap_base h) + unat (heap_size h) \<noteq> mem_limit (machine s)"
  shows "\<exists>h' bs' m' n. next_active_heap e s = Inr (Some 1, with_heap (s\<lparr>active_heap := 1\<rparr>) [(h', bs'), (n, [])] m') \<and>
    heap_full h' \<and> live (unat (heap_base h')) bs' = live (unat (heap_base h)) bs \<and>
    manager_heaps (with_heap s [(h', bs'), (n, [])] m') [(h', bs'), (n, [])] \<and>
    same_bytes (layout_live [(h, bs)]) (machine s) m' \<and> pages m' = pages (one_page (machine s))"
proof -
  let ?m = "one_page (machine s)" and ?P = "pages (machine s) * 65536"
  note pg = one_page_simps [OF host gr]
  have lim: "mem_limit (machine s) < 2 ^ 31" using pg(4) by simp
  have ok: "heap_ok h (machine s) bs" using mh by (auto simp: manager_heaps_def layout_ok_def)
  have neq: "heap_base h + heap_size h \<noteq> ?P" using heap_expand_iff [OF ok] at_end by simp
  have mh1: "manager_heaps (with_heap s [(h, bs)] ?m) ([] @ (h, bs) # [])"
    using with_heap_grow [OF mh, of ?m] pg by simp
  obtain h' bs' m' where c: "cleanup_heap 0 (with_heap s [(h, bs)] ?m) = Inr (with_heap s [(h', bs')] m')"
    "heap_full h'" "live (unat (heap_base h')) bs' = live (unat (heap_base h)) bs"
    "heap_base h' = heap_base h" "heap_size h' = heap_size h"
    "manager_heaps (with_heap s [(h', bs')] m') [(h', bs')]"
    "same_bytes (layout_live [(h, bs)]) ?m m'" "mem_limit m' = mem_limit ?m" "pages m' = pages ?m"
    using cleanup_heap_ok [OF mh1] by auto
  define n where "n = heap_init ?P 65536 heap_default"
  have g: "get_heap 0 (with_heap s [(h, bs)] ?m) = Inr h" using get_with_heap [of "[]"] by simp
  have slot: "get_heap 1 (with_heap s' [(h', bs')] m') = Inr heap_default"
    "set_heap 1 n (with_heap s' [(h', bs')] m') = Inr (with_heap s' [(h', bs'), (n, [])] m')" for s'
    using new_slot [where l = "[(h', bs')]" and s = s' and m = m'] by simp_all
  have "next_active_heap e s = Inr (Some 1, with_heap (s\<lparr>active_heap := 1\<rparr>) [(h', bs'), (n, [])] m')"
    using sbrk_calls [OF mh] gr new_memory_start [OF host lim] neq c(1) slot g act
    by (simp add: next_active_heap_def heap_adjustment_page [OF lim] heap_expand_memory_def Let_def n_def)
  moreover have P: "unat ?P = mem_limit (machine s)" using unat_pages [OF lim] .
  have le: "unat (heap_base h) + unat (heap_size h) \<le> mem_limit (machine s)" "heap_base h \<noteq> 0" using ok by (simp_all add: heap_ok_def)
  then have "0 < mem_limit (machine s)" by (metis add_is_0 gr0I le_zero_eq unat_eq_zero)
  then have "?P \<noteq> 0" using P by (metis less_numeral_extra(3) unat_0)
  then have "heap_ok n m' []" using P pg c(8) by (simp add: heap_ok_def n_def heap_init_def heap_default_def)
  then have "manager_heaps (with_heap s [(h', bs'), (n, [])] m') [(h', bs'), (n, [])]"
    using c(4-6,8) P le pg by (simp add: manager_heaps_def layout_ok_def apart_def n_def heap_init_def heap_default_def)
  moreover have "same_bytes (layout_live [(h, bs)]) (machine s) ?m" using pg by (intro same_bytes_mem) simp_all
  then have "same_bytes (layout_live [(h, bs)]) (machine s) m'" using c(7) same_bytes_trans by blast
  ultimately show ?thesis using c by blast
qed

text \<open>The host refuses, and the caller sees it.\<close>

lemma next_active_heap_refused:
  assumes mh: "manager_heaps s (us @ [(h, bs)])" and act: "active_heap s = of_nat (length us)"
    and gr: "\<not> grow e (pages (machine s)) 1" and seen: "ptr_int64 e (- 1) = - 1"
  defines "i \<equiv> of_nat (length us + 1)"
  shows "\<exists>h' bs' m'. next_active_heap e s =
      Inr (None, with_heap (s\<lparr>active_heap := i, heaps_actual_size := i\<rparr>) (us @ [(h', bs')]) m') \<and>
    heap_full h' \<and> live (unat (heap_base h')) bs' = live (unat (heap_base h)) bs \<and>
    manager_heaps (with_heap s (us @ [(h', bs')]) m') (us @ [(h', bs')]) \<and>
    same_bytes (layout_live (us @ [(h, bs)])) (machine s) m'"
proof -
  let ?m = "brk_done (machine s)"
  have lim: "mem_limit (machine s) < 2 ^ 31" using mh by (simp add: manager_heaps_def brk_ok_def)
  have mh1: "manager_heaps (with_heap s (us @ [(h, bs)]) ?m) (us @ (h, bs) # [])"
    using with_heap_brk [OF mh] by simp
  obtain h' bs' m' where c: "cleanup_heap (of_nat (length us)) (with_heap s (us @ [(h, bs)]) ?m) = Inr (with_heap s (us @ [(h', bs')]) m')"
    "heap_full h'" "live (unat (heap_base h')) bs' = live (unat (heap_base h)) bs"
    "manager_heaps (with_heap s (us @ [(h', bs')]) m') (us @ [(h', bs')])"
    "same_bytes (layout_live (us @ [(h, bs)])) ?m m'"
    using cleanup_heap_ok [OF mh1] by auto
  have "next_active_heap e s = Inr (None, with_heap (s\<lparr>active_heap := i, heaps_actual_size := i\<rparr>) (us @ [(h', bs')]) m')"
    using sbrk_calls [OF mh] gr seen c(1) act
    by (simp add: next_active_heap_def heap_adjustment_page [OF lim] Let_def i_def add.commute)
  moreover have "same_bytes (layout_live (us @ [(h, bs)])) (machine s) m'"
    using c(5) same_bytes_trans [OF same_bytes_mem [of ?m "machine s"]] by simp
  ultimately show ?thesis using c by blast
qed

text \<open>
  The host refuses, and the caller does not see it, as a 32-bit pointer never compares equal to
  the 64-bit -1: the next heap starts at the address that reports the failure, and the first
  access to it ends the action.
\<close>

lemma get_heap_machine [simp]: "get_heap i (s\<lparr>machine := m\<rparr>) = get_heap i s"
  by (simp add: get_heap_def)

definition doomed :: "env \<Rightarrow> u32 \<Rightarrow> manager \<Rightarrow> bool" where
  "doomed e i s \<longleftrightarrow>
     get_heap i s = Inr (heap_init (- 1) 65536 heap_default) \<and> active_heap s = i \<and> brk_ok (machine s) \<and>
     \<not> grow e (pages (machine s)) 1 \<and> ptr_int64 e (- 1) \<noteq> - 1"

lemma doomed_access:
  "mem_limit m < 2 ^ 31 \<Longrightarrow> buffer_ptr_make (- 1 + size_marker) v hend m = out_of_bounds"
  by (simp add: buffer_ptr_make_def bp_set_size_def load32_def unsigned_minus_1_eq_mask mask_eq_exp_minus_1 size_marker_def)

lemma doomed_next:
  assumes "doomed e i s"
  shows "next_active_heap e s = out_of_bounds"
proof -
  let ?h = "heap_init (- 1) 65536 heap_default" and ?m = "brk_done (machine s)"
  have d: "get_heap i s = Inr ?h" "active_heap s = i" "brk_ok (machine s)" "\<not> grow e (pages (machine s)) 1"
    "ptr_int64 e (- 1) \<noteq> - 1"
    using assms by (simp_all add: doomed_def)
  have lim: "mem_limit (machine s) < 2 ^ 31" using d(3) by (simp add: brk_ok_def)
  have g: "get_heap i (s\<lparr>machine := ?m\<rparr>) = Inr ?h" using d(1) by simp
  have "heap_cleanup_remaining ?h ?m = out_of_bounds"
    using doomed_access [of ?m] lim by (simp add: heap_cleanup_remaining_def heap_init_def heap_default_def Let_def)
  then have "cleanup_heap i (s\<lparr>machine := ?m\<rparr>) = out_of_bounds" using g by (simp add: cleanup_heap_def)
  moreover have "heap_expand_memory (- 1) 65536 ?h = (False, ?h)"
    by (simp add: heap_expand_memory_def heap_init_def heap_default_def)
  ultimately show ?thesis
    using d(2,4,5) g sbrk_0 [OF d(3)] sbrk_page [OF lim]
    by (simp add: next_active_heap_def sbrk_manager_def heap_adjustment_page [OF lim] Let_def)
qed

lemma doomed_traps:
  assumes d: "doomed e i s"
  shows "loop_out (malloc_step e sz) (Some i, s) = Some out_of_bounds"
proof -
  let ?h = "heap_init (- 1) 65536 heap_default"
  have g: "get_heap i s = Inr ?h" and lim: "mem_limit (machine s) < 2 ^ 31"
    using d by (simp_all add: doomed_def brk_ok_def)
  then have i: "i < heaps_size" "available_heaps s ! unat i = ?h" unfolding get_heap_def by (auto split: if_splits)
  then have "set_heap i ?h (s\<lparr>machine := machine s\<rparr>) = Inr s"
    by (cases s) (simp add: set_heap_def list_update_same_conv flip: i(2))
  moreover have "heap_malloc sz ?h (machine s) \<in> {Inr (0, ?h, machine s), out_of_bounds}"
    using doomed_access [OF lim] by (simp add: heap_malloc_def heap_init_def heap_default_def Let_def)
  ultimately have "malloc_step e sz (Some i, s) = Some out_of_bounds"
    using g doomed_next [OF d] by (auto simp: malloc_step_def)
  then show ?thesis by (subst loop_out.simps) simp
qed

lemma next_active_heap_doomed:
  assumes mh: "manager_heaps s (us @ [(h, bs)])" and act: "active_heap s = of_nat (length us)"
    and gr: "\<not> grow e (pages (machine s)) 1" and seen: "ptr_int64 e (- 1) \<noteq> - 1"
  shows "\<exists>s' i. next_active_heap e s = Inr (Some i, s') \<and> doomed e i s'"
proof -
  let ?m = "brk_done (machine s)" and ?g = "heap_init (- 1) 65536 heap_default" and ?i = "of_nat (length us + 1)"
  have lim: "mem_limit (machine s) < 2 ^ 31" using mh by (simp add: manager_heaps_def brk_ok_def)
  have ok: "heap_ok h (machine s) bs" using mh by (auto simp: manager_heaps_def layout_ok_def)
  have n: "length us < 2" using mh by (simp add: manager_heaps_def)
  have mh1: "manager_heaps (with_heap s (us @ [(h, bs)]) ?m) (us @ (h, bs) # [])"
    using with_heap_brk [OF mh] by simp
  obtain h' bs' m' where c: "cleanup_heap (of_nat (length us)) (with_heap s (us @ [(h, bs)]) ?m) = Inr (with_heap s (us @ [(h', bs')]) m')"
    "manager_heaps (with_heap s (us @ [(h', bs')]) m') (us @ [(h', bs')])" "pages m' = pages ?m"
    using cleanup_heap_ok [OF mh1] by auto
  let ?s = "with_heap (s\<lparr>active_heap := ?i\<rparr>) (us @ [(h', bs'), (?g, [])]) m'"
  have "heap_base h + heap_size h \<noteq> - 1"
  proof
    assume "heap_base h + heap_size h = - 1"
    then have "unat (- 1 :: u32) = unat (heap_base h) + unat (heap_size h)"
      using heap_ok_unat_end [OF ok] by (simp add: heap_end_def)
    then show False using ok by (auto simp: heap_ok_def unsigned_minus_1_eq_mask mask_eq_exp_minus_1)
  qed
  moreover have "get_heap ?i (with_heap s' (us @ [(h', bs')]) m') = Inr heap_default"
    "set_heap ?i ?g (with_heap s' (us @ [(h', bs')]) m') = Inr (with_heap s' (us @ [(h', bs'), (?g, [])]) m')" for s'
    using new_slot [where l = "us @ [(h', bs')]" and s = s' and m = m'] n by simp_all
  ultimately have "next_active_heap e s = Inr (Some ?i, ?s)"
    using sbrk_calls [OF mh] gr seen c(1) act get_with_heap [OF n, of s h bs "[]" ?m]
    by (simp add: next_active_heap_def heap_adjustment_page [OF lim] Let_def heap_expand_memory_def add.commute)
  moreover have "get_heap ?i ?s = Inr ?g"
  proof -
    have "unat (?i :: u32) = length us + 1" using n by (intro unat_of_nat_u32) simp
    then show ?thesis using n by (simp add: get_heap_def heaps_size_def word_less_nat_alt nth_append del: of_nat_Suc)
  qed
  then have "doomed e ?i ?s" using c(2,3) gr seen by (simp add: doomed_def manager_heaps_def)
  ultimately show ?thesis by blast
qed

section \<open>malloc\<close>

text \<open>
  What a call that returns has done: it has left the allocated ranges and their bytes alone, and
  either returned the null pointer or a new range of the size that was asked for.
\<close>

definition alloc_post :: "env \<Rightarrow> manager \<Rightarrow> layout \<Rightarrow> nat \<Rightarrow> u32 \<Rightarrow> manager \<Rightarrow> layout \<Rightarrow> bool" where
  "alloc_post e s l k p s' l' \<longleftrightarrow>
     manager_ok e s' l' \<and> same_bytes (layout_live l) (machine s) (machine s') \<and>
     (if p = 0 then layout_live l' = layout_live l
      else (unat p, k) \<notin> layout_live l \<and> layout_live l' = insert (unat p, k) (layout_live l))"

lemma alloc_post_trans:
  "same_bytes (layout_live l) (machine s) (machine s1) \<Longrightarrow> layout_live l1 = layout_live l \<Longrightarrow>
   alloc_post e s1 l1 k p s' l' \<Longrightarrow> alloc_post e s l k p s' l'"
  using same_bytes_trans by (auto simp: alloc_post_def)

abbreviation working :: "manager \<Rightarrow> layout \<Rightarrow> bool" where
  "working s l \<equiv> l \<noteq> [] \<and> unat (active_heap s) + 1 = length l"

abbreviation exhausted :: "manager \<Rightarrow> layout \<Rightarrow> bool" where
  "exhausted s l \<equiv> l \<noteq> [] \<and> unat (active_heap s) = length l"

lemma working_layout:
  assumes "manager_ok e s l" and "working s l"
  obtains us h bs where "l = us @ [(h, bs)]" and "active_heap s = of_nat (length us)" and "length us < 2"
    and "manager_heaps s (us @ [(h, bs)])" and "\<forall>(h, _) \<in> set us. heap_full h" and "active_free_heap s = 0"
    and "heaps_actual_size s = heaps_size"
proof -
  obtain us x where x: "l = us @ [x]" using assms(2) by (metis rev_exhaust)
  obtain h bs where "x = (h, bs)" by (cases x)
  moreover have "unat (active_heap s) = length us" using assms(2) x by simp
  moreover have "active_heap s = of_nat (unat (active_heap s))" by simp
  ultimately show ?thesis
    using that [of us h bs] assms x by (auto simp: manager_ok_def manager_phase_def manager_heaps_def simp del: of_nat_unat)
qed

text \<open>One round of asking for memory.\<close>

lemma next_active_heap_ok:
  assumes ok: "manager_ok e s l" and w: "working s l" and host: "host_ok e"
  shows "(\<exists>s' l'. next_active_heap e s = Inr (Some (active_heap s'), s') \<and> manager_ok e s' l' \<and> working s' l' \<and>
      layout_live l' = layout_live l \<and> same_bytes (layout_live l) (machine s) (machine s') \<and>
      unat (pages (machine s')) = unat (pages (machine s)) + 1) \<or>
    (\<exists>s' l'. next_active_heap e s = Inr (None, s') \<and> manager_ok e s' l' \<and> exhausted s' l' \<and>
      layout_live l' = layout_live l \<and> same_bytes (layout_live l) (machine s) (machine s')) \<or>
    ptr_int64 e (- 1) \<noteq> - 1 \<and> (\<exists>s' i. next_active_heap e s = Inr (Some i, s') \<and> doomed e i s')"
proof -
  obtain us h bs where l: "l = us @ [(h, bs)]" "active_heap s = of_nat (length us)" "length us < 2"
    and mh: "manager_heaps s (us @ [(h, bs)])" and full: "\<forall>(h, _) \<in> set us. heap_full h"
    and free: "active_free_heap s = 0" "heaps_actual_size s = heaps_size"
    by (rule working_layout [OF ok w])
  have u: "unat (of_nat (length us) :: u32) = length us" using l(3) by (intro unat_of_nat_u32) simp
  show ?thesis
  proof (cases "grow e (pages (machine s)) 1")
    case True
    note pg = one_page_simps [OF host True]
    show ?thesis
    proof (cases "unat (heap_base h) + unat (heap_size h) = mem_limit (machine s)")
      case at_end: True
      let ?l = "us @ [(h\<lparr>heap_size := heap_size h + 65536\<rparr>, bs)]"
      let ?s = "with_heap s ?l (one_page (machine s))"
      note n = next_active_heap_expand [OF mh l(2) host True at_end]
      have "manager_ok e ?s ?l"
        using n(2) l u full free by (simp add: manager_ok_def manager_phase_def)
      moreover have "same_bytes (layout_live l) (machine s) (machine ?s)"
        using pg by (intro same_bytes_mem) simp_all
      ultimately show ?thesis
        using n(1) l u pg(2) by (intro disjI1 exI [of _ ?s] exI [of _ ?l]) simp
    next
      case False
      have us: "us = []"
        using False mh l(3) by (cases us) (auto simp: manager_heaps_def)
      obtain h' bs' m' n where n: "next_active_heap e s = Inr (Some 1, with_heap (s\<lparr>active_heap := 1\<rparr>) [(h', bs'), (n, [])] m')"
        "heap_full h'" "live (unat (heap_base h')) bs' = live (unat (heap_base h)) bs"
        "manager_heaps (with_heap s [(h', bs'), (n, [])] m') [(h', bs'), (n, [])]"
        "same_bytes (layout_live [(h, bs)]) (machine s) m'" "pages m' = pages (one_page (machine s))"
        using next_active_heap_new [of s h bs, OF _ _ host True False] mh l(2) us by auto
      let ?s = "with_heap (s\<lparr>active_heap := 1\<rparr>) [(h', bs'), (n, [])] m'"
      have "manager_ok e ?s [(h', bs'), (n, [])]"
        using n(2,4) free by (simp add: manager_ok_def manager_phase_def manager_heaps_def)
      then show ?thesis
        using n l us pg(2) by (intro disjI1 exI [of _ ?s] exI [of _ "[(h', bs'), (n, [])]"]) simp
    qed
  next
    case False
    show ?thesis
    proof (cases "ptr_int64 e (- 1) = - 1")
      case True
      let ?i = "of_nat (length us + 1)"
      have i: "unat (?i :: u32) = length us + 1" using l(3) by (intro unat_of_nat_u32) simp
      obtain h' bs' m' where n: "next_active_heap e s = Inr (None, with_heap (s\<lparr>active_heap := ?i, heaps_actual_size := ?i\<rparr>) (us @ [(h', bs')]) m')"
        "heap_full h'" "live (unat (heap_base h')) bs' = live (unat (heap_base h)) bs"
        "manager_heaps (with_heap s (us @ [(h', bs')]) m') (us @ [(h', bs')])"
        "same_bytes (layout_live (us @ [(h, bs)])) (machine s) m'"
        using next_active_heap_refused [OF mh l(2) False True] by blast
      let ?s = "with_heap (s\<lparr>active_heap := ?i, heaps_actual_size := ?i\<rparr>) (us @ [(h', bs')]) m'"
      have "manager_ok e ?s (us @ [(h', bs')])"
        using n(2,4) i full free by (simp add: manager_ok_def manager_phase_def manager_heaps_def del: of_nat_Suc of_nat_add)
      then show ?thesis
        using n l i by (intro disjI2 disjI1 exI [of _ ?s] exI [of _ "us @ [(h', bs')]"]) (simp del: of_nat_Suc of_nat_add)
    next
      case seen: False
      then show ?thesis using next_active_heap_doomed [OF mh l(2) False seen] by blast
    qed
  qed
qed

lemma fresh_range:
  assumes ok: "layout_ok m (us @ [(h, bs)])" and p: "unat (heap_base h) + extent bs < p"
  shows "(p, k) \<notin> layout_live (us @ [(h, bs)])"
proof
  assume "(p, k) \<in> layout_live (us @ [(h, bs)])"
  then consider "(p, k) \<in> live (unat (heap_base h)) bs"
    | g cs where "(g, cs) \<in> set us" "(p, k) \<in> live (unat (heap_base g)) cs"
    by (auto simp: layout_live_def)
  then show False
  proof cases
    case 1
    then show False using live_range [OF 1] p by simp
  next
    case 2
    have "heap_ok g m cs" "apart (g, cs) (h, bs)" using ok 2(1) by (auto simp: layout_ok_def sorted_wrt_append)
    then show False using live_range [OF 2(2)] p by (simp add: apart_def heap_ok_def)
  qed
qed

lemma malloc_loop_ok:
  assumes "manager_ok e s l" and "working s l" and host: "host_ok e" and k: "unat sz mod 8 = 4" "unat sz < 2 ^ 31 - 8"
  shows "(\<exists>p s' l'. loop_out (malloc_step e sz) (Some (active_heap s), s) = Some (Inr (p, s')) \<and>
      alloc_post e s l (unat sz) p s' l' \<and> (p = 0 \<longrightarrow> exhausted s' l')) \<or>
    ptr_int64 e (- 1) \<noteq> - 1 \<and> loop_out (malloc_step e sz) (Some (active_heap s), s) = Some out_of_bounds"
  using assms(1,2)
proof (induction "32768 - unat (pages (machine s))" arbitrary: s l rule: less_induct)
  case less
  obtain us h bs where l: "l = us @ [(h, bs)]" "active_heap s = of_nat (length us)" "length us < 2"
    and mh: "manager_heaps s (us @ [(h, bs)])" and full: "\<forall>(h, _) \<in> set us. heap_full h"
    and free: "active_free_heap s = 0" "heaps_actual_size s = heaps_size"
    by (rule working_layout [OF less.prems])
  show ?case
  proof (cases "extent bs + unat sz + 4 \<le> unat (heap_size h)")
    case True
    note f = malloc_step_fit [OF mh k True]
    let ?h = "h\<lparr>heap_offset := of_nat (extent bs + unat sz + 4)\<rparr>" and ?m = "header_update h bs (unat sz) True (machine s)"
    let ?l = "us @ [(?h, bs @ [(unat sz, True)])]"
    let ?s = "with_heap s ?l ?m" and ?p = "data_ptr (block_addr h bs)"
    have "manager_phase ?s ?l" using less.prems(2) l(1) free full by (simp add: manager_phase_def)
    then have "manager_ok e ?s ?l" using f(2) by (simp add: manager_ok_def)
    moreover have "?p \<noteq> 0" using f(4) by (metis add_is_0 unat_0 zero_neq_numeral)
    moreover have "layout_ok (machine s) (us @ [(h, bs)])" using mh by (simp add: manager_heaps_def)
    then have "(unat ?p, unat sz) \<notin> layout_live (us @ [(h, bs)])"
      by (rule fresh_range) (unfold f(4), simp add: block_addr_def)
    moreover have "layout_live ?l = insert (unat ?p, unat sz) (layout_live (us @ [(h, bs)]))"
      unfolding f(4) by (simp add: live_snoc block_addr_def)
    ultimately have "alloc_post e s l (unat sz) ?p ?s ?l" using f(3) l(1) by (simp add: alloc_post_def)
    then show ?thesis using loop_out_stop [of "malloc_step e sz", OF f(1)] \<open>?p \<noteq> 0\<close> unfolding l(2) by blast
  next
    case False
    have step: "malloc_step e sz (Some (active_heap s), s) = Some (bind_res (next_active_heap e s) (\<lambda>next. Inr (Inl next)))"
      unfolding l(2) using False by (intro malloc_step_full [OF mh k]) simp
    from next_active_heap_ok [OF less.prems host] show ?thesis
    proof (elim disjE conjE exE)
      fix s' l'
      assume n: "next_active_heap e s = Inr (Some (active_heap s'), s')" "manager_ok e s' l'"
        "l' \<noteq> []" "unat (active_heap s') + 1 = length l'"
        "layout_live l' = layout_live l" "same_bytes (layout_live l) (machine s) (machine s')"
        "unat (pages (machine s')) = unat (pages (machine s)) + 1"
      have "mem_limit (machine s') < 2 ^ 31" using n(2) by (simp add: manager_ok_def manager_heaps_def brk_ok_def)
      then have "unat (pages (machine s')) < 32768" by (simp add: mem_limit_def)
      then have "32768 - unat (pages (machine s')) < 32768 - unat (pages (machine s))" using n(7) by linarith
      from less.hyps [OF this n(2)] n(3,4) have
        "(\<exists>p s'' l''. loop_out (malloc_step e sz) (Some (active_heap s'), s') = Some (Inr (p, s'')) \<and>
          alloc_post e s' l' (unat sz) p s'' l'' \<and> (p = 0 \<longrightarrow> exhausted s'' l'')) \<or>
        ptr_int64 e (- 1) \<noteq> - 1 \<and> loop_out (malloc_step e sz) (Some (active_heap s'), s') = Some out_of_bounds" by blast
      moreover have "loop_out (malloc_step e sz) (Some (active_heap s), s) = loop_out (malloc_step e sz) (Some (active_heap s'), s')"
        using step n(1) by (intro loop_out_next) simp
      ultimately show ?thesis using alloc_post_trans [OF n(6,5)] by (elim disjE) (metis, simp)
    next
      fix s' l'
      assume n: "next_active_heap e s = Inr (None, s')" "manager_ok e s' l'" "l' \<noteq> []" "unat (active_heap s') = length l'"
        "layout_live l' = layout_live l" "same_bytes (layout_live l) (machine s) (machine s')"
      have "loop_out (malloc_step e sz) (Some (active_heap s), s) = loop_out (malloc_step e sz) (None, s')"
        using step n(1) by (intro loop_out_next) simp
      then have "loop_out (malloc_step e sz) (Some (active_heap s), s) = Some (Inr (0, s'))"
        using loop_out_stop [of "malloc_step e sz" "(None, s')"] by (simp add: malloc_step_def)
      then show ?thesis using n by (auto simp: alloc_post_def)
    next
      fix s' i
      assume "ptr_int64 e (- 1) \<noteq> - 1" and n: "next_active_heap e s = Inr (Some i, s')" "doomed e i s'"
      moreover have "loop_out (malloc_step e sz) (Some (active_heap s), s) = loop_out (malloc_step e sz) (Some i, s')"
        using step n(1) by (intro loop_out_next) simp
      ultimately show ?thesis using doomed_traps by auto
    qed
  qed
qed

lemma manager_phase_cong:
  assumes "map fst l' = map fst l"
  shows "manager_phase s l' = manager_phase s l"
proof -
  have full: "(\<forall>(h, _) \<in> set k. heap_full h) \<longleftrightarrow> list_all heap_full (map fst k)" for k :: layout
    by (induction k) auto
  have "length l' = length l" using assms by (metis length_map)
  then show ?thesis
    unfolding manager_phase_def full map_butlast assms by auto
qed

lemma freed_step_ok:
  assumes ok: "manager_ok e s l" and ex: "exhausted s l" and k: "unat sz mod 8 = 4"
  shows "(\<exists>p s' l'. freed_step sz e0 s = Some (Inr (Inr (p, s'))) \<and> p \<noteq> 0 \<and> alloc_post e s l (unat sz) p s' l') \<or>
    (\<exists>s' l'. freed_step sz e0 s = Some (Inr (if active_free_heap s' \<noteq> e0 then Inl s' else Inr (0, s'))) \<and>
      manager_ok e s' l' \<and> exhausted s' l' \<and> length l' = length l \<and> layout_live l' = layout_live l \<and>
      same_bytes (layout_live l) (machine s) (machine s') \<and>
      unat (active_free_heap s') = (if unat (active_free_heap s) + 1 = length l then 0 else unat (active_free_heap s) + 1))"
proof -
  have mh: "manager_heaps s l" and free: "unat (active_free_heap s) < length l" "heaps_actual_size s = active_heap s"
    and full: "\<forall>(h, _) \<in> set l. heap_full h" and n: "length l \<le> 2"
    using ok ex by (auto simp: manager_ok_def manager_phase_def manager_heaps_def)
  define us where "us = take (unat (active_free_heap s)) l"
  obtain h bs where hb: "l ! unat (active_free_heap s) = (h, bs)" by (cases "l ! unat (active_free_heap s)")
  define vs where "vs = drop (Suc (unat (active_free_heap s))) l"
  have l: "l = us @ (h, bs) # vs" unfolding us_def vs_def using id_take_nth_drop [OF free(1)] hb by simp
  have us: "length us = unat (active_free_heap s)" using free(1) by (simp add: us_def)
  then have i: "active_free_heap s = of_nat (length us)" by simp
  have mh': "manager_heaps s (us @ (h, bs) # vs)" using mh l by simp
  have h: "heap_ok h (machine s) bs" "0 < unat (heap_size h)" "heap_full h"
    using mh full l by (auto simp: manager_heaps_def layout_ok_def)
  then have "bs \<noteq> []" using heap_full_iff by force
  obtain r bs' where r: "reuse (unat sz) bs = (r, bs')" by fastforce
  obtain m' where m': "heap_malloc_from_freed sz h (machine s) = Some (Inr (reuse_ptr h [] r, m'))"
    "heap_ok h m' bs'" "same_on (live (unat (heap_base h)) bs \<union> outside h) (machine s) m'"
    using heap_malloc_from_freed_eq [OF h(1,3) \<open>bs \<noteq> []\<close> k r] by blast
  let ?l = "us @ (h, bs') # vs"
  let ?s = "with_heap s ?l m'"
  have mod8: "\<forall>b \<in> set bs. fst b mod 8 = 4" using h(1) by (simp add: heap_ok_def)
  note lr = live_reuse [OF r k mod8, of "unat (heap_base h)"]
  note up = manager_heaps_update [OF mh' m'(2) refl refl m'(3)]
  have s: "s\<lparr>machine := m'\<rparr> = ?s" using with_heap_same [OF mh'] by (simp add: with_heap_def)
  have okl: "layout_ok (machine s) (us @ (h, bs) # vs)" using mh' by (simp add: manager_heaps_def)
  have "manager_phase s ?l" using ok l manager_phase_cong [of ?l l s] by (simp add: manager_ok_def)
  then have ok': "manager_ok e ?s ?l" using up(1) by (simp add: manager_ok_def)
  show ?thesis
  proof (cases r)
    case (Some d)
    have a: "unat (reuse_ptr h [] r) = unat (heap_base h) + d + 4"
      using unat_reuse_ptr [OF m'(2), of d "unat sz"] lr Some by simp
    then have nz: "reuse_ptr h [] r \<noteq> 0" by (metis add_is_0 unat_0 zero_neq_numeral)
    have "(unat (heap_base h) + d + 4, unat sz) \<notin> layout_live l"
    proof
      assume in_l: "(unat (heap_base h) + d + 4, unat sz) \<in> layout_live l"
      have "(unat (heap_base h) + d + 4, unat sz) \<in> live (unat (heap_base h)) bs'" using lr Some by simp
      from live_range [OF this] have rg: "unat (heap_base h) < unat (heap_base h) + d + 4"
        "unat (heap_base h) + d + 4 + unat sz \<le> unat (heap_base h) + unat (heap_size h)"
        using m'(2) by (auto simp: heap_ok_def)
      from in_l lr Some obtain g cs where g: "(g, cs) \<in> set us \<union> set vs"
        "(unat (heap_base h) + d + 4, unat sz) \<in> live (unat (heap_base g)) cs"
        unfolding l by (auto simp: layout_live_def)
      then have "heap_ok g (machine s) cs" "apart (g, cs) (h, bs) \<or> apart (h, bs) (g, cs)"
        using okl by (auto simp: layout_ok_def sorted_wrt_append)
      then show False using live_range [OF g(2)] rg k by (auto simp: apart_def heap_ok_def)
    qed
    then have "alloc_post e s l (unat sz) (reuse_ptr h [] r) ?s ?l"
      using ok' up(2) nz lr Some l a by (auto simp: alloc_post_def)
    moreover have "freed_step sz e0 s = Some (Inr (Inr (reuse_ptr h [] r, ?s)))"
      using get_heap_eq [OF mh'] m'(1) nz s by (simp add: freed_step_def i)
    ultimately show ?thesis using nz by blast
  next
    case None
    have z: "reuse_ptr h [] r = 0" by (simp add: None reuse_ptr_def)
    let ?f = "if unat (active_free_heap s) + 1 = length l then 0 else active_free_heap s + 1"
    let ?t = "?s\<lparr>active_free_heap := ?f\<rparr>"
    have f1: "unat (active_free_heap s + 1) = unat (active_free_heap s) + 1"
      using free(1) n by (simp add: unat_word_ariths)
    have "active_free_heap s + 1 = heaps_actual_size s \<longleftrightarrow> unat (active_free_heap s) + 1 = length l"
      using ex free(2) f1 by (auto simp: word_unat_eq_iff)
    then have "freed_step sz e0 s = Some (Inr (if active_free_heap ?t \<noteq> e0 then Inl ?t else Inr (0, ?t)))"
      using get_heap_eq [OF mh'] m'(1) z s by (auto simp: freed_step_def i Let_def)
    moreover have "manager_ok e ?t ?l"
      using ok' ex l free(1) n by (auto simp: manager_ok_def manager_phase_def manager_heaps_def f1)
    moreover have "unat (active_free_heap ?t) = (if unat (active_free_heap s) + 1 = length l then 0 else unat (active_free_heap s) + 1)"
      using f1 by simp
    moreover have "layout_live ?l = layout_live l" using lr None l by simp
    ultimately show ?thesis using ex up(2) l by (intro disjI2 exI [of _ ?t] exI [of _ ?l]) simp
  qed
qed

lemma freed_loop_ok:
  assumes ok: "manager_ok e s l" and ex: "exhausted s l" and k: "unat sz mod 8 = 4"
  shows "\<exists>p s' l'. loop_out (freed_step sz (active_free_heap s)) s = Some (Inr (p, s')) \<and> alloc_post e s l (unat sz) p s' l'"
  using freed_step_ok [OF ok ex k, of "active_free_heap s"]
proof (elim disjE exE conjE)
  fix p s' l'
  assume "freed_step sz (active_free_heap s) s = Some (Inr (Inr (p, s')))" "alloc_post e s l (unat sz) p s' l'"
  then show ?thesis using loop_out_stop [of "freed_step sz (active_free_heap s)" s "(p, s')"] by blast
next
  fix s1 l1
  let ?f = "freed_step sz (active_free_heap s)"
  assume step1: "?f s = Some (Inr (if active_free_heap s1 \<noteq> active_free_heap s then Inl s1 else Inr (0, s1)))"
    and ok1: "manager_ok e s1 l1" and ex1: "l1 \<noteq> []" "unat (active_heap s1) = length l1" "length l1 = length l"
    and live1: "layout_live l1 = layout_live l" and same1: "same_bytes (layout_live l) (machine s) (machine s1)"
    and f1: "unat (active_free_heap s1) = (if unat (active_free_heap s) + 1 = length l then 0 else unat (active_free_heap s) + 1)"
  have n: "length l \<le> 2" "unat (active_free_heap s) < length l"
    using ok ex by (auto simp: manager_ok_def manager_heaps_def manager_phase_def)
  show ?thesis
  proof (cases "active_free_heap s1 = active_free_heap s")
    case True
    then have "loop_out ?f s = Some (Inr (0, s1))" using step1 by (intro loop_out_stop) simp
    then show ?thesis using ok1 live1 same1 by (auto simp: alloc_post_def)
  next
    case False
    then have next1: "loop_out ?f s = loop_out ?f s1" using step1 by (intro loop_out_next) simp
    have "unat (active_free_heap s1) \<noteq> unat (active_free_heap s)" using False by (simp add: word_unat_eq_iff)
    then have two: "length l = 2" "unat (active_free_heap s1) + 1 = 2 \<longleftrightarrow> unat (active_free_heap s) = 0"
      using f1 n by (auto split: if_splits)
    from freed_step_ok [OF ok1 conjI [OF ex1(1,2)] k, of "active_free_heap s"] show ?thesis
    proof (elim disjE exE conjE)
      fix p s' l'
      assume "?f s1 = Some (Inr (Inr (p, s')))" "alloc_post e s1 l1 (unat sz) p s' l'"
      then show ?thesis
        using next1 loop_out_stop [of ?f s1 "(p, s')"] alloc_post_trans [OF same1 live1] by metis
    next
      fix s2 l2
      assume step2: "?f s1 = Some (Inr (if active_free_heap s2 \<noteq> active_free_heap s then Inl s2 else Inr (0, s2)))"
        and ok2: "manager_ok e s2 l2"
        and live2: "layout_live l2 = layout_live l1" and same2: "same_bytes (layout_live l1) (machine s1) (machine s2)"
        and f2: "unat (active_free_heap s2) = (if unat (active_free_heap s1) + 1 = length l1 then 0 else unat (active_free_heap s1) + 1)"
      have "unat (active_free_heap s2) = unat (active_free_heap s)"
        using f1 f2 n two ex1(3) by (auto split: if_splits)
      then have "loop_out ?f s1 = Some (Inr (0, s2))" using step2 by (intro loop_out_stop) (simp add: word_unat_eq_iff)
      moreover have "alloc_post e s1 l1 (unat sz) 0 s2 l2" using ok2 live2 same2 by (simp add: alloc_post_def)
      ultimately show ?thesis using next1 alloc_post_trans [OF same1 live1] by metis
    qed
  qed
qed

text \<open>The size that is served: the next multiple of eight, less the four bytes of the header.\<close>

lemma unat_adjust_to_mem_block:
  "unat (adjust_to_mem_block sz) =
     (let r = (unat sz + 4) mod 8 in if 0 < r then (unat sz + (8 - r)) mod 2 ^ 32 else unat sz)"
proof -
  have r: "unat ((sz + size_marker) AND rem_mem_block_mask) = (unat sz + 4) mod 8"
  proof -
    have "(sz + size_marker) AND rem_mem_block_mask = take_bit 3 (sz + size_marker)"
      by (simp add: rem_mem_block_mask_def mem_block_def take_bit_eq_mask mask_eq_exp_minus_1)
    then have "unat ((sz + size_marker) AND rem_mem_block_mask) = unat (sz + size_marker) mod 8"
      by (simp only: unsigned_take_bit_eq) (simp add: take_bit_eq_mod)
    also have "\<dots> = (unat sz + 4) mod 8"
      by (simp add: unat_word_ariths size_marker_def mod_mod_cancel)
    finally show ?thesis .
  qed
  let ?r = "(sz + size_marker) AND rem_mem_block_mask"
  show ?thesis
  proof (cases "0 < ?r")
    case True
    have "unat ?r < 8" unfolding r by simp
    then have "unat (mem_block - ?r) = 8 - unat ?r"
      by (subst unat_sub) (simp_all add: mem_block_def word_le_nat_alt)
    moreover have "0 < unat ?r" using True by (simp add: word_less_nat_alt)
    ultimately show ?thesis using True r by (simp add: adjust_to_mem_block_def Let_def unat_word_ariths)
  next
    case False
    then have "unat ?r = 0" unfolding word_less_nat_alt by simp
    then show ?thesis using False r by (simp add: adjust_to_mem_block_def Let_def)
  qed
qed

lemma next_multiple:
  assumes "(n :: nat) \<le> 2 ^ 32 - 4"
  defines "k \<equiv> (let r = (n + 4) mod 8 in if 0 < r then n + (8 - r) else n)"
  shows "n \<le> k" and "k < n + 8" and "k mod 8 = 4" and "k < 2 ^ 32"
proof -
  define q where "q = (n + 4) div 8"
  define r where "r = (n + 4) mod 8"
  have n: "n + 4 = 8 * q + r" "r < 8" by (simp_all add: q_def r_def)
  have k: "k = (if 0 < r then n + (8 - r) else n)" by (simp add: k_def r_def Let_def)
  show "n \<le> k" "k < n + 8" using n(2) unfolding k by auto
  have "k + 4 = 8 * (if 0 < r then q + 1 else q)" using n unfolding k by auto
  then show "k mod 8 = 4" by presburger
  show "k < 2 ^ 32"
  proof (cases "r = 0")
    case False
    then have "8 * q < 8 * 2 ^ 29" using n assms(1) by simp
    then have "8 * q + 4 < 2 ^ 32" by simp
    then show ?thesis using n False unfolding k by simp
  qed (use assms(1) k in simp)
qed

lemma adjust_to_mem_block_ok:
  assumes "unat sz \<le> 2 ^ 32 - 4"
  shows "unat sz \<le> unat (adjust_to_mem_block sz)" and "unat (adjust_to_mem_block sz) < unat sz + 8"
    and "unat (adjust_to_mem_block sz) mod 8 = 4"
proof -
  note k = next_multiple [OF assms]
  then have "unat (adjust_to_mem_block sz) = (let r = (unat sz + 4) mod 8 in if 0 < r then unat sz + (8 - r) else unat sz)"
    unfolding unat_adjust_to_mem_block by (auto simp: Let_def)
  then show "unat sz \<le> unat (adjust_to_mem_block sz)" "unat (adjust_to_mem_block sz) < unat sz + 8"
    "unat (adjust_to_mem_block sz) mod 8 = 4"
    using k(1-3) by simp_all
qed

text \<open>The start of the call: the first one sets up the initial heap.\<close>

lemma manager_malloc_fresh:
  assumes ok: "manager_ok e s []"
  defines "h \<equiv> heap_init (initial_heap e) initial_heap_size heap_default"
  defines "s1 \<equiv> with_heap (s\<lparr>heaps_actual_size := heaps_size\<rparr>) [(h, [])] (machine s)"
  shows "set_heap 0 h (s\<lparr>heaps_actual_size := heaps_size\<rparr>) = Inr s1"
    and "get_heap 0 (s\<lparr>heaps_actual_size := heaps_size\<rparr>) = Inr heap_default"
    and "manager_ok e s1 [(h, [])]" and "working s1 [(h, [])]"
proof -
  have hs: "available_heaps s = replicate 16 heap_default" and ph: "active_heap s = 0" "active_free_heap s = 0"
    and ini: "initial_heap e \<noteq> 0" "unat (initial_heap e) + 8192 \<le> mem_limit (machine s)" and brk: "brk_ok (machine s)"
    using ok by (simp_all add: manager_ok_def manager_heaps_def manager_phase_def)
  let ?s = "s\<lparr>heaps_actual_size := heaps_size\<rparr>"
  have "?s = with_heap ?s [] (machine s)" using hs by (cases s) (simp add: with_heap_def)
  then show "set_heap 0 h ?s = Inr s1" "get_heap 0 ?s = Inr heap_default"
    using new_slot [where l = "[]" and s = ?s and m = "machine s"] unfolding s1_def by simp_all
  have "heap_ok h (machine s) []"
    using ini brk by (simp add: heap_ok_def h_def heap_init_def heap_default_def initial_heap_size_def brk_ok_def)
  then have "manager_heaps s1 [(h, [])]"
    using brk by (simp add: manager_heaps_def s1_def layout_ok_def h_def heap_init_def heap_default_def initial_heap_size_def)
  then show "manager_ok e s1 [(h, [])]" using ph by (simp add: manager_ok_def manager_phase_def s1_def)
  show "working s1 [(h, [])]" using ph by (simp add: s1_def)
qed

lemma manager_malloc_ok:
  assumes ok: "manager_ok e s l" and host: "host_ok e" and sz: "sz \<noteq> 0" "unat sz \<le> 2 ^ 31 - 16"
  shows "(\<exists>p s' l'. manager_malloc e sz s = Some (Inr (p, s')) \<and>
      alloc_post e s l (unat (adjust_to_mem_block sz)) p s' l') \<or>
    ptr_int64 e (- 1) \<noteq> - 1 \<and> manager_malloc e sz s = Some out_of_bounds"
proof -
  let ?k = "adjust_to_mem_block sz"
  have k: "unat ?k mod 8 = 4" "unat ?k < 2 ^ 31 - 8"
    using adjust_to_mem_block_ok [of sz] sz(2) by simp_all
  define rest where "rest = (\<lambda>(current, s).
      bind_out (loop_out (malloc_step e ?k) (current, s)) (\<lambda>(buffer, s).
      if buffer \<noteq> 0 then Some (Inr (buffer, s)) else loop_out (freed_step ?k (active_free_heap s)) s))"
  have run: "(\<exists>p s' l'. rest (Some (active_heap s1), s1) = Some (Inr (p, s')) \<and> alloc_post e s1 l1 (unat ?k) p s' l') \<or>
      ptr_int64 e (- 1) \<noteq> - 1 \<and> rest (Some (active_heap s1), s1) = Some out_of_bounds"
    if ok1: "manager_ok e s1 l1" and w1: "working s1 l1" for s1 l1
    using malloc_loop_ok [OF ok1 w1 host k]
  proof (elim disjE exE conjE)
    fix p s' l'
    assume lp: "loop_out (malloc_step e ?k) (Some (active_heap s1), s1) = Some (Inr (p, s'))"
      and post: "alloc_post e s1 l1 (unat ?k) p s' l'" and ex: "p = 0 \<longrightarrow> exhausted s' l'"
    show ?thesis
    proof (cases "p = 0")
      case True
      have p: "manager_ok e s' l'" "same_bytes (layout_live l1) (machine s1) (machine s')" "layout_live l' = layout_live l1"
        using post True by (simp_all add: alloc_post_def)
      obtain q s'' l'' where "loop_out (freed_step ?k (active_free_heap s')) s' = Some (Inr (q, s''))"
        "alloc_post e s' l' (unat ?k) q s'' l''"
        using freed_loop_ok [OF p(1) _ k(1)] ex True by blast
      moreover from this have "alloc_post e s1 l1 (unat ?k) q s'' l''" using alloc_post_trans [OF p(2,3)] by blast
      ultimately show ?thesis using lp True by (auto simp: rest_def)
    next
      case False
      then show ?thesis using lp post by (auto simp: rest_def)
    qed
  qed (simp add: rest_def)
  have rest: "manager_malloc e sz s = rest (cur, s1)"
    if "(if active_heap s0 < heaps_actual_size s0 then
             bind_res (get_heap (active_heap s0) s0) (\<lambda>start_heap.
             if active_heap s0 = 0 \<and> \<not> heap_is_init start_heap
             then bind_res (set_heap 0 (heap_init (initial_heap e) initial_heap_size start_heap) s0)
                    (\<lambda>s. Inr (Some (active_heap s), s))
             else Inr (Some (active_heap s0), s0))
           else Inr (None, s0)) = Inr (cur, s1)"
      and "s0 = (if heaps_actual_size s = 0 then s\<lparr>heaps_actual_size := heaps_size\<rparr> else s)" for s0 cur s1
    using sz(1) that(1) by (simp add: manager_malloc_def rest_def Let_def flip: that(2))
  consider "l = []" | "working s l" | "exhausted s l"
    using ok by (auto simp: manager_ok_def manager_phase_def split: if_splits)
  then show ?thesis
  proof cases
    case 1
    let ?h = "heap_init (initial_heap e) initial_heap_size heap_default"
    let ?s = "with_heap (s\<lparr>heaps_actual_size := heaps_size\<rparr>) [(?h, [])] (machine s)"
    note f = manager_malloc_fresh [OF ok [unfolded 1]]
    have "active_heap s = 0" "heaps_actual_size s = 0" using ok 1 by (simp_all add: manager_ok_def manager_phase_def)
    then have "manager_malloc e sz s = rest (Some (active_heap ?s), ?s)"
      using f(1,2) by (intro rest [OF _ refl]) (simp add: heaps_size_def heap_is_init_def heap_default_def)
    moreover have "alloc_post e s l k p s' l'" if "alloc_post e ?s [(?h, [])] k p s' l'" for k p s' l'
      by (rule alloc_post_trans [OF _ _ that]) (simp_all add: 1 same_bytes_mem)
    ultimately show ?thesis using run [OF f(3,4)] by metis
  next
    case 2
    obtain us h bs where l: "l = us @ [(h, bs)]" "active_heap s = of_nat (length us)" "length us < 2"
      and mh: "manager_heaps s (us @ [(h, bs)])" and act: "heaps_actual_size s = heaps_size"
      by (rule working_layout [OF ok 2])
    have "unat (of_nat (length us) :: u32) = length us" using l(3) by (intro unat_of_nat_u32) simp
    then have "of_nat (length us) < heaps_size" using l(3) by (simp add: heaps_size_def word_less_nat_alt)
    moreover have "heap_ok h (machine s) bs" using mh by (auto simp: manager_heaps_def layout_ok_def)
    then have "heap_is_init h" by (simp add: heap_ok_def heap_is_init_def)
    ultimately have "manager_malloc e sz s = rest (Some (active_heap s), s)"
      using get_heap_eq [OF mh] act l(2) by (intro rest [OF _ refl]) (simp add: heaps_size_def)
    then show ?thesis using run [OF ok 2] by simp
  next
    case 3
    then have "heaps_actual_size s = active_heap s" "unat (active_heap s) \<noteq> 0"
      using ok by (auto simp: manager_ok_def manager_phase_def)
    then have "manager_malloc e sz s = rest (None, s)"
      by (intro rest [OF _ refl]) auto
    also have "\<dots> = loop_out (freed_step ?k (active_free_heap s)) s"
      using loop_out_stop [of "malloc_step e ?k" "(None, s)" "(0, s)"] by (simp add: rest_def malloc_step_def)
    finally show ?thesis using freed_loop_ok [OF ok 3 k(1)] by auto
  qed
qed

text \<open>The first block is at the start of the initial heap.\<close>

lemma manager_malloc_first:
  assumes ok: "manager_ok e s []" and sz: "sz \<noteq> 0" "unat sz \<le> 8184"
  shows "\<exists>s'. manager_malloc e sz s = Some (Inr (initial_heap e + 4, s'))"
proof -
  let ?k = "adjust_to_mem_block sz" and ?h = "heap_init (initial_heap e) initial_heap_size heap_default"
  let ?s = "with_heap (s\<lparr>heaps_actual_size := heaps_size\<rparr>) [(?h, [])] (machine s)"
  have k: "unat ?k mod 8 = 4" "unat ?k < 8192" using adjust_to_mem_block_ok [of sz] sz(2) by simp_all
  then have "unat ?k \<le> 8188" by presburger
  then have fit: "extent [] + unat ?k + 4 \<le> unat (heap_size ?h)"
    by (simp add: heap_init_def initial_heap_size_def)
  note f = manager_malloc_fresh [OF ok]
  have mh: "manager_heaps ?s ([] @ [(?h, [])])" using f(3) by (simp add: manager_ok_def)
  obtain s' where st: "malloc_step e ?k (Some 0, ?s) = Some (Inr (Inr (data_ptr (block_addr ?h []), s')))"
    using malloc_step_fit(1) [OF mh k(1) _ fit, of e] k(2) by auto
  have nz: "data_ptr (block_addr ?h []) \<noteq> 0"
  proof -
    have "unat (data_ptr (block_addr ?h [])) = block_addr ?h [] + 4"
      using malloc_step_fit(4) [OF mh k(1) _ fit] k(2) by simp
    then show ?thesis by (metis add_is_0 unat_0 zero_neq_numeral)
  qed
  have s: "active_heap s = 0" "heaps_actual_size s = 0" using ok by (simp_all add: manager_ok_def manager_phase_def)
  then have start: "heaps_actual_size s = 0" "active_heap (s\<lparr>heaps_actual_size := heaps_size\<rparr>) = 0"
    "active_heap ?s = 0" "0 < heaps_size" "\<not> heap_is_init heap_default"
    by (simp_all add: heaps_size_def heap_is_init_def heap_default_def word_less_nat_alt)
  have "manager_malloc e sz s = Some (Inr (data_ptr (block_addr ?h []), s'))"
    using sz(1) start f(1,2) loop_out_stop [of "malloc_step e ?k", OF st] nz
    by (simp add: manager_malloc_def Let_def)
  moreover have "data_ptr (block_addr ?h []) = initial_heap e + 4"
    by (simp add: block_addr_def heap_init_def size_marker_def)
  ultimately show ?thesis by auto
qed

text \<open>Where the host refuses a page and the caller cannot see it, the call aborts.\<close>

lemma manager_malloc_refused:
  assumes ok: "manager_ok e s []" and sz: "8188 < unat sz" "unat sz \<le> 2 ^ 31 - 16"
    and gr: "\<not> grow e (pages (machine s)) 1" and seen: "ptr_int64 e (- 1) \<noteq> - 1"
  shows "manager_malloc e sz s = Some out_of_bounds"
proof -
  let ?k = "adjust_to_mem_block sz" and ?h = "heap_init (initial_heap e) initial_heap_size heap_default"
  let ?s = "with_heap (s\<lparr>heaps_actual_size := heaps_size\<rparr>) [(?h, [])] (machine s)"
  have k: "unat ?k mod 8 = 4" "unat ?k < 2 ^ 31 - 8" "8188 < unat ?k" using adjust_to_mem_block_ok [of sz] sz by simp_all
  note f = manager_malloc_fresh [OF ok]
  have mh: "manager_heaps ?s ([] @ [(?h, [])])" using f(3) by (simp add: manager_ok_def)
  have full: "unat (heap_size ?h) < extent [] + unat ?k + 4"
    using k(3) by (simp add: heap_init_def initial_heap_size_def)
  have s: "active_heap s = 0" "heaps_actual_size s = 0" using ok by (simp_all add: manager_ok_def manager_phase_def)
  obtain s' i where d: "next_active_heap e ?s = Inr (Some i, s')" "doomed e i s'"
    using next_active_heap_doomed [OF mh _ _ seen] s(1) gr by auto
  have "malloc_step e ?k (Some 0, ?s) = Some (Inr (Inl (Some i, s')))"
    using malloc_step_full [OF mh k(1,2) full, of e] d(1) by simp
  then have "loop_out (malloc_step e ?k) (Some 0, ?s) = Some out_of_bounds"
    using loop_out_next [of "malloc_step e ?k"] doomed_traps [OF d(2)] by simp
  moreover have "sz \<noteq> 0" using sz(1) by auto
  moreover have "0 < heaps_size" "\<not> heap_is_init heap_default"
    by (simp_all add: heaps_size_def heap_is_init_def heap_default_def word_less_nat_alt)
  ultimately show ?thesis using s f(1,2) by (simp add: manager_malloc_def Let_def)
qed

section \<open>free\<close>

lemma live_split: "(p, n) \<in> live a bs \<Longrightarrow> \<exists>xs ys. bs = xs @ (n, True) # ys \<and> p = a + extent xs + 4"
proof (induction a bs rule: live.induct)
  case (2 a k alloc bs)
  show ?case
  proof (cases "(p, n) \<in> live (a + k + 4) bs")
    case True
    then obtain xs ys where "bs = xs @ (n, True) # ys" "p = a + k + 4 + extent xs + 4" using "2.IH" by blast
    then show ?thesis by (intro exI [of _ "(k, alloc) # xs"] exI [of _ ys]) simp
  next
    case False
    then show ?thesis using "2.prems" by (intro exI [of _ "[]"] exI [of _ bs]) (auto split: if_splits)
  qed
qed simp

lemma same_on_block_header:
  assumes "heap_ok h m (xs @ (n, alloc) # ys)"
  shows "same_on (live (unat (heap_base h)) (xs @ (n, alloc) # ys) \<union> outside h) m (header_update h xs n b m)"
  unfolding header_update_def
proof (rule same_on_put_word)
  have e: "block_addr h xs + n + 4 + extent ys \<le> unat (heap_base h) + unat (heap_size h)"
    "unat (heap_base h) + unat (heap_size h) < 2 ^ 31"
    using assms by (auto simp: heap_ok_def block_addr_def)
  then show "block_addr h xs + 4 < 2 ^ 32" by simp
  show "\<forall>(p, k) \<in> live (unat (heap_base h)) (xs @ (n, alloc) # ys) \<union> outside h.
      p + k \<le> block_addr h xs \<or> block_addr h xs + 4 \<le> p"
  proof clarify
    fix p k assume pk: "(p, k) \<in> live (unat (heap_base h)) (xs @ (n, alloc) # ys) \<union> outside h"
      and "\<not> block_addr h xs + 4 \<le> p"
    then consider "(p, k) \<in> live (unat (heap_base h)) xs" | "(p, k) \<in> live (block_addr h xs + n + 4) ys" | "(p, k) \<in> outside h"
      by (auto simp: live_append block_addr_def split: if_splits)
    then show "p + k \<le> block_addr h xs"
      using live_range [of p k "unat (heap_base h)" xs] live_range [of p k "block_addr h xs + n + 4" ys]
        \<open>\<not> block_addr h xs + 4 \<le> p\<close> e(1) by cases (auto simp: block_addr_def outside_def)
  qed
qed

lemma layout_live_other:
  assumes ok: "layout_ok m (us @ (h, bs) # vs)" and g: "(p, n) \<in> layout_live us \<union> layout_live vs"
  shows "p + n \<le> unat (heap_base h) \<or> unat (heap_base h) + unat (heap_size h) + 4 \<le> p"
proof -
  obtain g cs where g: "(g, cs) \<in> set us \<union> set vs" "(p, n) \<in> live (unat (heap_base g)) cs"
    using g by (auto simp: layout_live_def)
  then have "heap_ok g m cs" "apart (g, cs) (h, bs) \<or> apart (h, bs) (g, cs)"
    using ok by (auto simp: layout_ok_def sorted_wrt_append)
  then show ?thesis using live_range [OF g(2)] by (auto simp: apart_def heap_ok_def)
qed

text \<open>The heap of an allocated pointer.\<close>

lemma heap_is_in_heap_iff:
  assumes "heap_ok h m bs" and "0 < unat (heap_size h)"
  shows "heap_is_in_heap p h \<longleftrightarrow> unat (heap_base h) + 4 \<le> unat p \<and> unat p < unat (heap_base h) + unat (heap_size h)"
proof -
  have "unat (heap_base h + size_marker) = unat (heap_base h) + 4"
    using assms by (simp add: heap_ok_def unat_word_ariths size_marker_def)
  then show ?thesis
    using heap_ok_unat_end [OF assms(1)] by (simp add: heap_is_in_heap_def word_le_nat_alt word_less_nat_alt)
qed

lemma manager_slots:
  assumes "manager_ok e s l"
  shows "length l \<le> unat (heaps_actual_size s)"
  using assms by (auto simp: manager_ok_def manager_phase_def manager_heaps_def heaps_size_def split: if_splits)

lemma find_heap_eq:
  assumes mh: "manager_heaps s (us @ (h, bs) # vs)" and n: "length (us @ (h, bs) # vs) \<le> unat (heaps_actual_size s)"
    and p: "heap_is_in_heap p h" and us: "\<forall>(g, _) \<in> set us. \<not> heap_is_in_heap p g"
  shows "find_heap p 0 s = Inr (Some (of_nat (length us)))"
proof -
  have init: "heap_is_init g" if "(g, cs) \<in> set (us @ (h, bs) # vs)" for g cs
    using mh that by (auto simp: manager_heaps_def layout_ok_def heap_ok_def heap_is_init_def)
  have len: "length us \<le> 1" using mh by (simp add: manager_heaps_def)
  show ?thesis
  proof (cases us)
    case Nil
    then show ?thesis
      using get_heap_eq [OF mh] init [of h bs] p n by (subst find_heap.simps) simp
  next
    case (Cons x xs)
    obtain g cs where x: "us = [(g, cs)]" using Cons len by (cases x) simp
    have mh0: "manager_heaps s ([] @ (g, cs) # ((h, bs) # vs))" using mh x by simp
    have "find_heap p (0 + 1) s = Inr (Some 1)"
      using get_heap_eq [OF mh] init [of h bs] p n x by (subst find_heap.simps) simp
    then show ?thesis
      using get_heap_eq [OF mh0] init [of g cs] us n x by (subst find_heap.simps) simp
  qed
qed

lemma manager_free_ok:
  assumes ok: "manager_ok e s l" and live: "(unat p, n) \<in> layout_live l"
  shows "\<exists>s' l'. manager_free p s = Inr s' \<and> manager_ok e s' l' \<and>
    layout_live l' = layout_live l - {(unat p, n)} \<and> same_bytes (layout_live l) (machine s) (machine s')"
proof -
  have mh: "manager_heaps s l" and lok: "layout_ok (machine s) l" using ok by (auto simp: manager_ok_def manager_heaps_def)
  obtain us h bs vs where l: "l = us @ (h, bs) # vs" and pn: "(unat p, n) \<in> live (unat (heap_base h)) bs"
    and rg: "unat (heap_base h) + 4 \<le> unat p" "unat p + n \<le> unat (heap_base h) + unat (heap_size h)"
    using layout_live_range [OF lok live] by blast
  note mh' = mh [unfolded l] and lok' = lok [unfolded l]
  have h: "heap_ok h (machine s) bs" "0 < unat (heap_size h)" using layout_ok_heap [OF lok'] by auto
  obtain xs ys where bs: "bs = xs @ (n, True) # ys" "unat p = block_addr h xs + 4"
    using live_split [OF pn] by (auto simp: block_addr_def)
  note hok = h(1) [unfolded bs(1)]
  have n: "0 < n" using heap_ok_nth(3) [OF hok] by (cases n) auto
  have "of_nat (unat p) = data_ptr (block_addr h xs)" unfolding bs(2) by (simp add: size_marker_def)
  then have p: "p = data_ptr (block_addr h xs)" by simp
  have not_us: "\<forall>(g, _) \<in> set us. \<not> heap_is_in_heap p g"
  proof clarify
    fix g cs assume "(g, cs) \<in> set us" and inh: "heap_is_in_heap p g"
    then have "heap_ok g (machine s) cs" "0 < unat (heap_size g)" "apart (g, cs) (h, bs)"
      using lok' by (auto simp: layout_ok_def sorted_wrt_append)
    then show False using inh rg(1) heap_is_in_heap_iff by (fastforce simp: apart_def)
  qed
  have "heap_is_in_heap p h" using heap_is_in_heap_iff [OF h] rg n by simp
  then have f: "find_heap p 0 s = Inr (Some (of_nat (length us)))"
    using manager_slots [OF ok] l by (intro find_heap_eq [OF mh' _ _ not_us]) simp_all
  let ?m = "header_update h xs n False (machine s)" and ?bs = "xs @ (n, False) # ys"
  let ?l = "us @ (h, ?bs) # vs"
  have same: "same_on (live (unat (heap_base h)) bs \<union> outside h) (machine s) ?m"
    unfolding bs(1) by (rule same_on_block_header [OF hok])
  note up = manager_heaps_update [OF mh' heap_free_eq(2) [OF hok] refl refl same]
  have nz: "p \<noteq> 0" using rg(1) by auto
  have "manager_free p s = Inr (with_heap s ?l ?m)"
    using nz f get_heap_eq [OF mh'] heap_free_eq(1) [OF hok] with_heap_same [OF mh'] 
    by (simp add: manager_free_def p with_heap_def)
  moreover have "manager_phase s ?l" using ok l manager_phase_cong [of ?l l s] by (simp add: manager_ok_def)
  then have "manager_ok e (with_heap s ?l ?m) ?l" using up(1) by (simp add: manager_ok_def)
  moreover have "layout_live ?l = layout_live l - {(unat p, n)}"
  proof -
    have "(unat p, n) \<notin> layout_live us \<union> layout_live vs" using layout_live_other [OF lok'] rg n by fastforce
    moreover have "(unat p, n) \<notin> live (unat (heap_base h)) xs"
      using live_range [of "unat p" n "unat (heap_base h)" xs] n bs(2) by (auto simp: block_addr_def)
    moreover have "(unat p, n) \<notin> live (block_addr h xs + n + 4) ys"
      using live_range [of "unat p" n "block_addr h xs + n + 4" ys] bs(2) n by auto
    moreover have "live (unat (heap_base h)) bs =
        live (unat (heap_base h)) xs \<union> {(unat p, n)} \<union> live (block_addr h xs + n + 4) ys"
      unfolding bs(1) by (auto simp: live_append block_addr_def bs(2))
    moreover have "live (unat (heap_base h)) ?bs = live (unat (heap_base h)) xs \<union> live (block_addr h xs + n + 4) ys"
      by (simp add: live_append block_addr_def)
    ultimately show ?thesis unfolding l by auto
  qed
  ultimately show ?thesis using up(2) l by (intro exI [of _ "with_heap s ?l ?m"] exI [of _ ?l]) simp
qed

section \<open>Writes by the owner of a block\<close>

text \<open>
  The headers lie outside the allocated ranges, so a store into an allocated block cannot damage
  the allocator.
\<close>

lemma blocks_at_write:
  assumes "(p, n) \<in> live a bs" and "a + extent bs \<le> 2 ^ 32" and "\<And>b. unat b < p \<or> p + n \<le> unat b \<Longrightarrow> f b = g b"
  shows "blocks_at f a bs = blocks_at g a bs"
proof -
  obtain xs ys where bs: "bs = xs @ (n, True) # ys" "p = a + extent xs + 4" using live_split [OF assms(1)] by blast
  have lim: "a + extent xs + 4 + n + extent ys \<le> 2 ^ 32" using assms(2) bs(1) by simp
  then have at: "unat (of_nat (a + extent xs) :: u32) = a + extent xs" by (intro unat_of_nat_u32) simp
  have "blocks_at f a xs = blocks_at g a xs"
    "blocks_at f (a + extent xs + n + 4) ys = blocks_at g (a + extent xs + n + 4) ys"
    using bs(2) lim by (intro blocks_at_cong assms(3); simp)+
  moreover have "mem_word f (of_nat (a + extent xs)) = mem_word g (of_nat (a + extent xs))"
  proof (rule mem_word_cong)
    fix b assume b: "b \<in> span (of_nat (a + extent xs)) 4"
    then have "unat b < p" using at bs(2) unfolding span_def by simp
    then show "f b = g b" by (intro assms(3)) simp
  qed (simp only: at, use lim in simp)
  ultimately show ?thesis by (simp add: bs(1) blocks_at_append)
qed

lemma manager_ok_write:
  assumes ok: "manager_ok e s l" and live: "(p, n) \<in> layout_live l"
    and m': "pages m' = pages (machine s)" "sbrk_bytes m' = sbrk_bytes (machine s)"
      "sbrk_initialized m' = sbrk_initialized (machine s)"
    and other: "\<And>b. unat b < p \<or> p + n \<le> unat b \<Longrightarrow> mem m' b = mem (machine s) b"
  shows "manager_ok e (s\<lparr>machine := m'\<rparr>) l"
proof -
  have mh: "manager_heaps s l" and lok: "layout_ok (machine s) l" using ok by (auto simp: manager_ok_def manager_heaps_def)
  have lim: "mem_limit m' = mem_limit (machine s)" using m'(1) by (simp add: mem_limit_def)
  have "layout_ok m' l"
  proof -
    have "heap_ok h m' bs" if hb: "(h, bs) \<in> set l" for h bs
    proof -
      obtain us vs where l: "l = us @ (h, bs) # vs" using hb by (meson split_list)
      note lok' = lok [unfolded l]
      note h = layout_ok_heap(1) [OF lok']
      show ?thesis
      proof (cases "(p, n) \<in> live (unat (heap_base h)) bs")
        case True
        have "blocks_at (mem m') (unat (heap_base h)) bs = blocks_at (mem (machine s)) (unat (heap_base h)) bs"
          using h by (intro blocks_at_write [OF True] other) (simp_all add: heap_ok_def)
        then show ?thesis using h lim by (simp add: heap_ok_def)
      next
        case False
        then have "(p, n) \<in> layout_live us \<union> layout_live vs" using live l by auto
        then have "p + n \<le> unat (heap_base h) \<or> unat (heap_base h) + unat (heap_size h) + 4 \<le> p"
          by (rule layout_live_other [OF lok'])
        then have "same_bytes {(unat (heap_base h), unat (heap_size h))} (machine s) m'"
          using lim by (auto simp: same_bytes_def intro!: other)
        then show ?thesis using heap_ok_cong [OF h] h lim by (simp add: heap_ok_def)
      qed
    qed
    then show ?thesis using lok by (fastforce simp: layout_ok_def)
  qed
  moreover have "brk_ok m'" using ok m' lim by (simp add: manager_ok_def manager_heaps_def brk_ok_def)
  ultimately show ?thesis using ok lim by (auto simp: manager_ok_def manager_heaps_def manager_phase_def)
qed

section \<open>The allocator of malloc.cpp\<close>

text \<open>
  The blocks the caller owns: each lies in an allocated range at its address. The range may be
  larger than the size asked for, by what \<open>adjust_to_mem_block\<close> adds.
\<close>

definition manager_holds :: "env \<Rightarrow> manager \<Rightarrow> (nat \<times> nat) set \<Rightarrow> bool" where
  "manager_holds e s B \<longleftrightarrow>
     host_ok e \<and> inj_on fst B \<and>
     (\<exists>l. manager_ok e s l \<and> (\<forall>(p, n) \<in> B. 0 < n \<and> (\<exists>k \<ge> n. (p, k) \<in> layout_live l)))"

lemma same_bytes_blocks:
  "same_bytes L m m' \<Longrightarrow> \<forall>(p, n) \<in> B. 0 < n \<and> (\<exists>k \<ge> n. (p, k) \<in> L) \<Longrightarrow> same_bytes B m m'"
  by (rule same_bytes_cover) fastforce+

lemma manager_holds_malloc:
  assumes h: "manager_holds e s B" and sz: "unat sz \<le> 2 ^ 31 - 16"
  shows "(\<exists>err. manager_malloc e sz s = Some (Inl err)) \<or>
      (\<exists>p s'. manager_malloc e sz s = Some (Inr (p, s')) \<and> same_bytes B (machine s) (machine s') \<and>
        manager_holds e s' (if p = 0 then B else insert (unat p, unat sz) B) \<and> (unat p, unat sz) \<notin> B)"
proof -
  obtain l where host: "host_ok e" and inj: "inj_on fst B" and ok: "manager_ok e s l"
    and B: "\<forall>(p, n) \<in> B. 0 < n \<and> (\<exists>k \<ge> n. (p, k) \<in> layout_live l)"
    using h by (auto simp: manager_holds_def)
  have nonzero: "(0, n) \<notin> layout_live l" for n
    using layout_live_range [of "machine s" l 0 n] ok by (auto simp: manager_ok_def manager_heaps_def)
  show ?thesis
  proof (cases "sz = 0")
    case True
    have "(unat (0 :: u32), unat sz) \<notin> B" using B nonzero by fastforce
    then show ?thesis using True h by (simp add: manager_malloc_def)
  next
    case False
    have a: "unat sz \<le> unat (adjust_to_mem_block sz)" using adjust_to_mem_block_ok(1) [of sz] sz by simp
    from manager_malloc_ok [OF ok host False sz] show ?thesis
    proof (elim disjE exE conjE)
      fix p s' l'
      assume m: "manager_malloc e sz s = Some (Inr (p, s'))" "alloc_post e s l (unat (adjust_to_mem_block sz)) p s' l'"
      then have ok': "manager_ok e s' l'" and same: "same_bytes (layout_live l) (machine s) (machine s')"
        and live: "layout_live l' = (if p = 0 then layout_live l else insert (unat p, unat (adjust_to_mem_block sz)) (layout_live l))"
        and new: "p \<noteq> 0 \<Longrightarrow> (unat p, unat (adjust_to_mem_block sz)) \<notin> layout_live l"
        by (auto simp: alloc_post_def split: if_splits)
      have fresh: "unat p \<noteq> q" if q: "(q, k) \<in> B" for q k
      proof (cases "p = 0")
        case True
        then show ?thesis using B q nonzero by fastforce
      next
        case False
        obtain j where j: "j \<ge> k" "0 < k" "(q, j) \<in> layout_live l" using B q by fastforce
        have "layout_ok (machine s') l'" using ok' by (simp add: manager_ok_def manager_heaps_def)
        from layout_live_disjoint [OF this, of "unat p" "unat (adjust_to_mem_block sz)" q j]
        show ?thesis using live new j False by auto
      qed
      then have "unat p \<notin> fst ` B" by force
      then have "inj_on fst (if p = 0 then B else insert (unat p, unat sz) B)" using inj by (auto simp: inj_on_insert)
      moreover have "0 < unat sz" using False by (simp add: unat_gt_0)
      then have "\<forall>(q, n) \<in> (if p = 0 then B else insert (unat p, unat sz) B). 0 < n \<and> (\<exists>k \<ge> n. (q, k) \<in> layout_live l')"
        using B live a by (auto split: if_splits)
      ultimately have "manager_holds e s' (if p = 0 then B else insert (unat p, unat sz) B)"
        using host ok' unfolding manager_holds_def by blast
      then show ?thesis using m(1) same_bytes_blocks [OF same B] fresh by blast
    qed auto
  qed
qed

lemma manager_holds_free:
  assumes h: "manager_holds e s B" and p: "(unat p, n) \<in> B"
  shows "\<exists>s'. manager_free p s = Inr s' \<and> same_bytes (B - {(unat p, n)}) (machine s) (machine s') \<and>
    manager_holds e s' (B - {(unat p, n)})"
proof -
  obtain l where host: "host_ok e" and inj: "inj_on fst B" and ok: "manager_ok e s l"
    and B: "\<forall>(p, n) \<in> B. 0 < n \<and> (\<exists>k \<ge> n. (p, k) \<in> layout_live l)"
    using h by (auto simp: manager_holds_def)
  obtain k where k: "k \<ge> n" "(unat p, k) \<in> layout_live l" using B p by fastforce
  obtain s' l' where f: "manager_free p s = Inr s'" "manager_ok e s' l'" "layout_live l' = layout_live l - {(unat p, k)}"
    "same_bytes (layout_live l) (machine s) (machine s')"
    using manager_free_ok [OF ok k(2)] by blast
  let ?B = "B - {(unat p, n)}"
  have "q \<noteq> unat p" if "(q, j) \<in> ?B" for q j using that inj p by (fastforce simp: inj_on_def)
  then have "\<forall>(q, j) \<in> ?B. 0 < j \<and> (\<exists>k \<ge> j. (q, k) \<in> layout_live l')" using B f(3) by fastforce
  then have "manager_holds e s' ?B" using host inj f(2) by (auto simp: manager_holds_def inj_on_diff)
  moreover have "same_bytes ?B (machine s) (machine s')" using same_bytes_mono [OF same_bytes_blocks [OF f(4) B]] by blast
  ultimately show ?thesis using f(1) by blast
qed

lemma manager_holds_store:
  assumes h: "manager_holds e s B" and p: "(p, n) \<in> B" and a: "p \<le> unat a" "unat a < p + n"
    and st: "store8 a v (machine s) = Inr m'"
  shows "manager_holds e (s\<lparr>machine := m'\<rparr>) B"
proof -
  obtain l where hl: "host_ok e" "inj_on fst B" "manager_ok e s l"
    and B: "\<forall>(p, n) \<in> B. 0 < n \<and> (\<exists>k \<ge> n. (p, k) \<in> layout_live l)"
    using h by (auto simp: manager_holds_def)
  obtain k where k: "k \<ge> n" "(p, k) \<in> layout_live l" using B p by fastforce
  have m': "m' = (machine s)\<lparr>mem := (mem (machine s))(a := v)\<rparr>" using st by (auto simp: store8_def split: if_splits)
  have "manager_ok e (s\<lparr>machine := m'\<rparr>) l"
    using a k(1) by (intro manager_ok_write [OF hl(3) k(2)]) (auto simp: m')
  then show ?thesis using hl B by (auto simp: manager_holds_def)
qed

lemma manager_holds_blocks:
  assumes h: "manager_holds e s B" and p: "(p, n) \<in> B"
  shows "(q, k) \<in> B \<Longrightarrow> (p, n) = (q, k) \<or> p + n \<le> q \<or> q + k \<le> p"
    and "0 < p \<and> 0 < n \<and> p + n \<le> mem_limit (machine s)"
proof -
  obtain l where inj: "inj_on fst B" and ok: "layout_ok (machine s) l"
    and B: "\<forall>(p, n) \<in> B. 0 < n \<and> (\<exists>k \<ge> n. (p, k) \<in> layout_live l)"
    using h by (auto simp: manager_holds_def manager_ok_def manager_heaps_def)
  obtain i where i: "i \<ge> n" "(p, i) \<in> layout_live l" "0 < n" using B p by fastforce
  show "(p, n) = (q, k) \<or> p + n \<le> q \<or> q + k \<le> p" if q: "(q, k) \<in> B"
  proof (cases "p = q")
    case True
    then show ?thesis using inj p q by (fastforce simp: inj_on_def)
  next
    case False
    obtain j where "j \<ge> k" "(q, j) \<in> layout_live l" using B q by fastforce
    then show ?thesis using layout_live_disjoint [OF ok i(2), of q j] False i(1) by auto
  qed
  obtain us h bs vs where "l = us @ (h, bs) # vs" "unat (heap_base h) + 4 \<le> p" "p + i \<le> unat (heap_base h) + unat (heap_size h)"
    using layout_live_range [OF ok i(2)] by blast
  then show "0 < p \<and> 0 < n \<and> p + n \<le> mem_limit (machine s)"
    using ok i by (auto simp: layout_ok_def heap_ok_def)
qed

interpretation mm: allocator "manager_malloc e" manager_free machine "\<lambda>m s. s\<lparr>machine := m\<rparr>"
  "\<lambda>sz. unat sz \<le> 2 ^ 31 - 16" "manager_holds e" for e
  using manager_holds_malloc manager_holds_free manager_holds_store manager_holds_blocks
  by unfold_locales blast+

text \<open>The state the constructor leaves, once the loader has placed the initial heap.\<close>

lemma manager_holds_init:
  assumes "host_ok e" and "initial_heap e \<noteq> 0" and "unat (initial_heap e) + 8192 \<le> mem_limit m"
    and "mem_limit m < 2 ^ 31" and "\<not> sbrk_initialized m"
  shows "manager_holds e (manager_init m) {}"
proof -
  have "manager_ok e (manager_init m) []"
    using assms by (simp add: manager_ok_def manager_heaps_def manager_phase_def manager_init_def layout_ok_def brk_ok_def heaps_size_def)
  then show ?thesis using assms(1) by (auto simp: manager_holds_def)
qed

end
