(* ===== verification/Uos_Simple_Malloc.thy ===== *)
theory Uos_Simple_Malloc
  imports Uos_Allocator
begin

text \<open>
  simple\_malloc.cpp: an arena that only grows. A call asks the host for the pages it needs and
  aborts the action when they are refused; nothing is ever released.
\<close>

section \<open>The allocator\<close>

record dsmalloc =
  ds_machine :: machine
  ds_heap :: u32
  ds_last_ptr :: u32
  ds_next_page :: u32

text \<open>Both overloads of \<open>align\<close>: on a pointer and on a \<open>size_t\<close>.\<close>

definition align_ptr :: "u32 \<Rightarrow> u8 \<Rightarrow> u32" where
  "align_ptr ptr align_amt = (ptr + ucast align_amt - 1) AND NOT (ucast align_amt - 1)"

text \<open>The constructor: the linker puts the base of the heap at address 0.\<close>

definition dsmalloc_init :: "machine \<Rightarrow> dsmalloc res" where
  "dsmalloc_init m =
     bind_res (load32 0 m) (\<lambda>heap_base.
     let heap = align_ptr heap_base 8
     in Inr \<lparr>ds_machine = m, ds_heap = heap, ds_last_ptr = heap, ds_next_page = pages m\<rparr>)"

text \<open>\<open>GROW_MEMORY\<close>: the host adds the pages or refuses.\<close>

definition grow_memory :: "(u32 \<Rightarrow> u32 \<Rightarrow> bool) \<Rightarrow> u32 \<Rightarrow> machine \<Rightarrow> u32 \<times> machine" where
  "grow_memory grows n m =
     (if grows (pages m) n then (pages m, m\<lparr>pages := pages m + n\<rparr>) else (- 1, m))"

definition dsmalloc_call :: "(u32 \<Rightarrow> u32 \<Rightarrow> bool) \<Rightarrow> u32 \<Rightarrow> u8 \<Rightarrow> dsmalloc \<Rightarrow> (u32 \<times> dsmalloc) res" where
  "dsmalloc_call grows sz align_amt s =
     (if sz = 0 then Inr (0, s)
      else
        let ret = ds_last_ptr s;
            s = s\<lparr>ds_last_ptr := align_ptr (ds_last_ptr s + sz) align_amt\<rparr>;
            pages_to_alloc = drop_bit 16 sz;
            s = s\<lparr>ds_next_page := ds_next_page s + pages_to_alloc\<rparr>;
            (s, pages_to_alloc) =
              (if push_bit 16 (ds_next_page s) \<le> ds_last_ptr s
               then (s\<lparr>ds_next_page := ds_next_page s + 1\<rparr>, pages_to_alloc + 1) else (s, pages_to_alloc));
            (r, m) = grow_memory grows pages_to_alloc (ds_machine s)
        in bind_res (check (r \<noteq> - 1) ''failed to allocate pages'') (\<lambda>_.
           Inr (ret, s\<lparr>ds_machine := m\<rparr>)))"

definition simple_malloc :: "(u32 \<Rightarrow> u32 \<Rightarrow> bool) \<Rightarrow> u32 \<Rightarrow> dsmalloc \<Rightarrow> (u32 \<times> dsmalloc) res" where
  "simple_malloc grows sz s = dsmalloc_call grows sz 8 s"

definition simple_calloc :: "(u32 \<Rightarrow> u32 \<Rightarrow> bool) \<Rightarrow> u32 \<Rightarrow> u32 \<Rightarrow> dsmalloc \<Rightarrow> (u32 \<times> dsmalloc) res" where
  "simple_calloc grows count sz s =
     bind_res (dsmalloc_call grows (count * sz) 8 s) (\<lambda>(ptr, s).
     if ptr \<noteq> 0
     then bind_res (memset ptr 0 (count * sz) (ds_machine s)) (\<lambda>(_, m). Inr (ptr, s\<lparr>ds_machine := m\<rparr>))
     else Inr (0, s))"

definition simple_realloc :: "(u32 \<Rightarrow> u32 \<Rightarrow> bool) \<Rightarrow> u32 \<Rightarrow> u32 \<Rightarrow> dsmalloc \<Rightarrow> (u32 \<times> dsmalloc) res" where
  "simple_realloc grows ptr sz s = dsmalloc_call grows sz 8 s"

definition simple_free :: "u32 \<Rightarrow> dsmalloc \<Rightarrow> dsmalloc res" where
  "simple_free ptr s = Inr s"

section \<open>What a call does\<close>

lemma unat_align_8:
  assumes "unat p < 2 ^ 32 - 8"
  shows "unat (align_ptr p 8) = (unat p + 7) div 8 * 8"
proof -
  have p7: "unat (p + 7) = unat p + 7" using assms by (simp add: unat_word_ariths)
  have amt: "p + ucast (8 :: u8) - 1 = p + 7" "ucast (8 :: u8) - 1 = (mask 3 :: u32)"
    by (simp_all add: mask_eq_exp_minus_1)
  have "align_ptr p 8 = (p + 7) AND NOT (mask 3)" by (simp only: align_ptr_def amt)
  also have "\<dots> = push_bit 3 (drop_bit 3 (p + 7))"
    by (rule bit_word_eqI) (auto simp: bit_and_iff bit_not_iff bit_mask_iff bit_push_bit_iff bit_drop_bit_eq)
  finally have a: "align_ptr p 8 = push_bit 3 (drop_bit 3 (p + 7))" .
  have d: "unat (drop_bit 3 (p + 7)) = (unat p + 7) div 8" by (simp only: unat_drop_bit_eq p7) (simp add: drop_bit_eq_div)
  have le: "(unat p + 7) div 8 * 8 \<le> unat p + 7" by simp
  have "unat (align_ptr p 8) = take_bit 32 (push_bit 3 ((unat p + 7) div 8))"
    by (simp only: a unsigned_push_bit_eq d) simp
  also have "\<dots> = (unat p + 7) div 8 * 8 mod 2 ^ 32"
    by (simp add: push_bit_eq_mult take_bit_eq_mod)
  also have "\<dots> = (unat p + 7) div 8 * 8" using assms le by (intro mod_less) linarith
  finally show ?thesis .
qed

text \<open>The state in which the blocks \<open>B\<close> have been handed out.\<close>

definition ds_holds :: "(u32 \<Rightarrow> u32 \<Rightarrow> bool) \<Rightarrow> dsmalloc \<Rightarrow> (nat \<times> nat) set \<Rightarrow> bool" where
  "ds_holds grows s B \<longleftrightarrow>
     (\<forall>c n. grows c n \<longrightarrow> unat c + unat n \<le> 32767) \<and> mem_limit (ds_machine s) < 2 ^ 31 \<and>
     ds_next_page s = pages (ds_machine s) \<and> 0 < unat (ds_last_ptr s) \<and>
     unat (ds_last_ptr s) mod 8 = 0 \<and> unat (ds_last_ptr s) \<le> mem_limit (ds_machine s) \<and>
     (\<forall>(p, n) \<in> B. 0 < p \<and> 0 < n \<and> p + n \<le> unat (ds_last_ptr s)) \<and>
     (\<forall>(p, n) \<in> B. \<forall>(q, k) \<in> B. (p, n) = (q, k) \<or> p + n \<le> q \<or> q + k \<le> p)"

lemma align_step:
  fixes a N s :: nat
  assumes "a \<le> N" and "a mod 8 = 0" and "N mod 65536 = 0"
  defines "b \<equiv> (a + s + 7) div 8 * 8" and "M \<equiv> N + s div 65536 * 65536"
  shows "b mod 8 = 0" and "a + s \<le> b" and "b \<le> M + 65536"
proof -
  show "b mod 8 = 0" by (simp add: b_def)
  show "a + s \<le> b" unfolding b_def by presburger
  obtain r where r: "s = s div 65536 * 65536 + r" "r < 65536"
    by (metis div_mult_mod_eq mod_less_divisor zero_less_numeral)
  obtain d where "N = 65536 * d" using assms(3) by auto
  then have "M + 65536 = 8 * (8192 * d + 8192 * (s div 65536) + 8192)" unfolding M_def by simp
  then obtain c where "M + 65536 = 8 * c" by blast
  moreover have "a + s < M + 65536" using assms(1) r unfolding M_def by linarith
  ultimately have "a + s + 7 < Suc c * 8" by simp
  then have "(a + s + 7) div 8 \<le> c" using less_mult_imp_div_less less_Suc_eq_le by blast
  then show "b \<le> M + 65536" unfolding b_def \<open>M + 65536 = 8 * c\<close> by simp
qed

text \<open>The call succeeds exactly when the host grants the pages, and then does what it should.\<close>

lemma dsmalloc_call_ok:
  assumes h: "ds_holds grows s B" and sz: "sz \<noteq> 0" and r: "dsmalloc_call grows sz 8 s = Inr (p, s')"
  shows "p = ds_last_ptr s" and "ds_holds grows s' (insert (unat p, unat sz) B)"
    and "same_bytes B (ds_machine s) (ds_machine s')" and "\<forall>(q, k) \<in> B. q + k \<le> unat p"
proof -
  let ?a = "unat (ds_last_ptr s)" and ?n = "unat sz" and ?P = "unat (pages (ds_machine s))"
  define N where "N = mem_limit (ds_machine s)"
  have hs: "\<And>c n. grows c n \<Longrightarrow> unat c + unat n \<le> 32767" "N < 2 ^ 31" "ds_next_page s = pages (ds_machine s)"
    "0 < ?a" "?a mod 8 = 0" "?a \<le> N" "\<forall>(p, n) \<in> B. 0 < p \<and> 0 < n \<and> p + n \<le> ?a"
    "\<forall>(p, n) \<in> B. \<forall>(q, k) \<in> B. (p, n) = (q, k) \<or> p + n \<le> q \<or> q + k \<le> p"
    using h by (auto simp: ds_holds_def N_def)
  have N: "N = ?P * 65536" "N mod 65536 = 0" "?P < 32768" using hs(2) by (simp_all add: N_def mem_limit_def)
  define b where "b = (?a + ?n + 7) div 8 * 8"
  define M where "M = N + ?n div 65536 * 65536"
  note al = align_step [OF hs(6,5) N(2), of ?n, folded b_def M_def]
  let ?lo = "drop_bit 16 sz"
  let ?last = "align_ptr (ds_last_ptr s + sz) 8"
  define grown where "grown = (push_bit 16 (pages (ds_machine s) + ?lo) \<le> ?last)"
  let ?need = "if grown then ?lo + 1 else ?lo"
  have g0: "unat ?lo = ?n div 65536" by (simp only: unat_drop_bit_eq) (simp add: drop_bit_eq_div)
  then have "unat ?lo < 65536" using unat_less [of sz] by simp
  then have g: "unat ?need = unat ?lo + (if grown then 1 else 0)" by (simp add: unat_word_ariths)
  have gr: "grows (pages (ds_machine s)) ?need" and p: "p = ds_last_ptr s"
    and s': "s' = s\<lparr>ds_last_ptr := ?last, ds_next_page := pages (ds_machine s) + ?need,
      ds_machine := (ds_machine s)\<lparr>pages := pages (ds_machine s) + ?need\<rparr>\<rparr>"
    using r sz hs(3) unfolding grown_def
    by (auto simp: dsmalloc_call_def Let_def grow_memory_def check_def add.assoc split: if_splits)
  have lim: "?P + unat ?need \<le> 32767" using hs(1) [OF gr] .
  have n: "?n < 2 ^ 31" using lim g g0 by (auto split: if_splits)
  have sum: "unat (ds_last_ptr s + sz) = ?a + ?n" using n hs(2,6) by (simp add: unat_word_ariths)
  then have last: "unat ?last = b" using n hs(2,6) lim N unfolding b_def by (subst unat_align_8) simp_all
  have P: "unat (pages (ds_machine s) + ?need) = ?P + unat ?need" using lim by (simp add: unat_word_ariths)
  have "unat (pages (ds_machine s) + ?lo) = ?P + ?n div 65536" using lim g g0 by (simp add: unat_word_ariths split: if_splits)
  then have "unat (push_bit 16 (pages (ds_machine s) + ?lo)) = M"
    using lim g g0 N by (simp only: unsigned_push_bit_eq) (simp add: push_bit_eq_mult take_bit_eq_mod M_def split: if_splits)
  then have grown: "grown \<longleftrightarrow> M \<le> b" using last by (simp add: grown_def word_le_nat_alt)
  have lim': "mem_limit (ds_machine s') = M + (if grown then 65536 else 0)"
    using P g g0 N unfolding s' mem_limit_def M_def by simp
  then have le: "b \<le> mem_limit (ds_machine s')" using grown al(3) by auto
  show "p = ds_last_ptr s" by (rule p)
  show "same_bytes B (ds_machine s) (ds_machine s')"
    using lim' by (intro same_bytes_mem) (auto simp: s' M_def N_def)
  show "\<forall>(q, k) \<in> B. q + k \<le> unat p" using hs(7) p by auto
  have "mem_limit (ds_machine s') < 2 ^ 31" using lim P unfolding s' mem_limit_def by simp
  then show "ds_holds grows s' (insert (unat p, ?n) B)"
    unfolding ds_holds_def
  proof (intro conjI)
    have last': "unat (ds_last_ptr s') = b" using last by (simp add: s')
    have nz: "0 < ?n" using sz by (simp add: unat_gt_0)
    then show "0 < unat (ds_last_ptr s')" unfolding last' using al(2) by linarith
    show "\<forall>(p, n) \<in> insert (unat p, ?n) B. 0 < p \<and> 0 < n \<and> p + n \<le> unat (ds_last_ptr s')"
      unfolding last' p using hs(4,7) nz al(2) by fastforce
    show "\<forall>(x, n) \<in> insert (unat p, ?n) B. \<forall>(q, k) \<in> insert (unat p, ?n) B. (x, n) = (q, k) \<or> x + n \<le> q \<or> q + k \<le> x"
      unfolding p using hs(7,8) by fastforce
    show "\<forall>c n. grows c n \<longrightarrow> unat c + unat n \<le> 32767" using hs(1) by blast
  qed (use al le last in \<open>simp_all add: s'\<close>)
qed

text \<open>The arena keeps the contract of an allocator; \<open>Some\<close>, as every call ends.\<close>

lemma ds_holds_blocks:
  "ds_holds grows s B \<Longrightarrow> (p, n) \<in> B \<Longrightarrow> (q, k) \<in> B \<Longrightarrow> (p, n) = (q, k) \<or> p + n \<le> q \<or> q + k \<le> p"
  "ds_holds grows s B \<Longrightarrow> (p, n) \<in> B \<Longrightarrow> 0 < p \<and> 0 < n \<and> p + n \<le> mem_limit (ds_machine s)"
  unfolding ds_holds_def by (blast, fastforce)

lemma ds_holds_mono:
  assumes B: "ds_holds grows s B" and sub: "C \<subseteq> B"
  shows "ds_holds grows s C"
proof -
  have "\<forall>(p, n) \<in> B. 0 < p \<and> 0 < n \<and> p + n \<le> unat (ds_last_ptr s)" using B by (simp add: ds_holds_def)
  then have inside: "\<forall>(p, n) \<in> C. 0 < p \<and> 0 < n \<and> p + n \<le> unat (ds_last_ptr s)" using sub by blast
  have apart: "\<forall>(p, n) \<in> C. \<forall>(q, k) \<in> C. (p, n) = (q, k) \<or> p + n \<le> q \<or> q + k \<le> p"
  proof (clarify del: disjCI)
    fix p n q k assume "(p, n) \<in> C" "(q, k) \<in> C"
    then show "(p, n) = (q, k) \<or> p + n \<le> q \<or> q + k \<le> p" using ds_holds_blocks(1) [OF B] sub by blast
  qed
  show ?thesis using B inside apart unfolding ds_holds_def by simp
qed

lemma ds_holds_free:
  "ds_holds grows s B \<Longrightarrow> \<exists>s'. simple_free p s = Inr s' \<and> same_bytes (B - {x}) (ds_machine s) (ds_machine s') \<and>
     ds_holds grows s' (B - {x})"
  using ds_holds_mono [of grows s B "B - {x}"] by (simp add: simple_free_def)

lemma ds_holds_store:
  assumes "ds_holds grows s B" and "store8 a v (ds_machine s) = Inr m'"
  shows "ds_holds grows (s\<lparr>ds_machine := m'\<rparr>) B"
  using assms by (auto simp: ds_holds_def store8_def mem_limit_def split: if_splits)

lemma ds_holds_malloc:
  assumes "ds_holds grows s B"
  shows "(\<exists>err. Some (simple_malloc grows sz s) = Some (Inl err)) \<or>
      (\<exists>p s'. Some (simple_malloc grows sz s) = Some (Inr (p, s')) \<and> same_bytes B (ds_machine s) (ds_machine s') \<and>
        ds_holds grows s' (if p = 0 then B else insert (unat p, unat sz) B) \<and> (unat p, unat sz) \<notin> B)"
proof (cases "sz = 0")
  case True
  then show ?thesis using assms by (force simp: simple_malloc_def dsmalloc_call_def ds_holds_def)
next
  case False
  show ?thesis
  proof (cases "simple_malloc grows sz s")
    case (Inr r)
    obtain p s' where r: "dsmalloc_call grows sz 8 s = Inr (p, s')" using Inr by (cases r) (simp add: simple_malloc_def)
    note c = dsmalloc_call_ok [OF assms False r]
    have "p \<noteq> 0" using c(1) assms by (auto simp: ds_holds_def)
    moreover have "0 < unat sz" using False by (simp add: unat_gt_0)
    then have "(unat p, unat sz) \<notin> B" using c(4) by fastforce
    ultimately show ?thesis using c r by (simp add: simple_malloc_def)
  qed simp
qed

interpretation sm: allocator "\<lambda>sz s. Some (simple_malloc grows sz s)" simple_free ds_machine
  "\<lambda>m s. s\<lparr>ds_machine := m\<rparr>" "\<lambda>_. True" "ds_holds grows" for grows
  using ds_holds_malloc ds_holds_free ds_holds_store ds_holds_blocks by unfold_locales blast+

text \<open>
  The state of the constructor: the linker has put the heap's base behind the static data.
  Memory it has not reached stays untouched by the allocator itself.
\<close>

lemma ds_holds_init:
  assumes "\<And>c n. grows c n \<Longrightarrow> unat c + unat n \<le> 32767" and "mem_limit m < 2 ^ 31"
    and "load32 0 m = Inr base" and "0 < unat base" and "unat base \<le> mem_limit m"
  shows "\<exists>s. dsmalloc_init m = Inr s \<and> ds_holds grows s {} \<and> ds_machine s = m \<and> unat base \<le> unat (ds_heap s)"
proof -
  have a: "unat (align_ptr base 8) = (unat base + 7) div 8 * 8" using assms by (intro unat_align_8) simp
  have "mem_limit m = 8 * (unat (pages m) * 8192)" by (simp add: mem_limit_def)
  then obtain c where c: "mem_limit m = 8 * c" by blast
  then have "unat base + 7 < Suc c * 8" using assms(5) by simp
  then have "(unat base + 7) div 8 \<le> c" using less_mult_imp_div_less less_Suc_eq_le by blast
  then have "unat (align_ptr base 8) \<le> mem_limit m" unfolding a c by simp
  moreover have "unat base \<le> unat (align_ptr base 8)" unfolding a by presburger
  moreover have "unat (align_ptr base 8) mod 8 = 0" unfolding a by simp
  ultimately show ?thesis
    using assms by (auto simp: dsmalloc_init_def ds_holds_def Let_def)
qed

end
