(* ===== verification/Uos_Chain.thy ===== *)
theory Uos_Chain
  imports Uos_Prelude "HOL-Library.Product_Lexorder"
begin

text \<open>
  The host's database, which contracts reach through the imported functions that capi/uosio/db.h
  documents. They are not code of the library: the record \<open>chain\<close> has them as parameters, over a
  host state \<open>'h\<close> and a type \<open>'k\<close> of secondary keys. The locales \<open>row_host\<close> and \<open>key_host\<close> say what db.h promises, in
  terms of a view of the host state: the rows of every table, the associations of every secondary
  index table, and the row that each iterator stands for. Uos\_Slots gives a chain that keeps the
  promises.
\<close>

section \<open>The imported functions\<close>

text \<open>
  Output parameters are results: \<open>db_get_i64\<close> returns the size and the bytes it copies,
  \<open>db_next_i64\<close> the iterator and the primary key it writes. Every call may end the action.
\<close>

record ('k, 'h) chain =
  receiver :: "'h \<Rightarrow> u64"
  db_store_i64 :: "u64 \<Rightarrow> u64 \<Rightarrow> u64 \<Rightarrow> u64 \<Rightarrow> u8 list \<Rightarrow> 'h \<Rightarrow> (i32 \<times> 'h) res"
  db_update_i64 :: "i32 \<Rightarrow> u64 \<Rightarrow> u8 list \<Rightarrow> 'h \<Rightarrow> 'h res"
  db_remove_i64 :: "i32 \<Rightarrow> 'h \<Rightarrow> 'h res"
  db_get_i64 :: "i32 \<Rightarrow> u32 \<Rightarrow> 'h \<Rightarrow> (i32 \<times> u8 list) res"
  db_next_i64 :: "i32 \<Rightarrow> 'h \<Rightarrow> (i32 \<times> u64 \<times> 'h) res"
  db_previous_i64 :: "i32 \<Rightarrow> 'h \<Rightarrow> (i32 \<times> u64 \<times> 'h) res"
  db_find_i64 :: "u64 \<Rightarrow> u64 \<Rightarrow> u64 \<Rightarrow> u64 \<Rightarrow> 'h \<Rightarrow> (i32 \<times> 'h) res"
  db_lowerbound_i64 :: "u64 \<Rightarrow> u64 \<Rightarrow> u64 \<Rightarrow> u64 \<Rightarrow> 'h \<Rightarrow> (i32 \<times> 'h) res"
  db_upperbound_i64 :: "u64 \<Rightarrow> u64 \<Rightarrow> u64 \<Rightarrow> u64 \<Rightarrow> 'h \<Rightarrow> (i32 \<times> 'h) res"
  db_end_i64 :: "u64 \<Rightarrow> u64 \<Rightarrow> u64 \<Rightarrow> 'h \<Rightarrow> (i32 \<times> 'h) res"
  db_idx_store :: "u64 \<Rightarrow> u64 \<Rightarrow> u64 \<Rightarrow> u64 \<Rightarrow> 'k \<Rightarrow> 'h \<Rightarrow> (i32 \<times> 'h) res"
  db_idx_update :: "i32 \<Rightarrow> u64 \<Rightarrow> 'k \<Rightarrow> 'h \<Rightarrow> 'h res"
  db_idx_remove :: "i32 \<Rightarrow> 'h \<Rightarrow> 'h res"
  db_idx_next :: "i32 \<Rightarrow> 'h \<Rightarrow> (i32 \<times> u64 \<times> 'h) res"
  db_idx_previous :: "i32 \<Rightarrow> 'h \<Rightarrow> (i32 \<times> u64 \<times> 'h) res"
  db_idx_find_primary :: "u64 \<Rightarrow> u64 \<Rightarrow> u64 \<Rightarrow> u64 \<Rightarrow> 'h \<Rightarrow> (i32 \<times> 'h) res"
  db_idx_lowerbound :: "u64 \<Rightarrow> u64 \<Rightarrow> u64 \<Rightarrow> 'k \<Rightarrow> 'h \<Rightarrow> (i32 \<times> u64 \<times> 'h) res"
  db_idx_upperbound :: "u64 \<Rightarrow> u64 \<Rightarrow> u64 \<Rightarrow> 'k \<Rightarrow> 'h \<Rightarrow> (i32 \<times> u64 \<times> 'h) res"
  db_idx_end :: "u64 \<Rightarrow> u64 \<Rightarrow> u64 \<Rightarrow> 'h \<Rightarrow> (i32 \<times> 'h) res"

section \<open>What a host state holds\<close>

text \<open>A table is named by the account whose code owns it, the scope and the table's own name.\<close>

type_synonym table_id = "u64 \<times> u64 \<times> u64"

record 'k chain_view =
  v_rows :: "table_id \<Rightarrow> u64 \<Rightarrow> u8 list option"
  v_itr :: "i32 \<Rightarrow> (table_id \<times> u64) option"
  v_end :: "i32 \<Rightarrow> table_id option"
  v_keys :: "table_id \<Rightarrow> u64 \<Rightarrow> 'k option"
  v_key_itr :: "i32 \<Rightarrow> (table_id \<times> u64) option"
  v_key_end :: "i32 \<Rightarrow> table_id option"

text \<open>The associations of an index table, ordered by secondary key and then by primary key.\<close>

definition assocs :: "('p \<Rightarrow> 'k option) \<Rightarrow> ('k \<times> 'p) set" where
  "assocs m = {(k, p). m p = Some k}"

definition least_such :: "('a::linorder \<Rightarrow> bool) \<Rightarrow> 'a set \<Rightarrow> 'a option" where
  "least_such P S = (if \<exists>x \<in> S. P x then Some (Min {x \<in> S. P x}) else None)"

definition greatest_such :: "('a::linorder \<Rightarrow> bool) \<Rightarrow> 'a set \<Rightarrow> 'a option" where
  "greatest_such P S = (if \<exists>x \<in> S. P x then Some (Max {x \<in> S. P x}) else None)"

lemma least_such_None [simp]: "least_such P S = None \<longleftrightarrow> (\<forall>x \<in> S. \<not> P x)"
  by (simp add: least_such_def)

lemma greatest_such_None [simp]: "greatest_such P S = None \<longleftrightarrow> (\<forall>x \<in> S. \<not> P x)"
  by (simp add: greatest_such_def)

lemma least_such_Some:
  assumes "finite S"
  shows "least_such P S = Some x \<longleftrightarrow> x \<in> S \<and> P x \<and> (\<forall>y \<in> S. P y \<longrightarrow> x \<le> y)"
proof
  assume "least_such P S = Some x"
  then have "{x \<in> S. P x} \<noteq> {}" and "x = Min {x \<in> S. P x}" by (auto simp: least_such_def split: if_splits)
  then show "x \<in> S \<and> P x \<and> (\<forall>y \<in> S. P y \<longrightarrow> x \<le> y)"
    using assms Min_in [of "{x \<in> S. P x}"] Min_le [of "{x \<in> S. P x}"] by auto
next
  assume "x \<in> S \<and> P x \<and> (\<forall>y \<in> S. P y \<longrightarrow> x \<le> y)"
  then have "Min {x \<in> S. P x} = x" using assms by (intro Min_eqI) auto
  then show "least_such P S = Some x" using \<open>x \<in> S \<and> _\<close> by (auto simp: least_such_def)
qed

lemma greatest_such_Some:
  assumes "finite S"
  shows "greatest_such P S = Some x \<longleftrightarrow> x \<in> S \<and> P x \<and> (\<forall>y \<in> S. P y \<longrightarrow> y \<le> x)"
proof
  assume "greatest_such P S = Some x"
  then have "{x \<in> S. P x} \<noteq> {}" and "x = Max {x \<in> S. P x}" by (auto simp: greatest_such_def split: if_splits)
  then show "x \<in> S \<and> P x \<and> (\<forall>y \<in> S. P y \<longrightarrow> y \<le> x)"
    using assms Max_in [of "{x \<in> S. P x}"] Max_ge [of "{x \<in> S. P x}"] by auto
next
  assume "x \<in> S \<and> P x \<and> (\<forall>y \<in> S. P y \<longrightarrow> y \<le> x)"
  then have "Max {x \<in> S. P x} = x" using assms by (intro Max_eqI) auto
  then show "greatest_such P S = Some x" using \<open>x \<in> S \<and> _\<close> by (auto simp: greatest_such_def)
qed

lemma finite_dom_u64 [simp]: "finite (dom (m :: u64 \<Rightarrow> 'a option))"
  by (rule finite_subset [OF subset_UNIV]) simp

lemma finite_assocs [simp]: "finite (assocs (m :: u64 \<Rightarrow> 'k option))"
proof (rule finite_subset)
  show "assocs m \<subseteq> (\<lambda>p. (the (m p), p)) ` dom m" by (auto simp: assocs_def image_iff)
qed simp

lemma map_le_Some: "m \<subseteq>\<^sub>m m' \<Longrightarrow> m x = Some y \<Longrightarrow> m' x = Some y"
  by (metis domI map_le_def)

section \<open>What db.h promises\<close>

text \<open>Iterators to rows are nonnegative, two of them never stand for one row, and end iterators are below -1.\<close>

definition view_ok :: "'k chain_view \<Rightarrow> bool" where
  "view_ok v \<longleftrightarrow>
     (\<forall>i t p. v_itr v i = Some (t, p) \<longrightarrow> 0 \<le> sint i \<and> v_rows v t p \<noteq> None) \<and>
     (\<forall>i j. v_itr v i = v_itr v j \<and> v_itr v i \<noteq> None \<longrightarrow> i = j) \<and>
     (\<forall>i t p. v_key_itr v i = Some (t, p) \<longrightarrow> 0 \<le> sint i \<and> v_keys v t p \<noteq> None) \<and>
     (\<forall>i j. v_key_itr v i = v_key_itr v j \<and> v_key_itr v i \<noteq> None \<longrightarrow> i = j) \<and>
     (\<forall>t p d. v_rows v t p = Some d \<longrightarrow> length d < 2 ^ 31)"

lemma view_okD:
  assumes "view_ok v"
  shows "v_itr v i = Some (t, p) \<Longrightarrow> 0 \<le> sint i" "v_itr v i = Some (t, p) \<Longrightarrow> v_rows v t p \<noteq> None"
    "v_itr v i = Some r \<Longrightarrow> v_itr v j = Some r \<Longrightarrow> i = j"
    "v_key_itr v i = Some (t, p) \<Longrightarrow> 0 \<le> sint i" "v_key_itr v i = Some (t, p) \<Longrightarrow> v_keys v t p \<noteq> None"
    "v_key_itr v i = Some r \<Longrightarrow> v_key_itr v j = Some r \<Longrightarrow> i = j" "v_rows v t p = Some d \<Longrightarrow> length d < 2 ^ 31"
proof -
  note v = assms [unfolded view_ok_def]
  show "v_itr v i = Some (t, p) \<Longrightarrow> 0 \<le> sint i" "v_itr v i = Some (t, p) \<Longrightarrow> v_rows v t p \<noteq> None"
    "v_key_itr v i = Some (t, p) \<Longrightarrow> 0 \<le> sint i" "v_key_itr v i = Some (t, p) \<Longrightarrow> v_keys v t p \<noteq> None"
    "v_rows v t p = Some d \<Longrightarrow> length d < 2 ^ 31"
    using v by blast+
  show "v_itr v i = Some r \<Longrightarrow> v_itr v j = Some r \<Longrightarrow> i = j" "v_key_itr v i = Some r \<Longrightarrow> v_key_itr v j = Some r \<Longrightarrow> i = j"
    using v by (metis option.distinct(1))+
qed

text \<open>A call that only looks: the rows stay, and iterators handed out before keep their meaning.\<close>

definition looks :: "('k, 'h) chain \<Rightarrow> ('h \<Rightarrow> 'k chain_view) \<Rightarrow> 'h \<Rightarrow> 'h \<Rightarrow> bool" where
  "looks C view h h' \<longleftrightarrow> receiver C h' = receiver C h \<and>
     v_rows (view h') = v_rows (view h) \<and> v_keys (view h') = v_keys (view h) \<and>
     v_itr (view h) \<subseteq>\<^sub>m v_itr (view h') \<and> v_key_itr (view h) \<subseteq>\<^sub>m v_key_itr (view h')"

text \<open>A search returns an iterator to its target in table \<open>t\<close>, or a negative one without a target.\<close>

definition seeks_row :: "('k, 'h) chain \<Rightarrow> ('h \<Rightarrow> bool) \<Rightarrow> ('h \<Rightarrow> 'k chain_view) \<Rightarrow> 'h \<Rightarrow> table_id \<Rightarrow> u64 option \<Rightarrow> i32 \<Rightarrow> 'h \<Rightarrow> bool" where
  "seeks_row C ok view h t target i h' \<longleftrightarrow> ok h' \<and> looks C view h h' \<and>
     (case target of None \<Rightarrow> sint i < 0 | Some p \<Rightarrow> v_itr (view h') i = Some (t, p))"

definition seeks_key :: "('k, 'h) chain \<Rightarrow> ('h \<Rightarrow> bool) \<Rightarrow> ('h \<Rightarrow> 'k chain_view) \<Rightarrow> 'h \<Rightarrow> table_id \<Rightarrow> u64 option \<Rightarrow> i32 \<Rightarrow> 'h \<Rightarrow> bool" where
  "seeks_key C ok view h t target i h' \<longleftrightarrow> ok h' \<and> looks C view h h' \<and>
     (case target of None \<Rightarrow> sint i < 0 | Some p \<Rightarrow> v_key_itr (view h') i = Some (t, p))"

text \<open>\<open>rows_change\<close> and \<open>keys_change\<close>: what a store, an update or a removal leaves as it was.\<close>

definition rows_change :: "('k, 'h) chain \<Rightarrow> ('h \<Rightarrow> bool) \<Rightarrow> ('h \<Rightarrow> 'k chain_view) \<Rightarrow> 'h \<Rightarrow> table_id \<Rightarrow> u64 \<Rightarrow> u8 list option \<Rightarrow> 'h \<Rightarrow> bool" where
  "rows_change C ok view h t p d h' \<longleftrightarrow> ok h' \<and> receiver C h' = receiver C h \<and>
     v_rows (view h') = (v_rows (view h))(t := (v_rows (view h) t)(p := d)) \<and>
     v_keys (view h') = v_keys (view h) \<and> v_key_itr (view h) \<subseteq>\<^sub>m v_key_itr (view h')"

definition keys_change :: "('k, 'h) chain \<Rightarrow> ('h \<Rightarrow> bool) \<Rightarrow> ('h \<Rightarrow> 'k chain_view) \<Rightarrow> 'h \<Rightarrow> table_id \<Rightarrow> u64 \<Rightarrow> 'k option \<Rightarrow> 'h \<Rightarrow> bool" where
  "keys_change C ok view h t p k h' \<longleftrightarrow> ok h' \<and> receiver C h' = receiver C h \<and>
     v_keys (view h') = (v_keys (view h))(t := (v_keys (view h) t)(p := k)) \<and>
     v_rows (view h') = v_rows (view h) \<and> v_itr (view h) \<subseteq>\<^sub>m v_itr (view h')"

text \<open>
  The functions on rows. A store or an update may end the action (the payer may lack the means, the
  row may exist); the searches and the removal return on every state.
\<close>

locale row_host =
  fixes C :: "('k, 'h) chain"
    and ok :: "'h \<Rightarrow> bool"
    and view :: "'h \<Rightarrow> 'k chain_view"
  assumes view_ok: "ok h \<Longrightarrow> view_ok (view h)"
    and find_law: "ok h \<Longrightarrow> \<exists>i h'. db_find_i64 C c s n p h = Inr (i, h') \<and>
      seeks_row C ok view h (c, s, n) (least_such (\<lambda>q. q = p) (dom (v_rows (view h) (c, s, n)))) i h'"
    and lowerbound_law: "ok h \<Longrightarrow> \<exists>i h'. db_lowerbound_i64 C c s n p h = Inr (i, h') \<and>
      seeks_row C ok view h (c, s, n) (least_such (\<lambda>q. p \<le> q) (dom (v_rows (view h) (c, s, n)))) i h'"
    and upperbound_law: "ok h \<Longrightarrow> \<exists>i h'. db_upperbound_i64 C c s n p h = Inr (i, h') \<and>
      seeks_row C ok view h (c, s, n) (least_such (\<lambda>q. p < q) (dom (v_rows (view h) (c, s, n)))) i h'"
    and next_law: "ok h \<Longrightarrow> v_itr (view h) i = Some (t, p) \<Longrightarrow> \<exists>j q h'. db_next_i64 C i h = Inr (j, q, h') \<and>
      seeks_row C ok view h t (least_such (\<lambda>q. p < q) (dom (v_rows (view h) t))) j h'"
    and previous_law: "ok h \<Longrightarrow> v_itr (view h) i = Some (t, p) \<Longrightarrow> \<exists>j q h'. db_previous_i64 C i h = Inr (j, q, h') \<and>
      seeks_row C ok view h t (greatest_such (\<lambda>q. q < p) (dom (v_rows (view h) t))) j h'"
    and last_law: "ok h \<Longrightarrow> v_end (view h) i = Some t \<Longrightarrow> \<exists>j q h'. db_previous_i64 C i h = Inr (j, q, h') \<and>
      seeks_row C ok view h t (greatest_such (\<lambda>_. True) (dom (v_rows (view h) t))) j h'"
    and end_law: "ok h \<Longrightarrow> \<exists>i h'. db_end_i64 C c s n h = Inr (i, h') \<and> ok h' \<and> looks C view h h' \<and>
      (i = - 1 \<and> dom (v_rows (view h) (c, s, n)) = {} \<or> i \<noteq> - 1 \<and> v_end (view h') i = Some (c, s, n))"
    and get_law: "ok h \<Longrightarrow> v_itr (view h) i = Some (t, p) \<Longrightarrow> v_rows (view h) t p = Some d \<Longrightarrow>
      db_get_i64 C i len h =
        Inr (if len = 0 then (of_nat (length d), []) else (of_nat (min (unat len) (length d)), take (unat len) d))"
    and store_law: "ok h \<Longrightarrow> db_store_i64 C s n payer p d h = Inr (i, h') \<Longrightarrow>
      v_rows (view h) (receiver C h, s, n) p = None \<and> rows_change C ok view h (receiver C h, s, n) p (Some d) h' \<and>
      v_itr (view h) \<subseteq>\<^sub>m v_itr (view h') \<and> v_itr (view h') i = Some ((receiver C h, s, n), p)"
    and update_law: "ok h \<Longrightarrow> v_itr (view h) i = Some (t, p) \<Longrightarrow> db_update_i64 C i payer d h = Inr h' \<Longrightarrow>
      rows_change C ok view h t p (Some d) h' \<and> v_itr (view h) \<subseteq>\<^sub>m v_itr (view h')"
    and remove_law: "ok h \<Longrightarrow> v_itr (view h) i = Some (t, p) \<Longrightarrow> fst t = receiver C h \<Longrightarrow>
      \<exists>h'. db_remove_i64 C i h = Inr h' \<and> rows_change C ok view h t p None h' \<and>
        (v_itr (view h))(i := None) \<subseteq>\<^sub>m v_itr (view h')"

text \<open>The functions on secondary keys, in the order of the pairs of a secondary and a primary key.\<close>

definition seeks_assoc :: "('k, 'h) chain \<Rightarrow> ('h \<Rightarrow> bool) \<Rightarrow> ('h \<Rightarrow> 'k chain_view) \<Rightarrow> 'h \<Rightarrow> table_id \<Rightarrow> ('k \<times> u64) option \<Rightarrow> i32 \<times> u64 \<times> 'h \<Rightarrow> bool" where
  "seeks_assoc C ok view h t target = (\<lambda>(i, p, h').
     seeks_key C ok view h t (map_option snd target) i h' \<and> (\<forall>k q. target = Some (k, q) \<longrightarrow> p = q))"

locale key_host =
  fixes C :: "('k::linorder, 'h) chain"
    and ok :: "'h \<Rightarrow> bool"
    and view :: "'h \<Rightarrow> 'k chain_view"
  assumes find_primary_law: "ok h \<Longrightarrow> \<exists>i h'. db_idx_find_primary C c s n p h = Inr (i, h') \<and>
      seeks_key C ok view h (c, s, n) (map_option (\<lambda>_. p) (v_keys (view h) (c, s, n) p)) i h'"
    and key_lowerbound_law: "ok h \<Longrightarrow> \<exists>r. db_idx_lowerbound C c s n k h = Inr r \<and>
      seeks_assoc C ok view h (c, s, n) (least_such (\<lambda>a. k \<le> fst a) (assocs (v_keys (view h) (c, s, n)))) r"
    and key_upperbound_law: "ok h \<Longrightarrow> \<exists>r. db_idx_upperbound C c s n k h = Inr r \<and>
      seeks_assoc C ok view h (c, s, n) (least_such (\<lambda>a. k < fst a) (assocs (v_keys (view h) (c, s, n)))) r"
    and key_next_law: "ok h \<Longrightarrow> v_key_itr (view h) i = Some (t, p) \<Longrightarrow> v_keys (view h) t p = Some k \<Longrightarrow>
      \<exists>r. db_idx_next C i h = Inr r \<and> seeks_assoc C ok view h t (least_such (\<lambda>a. (k, p) < a) (assocs (v_keys (view h) t))) r"
    and key_previous_law: "ok h \<Longrightarrow> v_key_itr (view h) i = Some (t, p) \<Longrightarrow> v_keys (view h) t p = Some k \<Longrightarrow>
      \<exists>r. db_idx_previous C i h = Inr r \<and> seeks_assoc C ok view h t (greatest_such (\<lambda>a. a < (k, p)) (assocs (v_keys (view h) t))) r"
    and key_last_law: "ok h \<Longrightarrow> v_key_end (view h) i = Some t \<Longrightarrow>
      \<exists>r. db_idx_previous C i h = Inr r \<and> seeks_assoc C ok view h t (greatest_such (\<lambda>_. True) (assocs (v_keys (view h) t))) r"
    and key_end_law: "ok h \<Longrightarrow> \<exists>i h'. db_idx_end C c s n h = Inr (i, h') \<and> ok h' \<and> looks C view h h' \<and>
      (i = - 1 \<and> dom (v_keys (view h) (c, s, n)) = {} \<or> i \<noteq> - 1 \<and> v_key_end (view h') i = Some (c, s, n))"
    and key_store_law: "ok h \<Longrightarrow> db_idx_store C s n payer p k h = Inr (i, h') \<Longrightarrow>
      v_keys (view h) (receiver C h, s, n) p = None \<and> keys_change C ok view h (receiver C h, s, n) p (Some k) h' \<and>
      v_key_itr (view h) \<subseteq>\<^sub>m v_key_itr (view h') \<and> v_key_itr (view h') i = Some ((receiver C h, s, n), p)"
    and key_update_law: "ok h \<Longrightarrow> v_key_itr (view h) i = Some (t, p) \<Longrightarrow> db_idx_update C i payer k h = Inr h' \<Longrightarrow>
      keys_change C ok view h t p (Some k) h' \<and> v_key_itr (view h) \<subseteq>\<^sub>m v_key_itr (view h')"
    and key_remove_law: "ok h \<Longrightarrow> v_key_itr (view h) i = Some (t, p) \<Longrightarrow> fst t = receiver C h \<Longrightarrow>
      \<exists>h'. db_idx_remove C i h = Inr h' \<and> keys_change C ok view h t p None h' \<and>
        (v_key_itr (view h))(i := None) \<subseteq>\<^sub>m v_key_itr (view h')"

locale chain_host = row_host C ok view + key_host C ok view
  for C :: "('k::linorder, 'h) chain" and ok view

end
