(* ===== verification/Uos_Multi_Index.thy ===== *)
theory Uos_Multi_Index
  imports Uos_Chain Uos_Name Uos_Datastream
begin

text \<open>
  The class \<open>multi_index\<close> of contracts/uosio/multi\_index.hpp over the host's database: a table of
  objects with a primary key, their cache \<open>_items_vector\<close>, and up to sixteen secondary indices.

  The template arguments are the record \<open>table_def\<close>. Objects of type \<open>item\<close> live on the heap and are
  reached through pointers (from the cache, from iterators, from references that the caller
  keeps), so they are kept in a store by address. A destroyed item stays in \<open>destroyed\<close>, and
  \<open>destroyed_item\<close> says what reading it gives on the target.
\<close>

section \<open>Data\<close>

record 't item =
  item_value :: 't
  item_idx :: nat
  item_primary_itr :: i32
  item_iters :: "i32 list"

record item_ptr =
  ptr_item :: nat
  ptr_primary_key :: u64
  ptr_primary_itr :: i32

record ('t, 'k, 'h) table_def =
  chain :: "('k, 'h) chain"
  table_name :: u64
  row_default :: 't
  primary_key :: "'t \<Rightarrow> u64"
  put_row_size :: "'t \<Rightarrow> size_stream \<Rightarrow> size_stream res"
  put_row :: "'t \<Rightarrow> datastream \<Rightarrow> datastream res"
  get_row :: "datastream \<Rightarrow> ('t \<times> datastream) res"
  extractors :: "('t \<Rightarrow> 'k) list"
  key_bytes :: "'k \<Rightarrow> u8 list"
  buffer_address :: "u32 \<Rightarrow> u32"
  buffer_bytes :: "u32 \<Rightarrow> u8 list"
  destroyed_item :: "'t item \<Rightarrow> 't item res"

record ('t, 'h) table =
  this_idx :: nat
  code :: name
  scope :: u64
  next_primary_key :: u64
  items_vector :: "item_ptr list"
  objects :: "nat \<Rightarrow> 't item option"
  destroyed :: "nat \<Rightarrow> 't item option"
  fresh_object :: nat
  host :: 'h

text \<open>The tags among the values of \<open>_next_primary_key\<close>, and the iterators: a pointer to an item or null.\<close>

definition no_available_primary_key :: u64 where
  "no_available_primary_key = - 2"

definition unset_next_primary_key :: u64 where
  "unset_next_primary_key = - 1"

type_synonym iterator = "nat option"

definition make_table :: "nat \<Rightarrow> name \<Rightarrow> u64 \<Rightarrow> 'h \<Rightarrow> ('t, 'h) table" where
  "make_table this c sc h =
     \<lparr>this_idx = this, code = c, scope = sc, next_primary_key = unset_next_primary_key, items_vector = [],
      objects = (\<lambda>_. None), destroyed = (\<lambda>_. None), fresh_object = 0, host = h\<rparr>"

definition get_code :: "('t, 'h) table \<Rightarrow> name" where
  "get_code s = code s"

definition get_scope :: "('t, 'h) table \<Rightarrow> u64" where
  "get_scope s = scope s"

definition validate_table_name :: "name \<Rightarrow> bool" where
  "validate_table_name n \<longleftrightarrow> name_length n < 13"

text \<open>Reading an item through a pointer.\<close>

definition deref :: "('t, 'k, 'h) table_def \<Rightarrow> iterator \<Rightarrow> ('t, 'h) table \<Rightarrow> 't item res" where
  "deref tb it s =
     (case it of
       None \<Rightarrow> Inl (Undefined ''null pointer dereferenced'')
     | Some p \<Rightarrow>
         (case objects s p of
           Some i \<Rightarrow> Inr i
         | None \<Rightarrow>
             (case destroyed s p of
               Some i \<Rightarrow> destroyed_item tb i
             | None \<Rightarrow> Inl (Undefined ''invalid pointer dereferenced''))))"

definition set_item :: "nat \<Rightarrow> 't item \<Rightarrow> ('t, 'h) table \<Rightarrow> ('t, 'h) table" where
  "set_item p i s = s\<lparr>objects := (objects s)(p \<mapsto> i)\<rparr>"

text \<open>A write through a pointer to an item; a destroyed item stays destroyed.\<close>

definition write_item :: "nat \<Rightarrow> 't item \<Rightarrow> ('t, 'h) table \<Rightarrow> ('t, 'h) table" where
  "write_item p i s =
     (if objects s p = None then s\<lparr>destroyed := (destroyed s)(p \<mapsto> i)\<rparr> else set_item p i s)"

text \<open>\<open>make_unique<item>\<close>, and handing the pointer over to the cache.\<close>

definition cache_item :: "('t, 'k, 'h) table_def \<Rightarrow> 't item \<Rightarrow> ('t, 'h) table \<Rightarrow> nat \<times> ('t, 'h) table" where
  "cache_item tb i s =
     (let p = fresh_object s;
          s = (set_item p i s)\<lparr>fresh_object := p + 1\<rparr>
      in (p, s\<lparr>items_vector := items_vector s @
            [\<lparr>ptr_item = p, ptr_primary_key = primary_key tb (item_value i), ptr_primary_itr = item_primary_itr i\<rparr>]\<rparr>))"

definition cached_key :: "('t, 'k, 'h) table_def \<Rightarrow> ('t, 'h) table \<Rightarrow> item_ptr \<Rightarrow> u64 option" where
  "cached_key tb s ptr = map_option (\<lambda>i. primary_key tb (item_value i)) (objects s (ptr_item ptr))"

section \<open>Reading a row\<close>

definition load_object_by_primary_iterator :: "('t, 'k, 'h) table_def \<Rightarrow> i32 \<Rightarrow> ('t, 'h) table \<Rightarrow> (nat \<times> ('t, 'h) table) res" where
  "load_object_by_primary_iterator tb itr s =
     (case List.find (\<lambda>ptr. ptr_primary_itr ptr = itr) (rev (items_vector s)) of
       Some ptr \<Rightarrow> Inr (ptr_item ptr, s)
     | None \<Rightarrow>
         bind_res (db_get_i64 (chain tb) itr 0 (host s)) (\<lambda>(sz, _).
         bind_res (check (0 \<le> sint sz) ''error reading iterator'') (\<lambda>_.
         bind_res (db_get_i64 (chain tb) itr sz (host s)) (\<lambda>(_, data).
         let buffer = data @ drop (length data) (buffer_bytes tb sz) in
         bind_res (get_row tb (ds_make (buffer_address tb sz) sz buffer)) (\<lambda>(val, _).
         Inr (cache_item tb
           \<lparr>item_value = val, item_idx = this_idx s, item_primary_itr = itr,
            item_iters = replicate (length (extractors tb)) (- 1)\<rparr> s))))))"

section \<open>Iterators over the primary key\<close>

definition lower_bound :: "('t, 'k, 'h) table_def \<Rightarrow> u64 \<Rightarrow> ('t, 'h) table \<Rightarrow> (iterator \<times> ('t, 'h) table) res" where
  "lower_bound tb primary s =
     bind_res (db_lowerbound_i64 (chain tb) (name_value (code s)) (scope s) (table_name tb) primary (host s)) (\<lambda>(itr, h).
     let s = s\<lparr>host := h\<rparr> in
     if sint itr < 0 then Inr (None, s)
     else bind_res (load_object_by_primary_iterator tb itr s) (\<lambda>(obj, s). Inr (Some obj, s)))"

definition upper_bound :: "('t, 'k, 'h) table_def \<Rightarrow> u64 \<Rightarrow> ('t, 'h) table \<Rightarrow> (iterator \<times> ('t, 'h) table) res" where
  "upper_bound tb primary s =
     bind_res (db_upperbound_i64 (chain tb) (name_value (code s)) (scope s) (table_name tb) primary (host s)) (\<lambda>(itr, h).
     let s = s\<lparr>host := h\<rparr> in
     if sint itr < 0 then Inr (None, s)
     else bind_res (load_object_by_primary_iterator tb itr s) (\<lambda>(obj, s). Inr (Some obj, s)))"

definition cbegin :: "('t, 'k, 'h) table_def \<Rightarrow> ('t, 'h) table \<Rightarrow> (iterator \<times> ('t, 'h) table) res" where
  "cbegin tb s = lower_bound tb 0 s"

definition cend :: iterator where
  "cend = None"

definition iterator_eq :: "iterator \<Rightarrow> iterator \<Rightarrow> bool" where
  "iterator_eq a b \<longleftrightarrow> a = b"

definition iterator_neq :: "iterator \<Rightarrow> iterator \<Rightarrow> bool" where
  "iterator_neq a b \<longleftrightarrow> a \<noteq> b"

definition iterator_next :: "('t, 'k, 'h) table_def \<Rightarrow> iterator \<Rightarrow> ('t, 'h) table \<Rightarrow> (iterator \<times> ('t, 'h) table) res" where
  "iterator_next tb it s =
     bind_res (check (it \<noteq> None) ''cannot increment end iterator'') (\<lambda>_.
     bind_res (deref tb it s) (\<lambda>i.
     bind_res (db_next_i64 (chain tb) (item_primary_itr i) (host s)) (\<lambda>(next_itr, _, h).
     let s = s\<lparr>host := h\<rparr> in
     if sint next_itr < 0 then Inr (None, s)
     else bind_res (load_object_by_primary_iterator tb next_itr s) (\<lambda>(obj, s). Inr (Some obj, s)))))"

definition iterator_previous :: "('t, 'k, 'h) table_def \<Rightarrow> iterator \<Rightarrow> ('t, 'h) table \<Rightarrow> (iterator \<times> ('t, 'h) table) res" where
  "iterator_previous tb it s =
     bind_res
       (case it of
         None \<Rightarrow>
           bind_res (db_end_i64 (chain tb) (name_value (code s)) (scope s) (table_name tb) (host s)) (\<lambda>(ei, h).
           bind_res (check (ei \<noteq> - 1) ''cannot decrement end iterator when the table is empty'') (\<lambda>_.
           bind_res (db_previous_i64 (chain tb) ei h) (\<lambda>(prev_itr, _, h).
           bind_res (check (0 \<le> sint prev_itr) ''cannot decrement end iterator when the table is empty'') (\<lambda>_.
           Inr (prev_itr, h)))))
       | Some _ \<Rightarrow>
           bind_res (deref tb it s) (\<lambda>i.
           bind_res (db_previous_i64 (chain tb) (item_primary_itr i) (host s)) (\<lambda>(prev_itr, _, h).
           bind_res (check (0 \<le> sint prev_itr) ''cannot decrement iterator at beginning of table'') (\<lambda>_.
           Inr (prev_itr, h))))) (\<lambda>(prev_itr, h).
     bind_res (load_object_by_primary_iterator tb prev_itr (s\<lparr>host := h\<rparr>)) (\<lambda>(obj, s). Inr (Some obj, s)))"

text \<open>The post-increment and post-decrement operators return the old iterator first.\<close>

definition iterator_post_next :: "('t, 'k, 'h) table_def \<Rightarrow> iterator \<Rightarrow> ('t, 'h) table \<Rightarrow> (iterator \<times> iterator \<times> ('t, 'h) table) res" where
  "iterator_post_next tb it s = bind_res (iterator_next tb it s) (\<lambda>(it', s). Inr (it, it', s))"

definition iterator_post_previous :: "('t, 'k, 'h) table_def \<Rightarrow> iterator \<Rightarrow> ('t, 'h) table \<Rightarrow> (iterator \<times> iterator \<times> ('t, 'h) table) res" where
  "iterator_post_previous tb it s = bind_res (iterator_previous tb it s) (\<lambda>(it', s). Inr (it, it', s))"

definition iterator_to :: "('t, 'k, 'h) table_def \<Rightarrow> nat \<Rightarrow> ('t, 'h) table \<Rightarrow> iterator res" where
  "iterator_to tb obj s =
     bind_res (deref tb (Some obj) s) (\<lambda>objitem.
     bind_res (check (item_idx objitem = this_idx s) ''object passed to iterator_to is not in multi_index'') (\<lambda>_.
     Inr (Some obj)))"

text \<open>\<open>std::reverse_iterator\<close>: it keeps the iterator after the element it stands for.\<close>

datatype reverse_iterator = Reverse iterator

definition crbegin :: reverse_iterator where
  "crbegin = Reverse cend"

definition crend :: "('t, 'k, 'h) table_def \<Rightarrow> ('t, 'h) table \<Rightarrow> (reverse_iterator \<times> ('t, 'h) table) res" where
  "crend tb s = bind_res (cbegin tb s) (\<lambda>(it, s). Inr (Reverse it, s))"

fun reverse_deref :: "('t, 'k, 'h) table_def \<Rightarrow> reverse_iterator \<Rightarrow> ('t, 'h) table \<Rightarrow> ('t item \<times> ('t, 'h) table) res" where
  "reverse_deref tb (Reverse it) s =
     bind_res (iterator_previous tb it s) (\<lambda>(it, s). bind_res (deref tb it s) (\<lambda>i. Inr (i, s)))"

fun reverse_next :: "('t, 'k, 'h) table_def \<Rightarrow> reverse_iterator \<Rightarrow> ('t, 'h) table \<Rightarrow> (reverse_iterator \<times> ('t, 'h) table) res" where
  "reverse_next tb (Reverse it) s = bind_res (iterator_previous tb it s) (\<lambda>(it, s). Inr (Reverse it, s))"

section \<open>Looking up by primary key\<close>

definition cached :: "('t, 'k, 'h) table_def \<Rightarrow> u64 \<Rightarrow> ('t, 'h) table \<Rightarrow> item_ptr option" where
  "cached tb primary s = List.find (\<lambda>ptr. cached_key tb s ptr = Some primary) (rev (items_vector s))"

definition table_find :: "('t, 'k, 'h) table_def \<Rightarrow> u64 \<Rightarrow> ('t, 'h) table \<Rightarrow> (iterator \<times> ('t, 'h) table) res" where
  "table_find tb primary s =
     (case cached tb primary s of
       Some ptr \<Rightarrow> bind_res (iterator_to tb (ptr_item ptr) s) (\<lambda>it. Inr (it, s))
     | None \<Rightarrow>
         bind_res (db_find_i64 (chain tb) (name_value (code s)) (scope s) (table_name tb) primary (host s)) (\<lambda>(itr, h).
         let s = s\<lparr>host := h\<rparr> in
         if sint itr < 0 then Inr (cend, s)
         else
           bind_res (load_object_by_primary_iterator tb itr s) (\<lambda>(i, s).
           bind_res (iterator_to tb i s) (\<lambda>it. Inr (it, s)))))"

definition require_find :: "('t, 'k, 'h) table_def \<Rightarrow> u64 \<Rightarrow> string \<Rightarrow> ('t, 'h) table \<Rightarrow> (iterator \<times> ('t, 'h) table) res" where
  "require_find tb primary error_msg s =
     (case cached tb primary s of
       Some ptr \<Rightarrow> bind_res (iterator_to tb (ptr_item ptr) s) (\<lambda>it. Inr (it, s))
     | None \<Rightarrow>
         bind_res (db_find_i64 (chain tb) (name_value (code s)) (scope s) (table_name tb) primary (host s)) (\<lambda>(itr, h).
         bind_res (check (0 \<le> sint itr) error_msg) (\<lambda>_.
         bind_res (load_object_by_primary_iterator tb itr (s\<lparr>host := h\<rparr>)) (\<lambda>(i, s).
         bind_res (iterator_to tb i s) (\<lambda>it. Inr (it, s))))))"

definition table_get :: "('t, 'k, 'h) table_def \<Rightarrow> u64 \<Rightarrow> string \<Rightarrow> ('t, 'h) table \<Rightarrow> (nat \<times> ('t, 'h) table) res" where
  "table_get tb primary error_msg s =
     bind_res (table_find tb primary s) (\<lambda>(result, s).
     bind_res (check (iterator_neq result cend) error_msg) (\<lambda>_.
     Inr (the result, s)))"

section \<open>The next free primary key\<close>

definition key_after :: "u64 \<Rightarrow> u64" where
  "key_after pk = (if pk \<ge> no_available_primary_key then no_available_primary_key else pk + 1)"

definition available_primary_key :: "('t, 'k, 'h) table_def \<Rightarrow> ('t, 'h) table \<Rightarrow> (u64 \<times> ('t, 'h) table) res" where
  "available_primary_key tb s =
     bind_res
       (if next_primary_key s = unset_next_primary_key then
          bind_res (cbegin tb s) (\<lambda>(b, s).
          if iterator_eq b cend then Inr (s\<lparr>next_primary_key := 0\<rparr>)
          else
            bind_res (iterator_previous tb cend s) (\<lambda>(itr, s).
            bind_res (deref tb itr s) (\<lambda>i.
            Inr (s\<lparr>next_primary_key := key_after (primary_key tb (item_value i))\<rparr>))))
        else Inr s) (\<lambda>s.
     bind_res (check (next_primary_key s < no_available_primary_key)
       ''next primary key in table is at autoincrement limit'') (\<lambda>_.
     Inr (next_primary_key s, s)))"

definition bump_primary_key :: "u64 \<Rightarrow> ('t, 'h) table \<Rightarrow> ('t, 'h) table" where
  "bump_primary_key pk s =
     (if pk \<ge> next_primary_key s then s\<lparr>next_primary_key := key_after pk\<rparr> else s)"

section \<open>Changing the table\<close>

text \<open>The bytes of a row: a buffer from \<open>malloc\<close> or \<open>alloca\<close>, filled by \<open>operator<<\<close>.\<close>

definition row_bytes :: "('t, 'k, 'h) table_def \<Rightarrow> 't \<Rightarrow> u8 list res" where
  "row_bytes tb obj =
     bind_res (pack_size (put_row_size tb obj)) (\<lambda>sz.
     bind_res (put_row tb obj (ds_make (buffer_address tb sz) sz (buffer_bytes tb sz))) (\<lambda>ds.
     Inr (ds_buf ds)))"

text \<open>The name of the table that holds secondary index number \<open>n\<close>.\<close>

definition index_table_name :: "u64 \<Rightarrow> nat \<Rightarrow> u64" where
  "index_table_name table n = (table AND 0xFFFFFFFFFFFFFFF0) OR (of_nat n AND 0xF)"

primrec store_keys :: "('t, 'k, 'h) table_def \<Rightarrow> u64 \<Rightarrow> u64 \<Rightarrow> u64 \<Rightarrow> 't \<Rightarrow> nat \<Rightarrow> ('t \<Rightarrow> 'k) list \<Rightarrow> 'h \<Rightarrow> (i32 list \<times> 'h) res" where
  "store_keys tb sc payer pk obj n [] h = Inr ([], h)"
| "store_keys tb sc payer pk obj n (f # fs) h =
     bind_res (db_idx_store (chain tb) sc (index_table_name (table_name tb) n) payer pk (f obj) h) (\<lambda>(i, h).
     bind_res (store_keys tb sc payer pk obj (n + 1) fs h) (\<lambda>(is, h). Inr (i # is, h)))"

definition emplace :: "('t, 'k, 'h) table_def \<Rightarrow> name \<Rightarrow> ('t \<Rightarrow> 't res) \<Rightarrow> ('t, 'h) table \<Rightarrow> (iterator \<times> ('t, 'h) table) res" where
  "emplace tb payer constructor s =
     bind_res (check (name_value (code s) = receiver (chain tb) (host s))
       ''cannot create objects in table of another contract'') (\<lambda>_.
     bind_res (constructor (row_default tb)) (\<lambda>obj.
     bind_res (row_bytes tb obj) (\<lambda>buffer.
     let pk = primary_key tb obj in
     bind_res (db_store_i64 (chain tb) (scope s) (table_name tb) (name_value payer) pk buffer (host s)) (\<lambda>(itr, h).
     let s = bump_primary_key pk s in
     bind_res (store_keys tb (scope s) (name_value payer) (primary_key tb obj) obj 0 (extractors tb) h) (\<lambda>(iters, h).
     let (p, s) = cache_item tb
           \<lparr>item_value = obj, item_idx = this_idx s, item_primary_itr = itr, item_iters = iters\<rparr> (s\<lparr>host := h\<rparr>)
     in Inr (Some p, s))))))"

text \<open>In \<open>modify\<close>: \<open>__iters[n]\<close> is looked up when the item does not know it yet.\<close>

definition known_iter :: "('k, 'h) chain \<Rightarrow> u64 \<Rightarrow> u64 \<Rightarrow> u64 \<Rightarrow> u64 \<Rightarrow> nat \<Rightarrow> i32 list \<Rightarrow> 'h \<Rightarrow> (i32 list \<times> 'h) res" where
  "known_iter C c sc tab pk n iters h =
     (if sint (iters ! n) < 0 then
        bind_res (db_idx_find_primary C c sc tab pk h) (\<lambda>(i, h). Inr (iters[n := i], h))
      else Inr (iters, h))"

primrec update_keys :: "('t, 'k, 'h) table_def \<Rightarrow> u64 \<Rightarrow> u64 \<Rightarrow> u64 \<Rightarrow> u64 \<Rightarrow> 'k list \<Rightarrow> 't \<Rightarrow> nat \<Rightarrow> ('t \<Rightarrow> 'k) list \<Rightarrow> i32 list \<Rightarrow> 'h \<Rightarrow> (i32 list \<times> 'h) res" where
  "update_keys tb c sc payer pk old obj n [] iters h = Inr (iters, h)"
| "update_keys tb c sc payer pk old obj n (f # fs) iters h =
     bind_res
       (if key_bytes tb (old ! n) \<noteq> key_bytes tb (f obj) then
          bind_res (known_iter (chain tb) c sc (index_table_name (table_name tb) n) pk n iters h) (\<lambda>(iters, h).
          bind_res (db_idx_update (chain tb) (iters ! n) payer (f obj) h) (\<lambda>h. Inr (iters, h)))
        else Inr (iters, h)) (\<lambda>(iters, h).
     update_keys tb c sc payer pk old obj (n + 1) fs iters h)"

definition modify :: "('t, 'k, 'h) table_def \<Rightarrow> nat \<Rightarrow> name \<Rightarrow> ('t \<Rightarrow> 't res) \<Rightarrow> ('t, 'h) table \<Rightarrow> ('t, 'h) table res" where
  "modify tb p payer updater s =
     bind_res (deref tb (Some p) s) (\<lambda>objitem.
     bind_res (check (item_idx objitem = this_idx s) ''object passed to modify is not in multi_index'') (\<lambda>_.
     bind_res (check (name_value (code s) = receiver (chain tb) (host s))
       ''cannot modify objects in table of another contract'') (\<lambda>_.
     let secondary_keys = map (\<lambda>f. f (item_value objitem)) (extractors tb);
         pk = primary_key tb (item_value objitem) in
     bind_res (updater (item_value objitem)) (\<lambda>obj.
     bind_res (check (pk = primary_key tb obj) ''updater cannot change primary key when modifying an object'') (\<lambda>_.
     bind_res (row_bytes tb obj) (\<lambda>buffer.
     bind_res (db_update_i64 (chain tb) (item_primary_itr objitem) (name_value payer) buffer (host s)) (\<lambda>h.
     let s = bump_primary_key pk s in
     bind_res (update_keys tb (name_value (code s)) (scope s) (name_value payer) pk secondary_keys obj 0
       (extractors tb) (item_iters objitem) h) (\<lambda>(iters, h).
     Inr (write_item p (objitem\<lparr>item_value := obj, item_iters := iters\<rparr>) (s\<lparr>host := h\<rparr>))))))))))"

definition modify_at :: "('t, 'k, 'h) table_def \<Rightarrow> iterator \<Rightarrow> name \<Rightarrow> ('t \<Rightarrow> 't res) \<Rightarrow> ('t, 'h) table \<Rightarrow> ('t, 'h) table res" where
  "modify_at tb itr payer updater s =
     bind_res (check (iterator_neq itr cend) ''cannot pass end iterator to modify'') (\<lambda>_.
     modify tb (the itr) payer updater s)"

primrec remove_keys :: "('t, 'k, 'h) table_def \<Rightarrow> u64 \<Rightarrow> u64 \<Rightarrow> u64 \<Rightarrow> nat \<Rightarrow> ('t \<Rightarrow> 'k) list \<Rightarrow> i32 list \<Rightarrow> 'h \<Rightarrow> 'h res" where
  "remove_keys tb c sc pk n [] iters h = Inr h"
| "remove_keys tb c sc pk n (f # fs) iters h =
     bind_res
       (if sint (iters ! n) < 0
        then db_idx_find_primary (chain tb) c sc (index_table_name (table_name tb) n) pk h
        else Inr (iters ! n, h)) (\<lambda>(i, h).
     bind_res (if 0 \<le> sint i then db_idx_remove (chain tb) i h else Inr h) (\<lambda>h.
     remove_keys tb c sc pk (n + 1) fs iters h))"

text \<open>
  \<open>erase\<close> of an object: the cache entry, and with it the item, goes first; the item is still read
  afterwards, for its iterators.
\<close>

definition erase :: "('t, 'k, 'h) table_def \<Rightarrow> nat \<Rightarrow> ('t, 'h) table \<Rightarrow> ('t, 'h) table res" where
  "erase tb p s =
     bind_res (deref tb (Some p) s) (\<lambda>objitem.
     bind_res (check (item_idx objitem = this_idx s) ''object passed to erase is not in multi_index'') (\<lambda>_.
     bind_res (check (name_value (code s) = receiver (chain tb) (host s))
       ''cannot erase objects in table of another contract'') (\<lambda>_.
     let pk = primary_key tb (item_value objitem) in
     case cached tb pk s of
       None \<Rightarrow> Inl (Assertion ''attempt to remove object that was not in multi_index'')
     | Some ptr \<Rightarrow>
         let q = ptr_item ptr;
             s = s\<lparr>items_vector := rev (remove1 ptr (rev (items_vector s))),
                  objects := (objects s)(q := None), destroyed := (destroyed s)(q := objects s q)\<rparr> in
         bind_res (deref tb (Some p) s) (\<lambda>objitem.
         bind_res (db_remove_i64 (chain tb) (item_primary_itr objitem) (host s)) (\<lambda>h.
         bind_res (remove_keys tb (name_value (code s)) (scope s) (primary_key tb (item_value objitem)) 0
           (extractors tb) (item_iters objitem) h) (\<lambda>h.
         Inr (s\<lparr>host := h\<rparr>)))))))"

definition erase_at :: "('t, 'k, 'h) table_def \<Rightarrow> iterator \<Rightarrow> ('t, 'h) table \<Rightarrow> (iterator \<times> ('t, 'h) table) res" where
  "erase_at tb itr s =
     bind_res (check (iterator_neq itr cend) ''cannot pass end iterator to erase'') (\<lambda>_.
     bind_res (iterator_next tb itr s) (\<lambda>(next, s).
     bind_res (erase tb (the itr) s) (\<lambda>s.
     Inr (next, s))))"

end
