(* ===== verification/Uos_Table.thy ===== *)
theory Uos_Table
  imports Uos_Multi_Index Uos_Serialize
begin

text \<open>
  What the primary operations of \<open>multi_index\<close> do, against the table as a map from primary keys
  to objects. \<open>table_ok\<close> ties the map to the host's rows, the secondary index tables and the cache.
\<close>

declare split_paired_All [simp del] split_paired_Ex [simp del]

section \<open>The table as a map\<close>

definition table_key :: "('t, 'k, 'h) table_def \<Rightarrow> ('t, 'h) table \<Rightarrow> table_id" where
  "table_key tb s = (name_value (code s), scope s, table_name tb)"

definition index_key :: "('t, 'k, 'h) table_def \<Rightarrow> ('t, 'h) table \<Rightarrow> nat \<Rightarrow> table_id" where
  "index_key tb s n = (name_value (code s), scope s, index_table_name (table_name tb) n)"

text \<open>
  What is assumed of the template arguments and the host: the host keeps the promises of db.h, the
  row type's operators are a codec, buffers lie in the address space, the bytes of a
  secondary key determine it when there are secondary indices, and an item that has been freed still reads as it was.
\<close>

definition table_def_ok :: "('t, 'k::linorder, 'h) table_def \<Rightarrow> ('h \<Rightarrow> bool) \<Rightarrow> ('h \<Rightarrow> 'k chain_view) \<Rightarrow> ('t \<Rightarrow> u8 list) \<Rightarrow> ('t \<Rightarrow> bool) \<Rightarrow> bool" where
  "table_def_ok tb ok view img valid \<longleftrightarrow>
     chain_host (chain tb) ok view \<and>
     codec (put_row_size tb) (put_row tb) (get_row tb) img valid \<and>
     (\<forall>n. length (buffer_bytes tb n) = unat n) \<and>
     (\<forall>v. valid v \<longrightarrow> addressable (buffer_address tb (of_nat (length (img v)))) (length (img v))) \<and>
     length (extractors tb) \<le> 16 \<and> (extractors tb = [] \<or> inj (key_bytes tb)) \<and> (\<forall>i. destroyed_item tb i = Inr i)"

definition item_ok :: "('t, 'k, 'h) table_def \<Rightarrow> 'k chain_view \<Rightarrow> ('t, 'h) table \<Rightarrow> (u64 \<Rightarrow> 't option) \<Rightarrow> 't item \<Rightarrow> bool" where
  "item_ok tb v s T i \<longleftrightarrow>
     T (primary_key tb (item_value i)) = Some (item_value i) \<and>
     v_itr v (item_primary_itr i) = Some (table_key tb s, primary_key tb (item_value i)) \<and>
     length (item_iters i) = length (extractors tb) \<and>
     (\<forall>n < length (extractors tb). item_iters i ! n \<noteq> - 1 \<longrightarrow>
        v_key_itr v (item_iters i ! n) = Some (index_key tb s n, primary_key tb (item_value i)))"

definition next_ok :: "u64 \<Rightarrow> (u64 \<Rightarrow> 't option) \<Rightarrow> bool" where
  "next_ok n T \<longleftrightarrow> n = unset_next_primary_key \<or> n = no_available_primary_key \<or> (\<forall>k \<in> dom T. k < n)"

definition stored :: "('t, 'k, 'h) table_def \<Rightarrow> ('t \<Rightarrow> u8 list) \<Rightarrow> ('t \<Rightarrow> bool) \<Rightarrow> 'k chain_view \<Rightarrow> ('t, 'h) table \<Rightarrow> (u64 \<Rightarrow> 't option) \<Rightarrow> bool" where
  "stored tb img valid v s T \<longleftrightarrow>
     (\<forall>k. v_rows v (table_key tb s) k = map_option img (T k)) \<and>
     (\<forall>k t. T k = Some t \<longrightarrow> valid t \<and> primary_key tb t = k) \<and>
     (\<forall>n < length (extractors tb). \<forall>k. v_keys v (index_key tb s n) k = map_option (extractors tb ! n) (T k))"

definition cache_ok :: "('t, 'k, 'h) table_def \<Rightarrow> 'k chain_view \<Rightarrow> ('t, 'h) table \<Rightarrow> (u64 \<Rightarrow> 't option) \<Rightarrow> bool" where
  "cache_ok tb v s T \<longleftrightarrow>
     (\<forall>ptr \<in> set (items_vector s). \<exists>i. objects s (ptr_item ptr) = Some i \<and> item_idx i = this_idx s \<and>
        ptr_primary_itr ptr = item_primary_itr i \<and> item_ok tb v s T i) \<and>
     (\<forall>p i. objects s p = Some i \<longrightarrow> p < fresh_object s \<and> (item_idx i = this_idx s \<longrightarrow> p \<in> ptr_item ` set (items_vector s))) \<and>
     distinct (map ptr_item (items_vector s)) \<and> distinct (map ptr_primary_itr (items_vector s))"

definition table_ok :: "('t, 'k::linorder, 'h) table_def \<Rightarrow> ('h \<Rightarrow> bool) \<Rightarrow> ('h \<Rightarrow> 'k chain_view) \<Rightarrow> ('t \<Rightarrow> u8 list) \<Rightarrow> ('t \<Rightarrow> bool) \<Rightarrow> ('t, 'h) table \<Rightarrow> (u64 \<Rightarrow> 't option) \<Rightarrow> bool" where
  "table_ok tb ok view img valid s T \<longleftrightarrow> table_def_ok tb ok view img valid \<and> ok (host s) \<and>
     stored tb img valid (view (host s)) s T \<and> cache_ok tb (view (host s)) s T \<and> next_ok (next_primary_key s) T"

text \<open>An iterator stands for an object of the table, or is the end.\<close>

definition points :: "('t, 'h) table \<Rightarrow> iterator \<Rightarrow> 't option \<Rightarrow> bool" where
  "points s it target \<longleftrightarrow>
     (case target of None \<Rightarrow> it = None
      | Some t \<Rightarrow> (\<exists>p i. it = Some p \<and> objects s p = Some i \<and> item_idx i = this_idx s \<and> item_value i = t))"

text \<open>What a reading operation keeps: the objects that pointers reach, and what names the table.\<close>

definition keeps :: "('t, 'h) table \<Rightarrow> ('t, 'h) table \<Rightarrow> bool" where
  "keeps s s' \<longleftrightarrow> this_idx s' = this_idx s \<and> code s' = code s \<and> scope s' = scope s \<and>
     (\<forall>p i. objects s p = Some i \<longrightarrow> (\<exists>j. objects s' p = Some j \<and> item_value j = item_value i \<and> item_idx j = item_idx i))"

lemma keeps_refl [simp]: "keeps s s"
  by (simp add: keeps_def)

lemma keeps_trans: "keeps r s \<Longrightarrow> keeps s t \<Longrightarrow> keeps r t"
  unfolding keeps_def by metis

lemma keeps_host [simp]: "keeps (s\<lparr>host := h\<rparr>) t = keeps s t" "keeps s (t\<lparr>host := h\<rparr>) = keeps s t"
  by (simp_all add: keeps_def)

lemma keeps_points: "keeps s s' \<Longrightarrow> points s it target \<Longrightarrow> points s' it target"
  by (fastforce simp: keeps_def points_def split: option.splits)

lemma points_simps [simp]:
  "points s it None \<longleftrightarrow> it = None" "\<not> points s None (Some t)" "points (s\<lparr>host := h\<rparr>) it target = points s it target"
  by (simp_all add: points_def split: option.splits)

lemma points_end: "points s it target \<Longrightarrow> it = None \<longleftrightarrow> target = None"
  by (cases target) (auto simp: points_def)

lemma table_key_simps [simp]:
  "table_key tb (s\<lparr>host := h\<rparr>) = table_key tb s" "index_key tb (s\<lparr>host := h\<rparr>) n = index_key tb s n"
  "table_key tb (s\<lparr>next_primary_key := k\<rparr>) = table_key tb s" "index_key tb (s\<lparr>next_primary_key := k\<rparr>) n = index_key tb s n"
  by (simp_all add: table_key_def index_key_def)

section \<open>The cache\<close>

lemma table_ok_simps:
  assumes "table_ok tb ok view img valid s T"
  shows "table_def_ok tb ok view img valid" "chain_host (chain tb) ok view"
    "row_host (chain tb) ok view" "key_host (chain tb) ok view" "ok (host s)"
    "codec (put_row_size tb) (put_row tb) (get_row tb) img valid"
    "dom (v_rows (view (host s)) (table_key tb s)) = dom T" "view_ok (view (host s))"
  using assms by (auto simp: table_ok_def table_def_ok_def stored_def chain_host_def intro: row_host.view_ok)

lemma looks_refl [simp]: "looks C view h h"
  by (simp add: looks_def)

lemma looks_trans: "looks C view a b \<Longrightarrow> looks C view b c \<Longrightarrow> looks C view a c"
  by (auto simp: looks_def intro: map_le_trans)
lemma item_ok_mono:
  "item_ok tb v s T i \<Longrightarrow> v_itr v \<subseteq>\<^sub>m v_itr v' \<Longrightarrow> v_key_itr v \<subseteq>\<^sub>m v_key_itr v' \<Longrightarrow> item_ok tb v' s T i"
  unfolding item_ok_def by (blast intro: map_le_Some)

lemma item_ok_host [simp]: "item_ok tb v (s\<lparr>host := h\<rparr>) T i = item_ok tb v s T i"
  by (simp add: item_ok_def)

lemma cache_ok_mono:
  "cache_ok tb v s T \<Longrightarrow> v_itr v \<subseteq>\<^sub>m v_itr v' \<Longrightarrow> v_key_itr v \<subseteq>\<^sub>m v_key_itr v' \<Longrightarrow> cache_ok tb v' (s\<lparr>host := h\<rparr>) T"
  unfolding cache_ok_def by (fastforce dest: item_ok_mono)

lemma table_ok_looks:
  assumes "table_ok tb ok view img valid s T" and "ok h'" and "looks (chain tb) view (host s) h'"
  shows "table_ok tb ok view img valid (s\<lparr>host := h'\<rparr>) T"
proof -
  have "v_rows (view h') = v_rows (view (host s))" "v_keys (view h') = v_keys (view (host s))"
    using assms(3) by (simp_all add: looks_def)
  moreover have "cache_ok tb (view h') (s\<lparr>host := h'\<rparr>) T"
    using assms(1,3) cache_ok_mono by (auto simp: table_ok_def looks_def)
  ultimately show ?thesis using assms(1,2) by (simp add: table_ok_def stored_def)
qed

text \<open>An object reached through a pointer is in the cache, and it is the table's object under its key.\<close>

lemma object_cached:
  assumes "table_ok tb ok view img valid s T" and "objects s p = Some i" and "item_idx i = this_idx s"
  shows "item_ok tb (view (host s)) s T i"
    and "\<exists>ptr \<in> set (items_vector s). ptr_item ptr = p \<and> ptr_primary_itr ptr = item_primary_itr i"
proof -
  have "p \<in> ptr_item ` set (items_vector s)" using assms unfolding table_ok_def cache_ok_def by blast
  then obtain ptr where ptr: "ptr \<in> set (items_vector s)" "ptr_item ptr = p" by auto
  then show "item_ok tb (view (host s)) s T i"
    "\<exists>ptr \<in> set (items_vector s). ptr_item ptr = p \<and> ptr_primary_itr ptr = item_primary_itr i"
    using assms by (fastforce simp: table_ok_def cache_ok_def)+
qed

lemma points_deref:
  assumes "points s it (Some t)"
  shows "\<exists>i. deref tb it s = Inr i \<and> item_value i = t \<and> item_idx i = this_idx s"
  using assms by (auto simp: points_def deref_def)

lemma points_row:
  assumes "table_ok tb ok view img valid s T" and "points s it (Some t)"
  shows "T (primary_key tb t) = Some t"
    and "\<exists>i. deref tb it s = Inr i \<and> item_value i = t \<and> item_idx i = this_idx s \<and> item_ok tb (view (host s)) s T i"
proof -
  obtain p i where i: "it = Some p" "objects s p = Some i" "item_idx i = this_idx s" "item_value i = t"
    using assms(2) by (auto simp: points_def)
  note ok = object_cached(1) [OF assms(1) i(2,3)]
  show "T (primary_key tb t) = Some t" using ok i(4) by (simp add: item_ok_def)
  show "\<exists>i. deref tb it s = Inr i \<and> item_value i = t \<and> item_idx i = this_idx s \<and> item_ok tb (view (host s)) s T i"
    using ok i by (simp add: deref_def)
qed

text \<open>Two cache entries for one row are the same entry, so that comparing pointers compares rows.\<close>

lemma cache_entries_eq:
  assumes "table_ok tb ok view img valid s T"
    and "a \<in> set (items_vector s)" "objects s (ptr_item a) = Some i"
    and "b \<in> set (items_vector s)" "objects s (ptr_item b) = Some j"
    and "primary_key tb (item_value i) = primary_key tb (item_value j)"
  shows "a = b"
proof -
  have c: "cache_ok tb (view (host s)) s T" using assms(1) by (simp add: table_ok_def)
  have i: "item_ok tb (view (host s)) s T i" "ptr_primary_itr a = item_primary_itr i"
    and j: "item_ok tb (view (host s)) s T j" "ptr_primary_itr b = item_primary_itr j"
    using c assms(2-5) by (auto simp: cache_ok_def)
  have "item_primary_itr i = item_primary_itr j"
    using view_okD(3) [OF table_ok_simps(8) [OF assms(1)]] i(1) j(1) assms(6) unfolding item_ok_def by metis
  then have "ptr_primary_itr a = ptr_primary_itr b" using i(2) j(2) by simp
  then show ?thesis
    using c assms(2,4) by (metis (no_types, lifting) cache_ok_def distinct_map inj_onD)
qed

lemma points_unique:
  assumes "table_ok tb ok view img valid s T"
    and "points s a (Some t)" and "points s b (Some u)" and "primary_key tb t = primary_key tb u"
  shows "a = b"
proof -
  obtain p i q j where i: "a = Some p" "objects s p = Some i" "item_idx i = this_idx s" "item_value i = t"
    and j: "b = Some q" "objects s q = Some j" "item_idx j = this_idx s" "item_value j = u"
    using assms(2,3) by (auto simp: points_def)
  obtain c d where "c \<in> set (items_vector s)" "ptr_item c = p" "d \<in> set (items_vector s)" "ptr_item d = q"
    using object_cached(2) [OF assms(1) i(2,3)] object_cached(2) [OF assms(1) j(2,3)] by blast
  then show ?thesis using cache_entries_eq [OF assms(1), of c i d j] i j assms(4) by auto
qed

lemma cache_item_ok:
  assumes "cache_ok tb v s T" and "item_ok tb v s T i" and "item_idx i = this_idx s"
    and "item_primary_itr i \<notin> ptr_primary_itr ` set (items_vector s)" and "cache_item tb i s = (p, s')"
  shows "cache_ok tb v s' T" "keeps s s'" "objects s' p = Some i" "this_idx s' = this_idx s" "code s' = code s"
    "scope s' = scope s" "host s' = host s" "next_primary_key s' = next_primary_key s"
    "\<And>n. table_key tb s' = table_key tb s \<and> index_key tb s' n = index_key tb s n"
proof -
  let ?ptr = "\<lparr>ptr_item = p, ptr_primary_key = primary_key tb (item_value i), ptr_primary_itr = item_primary_itr i\<rparr>"
  have s': "p = fresh_object s" "s' = s\<lparr>objects := (objects s)(p \<mapsto> i), fresh_object := p + 1, items_vector := items_vector s @ [?ptr]\<rparr>"
    using assms(5) by (auto simp: cache_item_def set_item_def Let_def)
  have lt: "q < fresh_object s" if "objects s q = Some j" for q j
    using assms(1) that unfolding cache_ok_def by blast
  have new: "objects s p = None" using lt s'(1) by (cases "objects s p") auto
  have "\<forall>ptr \<in> set (items_vector s). \<exists>j. objects s (ptr_item ptr) = Some j"
    using assms(1) unfolding cache_ok_def by blast
  then have p: "p \<notin> ptr_item ` set (items_vector s)" using new by fastforce
  have io: "item_ok tb v s' T j = item_ok tb v s T j" for j
    by (simp add: s'(2) item_ok_def table_key_def index_key_def)
  show "keeps s s'" "objects s' p = Some i" "this_idx s' = this_idx s" "code s' = code s"
    "scope s' = scope s" "host s' = host s" "next_primary_key s' = next_primary_key s"
    "\<And>n. table_key tb s' = table_key tb s \<and> index_key tb s' n = index_key tb s n"
    using new by (simp_all add: s'(2) keeps_def table_key_def index_key_def)
  have old: "\<forall>ptr \<in> set (items_vector s). \<exists>j. objects s' (ptr_item ptr) = Some j \<and> item_idx j = this_idx s' \<and>
      ptr_primary_itr ptr = item_primary_itr j \<and> item_ok tb v s' T j"
    unfolding io using assms(1) p by (fastforce simp: cache_ok_def s'(2))
  have "\<forall>ptr \<in> set (items_vector s'). \<exists>j. objects s' (ptr_item ptr) = Some j \<and> item_idx j = this_idx s' \<and>
      ptr_primary_itr ptr = item_primary_itr j \<and> item_ok tb v s' T j"
    using old assms(2,3) by (auto simp: s'(2) item_ok_def table_key_def index_key_def)
  moreover have "\<forall>q j. objects s' q = Some j \<longrightarrow> q < fresh_object s' \<and> (item_idx j = this_idx s' \<longrightarrow> q \<in> ptr_item ` set (items_vector s'))"
    using assms(1) by (auto simp: cache_ok_def s' intro: less_SucI)
  moreover have "distinct (map ptr_item (items_vector s'))" "distinct (map ptr_primary_itr (items_vector s'))"
    using assms(1,4) p by (auto simp: cache_ok_def s'(2))
  ultimately show "cache_ok tb v s' T" unfolding cache_ok_def by blast
qed

lemma find_rev_Some: "List.find P (rev xs) = Some x \<Longrightarrow> x \<in> set xs \<and> P x"
  by (metis find_Some_iff nth_mem set_rev)

section \<open>Loading an object\<close>

lemma codec_get_row:
  assumes "table_def_ok tb ok view img valid" and "valid v"
  shows "\<exists>ds. get_row tb (ds_make (buffer_address tb (of_nat (length (img v)))) (of_nat (length (img v))) (img v)) = Inr (v, ds)"
proof -
  have c: "codec (put_row_size tb) (put_row tb) (get_row tb) img valid"
    and a: "addressable (buffer_address tb (of_nat (length (img v)))) (length (img v))"
    using assms by (simp_all add: table_def_ok_def)
  show ?thesis
    using dsr.readsD [OF codec.get_image [OF c assms(2)] ds_make_ok(1) [OF a], of "[]"] ds_make_ok(2) [OF a] by auto
qed

lemma load_object_ok:
  assumes t: "table_ok tb ok view img valid s T" and itr: "v_itr (view (host s)) itr = Some (table_key tb s, k)"
  shows "\<exists>p s'. load_object_by_primary_iterator tb itr s = Inr (p, s') \<and> table_ok tb ok view img valid s' T \<and>
    keeps s s' \<and> T k \<noteq> None \<and> points s' (Some p) (T k) \<and> host s' = host s \<and> next_primary_key s' = next_primary_key s"
proof (cases "List.find (\<lambda>ptr. ptr_primary_itr ptr = itr) (rev (items_vector s))")
  case (Some ptr)
  then have ptr: "ptr \<in> set (items_vector s)" "ptr_primary_itr ptr = itr" by (auto dest: find_rev_Some)
  then obtain i where i: "objects s (ptr_item ptr) = Some i" "item_idx i = this_idx s" "item_primary_itr i = itr" "item_ok tb (view (host s)) s T i"
    using t unfolding table_ok_def cache_ok_def by metis
  then have "T k = Some (item_value i)" using itr by (simp add: item_ok_def)
  then show ?thesis
    using t i Some by (auto simp: load_object_by_primary_iterator_def points_def)
next
  case None
  then have new: "itr \<notin> ptr_primary_itr ` set (items_vector s)" by (auto simp: find_None_iff)
  note st = t [unfolded table_ok_def]
  have "v_rows (view (host s)) (table_key tb s) k \<noteq> None"
    by (rule view_okD(2) [OF table_ok_simps(8) [OF t] itr])
  then obtain v where v: "T k = Some v" "v_rows (view (host s)) (table_key tb s) k = Some (img v)"
    "valid v" "primary_key tb v = k"
    using st by (fastforce simp: stored_def)
  have len: "length (img v) < 2 ^ 31"
    by (rule view_okD(7) [OF table_ok_simps(8) [OF t] v(2)])
  have get: "db_get_i64 (chain tb) itr l (host s) = Inr (if l = 0 then (of_nat (length (img v)), [])
      else (of_nat (min (unat l) (length (img v))), take (unat l) (img v)))" for l
    by (rule row_host.get_law [OF table_ok_simps(3,5) [OF t] itr v(2)])
  have sz: "unat (of_nat (length (img v)) :: u32) = length (img v)" using len by (simp add: unat_of_nat_small)
  have buffer: "snd (if of_nat (length (img v)) = (0 :: u32) then (of_nat (length (img v)) :: i32, [])
      else (of_nat (min (unat (of_nat (length (img v)) :: u32)) (length (img v))), take (unat (of_nat (length (img v)) :: u32)) (img v))) = img v"
    using sz by (auto simp: unat_eq_0 [symmetric] simp del: unat_eq_0)
  obtain ds where row: "get_row tb (ds_make (buffer_address tb (of_nat (length (img v)))) (of_nat (length (img v))) (img v)) = Inr (v, ds)"
    using codec_get_row [OF table_ok_simps(1) [OF t], of v] v(3) by blast
  have junk: "drop (length (img v)) (buffer_bytes tb (of_nat (length (img v)))) = []"
    using st sz by (simp add: table_def_ok_def)
  let ?i = "\<lparr>item_value = v, item_idx = this_idx s, item_primary_itr = itr, item_iters = replicate (length (extractors tb)) (- 1)\<rparr>"
  have "0 \<le> sint (of_nat (length (img v)) :: i32)" using len sz by (simp add: sint_unat_small)
  then have load: "load_object_by_primary_iterator tb itr s = Inr (cache_item tb ?i s)"
    using None row junk buffer sz
    by (auto simp: load_object_by_primary_iterator_def get bind_check Let_def split: if_splits)
  obtain p s' where s': "cache_item tb ?i s = (p, s')" by fastforce
  have item: "item_ok tb (view (host s)) s T ?i" using v itr by (simp add: item_ok_def)
  note c = cache_item_ok [OF _ item _ _ s']
  have "points s' (Some p) (T k)" using c(3,4) st new v(1) by (simp add: points_def)
  moreover have "table_ok tb ok view img valid s' T" using c st new by (simp add: table_ok_def stored_def)
  ultimately show ?thesis using load s' c st new v(1) by simp
qed

section \<open>Searching\<close>

text \<open>Every search asks the host for an iterator and loads the row that it finds.\<close>

lemma seek_and_load:
  assumes t: "table_ok tb ok view img valid s T" and seek: "seeks_row (chain tb) ok view (host s) (table_key tb s) target i h'"
  shows "target = None \<Longrightarrow> sint i < 0 \<and> table_ok tb ok view img valid (s\<lparr>host := h'\<rparr>) T \<and> looks (chain tb) view (host s) h'"
    and "target = Some k \<Longrightarrow> \<not> sint i < 0 \<and> (\<exists>p s'. load_object_by_primary_iterator tb i (s\<lparr>host := h'\<rparr>) = Inr (p, s') \<and>
      table_ok tb ok view img valid s' T \<and> keeps s s' \<and> points s' (Some p) (T k) \<and> T k \<noteq> None \<and>
      next_primary_key s' = next_primary_key s \<and> looks (chain tb) view (host s) (host s'))"
proof -
  have t': "table_ok tb ok view img valid (s\<lparr>host := h'\<rparr>) T"
    using table_ok_looks [OF t] seek by (simp add: seeks_row_def)
  then show "sint i < 0 \<and> table_ok tb ok view img valid (s\<lparr>host := h'\<rparr>) T \<and> looks (chain tb) view (host s) h'" if "target = None"
    using seek that by (simp add: seeks_row_def)
  show "\<not> sint i < 0 \<and> (\<exists>p s'. load_object_by_primary_iterator tb i (s\<lparr>host := h'\<rparr>) = Inr (p, s') \<and>
      table_ok tb ok view img valid s' T \<and> keeps s s' \<and> points s' (Some p) (T k) \<and> T k \<noteq> None \<and>
      next_primary_key s' = next_primary_key s \<and> looks (chain tb) view (host s) (host s'))" if "target = Some k"
  proof
    have i: "v_itr (view h') i = Some (table_key tb s, k)" using seek that by (simp add: seeks_row_def)
    then show "\<not> sint i < 0" using view_okD(1) [OF table_ok_simps(8) [OF t']] by (simp add: not_less)
    have i': "v_itr (view (host (s\<lparr>host := h'\<rparr>))) i = Some (table_key tb (s\<lparr>host := h'\<rparr>), k)" using i by simp
    obtain p s' where "load_object_by_primary_iterator tb i (s\<lparr>host := h'\<rparr>) = Inr (p, s')"
      "table_ok tb ok view img valid s' T" "keeps (s\<lparr>host := h'\<rparr>) s'" "points s' (Some p) (T k)" "T k \<noteq> None"
      "next_primary_key s' = next_primary_key (s\<lparr>host := h'\<rparr>)" "host s' = host (s\<lparr>host := h'\<rparr>)"
      using load_object_ok [OF t' i'] by blast
    moreover from this have "keeps s s'" "next_primary_key s' = next_primary_key s" "looks (chain tb) view (host s) (host s')"
      using seek by (simp_all add: seeks_row_def)
    ultimately show "\<exists>p s'. load_object_by_primary_iterator tb i (s\<lparr>host := h'\<rparr>) = Inr (p, s') \<and>
      table_ok tb ok view img valid s' T \<and> keeps s s' \<and> points s' (Some p) (T k) \<and> T k \<noteq> None \<and>
      next_primary_key s' = next_primary_key s \<and> looks (chain tb) view (host s) (host s')"
      by blast
  qed
qed

text \<open>The outcome of a search: the object under the target key, or the end.\<close>

definition lands :: "('t, 'k::linorder, 'h) table_def \<Rightarrow> ('h \<Rightarrow> bool) \<Rightarrow> ('h \<Rightarrow> 'k chain_view) \<Rightarrow> ('t \<Rightarrow> u8 list) \<Rightarrow> ('t \<Rightarrow> bool) \<Rightarrow> ('t, 'h) table \<Rightarrow> (u64 \<Rightarrow> 't option) \<Rightarrow> u64 option \<Rightarrow> (iterator \<times> ('t, 'h) table) res \<Rightarrow> bool" where
  "lands tb ok view img valid s T target r \<longleftrightarrow> (\<exists>it s'. r = Inr (it, s') \<and> table_ok tb ok view img valid s' T \<and>
     keeps s s' \<and> points s' it (Option.bind target T) \<and> (target = None \<or> Option.bind target T \<noteq> None) \<and>
     next_primary_key s' = next_primary_key s \<and> looks (chain tb) view (host s) (host s'))"

lemma lands_load:
  assumes "table_ok tb ok view img valid s T" and "seeks_row (chain tb) ok view (host s) (table_key tb s) target i h'"
  shows "lands tb ok view img valid s T target
    (if sint i < 0 then Inr (None, s\<lparr>host := h'\<rparr>)
     else bind_res (load_object_by_primary_iterator tb i (s\<lparr>host := h'\<rparr>)) (\<lambda>(obj, s). Inr (Some obj, s)))"
  using seek_and_load [OF assms] by (cases target) (fastforce simp: lands_def)+

lemma lower_bound_lands:
  assumes "table_ok tb ok view img valid s T"
  shows "lands tb ok view img valid s T (least_such (\<lambda>k. pk \<le> k) (dom T)) (lower_bound tb pk s)"
proof -
  obtain i h' where "db_lowerbound_i64 (chain tb) (name_value (code s)) (scope s) (table_name tb) pk (host s) = Inr (i, h')"
    "seeks_row (chain tb) ok view (host s) (table_key tb s) (least_such (\<lambda>k. pk \<le> k) (dom T)) i h'"
    using row_host.lowerbound_law [OF table_ok_simps(3,5) [OF assms]] table_ok_simps(7) [OF assms]
    unfolding table_key_def by metis
  then show ?thesis using lands_load [OF assms] by (simp add: lower_bound_def Let_def)
qed

lemma upper_bound_lands:
  assumes "table_ok tb ok view img valid s T"
  shows "lands tb ok view img valid s T (least_such (\<lambda>k. pk < k) (dom T)) (upper_bound tb pk s)"
proof -
  obtain i h' where "db_upperbound_i64 (chain tb) (name_value (code s)) (scope s) (table_name tb) pk (host s) = Inr (i, h')"
    "seeks_row (chain tb) ok view (host s) (table_key tb s) (least_such (\<lambda>k. pk < k) (dom T)) i h'"
    using row_host.upperbound_law [OF table_ok_simps(3,5) [OF assms]] table_ok_simps(7) [OF assms]
    unfolding table_key_def by metis
  then show ?thesis using lands_load [OF assms] by (simp add: upper_bound_def Let_def)
qed

lemma cbegin_lands:
  assumes "table_ok tb ok view img valid s T"
  shows "lands tb ok view img valid s T (least_such (\<lambda>_. True) (dom T)) (cbegin tb s)"
  using lower_bound_lands [OF assms, of 0] by (simp add: cbegin_def)

lemma iterator_next_lands:
  assumes t: "table_ok tb ok view img valid s T" and it: "points s it (Some v)"
  shows "lands tb ok view img valid s T (least_such (\<lambda>k. primary_key tb v < k) (dom T)) (iterator_next tb it s)"
proof -
  obtain i where i: "deref tb it s = Inr i" "v_itr (view (host s)) (item_primary_itr i) = Some (table_key tb s, primary_key tb v)"
    using points_row(2) [OF t it] by (auto simp: item_ok_def)
  obtain j q h' where "db_next_i64 (chain tb) (item_primary_itr i) (host s) = Inr (j, q, h')"
    "seeks_row (chain tb) ok view (host s) (table_key tb s) (least_such (\<lambda>k. primary_key tb v < k) (dom T)) j h'"
    using row_host.next_law [OF table_ok_simps(3,5) [OF t] i(2)] table_ok_simps(7) [OF t] by metis
  moreover have "it \<noteq> None" using it by (cases it) auto
  ultimately show ?thesis using lands_load [OF t] i(1) by (simp add: iterator_next_def bind_check Let_def)
qed

lemma iterator_next_end: "iterator_next tb None s = Inl (Assertion ''cannot increment end iterator'')"
  by (simp add: iterator_next_def bind_check)

lemma iterator_previous_lands:
  assumes t: "table_ok tb ok view img valid s T" and it: "points s it (Some v)"
  defines "target \<equiv> greatest_such (\<lambda>k. k < primary_key tb v) (dom T)"
  shows "if target = None then iterator_previous tb it s = Inl (Assertion ''cannot decrement iterator at beginning of table'')
    else lands tb ok view img valid s T target (iterator_previous tb it s)"
proof -
  obtain i where i: "deref tb it s = Inr i" "v_itr (view (host s)) (item_primary_itr i) = Some (table_key tb s, primary_key tb v)"
    using points_row(2) [OF t it] by (auto simp: item_ok_def)
  obtain j q h' where j: "db_previous_i64 (chain tb) (item_primary_itr i) (host s) = Inr (j, q, h')"
    "seeks_row (chain tb) ok view (host s) (table_key tb s) target j h'"
    using row_host.previous_law [OF table_ok_simps(3,5) [OF t] i(2)] table_ok_simps(7) [OF t]
    unfolding target_def by metis
  obtain p where "it = Some p" using it by (cases it) auto
  then show ?thesis
    using lands_load [OF t j(2)] seek_and_load [OF t j(2)] i(1) j(1)
    by (cases target) (auto simp: iterator_previous_def bind_check not_less split: if_splits)
qed

lemma iterator_previous_end_lands:
  assumes t: "table_ok tb ok view img valid s T"
  shows "if dom T = {} then iterator_previous tb cend s = Inl (Assertion ''cannot decrement end iterator when the table is empty'')
    else lands tb ok view img valid s T (greatest_such (\<lambda>_. True) (dom T)) (iterator_previous tb cend s)"
proof -
  let ?target = "greatest_such (\<lambda>_. True) (dom T)"
  obtain e h where e: "db_end_i64 (chain tb) (name_value (code s)) (scope s) (table_name tb) (host s) = Inr (e, h)"
    "ok h" "looks (chain tb) view (host s) h"
    "e = - 1 \<and> dom T = {} \<or> e \<noteq> - 1 \<and> v_end (view h) e = Some (table_key tb s)"
    using row_host.end_law [OF table_ok_simps(3,5) [OF t]] table_ok_simps(7) [OF t] unfolding table_key_def by metis
  have t': "table_ok tb ok view img valid (s\<lparr>host := h\<rparr>) T" by (rule table_ok_looks [OF t e(2,3)])
  show ?thesis
  proof (cases "e = - 1")
    case True
    then show ?thesis using e by (auto simp: iterator_previous_def cend_def bind_check)
  next
    case False
    then obtain j q h' where j: "db_previous_i64 (chain tb) e h = Inr (j, q, h')"
      "seeks_row (chain tb) ok view h (table_key tb s) ?target j h'"
      using row_host.last_law [OF table_ok_simps(3,5) [OF t']] table_ok_simps(7) [OF t'] e(4) by simp metis
    have "seeks_row (chain tb) ok view (host (s\<lparr>host := h\<rparr>)) (table_key tb (s\<lparr>host := h\<rparr>)) ?target j h'"
      using j(2) by simp
    note l = lands_load [OF t' this] seek_and_load [OF t' this]
    show ?thesis
      using l e(1) j(1) False looks_trans [OF e(3)]
      by (cases ?target) (auto simp: iterator_previous_def cend_def bind_check not_less lands_def split: if_splits)
  qed
qed

text \<open>A lookup first goes through the cache, from its end.\<close>

lemma cached_entry:
  assumes t: "table_ok tb ok view img valid s T" and "cached tb pk s = Some ptr"
  shows "\<exists>v. T pk = Some v \<and> points s (Some (ptr_item ptr)) (Some v) \<and> iterator_to tb (ptr_item ptr) s = Inr (Some (ptr_item ptr))"
proof -
  have ptr: "ptr \<in> set (items_vector s)" "cached_key tb s ptr = Some pk"
    using assms(2) by (auto simp: cached_def dest: find_rev_Some)
  then obtain i where i: "objects s (ptr_item ptr) = Some i" "item_idx i = this_idx s" "item_ok tb (view (host s)) s T i"
    using t unfolding table_ok_def cache_ok_def by blast
  then show ?thesis
    using ptr(2) by (auto simp: cached_key_def item_ok_def points_def iterator_to_def deref_def bind_check)
qed

lemma cached_None:
  assumes "cached tb pk s = None" and "ptr \<in> set (items_vector s)" and "objects s (ptr_item ptr) = Some i"
  shows "primary_key tb (item_value i) \<noteq> pk"
  using assms by (auto simp: cached_def find_None_iff cached_key_def)

lemma least_such_eq: "least_such (\<lambda>k. k = p) (dom T) = (if p \<in> dom T then Some p else None)"
proof -
  have "{k \<in> dom T. k = p} = (if p \<in> dom T then {p} else {})" by auto
  then show ?thesis by (auto simp: least_such_def)
qed

lemma points_iterator_to:
  "points s (Some p) (Some v) \<Longrightarrow> iterator_to tb p s = Inr (Some p)"
  by (auto simp: points_def iterator_to_def deref_def bind_check)

lemma lookup_outcome:
  assumes t: "table_ok tb ok view img valid s T" and none: "cached tb pk s = None"
  shows "\<exists>i h'. db_find_i64 (chain tb) (name_value (code s)) (scope s) (table_name tb) pk (host s) = Inr (i, h') \<and>
    (if T pk = None then sint i < 0 \<and> table_ok tb ok view img valid (s\<lparr>host := h'\<rparr>) T \<and> looks (chain tb) view (host s) h'
     else \<not> sint i < 0 \<and> (\<exists>p s'. load_object_by_primary_iterator tb i (s\<lparr>host := h'\<rparr>) = Inr (p, s') \<and>
       table_ok tb ok view img valid s' T \<and> keeps s s' \<and> points s' (Some p) (T pk) \<and> next_primary_key s' = next_primary_key s \<and> looks (chain tb) view (host s) (host s')))"
proof -
  obtain i h' where i: "db_find_i64 (chain tb) (name_value (code s)) (scope s) (table_name tb) pk (host s) = Inr (i, h')"
    "seeks_row (chain tb) ok view (host s) (table_key tb s) (least_such (\<lambda>k. k = pk) (dom T)) i h'"
    using row_host.find_law [OF table_ok_simps(3,5) [OF t]] table_ok_simps(7) [OF t] unfolding table_key_def by metis
  have sk: "seeks_row (chain tb) ok view (host s) (table_key tb s) (if T pk = None then None else Some pk) i h'"
    using i(2) by (simp add: least_such_eq domIff split: if_splits)
  show ?thesis
  proof (cases "T pk")
    case None
    then show ?thesis using i(1) seek_and_load(1) [OF t sk] by simp
  next
    case (Some v)
    then show ?thesis using i(1) seek_and_load(2) [OF t sk, of pk] by simp
  qed
qed

lemma table_find_lands:
  assumes t: "table_ok tb ok view img valid s T"
  shows "\<exists>it s'. table_find tb pk s = Inr (it, s') \<and> table_ok tb ok view img valid s' T \<and> keeps s s' \<and>
    points s' it (T pk) \<and> next_primary_key s' = next_primary_key s \<and> looks (chain tb) view (host s) (host s')"
proof (cases "cached tb pk s")
  case (Some ptr)
  then show ?thesis using cached_entry [OF t Some] t by (auto simp: table_find_def)
next
  case none: None
  obtain i h' where i: "db_find_i64 (chain tb) (name_value (code s)) (scope s) (table_name tb) pk (host s) = Inr (i, h')"
    "if T pk = None then sint i < 0 \<and> table_ok tb ok view img valid (s\<lparr>host := h'\<rparr>) T \<and> looks (chain tb) view (host s) h'
     else \<not> sint i < 0 \<and> (\<exists>p s'. load_object_by_primary_iterator tb i (s\<lparr>host := h'\<rparr>) = Inr (p, s') \<and>
       table_ok tb ok view img valid s' T \<and> keeps s s' \<and> points s' (Some p) (T pk) \<and> next_primary_key s' = next_primary_key s \<and> looks (chain tb) view (host s) (host s'))"
    using lookup_outcome [OF t none] by blast
  show ?thesis
  proof (cases "T pk")
    case None
    then show ?thesis using i none by (simp add: table_find_def cend_def Let_def)
  next
    case (Some v)
    then obtain p s' where "\<not> sint i < 0" "load_object_by_primary_iterator tb i (s\<lparr>host := h'\<rparr>) = Inr (p, s')"
      "table_ok tb ok view img valid s' T" "keeps s s'" "points s' (Some p) (T pk)" "next_primary_key s' = next_primary_key s"
      "looks (chain tb) view (host s) (host s')"
      using i(2) by auto
    then show ?thesis using i(1) none Some points_iterator_to [of s' p v tb] by (simp add: table_find_def Let_def)
  qed
qed

lemma table_get_lands:
  assumes t: "table_ok tb ok view img valid s T"
  shows "case T pk of None \<Rightarrow> table_get tb pk msg s = Inl (Assertion msg)
    | Some v \<Rightarrow> \<exists>p s'. table_get tb pk msg s = Inr (p, s') \<and> table_ok tb ok view img valid s' T \<and> keeps s s' \<and> points s' (Some p) (Some v)"
proof -
  obtain it s' where "table_find tb pk s = Inr (it, s')" "table_ok tb ok view img valid s' T" "keeps s s'" "points s' it (T pk)"
    using table_find_lands [OF t] by blast
  then show ?thesis
    by (cases "T pk"; cases it) (simp_all add: table_get_def iterator_neq_def cend_def bind_check)
qed

lemma require_find_lands:
  assumes t: "table_ok tb ok view img valid s T"
  shows "case T pk of None \<Rightarrow> require_find tb pk msg s = Inl (Assertion msg)
    | Some v \<Rightarrow> \<exists>it s'. require_find tb pk msg s = Inr (it, s') \<and> table_ok tb ok view img valid s' T \<and> keeps s s' \<and> points s' it (Some v)"
proof (cases "cached tb pk s")
  case (Some ptr)
  then show ?thesis using cached_entry [OF t Some] t by (auto simp: require_find_def)
next
  case none: None
  obtain i h' where i: "db_find_i64 (chain tb) (name_value (code s)) (scope s) (table_name tb) pk (host s) = Inr (i, h')"
    "if T pk = None then sint i < 0 \<and> table_ok tb ok view img valid (s\<lparr>host := h'\<rparr>) T \<and> looks (chain tb) view (host s) h'
     else \<not> sint i < 0 \<and> (\<exists>p s'. load_object_by_primary_iterator tb i (s\<lparr>host := h'\<rparr>) = Inr (p, s') \<and>
       table_ok tb ok view img valid s' T \<and> keeps s s' \<and> points s' (Some p) (T pk) \<and> next_primary_key s' = next_primary_key s \<and> looks (chain tb) view (host s) (host s'))"
    using lookup_outcome [OF t none] by blast
  show ?thesis
  proof (cases "T pk")
    case None
    then show ?thesis using i none by (simp add: require_find_def bind_check)
  next
    case (Some v)
    then obtain p s' where "\<not> sint i < 0" "load_object_by_primary_iterator tb i (s\<lparr>host := h'\<rparr>) = Inr (p, s')"
      "table_ok tb ok view img valid s' T" "keeps s s'" "points s' (Some p) (T pk)"
      using i(2) by auto
    then show ?thesis using i(1) none Some points_iterator_to [of s' p v tb] by (simp add: require_find_def bind_check)
  qed
qed

section \<open>The next primary key\<close>

lemma table_ok_next:
  assumes "table_ok tb ok view img valid s T" and "next_ok n T"
  shows "table_ok tb ok view img valid (s\<lparr>next_primary_key := n\<rparr>) T"
proof -
  have "item_ok tb v (s\<lparr>next_primary_key := n\<rparr>) T i = item_ok tb v s T i" for v i
    by (simp add: item_ok_def)
  then show ?thesis using assms by (simp add: table_ok_def stored_def cache_ok_def)
qed

lemma keeps_next [simp]: "keeps s (t\<lparr>next_primary_key := n\<rparr>) = keeps s t"
  by (simp add: keeps_def)

lemma key_after_next:
  assumes "\<forall>k \<in> dom T. k \<le> pk"
  shows "next_ok (key_after pk) T" and "key_after pk < no_available_primary_key \<Longrightarrow> \<forall>k \<in> dom T. k < key_after pk"
    and "\<not> key_after pk < no_available_primary_key \<Longrightarrow> - 3 \<le> pk"
proof -
  have lt: "pk < no_available_primary_key \<Longrightarrow> unat (pk + 1) = unat pk + 1"
    by (simp add: no_available_primary_key_def unat_word_ariths word_less_nat_alt)
  then have after: "pk < no_available_primary_key \<Longrightarrow> \<forall>k \<in> dom T. k < pk + 1"
    using assms by (fastforce simp: word_less_nat_alt word_le_nat_alt less_Suc_eq_le)
  then show "next_ok (key_after pk) T" "key_after pk < no_available_primary_key \<Longrightarrow> \<forall>k \<in> dom T. k < key_after pk"
    by (auto simp: next_ok_def key_after_def not_le split: if_splits)
  have "unat (- 3 :: u64) = 18446744073709551613" "unat (- 2 :: u64) = 18446744073709551614" by simp_all
  then show "- 3 \<le> pk" if "\<not> key_after pk < no_available_primary_key"
    using that lt by (auto simp: key_after_def not_le not_less word_le_nat_alt word_less_nat_alt no_available_primary_key_def split: if_splits)
qed

lemma next_key_tags: "\<not> n < no_available_primary_key \<longleftrightarrow> n = no_available_primary_key \<or> n = unset_next_primary_key"
proof -
  have "unat (- 2 :: u64) = 18446744073709551614" "unat (- 1 :: u64) = 18446744073709551615"
    by (simp_all add: unsigned_minus_1_eq_mask mask_eq_exp_minus_1)
  then show ?thesis
    using unat_less [of n]
    by (auto simp: no_available_primary_key_def unset_next_primary_key_def word_less_nat_alt word_unat_eq_iff)
qed

lemma available_primary_key_outcome:
  assumes t: "table_ok tb ok view img valid s T"
  shows "(\<exists>k s'. available_primary_key tb s = Inr (k, s') \<and> table_ok tb ok view img valid s' T \<and> keeps s s' \<and>
      next_primary_key s' = k \<and> (\<forall>q \<in> dom T. q < k)) \<or>
    available_primary_key tb s = Inl (Assertion ''next primary key in table is at autoincrement limit'') \<and>
      (next_primary_key s = no_available_primary_key \<or> (\<exists>q \<in> dom T. - 3 \<le> q))"
proof (cases "next_primary_key s = unset_next_primary_key")
  case False
  then have "next_primary_key s = no_available_primary_key \<or> (\<forall>q \<in> dom T. q < next_primary_key s)"
    using t by (auto simp: table_ok_def next_ok_def)
  then show ?thesis
    using t False next_key_tags [of "next_primary_key s"] by (auto simp: available_primary_key_def bind_check)
next
  case True
  obtain b s1 where b: "cbegin tb s = Inr (b, s1)" "table_ok tb ok view img valid s1 T" "keeps s s1"
    "b = None \<longleftrightarrow> least_such (\<lambda>_. True) (dom T) = None"
    using cbegin_lands [OF t] points_end unfolding lands_def by (metis Option.bind.simps(1))
  then have b_end: "b = None \<longleftrightarrow> dom T = {}" by auto
  show ?thesis
  proof (cases "dom T = {}")
    case empty: True
    then have "table_ok tb ok view img valid (s1\<lparr>next_primary_key := 0\<rparr>) T"
      using table_ok_next [OF b(2)] by (simp add: next_ok_def)
    moreover have "(0 :: u64) < - 2" by (simp add: word_less_nat_alt)
    ultimately show ?thesis using True b(1-3) b_end empty
      by (simp add: available_primary_key_def iterator_eq_def cend_def bind_check no_available_primary_key_def)
  next
    case False
    then obtain it s2 where it: "iterator_previous tb cend s1 = Inr (it, s2)" "table_ok tb ok view img valid s2 T" "keeps s1 s2"
      "points s2 it (Option.bind (greatest_such (\<lambda>_. True) (dom T)) T)"
      using iterator_previous_end_lands [OF b(2)] by (auto simp: lands_def)
    obtain m where m: "greatest_such (\<lambda>_. True) (dom T) = Some m"
      using False by (metis equals0I greatest_such_None not_None_eq)
    then have top: "m \<in> dom T" "\<forall>q \<in> dom T. q \<le> m" by (simp_all add: greatest_such_Some)
    then obtain v where v: "T m = Some v" "points s2 it (Some v)" "primary_key tb v = m"
      using it(4) m t by (auto simp: table_ok_def stored_def)
    obtain i where i: "deref tb it s2 = Inr i" "item_value i = v" using points_deref [OF v(2)] by blast
    note ka = key_after_next [OF top(2)]
    have "available_primary_key tb s = (if key_after m < no_available_primary_key
        then Inr (key_after m, s2\<lparr>next_primary_key := key_after m\<rparr>)
        else Inl (Assertion ''next primary key in table is at autoincrement limit''))"
      using True b(1) b_end False it(1) i v(3) by (auto simp: available_primary_key_def iterator_eq_def cend_def bind_check)
    moreover have "table_ok tb ok view img valid (s2\<lparr>next_primary_key := key_after m\<rparr>) T"
      by (rule table_ok_next [OF it(2) ka(1)])
    ultimately show ?thesis using keeps_trans [OF b(3) it(3)] ka(2,3) top(1) by auto
  qed
qed

section \<open>Changing the table\<close>

lemma row_bytes_image:
  assumes "table_def_ok tb ok view img valid" and "valid v"
  shows "row_bytes tb v = Inr (img v)"
proof -
  have c: "codec (put_row_size tb) (put_row tb) (get_row tb) img valid"
    and a: "addressable (buffer_address tb (of_nat (length (img v)))) (length (img v))"
    and junk: "\<forall>n. length (buffer_bytes tb n) = unat n"
    using assms by (simp_all add: table_def_ok_def)
  let ?n = "of_nat (length (img v)) :: u32"
  let ?ds = "ds_make (buffer_address tb ?n) ?n (buffer_bytes tb ?n)"
  have len: "length (img v) < 2 ^ 31" and un: "unat ?n = length (img v)"
    using a by (auto simp: addressable_def unat_of_nat_small)
  then have n: "length (buffer_bytes tb ?n) = length (img v)" using junk by simp
  have ds: "ds_ok ?ds" "ds_view ?ds = buffer_bytes tb ?n" "ds_done ?ds = []"
    using ds_make_ok [of "buffer_address tb ?n" "buffer_bytes tb ?n"] a n by simp_all
  have "put_row tb v ?ds = Inr ((ds_adv (length (img v)) ?ds)\<lparr>ds_buf := img v\<rparr>)"
    using dsw.writesD [OF codec.put_image [OF c assms(2)] ds(1) len] ds_write_law [OF ds(1) len] ds(2,3) n by simp
  then show ?thesis
    using codec.pack_size_image [OF c assms(2) len] by (simp add: row_bytes_def)
qed

text \<open>The names of the index tables of one table differ from each other.\<close>

lemma index_table_name_inject:
  assumes "m < 16" and "n < 16" and "index_table_name t m = index_table_name t n"
  shows "m = n"
proof -
  have "unat (take_bit 4 (index_table_name t k)) = k" if "k < 16" for k
  proof -
    have "take_bit 4 (index_table_name t k) = take_bit 4 (of_nat k)"
      by (simp add: index_table_name_def take_bit_eq_mask mask_eq_exp_minus_1 bit.conj_disj_distrib2 and.assoc)
    then show ?thesis using that by (simp add: unsigned_take_bit_eq unat_of_nat take_bit_nat_eq_self)
  qed
  then show ?thesis using assms by metis
qed

text \<open>
  A change of the associations of one primary key in the index tables \<open>tab n\<close>, for \<open>n\<close> in \<open>N\<close>:
  everything else stays, and so do the iterators to all other associations.
\<close>

definition keys_step :: "('k, 'h) chain \<Rightarrow> ('h \<Rightarrow> bool) \<Rightarrow> ('h \<Rightarrow> 'k chain_view) \<Rightarrow> (nat \<Rightarrow> table_id) \<Rightarrow> u64 \<Rightarrow> nat set \<Rightarrow> (nat \<Rightarrow> 'k option) \<Rightarrow> 'h \<Rightarrow> 'h \<Rightarrow> bool" where
  "keys_step C ok view tab pk N val h h' \<longleftrightarrow> ok h' \<and> receiver C h' = receiver C h \<and>
     v_rows (view h') = v_rows (view h) \<and> v_itr (view h) \<subseteq>\<^sub>m v_itr (view h') \<and>
     (\<forall>n \<in> N. v_keys (view h') (tab n) = (v_keys (view h) (tab n))(pk := val n)) \<and>
     (\<forall>t. t \<notin> tab ` N \<longrightarrow> v_keys (view h') t = v_keys (view h) t) \<and>
     (\<forall>i t p. v_key_itr (view h) i = Some (t, p) \<and> (p \<noteq> pk \<or> t \<notin> tab ` N) \<longrightarrow> v_key_itr (view h') i = Some (t, p))"

lemma keys_step_refl: "ok h \<Longrightarrow> keys_step C ok view tab pk {} val h h"
  by (simp add: keys_step_def)

lemma keys_step_trans:
  assumes "keys_step C ok view tab pk N val h h1" and "keys_step C ok view tab pk M val h1 h2"
    and "inj_on tab (N \<union> M)" and "N \<inter> M = {}"
  shows "keys_step C ok view tab pk (N \<union> M) val h h2"
proof -
  have apart: "tab n \<notin> tab ` M" if "n \<in> N" for n using assms(3,4) that by (auto dest: inj_onD)
  have apart': "tab n \<notin> tab ` N" if "n \<in> M" for n using assms(3,4) that by (auto dest: inj_onD)
  have "v_itr (view h) \<subseteq>\<^sub>m v_itr (view h2)"
    using assms(1,2) map_le_trans unfolding keys_step_def by blast
  moreover have "v_keys (view h2) (tab n) = (v_keys (view h) (tab n))(pk := val n)" if "n \<in> N \<union> M" for n
    using assms(1,2) apart [of n] apart' [of n] that unfolding keys_step_def by (metis Un_iff)
  moreover have "v_keys (view h2) t = v_keys (view h) t" if "t \<notin> tab ` (N \<union> M)" for t
    using assms(1,2) that unfolding keys_step_def image_Un by (metis Un_iff)
  moreover have "v_key_itr (view h2) i = Some (t, p)"
    if "v_key_itr (view h) i = Some (t, p)" "p \<noteq> pk \<or> t \<notin> tab ` (N \<union> M)" for i t p
    using assms(1,2) that unfolding keys_step_def image_Un by (metis Un_iff)
  ultimately show ?thesis using assms(1,2) by (simp add: keys_step_def)
qed

lemma keys_step_change:
  "keys_change C ok view h (tab n) pk (val n) h' \<Longrightarrow> v_key_itr (view h) \<subseteq>\<^sub>m v_key_itr (view h') \<Longrightarrow>
   keys_step C ok view tab pk {n} val h h'"
  by (auto simp: keys_change_def keys_step_def intro: map_le_Some)

lemma keys_step_looks:
  "looks C view h h' \<Longrightarrow> ok h' \<Longrightarrow> keys_step C ok view tab pk {} val h h'"
  by (auto simp: looks_def keys_step_def intro: map_le_Some)

definition index_tab :: "('t, 'k, 'h) table_def \<Rightarrow> u64 \<Rightarrow> u64 \<Rightarrow> nat \<Rightarrow> table_id" where
  "index_tab tb c sc n = (c, sc, index_table_name (table_name tb) n)"

lemma inj_index_tab: "N \<subseteq> {..<16} \<Longrightarrow> inj_on (index_tab tb c sc) N"
  by (rule inj_onI) (auto simp: index_tab_def intro: index_table_name_inject)

lemma interval_insert: "{n} \<union> {Suc n..<Suc (n + k)} = {n..<Suc (n + k)}" "{n} \<inter> {Suc n..<m} = {}"
  by auto

lemma store_keys_ok:
  assumes "key_host (chain tb) ok view"
  shows "store_keys tb sc payer pk obj n fs h = Inr (is, h') \<Longrightarrow> ok h \<Longrightarrow> receiver (chain tb) h = c \<Longrightarrow> n + length fs \<le> 16 \<Longrightarrow>
    keys_step (chain tb) ok view (index_tab tb c sc) pk {n..<n + length fs} (\<lambda>j. Some ((fs ! (j - n)) obj)) h h' \<and>
    v_key_itr (view h) \<subseteq>\<^sub>m v_key_itr (view h') \<and> length is = length fs \<and>
    (\<forall>j < length fs. v_key_itr (view h') (is ! j) = Some (index_tab tb c sc (n + j), pk))"
proof (induction fs arbitrary: n h "is")
  case Nil
  then show ?case by (simp add: keys_step_refl)
next
  case (Cons f fs)
  let ?val = "\<lambda>j. Some (((f # fs) ! (j - n)) obj)"
  obtain i h1 is' where 1: "db_idx_store (chain tb) sc (index_table_name (table_name tb) n) payer pk (f obj) h = Inr (i, h1)"
    "store_keys tb sc payer pk obj (n + 1) fs h1 = Inr (is', h')" "is = i # is'"
    using Cons.prems(1) by (auto simp: bind_res_eq_Inr)
  have ch: "keys_change (chain tb) ok view h (index_tab tb c sc n) pk (?val n) h1" "v_key_itr (view h) \<subseteq>\<^sub>m v_key_itr (view h1)"
    "v_key_itr (view h1) i = Some (index_tab tb c sc n, pk)"
    using key_host.key_store_law [OF assms Cons.prems(2) 1(1)] Cons.prems(3) by (auto simp: index_tab_def)
  then have h1: "ok h1" "receiver (chain tb) h1 = c" using Cons.prems(3) by (auto simp: keys_change_def)
  note IH = Cons.IH [OF 1(2) h1]
  have "keys_step (chain tb) ok view (index_tab tb c sc) pk {Suc n..<Suc (n + length fs)} (\<lambda>j. Some ((fs ! (j - Suc n)) obj)) h1 h'"
    using IH Cons.prems(4) by simp
  then have "keys_step (chain tb) ok view (index_tab tb c sc) pk {Suc n..<Suc (n + length fs)} ?val h1 h'"
    by (simp add: keys_step_def nth_Cons')
  moreover have "keys_step (chain tb) ok view (index_tab tb c sc) pk {n} ?val h h1"
    by (rule keys_step_change) (use ch in simp_all)
  moreover have "inj_on (index_tab tb c sc) ({n} \<union> {Suc n..<Suc (n + length fs)})"
    using Cons.prems(4) by (intro inj_index_tab) auto
  ultimately have "keys_step (chain tb) ok view (index_tab tb c sc) pk {n..<Suc (n + length fs)} ?val h h'"
    using keys_step_trans interval_insert by metis
  moreover have "v_key_itr (view h') i = Some (index_tab tb c sc n, pk)"
    using IH Cons.prems(4) ch(3) by (auto intro: map_le_Some)
  ultimately show ?case
    using IH Cons.prems(4) ch(2) 1(3) by (auto simp: nth_Cons' intro: map_le_trans)
qed

lemma stored_update:
  assumes "stored tb img valid v s T"
    and "v_rows v' (table_key tb s) = (v_rows v (table_key tb s))(pk := map_option img x)"
    and "\<forall>n < length (extractors tb). v_keys v' (index_key tb s n) = (v_keys v (index_key tb s n))(pk := map_option (extractors tb ! n) x)"
    and "\<And>obj. x = Some obj \<Longrightarrow> valid obj \<and> primary_key tb obj = pk"
  shows "stored tb img valid v' s (T(pk := x))"
  using assms by (auto simp: stored_def)

lemma stored_cong: "table_key tb s' = table_key tb s \<Longrightarrow> \<forall>n. index_key tb s' n = index_key tb s n \<Longrightarrow>
   stored tb img valid v s' T = stored tb img valid v s T"
  by (simp add: stored_def)

lemma item_ok_other:
  "item_ok tb v s T i \<Longrightarrow> primary_key tb (item_value i) \<noteq> pk \<Longrightarrow> item_ok tb v s (T(pk := x)) i"
  by (simp add: item_ok_def)

lemma index_tab_key: "index_tab tb (name_value (code s)) (scope s) n = index_key tb s n"
  by (simp add: index_tab_def index_key_def)

lemma bump_simps [simp]:
  "table_key tb (bump_primary_key pk s) = table_key tb s" "index_key tb (bump_primary_key pk s) n = index_key tb s n"
  "items_vector (bump_primary_key pk s) = items_vector s" "objects (bump_primary_key pk s) = objects s"
  "this_idx (bump_primary_key pk s) = this_idx s" "code (bump_primary_key pk s) = code s"
  "scope (bump_primary_key pk s) = scope s" "fresh_object (bump_primary_key pk s) = fresh_object s"
  "item_ok tb v (bump_primary_key pk s) T i = item_ok tb v s T i" "destroyed (bump_primary_key pk s) = destroyed s"
  by (simp_all add: bump_primary_key_def item_ok_def)

lemma bump_next_ok:
  assumes "next_ok (next_primary_key s) T"
  shows "next_ok (next_primary_key (bump_primary_key pk s)) (T(pk \<mapsto> obj))"
proof (cases "pk \<ge> next_primary_key s")
  case True
  have "\<forall>k \<in> dom T. k \<le> pk" if "\<not> pk \<ge> no_available_primary_key"
  proof -
    have "next_primary_key s \<noteq> no_available_primary_key" "next_primary_key s \<noteq> unset_next_primary_key"
      using True that next_key_tags by (metis not_less order.trans)+
    then show ?thesis using assms True by (auto simp: next_ok_def dest: bspec)
  qed
  then show ?thesis
    using True key_after_next(1) [of "T(pk \<mapsto> obj)" pk]
    by (cases "pk \<ge> no_available_primary_key") (auto simp: bump_primary_key_def next_ok_def key_after_def)
next
  case False
  then show ?thesis using assms by (auto simp: bump_primary_key_def next_ok_def not_le)
qed

lemma emplace_ok:
  assumes t: "table_ok tb ok view img valid s T" and con: "constructor (row_default tb) = Inr obj" "valid obj"
    and r: "emplace tb payer constructor s = Inr (it, s')"
  shows "T (primary_key tb obj) = None" "table_ok tb ok view img valid s' (T(primary_key tb obj \<mapsto> obj))"
    "keeps s s'" "points s' it (Some obj)"
proof -
  let ?pk = "primary_key tb obj" and ?C = "chain tb" and ?c = "name_value (code s)"
  obtain itr h1 iters h2 p where c: "?c = receiver ?C (host s)"
    and st: "db_store_i64 ?C (scope s) (table_name tb) (name_value payer) ?pk (img obj) (host s) = Inr (itr, h1)"
    and ks: "store_keys tb (scope s) (name_value payer) ?pk obj 0 (extractors tb) h1 = Inr (iters, h2)"
    and ci: "cache_item tb \<lparr>item_value = obj, item_idx = this_idx s, item_primary_itr = itr, item_iters = iters\<rparr>
        ((bump_primary_key ?pk s)\<lparr>host := h2\<rparr>) = (p, s')" "it = Some p"
    using r con row_bytes_image [OF table_ok_simps(1) [OF t] con(2)]
    by (fastforce simp: emplace_def bind_check bind_res_eq_Inr Let_def case_prod_unfold intro: prod_eqI split: if_splits)
  let ?i = "\<lparr>item_value = obj, item_idx = this_idx s, item_primary_itr = itr, item_iters = iters\<rparr>"
  let ?s = "(bump_primary_key ?pk s)\<lparr>host := h2\<rparr>" and ?T = "T(?pk \<mapsto> obj)"
  have stored: "stored tb img valid (view (host s)) s T" and cache: "cache_ok tb (view (host s)) s T"
    and nxt: "next_ok (next_primary_key s) T" and len: "length (extractors tb) \<le> 16"
    using t by (simp_all add: table_ok_def table_def_ok_def)
  have 1: "v_rows (view (host s)) (table_key tb s) ?pk = None"
    "rows_change ?C ok view (host s) (table_key tb s) ?pk (Some (img obj)) h1"
    "v_itr (view (host s)) \<subseteq>\<^sub>m v_itr (view h1)" "v_itr (view h1) itr = Some (table_key tb s, ?pk)"
    using row_host.store_law [OF table_ok_simps(3,5) [OF t] st] c by (simp_all add: table_key_def)
  then have h1: "ok h1" "receiver ?C h1 = ?c" using c by (simp_all add: rows_change_def)
  have 2: "keys_step ?C ok view (index_tab tb ?c (scope s)) ?pk {0..<length (extractors tb)} (\<lambda>j. Some ((extractors tb ! j) obj)) h1 h2"
    "v_key_itr (view h1) \<subseteq>\<^sub>m v_key_itr (view h2)" "length iters = length (extractors tb)"
    "\<forall>j < length (extractors tb). v_key_itr (view h2) (iters ! j) = Some (index_key tb s j, ?pk)"
    using store_keys_ok [OF table_ok_simps(4) [OF t] ks h1] len by (simp_all add: index_tab_key)
  show new: "T ?pk = None" using 1(1) stored by (simp add: stored_def)
  have itr2: "v_itr (view (host s)) \<subseteq>\<^sub>m v_itr (view h2)" "v_key_itr (view (host s)) \<subseteq>\<^sub>m v_key_itr (view h2)"
    using 1(2,3) 2(1,2) map_le_trans unfolding keys_step_def rows_change_def by blast+
  have old: "item_ok tb (view h2) s ?T j" if "item_ok tb (view (host s)) s T j" for j
    using item_ok_other [OF item_ok_mono [OF that itr2], of ?pk] that new by (auto simp: item_ok_def)
  have cache2: "cache_ok tb (view h2) ?s ?T"
    using cache old by (fastforce simp: cache_ok_def)
  have "v_itr (view h2) itr = Some (table_key tb s, ?pk)"
    using 1(4) 2(1) by (auto simp: keys_step_def intro: map_le_Some)
  then have item: "item_ok tb (view h2) ?s ?T ?i" using 2(3,4) by (simp add: item_ok_def)
  have "itr \<notin> ptr_primary_itr ` set (items_vector ?s)"
  proof
    assume "itr \<in> ptr_primary_itr ` set (items_vector ?s)"
    then obtain j where j: "item_ok tb (view (host s)) s T j" "item_primary_itr j = itr"
      using cache by (auto simp: cache_ok_def)
    then have "v_itr (view h1) itr = Some (table_key tb s, primary_key tb (item_value j))"
      using 1(3) by (auto simp: item_ok_def intro: map_le_Some)
    then show False using 1(4) j(1) new by (simp add: item_ok_def)
  qed
  note ci' = cache_item_ok [OF cache2 item _ _ ci(1)]
  have "stored tb img valid (view h2) s ?T"
    using 1(2) 2(1) con(2) by (intro stored_update [OF stored]) (auto simp: rows_change_def keys_step_def index_tab_key)
  moreover have "ok h2" using 2(1) by (simp add: keys_step_def)
  ultimately show "table_ok tb ok view img valid s' ?T"
    using ci' \<open>itr \<notin> _\<close> bump_next_ok [OF nxt] table_ok_simps(1) [OF t]
    by (simp add: table_ok_def stored_cong [of tb s' s])
  show "keeps s s'" using ci'(2) \<open>itr \<notin> _\<close> by (simp add: keeps_def bump_primary_key_def split: if_splits)
  show "points s' it (Some obj)" using ci'(3,4) \<open>itr \<notin> _\<close> ci(2) by (simp add: points_def)
qed

text \<open>The iterators that an item keeps into the index tables.\<close>

definition iters_ok :: "'k chain_view \<Rightarrow> (nat \<Rightarrow> table_id) \<Rightarrow> u64 \<Rightarrow> i32 list \<Rightarrow> bool" where
  "iters_ok v tab pk iters \<longleftrightarrow> (\<forall>j < length iters. iters ! j \<noteq> - 1 \<longrightarrow> v_key_itr v (iters ! j) = Some (tab j, pk))"

lemma iters_ok_mono: "iters_ok v tab pk iters \<Longrightarrow> v_key_itr v \<subseteq>\<^sub>m v_key_itr v' \<Longrightarrow> iters_ok v' tab pk iters"
  by (auto simp: iters_ok_def intro: map_le_Some)

lemma iters_ok_set: "iters_ok v tab pk iters \<Longrightarrow> v_key_itr v i = Some (tab n, pk) \<Longrightarrow> iters_ok v tab pk (iters[n := i])"
  by (auto simp: iters_ok_def) (metis nth_list_update_eq nth_list_update_neq)

lemma known_iter_ok:
  assumes "key_host C ok view" and "ok h" and "v_keys (view h) (c, sc, tn) pk = Some k" and "tab n = (c, sc, tn)"
    and "iters_ok (view h) tab pk iters" and "n < length iters"
  shows "\<exists>iters' h'. known_iter C c sc tn pk n iters h = Inr (iters', h') \<and> ok h' \<and> looks C view h h' \<and>
    iters_ok (view h') tab pk iters' \<and> length iters' = length iters \<and> v_key_itr (view h') (iters' ! n) = Some (tab n, pk)"
proof (cases "sint (iters ! n) < 0")
  case True
  obtain i h' where "db_idx_find_primary C c sc tn pk h = Inr (i, h')" "ok h'" "looks C view h h'" "v_key_itr (view h') i = Some (tab n, pk)"
    using key_host.find_primary_law [OF assms(1,2), of c sc tn pk] assms(3,4) by (auto simp: seeks_key_def)
  moreover from this have "iters_ok (view h') tab pk (iters[n := i])"
    by (intro iters_ok_set iters_ok_mono [OF assms(5)]) (simp_all add: looks_def)
  ultimately show ?thesis using True assms(6) by (simp add: known_iter_def)
next
  case False
  then have "v_key_itr (view h) (iters ! n) = Some (tab n, pk)" using assms(5,6) by (auto simp: iters_ok_def)
  then show ?thesis using False assms(2,5) by (simp add: known_iter_def looks_def)
qed

lemma update_keys_ok:
  assumes K: "key_host (chain tb) ok view"
  shows "update_keys tb c sc payer pk old obj n fs iters h = Inr (iters', h') \<Longrightarrow> ok h \<Longrightarrow> n + length fs \<le> 16 \<Longrightarrow>
    n + length fs \<le> length iters \<Longrightarrow> iters_ok (view h) (index_tab tb c sc) pk iters \<Longrightarrow>
    (\<forall>j \<in> {n..<n + length fs}. v_keys (view h) (index_tab tb c sc j) pk = Some (old ! j)) \<Longrightarrow>
    fs = [] \<or> inj (key_bytes tb) \<Longrightarrow>
    keys_step (chain tb) ok view (index_tab tb c sc) pk {n..<n + length fs} (\<lambda>j. Some ((fs ! (j - n)) obj)) h h' \<and>
    v_key_itr (view h) \<subseteq>\<^sub>m v_key_itr (view h') \<and> length iters' = length iters \<and>
    iters_ok (view h') (index_tab tb c sc) pk iters'"
proof (induction fs arbitrary: n h iters)
  case Nil
  then show ?case by (simp add: keys_step_refl)
next
  case (Cons f fs)
  let ?tab = "index_tab tb c sc" and ?val = "\<lambda>j. Some (((f # fs) ! (j - n)) obj)" and ?C = "chain tb"
  have old: "v_keys (view h) (?tab n) pk = Some (old ! n)" and n: "n < length iters" and inj: "inj (key_bytes tb)" using Cons.prems by auto
  obtain r where r: "(if key_bytes tb (old ! n) \<noteq> key_bytes tb (f obj) then
        bind_res (known_iter ?C c sc (index_table_name (table_name tb) n) pk n iters h)
          (\<lambda>(iters, h). bind_res (db_idx_update ?C (iters ! n) payer (f obj) h) (\<lambda>h. Inr (iters, h)))
      else Inr (iters, h)) = Inr r" "(\<lambda>(iters, h). update_keys tb c sc payer pk old obj (n + 1) fs iters h) r = Inr (iters', h')"
    using Cons.prems(1) unfolding update_keys.simps bind_res_eq_Inr by blast
  obtain iters1 h1 where "r = (iters1, h1)" by fastforce
  note r1 = r(1) [unfolded this] and r2 = r(2) [unfolded this, simplified]
  have 1: "keys_step ?C ok view ?tab pk {n} ?val h h1 \<and> v_key_itr (view h) \<subseteq>\<^sub>m v_key_itr (view h1) \<and>
      length iters1 = length iters \<and> iters_ok (view h1) ?tab pk iters1"
  proof (cases "key_bytes tb (old ! n) = key_bytes tb (f obj)")
    case True
    then have "old ! n = f obj" using inj by (auto dest: injD)
    then show ?thesis using True r1 old Cons.prems(2,5) by (auto simp: keys_step_def)
  next
    case False
    obtain is2 h2 where k: "known_iter ?C c sc (index_table_name (table_name tb) n) pk n iters h = Inr (is2, h2)"
      "ok h2" "looks ?C view h h2" "iters_ok (view h2) ?tab pk is2" "length is2 = length iters" "v_key_itr (view h2) (is2 ! n) = Some (?tab n, pk)"
      using known_iter_ok [OF K Cons.prems(2), of c sc "index_table_name (table_name tb) n" pk "old ! n" ?tab n iters] old n Cons.prems(5)
      by (auto simp: index_tab_def)
    then have u: "db_idx_update ?C (is2 ! n) payer (f obj) h2 = Inr h1" "iters1 = is2"
      using r1 False by (auto simp: bind_res_eq_Inr)
    note ch = key_host.key_update_law [OF K k(2,6) u(1)]
    have "keys_step ?C ok view ?tab pk {n} ?val h2 h1" using ch by (intro keys_step_change) auto
    moreover have "keys_step ?C ok view ?tab pk {} ?val h h2" by (rule keys_step_looks) (rule k(3,2))+
    ultimately have "keys_step ?C ok view ?tab pk {n} ?val h h1" using keys_step_trans [where N = "{}" and M = "{n}"] by fastforce
    moreover have "v_key_itr (view h) \<subseteq>\<^sub>m v_key_itr (view h1)" using k(3) ch map_le_trans unfolding looks_def by blast
    ultimately show ?thesis using k(4,5) ch iters_ok_mono u(2) by blast
  qed
  then have h1: "ok h1" by (simp add: keys_step_def)
  have "\<forall>t. t \<notin> ?tab ` {n} \<longrightarrow> v_keys (view h1) t = v_keys (view h) t"
    using 1 unfolding keys_step_def by blast
  moreover have "?tab j \<notin> ?tab ` {n}" if "j \<in> {Suc n..<Suc n + length fs}" for j
    using that Cons.prems(3) inj_index_tab [of "{n, j}" tb c sc] by (auto simp: inj_on_def)
  ultimately have "v_keys (view h1) (?tab j) pk = Some (old ! j)" if "j \<in> {Suc n..<Suc n + length fs}" for j
    using that Cons.prems(6) by (simp add: image_iff)
  then have IH: "keys_step ?C ok view ?tab pk {Suc n..<Suc n + length fs} (\<lambda>j. Some ((fs ! (j - Suc n)) obj)) h1 h' \<and>
      v_key_itr (view h1) \<subseteq>\<^sub>m v_key_itr (view h') \<and> length iters' = length iters1 \<and> iters_ok (view h') ?tab pk iters'"
    using Cons.IH [OF r2 h1] 1 Cons.prems(3,4) inj by simp
  have "keys_step ?C ok view ?tab pk {Suc n..<Suc (n + length fs)} ?val h1 h'"
    using IH by (simp add: keys_step_def nth_Cons')
  moreover have "inj_on ?tab ({n} \<union> {Suc n..<Suc (n + length fs)})"
    using Cons.prems(3) by (intro inj_index_tab) auto
  ultimately have "keys_step ?C ok view ?tab pk {n..<Suc (n + length fs)} ?val h h'"
    using 1 keys_step_trans interval_insert by metis
  then show ?case using 1 IH by (auto intro: map_le_trans)
qed

lemma iters_ok_item:
  "item_ok tb v s T i \<Longrightarrow> iters_ok v (index_tab tb (name_value (code s)) (scope s)) (primary_key tb (item_value i)) (item_iters i)"
  by (simp add: item_ok_def iters_ok_def index_tab_key)

lemma cache_ok_modify:
  assumes t: "table_ok tb ok view img valid s T" and i: "objects s p = Some i" "item_idx i = this_idx s"
    and mono: "v_itr (view (host s)) \<subseteq>\<^sub>m v_itr v'" "v_key_itr (view (host s)) \<subseteq>\<^sub>m v_key_itr v'"
    and i': "item_idx i' = this_idx s" "item_primary_itr i' = item_primary_itr i" "item_ok tb v' s (T(pk \<mapsto> obj)) i'"
    and pk: "pk = primary_key tb (item_value i)"
  shows "cache_ok tb v' (s\<lparr>objects := (objects s)(p \<mapsto> i')\<rparr>) (T(pk \<mapsto> obj))"
proof -
  let ?s = "s\<lparr>objects := (objects s)(p \<mapsto> i')\<rparr>"
  have c: "cache_ok tb (view (host s)) s T" using t by (simp add: table_ok_def)
  have io: "item_ok tb v' ?s X j = item_ok tb v' s X j" for X j
    by (simp add: item_ok_def table_key_def index_key_def)
  obtain me where me: "me \<in> set (items_vector s)" "ptr_item me = p" "ptr_primary_itr me = item_primary_itr i"
    using object_cached(2) [OF t i] by blast
  have "\<exists>j. objects ?s (ptr_item ptr) = Some j \<and> item_idx j = this_idx ?s \<and>
      ptr_primary_itr ptr = item_primary_itr j \<and> item_ok tb v' ?s (T(pk \<mapsto> obj)) j" if ptr: "ptr \<in> set (items_vector s)" for ptr
  proof (cases "ptr_item ptr = p")
    case True
    then have "ptr = me" using ptr me c by (auto simp: cache_ok_def distinct_map dest: inj_onD)
    then show ?thesis using me i' by (simp add: io)
  next
    case False
    obtain j where j: "objects s (ptr_item ptr) = Some j" "item_idx j = this_idx s" "ptr_primary_itr ptr = item_primary_itr j" "item_ok tb (view (host s)) s T j"
      using c ptr unfolding cache_ok_def by blast
    have "primary_key tb (item_value j) \<noteq> pk"
      using cache_entries_eq [OF t ptr j(1) me(1), of i] me(2) i(1) False pk by auto
    then have "item_ok tb v' s (T(pk \<mapsto> obj)) j" using item_ok_other item_ok_mono [OF j(4) mono] by blast
    then show ?thesis using j False by (simp add: io)
  qed
  moreover have "\<forall>q j. objects ?s q = Some j \<longrightarrow> q < fresh_object ?s \<and> (item_idx j = this_idx ?s \<longrightarrow> q \<in> ptr_item ` set (items_vector ?s))"
    using c i me by (auto simp: cache_ok_def)
  ultimately show ?thesis using c by (simp add: cache_ok_def)
qed

lemma modify_ok:
  assumes t: "table_ok tb ok view img valid s T" and p: "points s (Some p) (Some v)"
    and up: "updater v = Inr obj" "valid obj" and r: "modify tb p payer updater s = Inr s'"
  shows "primary_key tb obj = primary_key tb v" "table_ok tb ok view img valid s' (T(primary_key tb v \<mapsto> obj))"
    "points s' (Some p) (Some obj)" "\<And>q w. q \<noteq> p \<Longrightarrow> points s (Some q) w \<Longrightarrow> points s' (Some q) w"
    "code s' = code s" "scope s' = scope s"
proof -
  let ?pk = "primary_key tb v" and ?C = "chain tb" and ?c = "name_value (code s)"
  obtain i where i: "objects s p = Some i" "item_idx i = this_idx s" "item_value i = v"
    using p by (auto simp: points_def)
  note io = object_cached(1) [OF t i(1,2)]
  obtain h1 iters h2 where pk: "?pk = primary_key tb obj"
    and ud: "db_update_i64 ?C (item_primary_itr i) (name_value payer) (img obj) (host s) = Inr h1"
    and uk: "update_keys tb ?c (scope s) (name_value payer) ?pk (map (\<lambda>f. f v) (extractors tb)) obj 0 (extractors tb) (item_iters i) h1 = Inr (iters, h2)"
    and s': "s' = write_item p (i\<lparr>item_value := obj, item_iters := iters\<rparr>) ((bump_primary_key ?pk s)\<lparr>host := h2\<rparr>)"
    using r up i row_bytes_image [OF table_ok_simps(1) [OF t] up(2)]
    by (auto simp: modify_def deref_def bind_check bind_res_eq_Inr Let_def split: if_splits)
  then show "primary_key tb obj = ?pk" by simp
  let ?i = "i\<lparr>item_value := obj, item_iters := iters\<rparr>" and ?T = "T(?pk \<mapsto> obj)"
  have s'_eq: "s' = (bump_primary_key ?pk s)\<lparr>host := h2, objects := (objects s)(p \<mapsto> ?i)\<rparr>"
    using s' i(1) by (simp add: write_item_def set_item_def)
  have st: "stored tb img valid (view (host s)) s T" and nxt: "next_ok (next_primary_key s) T"
    and len: "length (extractors tb) \<le> 16" and inj: "extractors tb = [] \<or> inj (key_bytes tb)"
    using t by (simp_all add: table_ok_def table_def_ok_def)
  have Tv: "T ?pk = Some v" using io i(3) by (simp add: item_ok_def)
  have itr: "v_itr (view (host s)) (item_primary_itr i) = Some (table_key tb s, ?pk)" using io i(3) by (simp add: item_ok_def)
  have 1: "rows_change ?C ok view (host s) (table_key tb s) ?pk (Some (img obj)) h1" "v_itr (view (host s)) \<subseteq>\<^sub>m v_itr (view h1)"
    using row_host.update_law [OF table_ok_simps(3,5) [OF t] itr ud] by simp_all
  then have h1: "ok h1" and ki: "v_key_itr (view (host s)) \<subseteq>\<^sub>m v_key_itr (view h1)" by (simp_all add: rows_change_def)
  have its: "iters_ok (view h1) (index_tab tb ?c (scope s)) ?pk (item_iters i)"
    using iters_ok_mono [OF iters_ok_item [OF io] ki] i(3) by simp
  have li: "length (item_iters i) = length (extractors tb)" using io by (simp add: item_ok_def)
  have old: "\<forall>j \<in> {0..<0 + length (extractors tb)}. v_keys (view h1) (index_tab tb ?c (scope s) j) ?pk = Some (map (\<lambda>f. f v) (extractors tb) ! j)"
  proof
    fix j assume j: "j \<in> {0..<0 + length (extractors tb)}"
    have "v_keys (view (host s)) (index_key tb s j) ?pk = map_option (extractors tb ! j) (T ?pk)"
      using st j unfolding stored_def by simp
    then have "v_keys (view (host s)) (index_key tb s j) ?pk = Some ((extractors tb ! j) v)" using Tv by simp
    then show "v_keys (view h1) (index_tab tb ?c (scope s) j) ?pk = Some (map (\<lambda>f. f v) (extractors tb) ! j)"
      using 1(1) j by (simp add: rows_change_def index_tab_key)
  qed
  have 2: "keys_step ?C ok view (index_tab tb ?c (scope s)) ?pk {0..<length (extractors tb)} (\<lambda>j. Some ((extractors tb ! j) obj)) h1 h2"
    "v_key_itr (view h1) \<subseteq>\<^sub>m v_key_itr (view h2)" "length iters = length (extractors tb)"
    "iters_ok (view h2) (index_tab tb ?c (scope s)) ?pk iters"
    using update_keys_ok [OF table_ok_simps(4) [OF t] uk h1 _ _ its old inj] len li by simp_all
  have mono: "v_itr (view (host s)) \<subseteq>\<^sub>m v_itr (view h2)" "v_key_itr (view (host s)) \<subseteq>\<^sub>m v_key_itr (view h2)"
    using 1(2) ki 2(1,2) map_le_trans unfolding keys_step_def by blast+
  have "v_itr (view h2) (item_primary_itr i) = Some (table_key tb s, ?pk)" by (rule map_le_Some [OF mono(1) itr])
  then have io': "item_ok tb (view h2) s ?T ?i"
    using 2(3,4) pk by (simp add: item_ok_def iters_ok_def index_tab_key)
  have "cache_ok tb (view h2) (s\<lparr>objects := (objects s)(p \<mapsto> ?i)\<rparr>) ?T"
    using cache_ok_modify [OF t i(1,2) mono _ _ io'] i by simp
  then have cache: "cache_ok tb (view h2) s' ?T"
    unfolding s'_eq cache_ok_def by (simp add: item_ok_def table_key_def index_key_def)
  have "stored tb img valid (view h2) s ?T"
    using 1(1) 2(1) up(2) pk by (intro stored_update [OF st]) (auto simp: rows_change_def keys_step_def index_tab_key)
  then have "stored tb img valid (view h2) s' ?T"
    using stored_cong [of tb s' s] by (simp add: s'_eq table_key_def index_key_def)
  moreover have "ok h2" using 2(1) by (simp add: keys_step_def)
  ultimately show "table_ok tb ok view img valid s' ?T"
    using cache bump_next_ok [OF nxt] table_ok_simps(1) [OF t] by (simp add: table_ok_def s'_eq)
  show "points s' (Some p) (Some obj)" using i(2) by (simp add: points_def s'_eq)
  show "points s' (Some q) w" if "q \<noteq> p" "points s (Some q) w" for q w
    using that by (cases w) (simp_all add: points_def s'_eq)
  show "code s' = code s" "scope s' = scope s" by (simp_all add: s'_eq)
qed

lemma remove_keys_ok:
  assumes K: "chain_host (chain tb) ok view"
  shows "ok h \<Longrightarrow> receiver (chain tb) h = c \<Longrightarrow> n + length fs \<le> 16 \<Longrightarrow>
    (\<forall>j \<in> {n..<n + length fs}. v_keys (view h) (index_tab tb c sc j) pk \<noteq> None \<and>
      (0 \<le> sint (iters ! j) \<longrightarrow> v_key_itr (view h) (iters ! j) = Some (index_tab tb c sc j, pk))) \<Longrightarrow>
    \<exists>h'. remove_keys tb c sc pk n fs iters h = Inr h' \<and>
      keys_step (chain tb) ok view (index_tab tb c sc) pk {n..<n + length fs} (\<lambda>_. None) h h'"
proof (induction fs arbitrary: n h)
  case Nil
  then show ?case by (simp add: keys_step_refl)
next
  case (Cons f fs)
  let ?tab = "index_tab tb c sc" and ?C = "chain tb"
  have kh: "key_host ?C ok view" and rh: "row_host ?C ok view" using K by (simp_all add: chain_host_def)
  have here: "v_keys (view h) (?tab n) pk \<noteq> None" "0 \<le> sint (iters ! n) \<longrightarrow> v_key_itr (view h) (iters ! n) = Some (?tab n, pk)"
    using Cons.prems(4) by auto
  obtain i h1 where i: "(if sint (iters ! n) < 0 then db_idx_find_primary ?C c sc (index_table_name (table_name tb) n) pk h
      else Inr (iters ! n, h)) = Inr (i, h1)" "ok h1" "looks ?C view h h1" "v_key_itr (view h1) i = Some (?tab n, pk)"
  proof (cases "sint (iters ! n) < 0")
    case True
    obtain i h1 where "db_idx_find_primary ?C c sc (index_table_name (table_name tb) n) pk h = Inr (i, h1)"
      "seeks_key ?C ok view h (?tab n) (map_option (\<lambda>_. pk) (v_keys (view h) (?tab n) pk)) i h1"
      using key_host.find_primary_law [OF kh Cons.prems(1)] unfolding index_tab_def by metis
    then show ?thesis using that True here(1) by (auto simp: seeks_key_def)
  next
    case False
    then show ?thesis using that Cons.prems(1) here(2) by (simp add: looks_def)
  qed
  have pos: "0 \<le> sint i" by (rule view_okD(4) [OF row_host.view_ok [OF rh i(2)] i(4)])
  have "fst (?tab n) = receiver ?C h1" using i(3) Cons.prems(2) by (simp add: index_tab_def looks_def)
  then obtain h2 where h2: "db_idx_remove ?C i h1 = Inr h2" "keys_change ?C ok view h1 (?tab n) pk None h2"
    "(v_key_itr (view h1))(i := None) \<subseteq>\<^sub>m v_key_itr (view h2)"
    using key_host.key_remove_law [OF kh i(2,4)] by blast
  have "v_key_itr (view h2) j = Some (t, q)" if "v_key_itr (view h1) j = Some (t, q)" "q \<noteq> pk \<or> t \<notin> ?tab ` {n}" for j t q
  proof (rule map_le_Some [OF h2(3)])
    show "((v_key_itr (view h1))(i := None)) j = Some (t, q)" using that i(4) by (cases "j = i") auto
  qed
  then have "keys_step ?C ok view ?tab pk {n} (\<lambda>_. None) h1 h2"
    using h2(2) by (simp add: keys_change_def keys_step_def)
  moreover have "keys_step ?C ok view ?tab pk {} (\<lambda>_. None) h h1" by (rule keys_step_looks) (rule i(3,2))+
  ultimately have 1: "keys_step ?C ok view ?tab pk {n} (\<lambda>_. None) h h2"
    using keys_step_trans [where N = "{}" and M = "{n}"] by fastforce
  then have ok2: "ok h2" "receiver ?C h2 = c" using Cons.prems(2) by (simp_all add: keys_step_def)
  have apart: "?tab j \<notin> ?tab ` {n}" if "j \<in> {Suc n..<Suc n + length fs}" for j
    using that Cons.prems(3) inj_index_tab [of "{n, j}" tb c sc] by (auto simp: inj_on_def)
  have "v_keys (view h2) (?tab j) pk \<noteq> None \<and> (0 \<le> sint (iters ! j) \<longrightarrow> v_key_itr (view h2) (iters ! j) = Some (?tab j, pk))"
    if j: "j \<in> {Suc n..<Suc n + length fs}" for j
    using 1 apart [OF j] Cons.prems(4) j unfolding keys_step_def by simp
  then obtain h' where h': "remove_keys tb c sc pk (Suc n) fs iters h2 = Inr h'"
    "keys_step ?C ok view ?tab pk {Suc n..<Suc n + length fs} (\<lambda>_. None) h2 h'"
    using Cons.IH [OF ok2, of "Suc n"] Cons.prems(3) by auto
  have "remove_keys tb c sc pk n (f # fs) iters h = Inr h'"
    using i(1) pos h2(1) h'(1) by (simp only: remove_keys.simps) simp
  moreover have "inj_on ?tab ({n} \<union> {Suc n..<Suc (n + length fs)})"
    using Cons.prems(3) by (intro inj_index_tab) auto
  then have "keys_step ?C ok view ?tab pk {n..<Suc (n + length fs)} (\<lambda>_. None) h h'"
    using keys_step_trans [OF 1] h'(2) interval_insert by (metis add_Suc)
  ultimately show ?case by simp
qed

lemma cached_here:
  assumes t: "table_ok tb ok view img valid s T" and i: "objects s p = Some i" "item_idx i = this_idx s"
  shows "\<exists>ptr. cached tb (primary_key tb (item_value i)) s = Some ptr \<and> ptr_item ptr = p \<and> ptr \<in> set (items_vector s)"
proof -
  obtain me where me: "me \<in> set (items_vector s)" "ptr_item me = p" using object_cached(2) [OF t i] by blast
  then have "cached tb (primary_key tb (item_value i)) s \<noteq> None"
    using cached_None [of tb "primary_key tb (item_value i)" s me i] i(1) by auto
  then obtain ptr where ptr: "cached tb (primary_key tb (item_value i)) s = Some ptr" by auto
  then have "ptr \<in> set (items_vector s)" "cached_key tb s ptr = Some (primary_key tb (item_value i))"
    by (auto simp: cached_def dest: find_rev_Some)
  moreover from this obtain j where "objects s (ptr_item ptr) = Some j" "primary_key tb (item_value j) = primary_key tb (item_value i)"
    by (auto simp: cached_key_def)
  ultimately have "ptr = me" using cache_entries_eq [OF t _ _ me(1), of ptr j i] me(2) i(1) by simp
  then show ?thesis using ptr me by simp
qed

lemma cache_ok_erase:
  assumes t: "table_ok tb ok view img valid s T" and i: "objects s p = Some i" "item_idx i = this_idx s"
    and ptr: "ptr \<in> set (items_vector s)" "ptr_item ptr = p" and pk: "pk = primary_key tb (item_value i)"
    and mono: "(v_itr (view (host s)))(item_primary_itr i := None) \<subseteq>\<^sub>m v_itr v'"
    and keys: "\<And>j t q. v_key_itr (view (host s)) j = Some (t, q) \<Longrightarrow> q \<noteq> pk \<Longrightarrow> v_key_itr v' j = Some (t, q)"
  shows "cache_ok tb v' (s\<lparr>items_vector := rev (remove1 ptr (rev (items_vector s))), objects := (objects s)(p := None),
    destroyed := d\<rparr>) (T(pk := None))"
proof -
  let ?s = "s\<lparr>items_vector := rev (remove1 ptr (rev (items_vector s))), objects := (objects s)(p := None), destroyed := d\<rparr>"
  have c: "cache_ok tb (view (host s)) s T" using t by (simp add: table_ok_def)
  then have dist: "distinct (items_vector s)" by (auto simp: cache_ok_def distinct_map)
  then have set: "set (items_vector ?s) = set (items_vector s) - {ptr}" by (simp add: set_remove1_eq)
  have inj: "inj_on ptr_item (set (items_vector s))" "inj_on ptr_primary_itr (set (items_vector s))"
    using c by (auto simp: cache_ok_def distinct_map)
  have "\<exists>j. objects ?s (ptr_item q) = Some j \<and> item_idx j = this_idx ?s \<and> ptr_primary_itr q = item_primary_itr j \<and>
      item_ok tb v' ?s (T(pk := None)) j" if q: "q \<in> set (items_vector ?s)" for q
  proof -
    have q': "q \<in> set (items_vector s)" "q \<noteq> ptr" using q set by auto
    then have p: "ptr_item q \<noteq> p" using inj(1) ptr by (auto dest: inj_onD)
    obtain j where j: "objects s (ptr_item q) = Some j" "item_idx j = this_idx s" "ptr_primary_itr q = item_primary_itr j" "item_ok tb (view (host s)) s T j"
      using c q'(1) unfolding cache_ok_def by blast
    have ne: "primary_key tb (item_value j) \<noteq> pk"
      using cache_entries_eq [OF t q'(1) j(1) ptr(1), of i] ptr(2) i(1) q'(2) pk by auto
    moreover have "item_primary_itr j \<noteq> item_primary_itr i"
      using j(4) object_cached(1) [OF t i] ne pk by (auto simp: item_ok_def)
    then have "v_itr v' (item_primary_itr j) = Some (table_key tb s, primary_key tb (item_value j))"
      using j(4) by (intro map_le_Some [OF mono]) (simp add: item_ok_def)
    ultimately have "item_ok tb v' ?s (T(pk := None)) j"
      using j(4) keys by (simp add: item_ok_def table_key_def index_key_def)
    then show ?thesis using j p by simp
  qed
  moreover have "\<forall>q j. objects ?s q = Some j \<longrightarrow> q < fresh_object ?s \<and> (item_idx j = this_idx ?s \<longrightarrow> q \<in> ptr_item ` set (items_vector ?s))"
  proof (intro allI impI conjI)
    fix q j assume q: "objects ?s q = Some j"
    then have qs: "q \<noteq> p" "objects s q = Some j" by (auto split: if_splits)
    show "q < fresh_object ?s" using c qs(2) unfolding cache_ok_def by simp
    assume "item_idx j = this_idx ?s"
    then have "q \<in> ptr_item ` set (items_vector s)" using c qs(2) unfolding cache_ok_def by simp
    then show "q \<in> ptr_item ` set (items_vector ?s)" using qs(1) ptr(2) unfolding set by blast
  qed
  moreover have "distinct (items_vector ?s)" using dist by simp
  then have "distinct (map ptr_item (items_vector ?s))" "distinct (map ptr_primary_itr (items_vector ?s))"
    unfolding distinct_map set using inj by (auto intro: inj_on_subset)
  ultimately show ?thesis unfolding cache_ok_def by blast
qed

lemma erase_ok:
  assumes t: "table_ok tb ok view img valid s T" and p: "points s (Some p) (Some v)"
    and c: "name_value (code s) = receiver (chain tb) (host s)"
  shows "\<exists>s'. erase tb p s = Inr s' \<and> table_ok tb ok view img valid s' (T(primary_key tb v := None)) \<and>
    code s' = code s \<and> scope s' = scope s \<and> (\<forall>q w. q \<noteq> p \<longrightarrow> points s (Some q) w \<longrightarrow> points s' (Some q) w)"
proof -
  let ?pk = "primary_key tb v" and ?C = "chain tb" and ?c = "name_value (code s)"
  obtain i where i: "objects s p = Some i" "item_idx i = this_idx s" "item_value i = v"
    using p by (auto simp: points_def)
  obtain ptr where ptr: "cached tb ?pk s = Some ptr" "ptr_item ptr = p" "ptr \<in> set (items_vector s)"
    using cached_here [OF t i(1,2)] i(3) by auto
  note io = object_cached(1) [OF t i(1,2)]
  have st: "stored tb img valid (view (host s)) s T" and nxt: "next_ok (next_primary_key s) T"
    and len: "length (extractors tb) \<le> 16" and fr: "\<forall>i. destroyed_item tb i = Inr i"
    using t by (simp_all add: table_ok_def table_def_ok_def)
  have Tv: "T ?pk = Some v" using io i(3) by (simp add: item_ok_def)
  have itr: "v_itr (view (host s)) (item_primary_itr i) = Some (table_key tb s, ?pk)" using io i(3) by (simp add: item_ok_def)
  have "fst (table_key tb s) = receiver ?C (host s)" using c by (simp add: table_key_def)
  then obtain h1 where h1: "db_remove_i64 ?C (item_primary_itr i) (host s) = Inr h1"
    "rows_change ?C ok view (host s) (table_key tb s) ?pk None h1"
    "(v_itr (view (host s)))(item_primary_itr i := None) \<subseteq>\<^sub>m v_itr (view h1)"
    using row_host.remove_law [OF table_ok_simps(3,5) [OF t] itr] by blast
  then have ok1: "ok h1" "receiver ?C h1 = ?c" and vk: "v_keys (view h1) = v_keys (view (host s))"
    and ki: "v_key_itr (view (host s)) \<subseteq>\<^sub>m v_key_itr (view h1)" using c by (simp_all add: rows_change_def)
  have "v_keys (view h1) (index_tab tb ?c (scope s) j) ?pk \<noteq> None \<and>
      (0 \<le> sint (item_iters i ! j) \<longrightarrow> v_key_itr (view h1) (item_iters i ! j) = Some (index_tab tb ?c (scope s) j, ?pk))"
    if j: "j \<in> {0..<0 + length (extractors tb)}" for j
  proof -
    have "v_keys (view (host s)) (index_key tb s j) ?pk = map_option (extractors tb ! j) (T ?pk)"
      using st j unfolding stored_def by simp
    moreover have "0 \<le> sint (item_iters i ! j) \<longrightarrow> v_key_itr (view (host s)) (item_iters i ! j) = Some (index_key tb s j, ?pk)"
      using io i(3) j by (auto simp: item_ok_def)
    ultimately show ?thesis using Tv vk ki by (auto simp: index_tab_key intro: map_le_Some)
  qed
  then have pre: "\<forall>j \<in> {0..<0 + length (extractors tb)}. v_keys (view h1) (index_tab tb ?c (scope s) j) ?pk \<noteq> None \<and>
      (0 \<le> sint (item_iters i ! j) \<longrightarrow> v_key_itr (view h1) (item_iters i ! j) = Some (index_tab tb ?c (scope s) j, ?pk))"
    by blast
  obtain h2 where h2: "remove_keys tb ?c (scope s) ?pk 0 (extractors tb) (item_iters i) h1 = Inr h2"
    "keys_step ?C ok view (index_tab tb ?c (scope s)) ?pk {0..<length (extractors tb)} (\<lambda>_. None) h1 h2"
    using remove_keys_ok [OF table_ok_simps(2) [OF t] ok1 _ pre] len by auto
  let ?s = "s\<lparr>items_vector := rev (remove1 ptr (rev (items_vector s))), objects := (objects s)(p := None),
    destroyed := (destroyed s)(p := objects s p)\<rparr>"
  have e: "erase tb p s = Inr (?s\<lparr>host := h2\<rparr>)"
    using i ptr(1,2) c fr h1(1) h2(1) by (simp add: erase_def deref_def bind_check Let_def)
  have mono: "(v_itr (view (host s)))(item_primary_itr i := None) \<subseteq>\<^sub>m v_itr (view h2)"
    using h1(3) h2(2) map_le_trans unfolding keys_step_def by blast
  have keys: "v_key_itr (view h2) j = Some (a, q)" if "v_key_itr (view (host s)) j = Some (a, q)" "q \<noteq> ?pk" for j a q
    using map_le_Some [OF ki that(1)] that(2) h2(2) unfolding keys_step_def by blast
  have "cache_ok tb (view h2) ?s (T(?pk := None))"
    by (rule cache_ok_erase [OF t i(1,2) ptr(3,2) _ mono keys]) (use i(3) in simp_all)
  then have "cache_ok tb (view h2) (?s\<lparr>host := h2\<rparr>) (T(?pk := None))"
    using cache_ok_mono [of tb "view h2" ?s "T(?pk := None)" "view h2" h2] by simp
  moreover have "stored tb img valid (view h2) s (T(?pk := None))"
    using h1(2) h2(2) by (intro stored_update [OF st]) (auto simp: rows_change_def keys_step_def index_tab_key)
  then have "stored tb img valid (view h2) (?s\<lparr>host := h2\<rparr>) (T(?pk := None))"
    using stored_cong [of tb "?s\<lparr>host := h2\<rparr>" s] by (simp add: table_key_def index_key_def)
  moreover have "ok h2" using h2(2) by (simp add: keys_step_def)
  moreover have "next_ok (next_primary_key s) (T(?pk := None))" using nxt by (auto simp: next_ok_def)
  ultimately have "table_ok tb ok view img valid (?s\<lparr>host := h2\<rparr>) (T(?pk := None))"
    using table_ok_simps(1) [OF t] by (simp add: table_ok_def)
  moreover have "points (?s\<lparr>host := h2\<rparr>) (Some q) w" if "q \<noteq> p" "points s (Some q) w" for q w
    using that by (cases w) (simp_all add: points_def)
  ultimately show ?thesis using e by simp
qed

lemma points_same: "points s (Some p) (Some v) \<Longrightarrow> points s (Some p) (Some w) \<Longrightarrow> v = w"
  by (auto simp: points_def)

text \<open>Erasing through an iterator steps over the object first, with either kind of iterator.\<close>

lemma erase_after_step:
  assumes t: "table_ok tb ok view img valid s T" and it: "points s it (Some v)"
    and c: "name_value (code s) = receiver (chain tb) (host s)"
    and step: "lands tb ok view img valid s T target r" and ne: "target \<noteq> Some (primary_key tb v)"
  shows "\<exists>next s'. bind_res r (\<lambda>(next, s). bind_res (erase tb (the it) s) (\<lambda>s. Inr (next, s))) = Inr (next, s') \<and>
    table_ok tb ok view img valid s' (T(primary_key tb v := None)) \<and> points s' next (Option.bind target T) \<and>
    code s' = code s \<and> scope s' = scope s"
proof -
  obtain p where p: "it = Some p" using it by (cases it) auto
  obtain nx s1 where n: "r = Inr (nx, s1)" "table_ok tb ok view img valid s1 T" "keeps s s1" "points s1 nx (Option.bind target T)"
    "target = None \<or> Option.bind target T \<noteq> None" "looks (chain tb) view (host s) (host s1)"
    using step unfolding lands_def by blast
  have p1: "points s1 (Some p) (Some v)" using keeps_points [OF n(3) it] p by simp
  have "name_value (code s1) = receiver (chain tb) (host s1)" using c n(3,6) by (simp add: keeps_def looks_def)
  then obtain s' where e: "erase tb p s1 = Inr s'" "table_ok tb ok view img valid s' (T(primary_key tb v := None))"
    "code s' = code s1" "scope s' = scope s1" "\<forall>q w. q \<noteq> p \<longrightarrow> points s1 (Some q) w \<longrightarrow> points s' (Some q) w"
    using erase_ok [OF n(2) p1] by blast
  have "points s' nx (Option.bind target T)"
  proof (cases nx)
    case None
    then show ?thesis using points_end [OF n(4)] by simp
  next
    case (Some q)
    then obtain k w where k: "target = Some k" "T k = Some w" using points_end [OF n(4)] by (cases target) auto
    have "primary_key tb w = k" using t k(2) by (auto simp: table_ok_def stored_def)
    then have "q \<noteq> p" using points_same [OF p1, of w] n(4) k ne Some by auto
    then show ?thesis using e(5) n(4) Some by simp
  qed
  then show ?thesis using n(1,3) e p by (simp add: keeps_def)
qed

lemma erase_at_ok:
  assumes t: "table_ok tb ok view img valid s T" and it: "points s it (Some v)"
    and c: "name_value (code s) = receiver (chain tb) (host s)"
  shows "\<exists>next s'. erase_at tb it s = Inr (next, s') \<and> table_ok tb ok view img valid s' (T(primary_key tb v := None)) \<and>
    points s' next (Option.bind (least_such (\<lambda>k. primary_key tb v < k) (dom T)) T) \<and> code s' = code s \<and> scope s' = scope s"
proof -
  have "least_such (\<lambda>k. primary_key tb v < k) (dom T) \<noteq> Some (primary_key tb v)" by (simp add: least_such_Some)
  note e = erase_after_step [OF t it c iterator_next_lands [OF t it] this]
  have "it \<noteq> None" using it by (cases it) auto
  then show ?thesis using e by (simp add: erase_at_def iterator_neq_def cend_def bind_check)
qed

lemma modify_guards:
  assumes "points s (Some p) (Some v)"
  shows "name_value (code s) \<noteq> receiver (chain tb) (host s) \<Longrightarrow>
      modify tb p payer updater s = Inl (Assertion ''cannot modify objects in table of another contract'') \<and>
      erase tb p s = Inl (Assertion ''cannot erase objects in table of another contract'')"
    and "name_value (code s) = receiver (chain tb) (host s) \<Longrightarrow> updater v = Inr obj \<Longrightarrow> primary_key tb obj \<noteq> primary_key tb v \<Longrightarrow>
      modify tb p payer updater s = Inl (Assertion ''updater cannot change primary key when modifying an object'')"
  using assms by (auto simp: points_def modify_def erase_def deref_def bind_check Let_def)

lemma emplace_guard:
  "name_value (code s) \<noteq> receiver (chain tb) (host s) \<Longrightarrow>
   emplace tb payer constructor s = Inl (Assertion ''cannot create objects in table of another contract'')"
  by (simp add: emplace_def bind_check)

end
