(* ===== verification/Uos_Index.thy ===== *)
theory Uos_Index
  imports Uos_Table
begin

text \<open>
  The secondary indices of a \<open>multi_index\<close>: the nested class \<open>index\<close> of contracts/uosio/multi\_index.hpp.
  An index orders the same objects by a key that an extractor computes; its iterators share
  the items of the table and remember in them where the host's index table stands.
\<close>

section \<open>Operations\<close>

definition validate_index_name :: "name \<Rightarrow> bool res" where
  "validate_index_name n = bind_res (name_of_string ''primary'') (\<lambda>p. Inr (name_value n \<noteq> 0 \<and> name_neq n p))"

definition extract_secondary_key :: "('t, 'k, 'h) table_def \<Rightarrow> nat \<Rightarrow> 't \<Rightarrow> 'k" where
  "extract_secondary_key tb n obj = (extractors tb ! n) obj"

text \<open>Every search ends the same way: \<open>find\<close> the object and note the iterator in it.\<close>

definition note_iter :: "('t, 'k, 'h) table_def \<Rightarrow> nat \<Rightarrow> u64 \<Rightarrow> i32 \<Rightarrow> ('t, 'h) table \<Rightarrow> (iterator \<times> ('t, 'h) table) res" where
  "note_iter tb n primary itr s =
     bind_res (table_find tb primary s) (\<lambda>(obj, s).
     bind_res (deref tb obj s) (\<lambda>mi.
     Inr (obj, write_item (the obj) (mi\<lparr>item_iters := (item_iters mi)[n := itr]\<rparr>) s)))"

text \<open>An item that does not know its place in the index table (\<open>__iters[Number] == -1\<close>) asks for it.\<close>

definition resolve_iter :: "('t, 'k, 'h) table_def \<Rightarrow> nat \<Rightarrow> nat \<Rightarrow> 't item \<Rightarrow> ('t, 'h) table \<Rightarrow> (i32 \<times> ('t, 'h) table) res" where
  "resolve_iter tb n p i s =
     (if item_iters i ! n = - 1 then
        bind_res (db_idx_find_primary (chain tb) (name_value (code s)) (scope s) (index_table_name (table_name tb) n)
          (primary_key tb (item_value i)) (host s)) (\<lambda>(itr, h).
        Inr (itr, write_item p (i\<lparr>item_iters := (item_iters i)[n := itr]\<rparr>) (s\<lparr>host := h\<rparr>)))
      else Inr (item_iters i ! n, s))"

definition index_lower_bound :: "('t, 'k, 'h) table_def \<Rightarrow> nat \<Rightarrow> 'k \<Rightarrow> ('t, 'h) table \<Rightarrow> (iterator \<times> ('t, 'h) table) res" where
  "index_lower_bound tb n secondary s =
     bind_res (db_idx_lowerbound (chain tb) (name_value (code s)) (scope s) (index_table_name (table_name tb) n) secondary (host s))
       (\<lambda>(itr, primary, h).
     let s = s\<lparr>host := h\<rparr> in
     if sint itr < 0 then Inr (cend, s) else note_iter tb n primary itr s)"

definition index_upper_bound :: "('t, 'k, 'h) table_def \<Rightarrow> nat \<Rightarrow> 'k \<Rightarrow> ('t, 'h) table \<Rightarrow> (iterator \<times> ('t, 'h) table) res" where
  "index_upper_bound tb n secondary s =
     bind_res (db_idx_upperbound (chain tb) (name_value (code s)) (scope s) (index_table_name (table_name tb) n) secondary (host s))
       (\<lambda>(itr, primary, h).
     let s = s\<lparr>host := h\<rparr> in
     if sint itr < 0 then Inr (cend, s) else note_iter tb n primary itr s)"

text \<open>\<open>lowest\<close> is \<open>secondary_key_traits::true_lowest()\<close> of the key type.\<close>

definition index_cbegin :: "('t, 'k, 'h) table_def \<Rightarrow> nat \<Rightarrow> 'k \<Rightarrow> ('t, 'h) table \<Rightarrow> (iterator \<times> ('t, 'h) table) res" where
  "index_cbegin tb n lowest s = index_lower_bound tb n lowest s"

definition index_next :: "('t, 'k, 'h) table_def \<Rightarrow> nat \<Rightarrow> iterator \<Rightarrow> ('t, 'h) table \<Rightarrow> (iterator \<times> ('t, 'h) table) res" where
  "index_next tb n it s =
     bind_res (check (it \<noteq> None) ''cannot increment end iterator'') (\<lambda>_.
     bind_res (deref tb it s) (\<lambda>i.
     bind_res (resolve_iter tb n (the it) i s) (\<lambda>(itr, s).
     bind_res (db_idx_next (chain tb) itr (host s)) (\<lambda>(next_itr, next_pk, h).
     let s = s\<lparr>host := h\<rparr> in
     if sint next_itr < 0 then Inr (None, s) else note_iter tb n next_pk next_itr s))))"

definition index_previous :: "('t, 'k, 'h) table_def \<Rightarrow> nat \<Rightarrow> iterator \<Rightarrow> ('t, 'h) table \<Rightarrow> (iterator \<times> ('t, 'h) table) res" where
  "index_previous tb n it s =
     bind_res
       (case it of
         None \<Rightarrow>
           bind_res (db_idx_end (chain tb) (name_value (code s)) (scope s) (index_table_name (table_name tb) n) (host s)) (\<lambda>(ei, h).
           bind_res (check (ei \<noteq> - 1) ''cannot decrement end iterator when the index is empty'') (\<lambda>_.
           bind_res (db_idx_previous (chain tb) ei h) (\<lambda>(prev_itr, prev_pk, h).
           bind_res (check (0 \<le> sint prev_itr) ''cannot decrement end iterator when the index is empty'') (\<lambda>_.
           Inr (prev_itr, prev_pk, s\<lparr>host := h\<rparr>)))))
       | Some p \<Rightarrow>
           bind_res (deref tb it s) (\<lambda>i.
           bind_res (resolve_iter tb n p i s) (\<lambda>(itr, s).
           bind_res (db_idx_previous (chain tb) itr (host s)) (\<lambda>(prev_itr, prev_pk, h).
           bind_res (check (0 \<le> sint prev_itr) ''cannot decrement iterator at beginning of index'') (\<lambda>_.
           Inr (prev_itr, prev_pk, s\<lparr>host := h\<rparr>)))))) (\<lambda>(prev_itr, prev_pk, s).
     note_iter tb n prev_pk prev_itr s)"

definition index_find :: "('t, 'k, 'h) table_def \<Rightarrow> nat \<Rightarrow> 'k \<Rightarrow> ('t, 'h) table \<Rightarrow> (iterator \<times> ('t, 'h) table) res" where
  "index_find tb n secondary s =
     bind_res (index_lower_bound tb n secondary s) (\<lambda>(lb, s).
     if iterator_eq lb cend then Inr (cend, s)
     else
       bind_res (deref tb lb s) (\<lambda>i.
       if secondary \<noteq> extract_secondary_key tb n (item_value i) then Inr (cend, s) else Inr (lb, s)))"

definition index_require_find :: "('t, 'k, 'h) table_def \<Rightarrow> nat \<Rightarrow> 'k \<Rightarrow> string \<Rightarrow> ('t, 'h) table \<Rightarrow> (iterator \<times> ('t, 'h) table) res" where
  "index_require_find tb n secondary error_msg s =
     bind_res (index_lower_bound tb n secondary s) (\<lambda>(lb, s).
     bind_res (check (iterator_neq lb cend) error_msg) (\<lambda>_.
     bind_res (deref tb lb s) (\<lambda>i.
     bind_res (check (secondary = extract_secondary_key tb n (item_value i)) error_msg) (\<lambda>_.
     Inr (lb, s)))))"

definition index_get :: "('t, 'k, 'h) table_def \<Rightarrow> nat \<Rightarrow> 'k \<Rightarrow> string \<Rightarrow> ('t, 'h) table \<Rightarrow> (nat \<times> ('t, 'h) table) res" where
  "index_get tb n secondary error_msg s =
     bind_res (index_find tb n secondary s) (\<lambda>(result, s).
     bind_res (check (iterator_neq result cend) error_msg) (\<lambda>_.
     Inr (the result, s)))"

definition index_iterator_to :: "('t, 'k, 'h) table_def \<Rightarrow> nat \<Rightarrow> nat \<Rightarrow> ('t, 'h) table \<Rightarrow> (iterator \<times> ('t, 'h) table) res" where
  "index_iterator_to tb n p s =
     bind_res (deref tb (Some p) s) (\<lambda>objitem.
     bind_res (check (item_idx objitem = this_idx s) ''object passed to iterator_to is not in multi_index'') (\<lambda>_.
     bind_res (resolve_iter tb n p objitem s) (\<lambda>(_, s).
     Inr (Some p, s))))"

definition index_modify :: "('t, 'k, 'h) table_def \<Rightarrow> iterator \<Rightarrow> name \<Rightarrow> ('t \<Rightarrow> 't res) \<Rightarrow> ('t, 'h) table \<Rightarrow> ('t, 'h) table res" where
  "index_modify tb itr payer updater s =
     bind_res (check (iterator_neq itr cend) ''cannot pass end iterator to modify'') (\<lambda>_.
     modify tb (the itr) payer updater s)"

definition index_erase :: "('t, 'k, 'h) table_def \<Rightarrow> nat \<Rightarrow> iterator \<Rightarrow> ('t, 'h) table \<Rightarrow> (iterator \<times> ('t, 'h) table) res" where
  "index_erase tb n itr s =
     bind_res (check (iterator_neq itr cend) ''cannot pass end iterator to erase'') (\<lambda>_.
     bind_res (index_next tb n itr s) (\<lambda>(next, s).
     bind_res (erase tb (the itr) s) (\<lambda>s.
     Inr (next, s))))"

section \<open>What they do\<close>

text \<open>The associations of index number \<open>n\<close>: pairs of a secondary and a primary key.\<close>

definition index_assocs :: "('t, 'k, 'h) table_def \<Rightarrow> nat \<Rightarrow> (u64 \<Rightarrow> 't option) \<Rightarrow> ('k \<times> u64) set" where
  "index_assocs tb n T = assocs (\<lambda>k. map_option (extractors tb ! n) (T k))"

lemma index_assocs_iff: "(a, k) \<in> index_assocs tb n T \<longleftrightarrow> (\<exists>v. T k = Some v \<and> a = (extractors tb ! n) v)"
  by (auto simp: index_assocs_def assocs_def)

lemma index_assocs_image: "index_assocs tb n T = (\<lambda>k. ((extractors tb ! n) (the (T k)), k)) ` dom T"
  by (rule set_eqI) (auto simp: index_assocs_iff image_iff dom_def split_paired_all)

lemma finite_index_assocs [simp]: "finite (index_assocs tb n T)"
  by (simp add: index_assocs_def)

lemma index_keys:
  assumes "table_ok tb ok view img valid s T" and "n < length (extractors tb)"
  shows "v_keys (view (host s)) (index_key tb s n) = (\<lambda>k. map_option (extractors tb ! n) (T k))"
    and "assocs (v_keys (view (host s)) (index_key tb s n)) = index_assocs tb n T"
    and "dom (v_keys (view (host s)) (index_key tb s n)) = dom T"
proof -
  have "stored tb img valid (view (host s)) s T" using assms(1) by (simp add: table_ok_def)
  then show 1: "v_keys (view (host s)) (index_key tb s n) = (\<lambda>k. map_option (extractors tb ! n) (T k))"
    using assms(2) unfolding stored_def by blast
  show "assocs (v_keys (view (host s)) (index_key tb s n)) = index_assocs tb n T"
    "dom (v_keys (view (host s)) (index_key tb s n)) = dom T"
    unfolding 1 by (auto simp: index_assocs_def dom_def)
qed

text \<open>Noting an iterator in an item changes nothing else.\<close>

lemma write_iter_ok:
  assumes t: "table_ok tb ok view img valid s T" and i: "objects s p = Some i" "item_idx i = this_idx s"
    and itr: "v_key_itr (view (host s)) itr = Some (index_key tb s n, primary_key tb (item_value i))"
  defines "s' \<equiv> write_item p (i\<lparr>item_iters := (item_iters i)[n := itr]\<rparr>) s"
  shows "table_ok tb ok view img valid s' T" "keeps s s'" "objects s' p = Some (i\<lparr>item_iters := (item_iters i)[n := itr]\<rparr>)"
    "host s' = host s" "next_primary_key s' = next_primary_key s" "this_idx s' = this_idx s" "code s' = code s" "scope s' = scope s"
proof -
  let ?i = "i\<lparr>item_iters := (item_iters i)[n := itr]\<rparr>" and ?pk = "primary_key tb (item_value i)"
  have s': "s' = s\<lparr>objects := (objects s)(p \<mapsto> ?i)\<rparr>" using i(1) by (simp add: s'_def write_item_def set_item_def)
  show "keeps s s'" "objects s' p = Some ?i" "host s' = host s" "next_primary_key s' = next_primary_key s"
    "this_idx s' = this_idx s" "code s' = code s" "scope s' = scope s"
    using i by (auto simp: s' keeps_def)
  note io = object_cached(1) [OF t i]
  have T: "T(?pk \<mapsto> item_value i) = T" using io by (auto simp: item_ok_def)
  have "iters_ok (view (host s)) (index_key tb s) ?pk (item_iters i)"
    using iters_ok_item [OF io] by (simp add: iters_ok_def index_tab_key)
  then have "iters_ok (view (host s)) (index_key tb s) ?pk (item_iters ?i)" using iters_ok_set itr by simp
  then have "item_ok tb (view (host s)) s (T(?pk \<mapsto> item_value i)) ?i"
    using io unfolding T by (simp add: item_ok_def iters_ok_def)
  then have "cache_ok tb (view (host s)) s' (T(?pk \<mapsto> item_value i))"
    unfolding s' by (intro cache_ok_modify [OF t i]) (simp_all add: i)
  moreover have "stored tb img valid (view (host s)) s' T"
    using t stored_cong [of tb s' s] by (simp add: s' table_ok_def table_key_def index_key_def)
  ultimately show "table_ok tb ok view img valid s' T" using t unfolding T by (simp add: table_ok_def s')
qed

lemma note_iter_ok:
  assumes t: "table_ok tb ok view img valid s T"
    and itr: "v_key_itr (view (host s)) itr = Some (index_key tb s n, pk)" and v: "T pk = Some v"
  shows "\<exists>it s'. note_iter tb n pk itr s = Inr (it, s') \<and> table_ok tb ok view img valid s' T \<and> keeps s s' \<and>
    points s' it (Some v) \<and> looks (chain tb) view (host s) (host s') \<and> next_primary_key s' = next_primary_key s"
proof -
  obtain it s1 where f: "table_find tb pk s = Inr (it, s1)" "table_ok tb ok view img valid s1 T" "keeps s s1"
    "points s1 it (Some v)" "looks (chain tb) view (host s) (host s1)" "next_primary_key s1 = next_primary_key s"
    using table_find_lands [OF t, of pk] v by auto
  obtain p i where i: "it = Some p" "objects s1 p = Some i" "item_idx i = this_idx s1" "item_value i = v"
    using f(4) by (auto simp: points_def)
  have pk: "primary_key tb v = pk" using t v by (auto simp: table_ok_def stored_def)
  have same: "index_key tb s1 n = index_key tb s n" using f(3) by (simp add: keeps_def index_key_def)
  have "v_key_itr (view (host s1)) itr = Some (index_key tb s1 n, primary_key tb (item_value i))"
    using itr f(5) same pk i(4) by (auto simp: looks_def intro: map_le_Some)
  note w = write_iter_ok [OF f(2) i(2,3) this]
  have "points (write_item p (i\<lparr>item_iters := (item_iters i)[n := itr]\<rparr>) s1) it (Some v)"
    using w(3,6) i by (simp add: points_def)
  then show ?thesis
    using f(1,5,6) i w keeps_trans [OF f(3) w(2)] by (simp add: note_iter_def deref_def)
qed

lemma note_seek:
  assumes t: "table_ok tb ok view img valid s T" and n: "n < length (extractors tb)"
    and sub: "\<And>x. target = Some x \<Longrightarrow> x \<in> index_assocs tb n T"
    and seek: "seeks_assoc (chain tb) ok view (host s) (index_key tb s n) target (itr, pk, h')"
  shows "(target = None \<longrightarrow> sint itr < 0 \<and> table_ok tb ok view img valid (s\<lparr>host := h'\<rparr>) T) \<and>
    (target \<noteq> None \<longrightarrow> \<not> sint itr < 0) \<and> looks (chain tb) view (host s) h' \<and>
    (target \<noteq> None \<longrightarrow> lands tb ok view img valid s T (map_option snd target) (note_iter tb n pk itr (s\<lparr>host := h'\<rparr>)))"
proof -
  have l: "ok h'" "looks (chain tb) view (host s) h'" using seek by (simp_all add: seeks_assoc_def seeks_key_def)
  have t': "table_ok tb ok view img valid (s\<lparr>host := h'\<rparr>) T" by (rule table_ok_looks [OF t l])
  show ?thesis
  proof (cases target)
    case None
    then show ?thesis using seek l t' by (simp add: seeks_assoc_def seeks_key_def)
  next
    case (Some x)
    then obtain a q where x: "target = Some (a, q)" by (cases x) auto
    then have i: "v_key_itr (view h') itr = Some (index_key tb s n, q)" "pk = q"
      using seek by (auto simp: seeks_assoc_def seeks_key_def)
    obtain v where v: "T q = Some v" using sub [OF x] by (auto simp: index_assocs_iff)
    have pos: "0 \<le> sint itr" by (rule view_okD(4) [OF _ i(1)]) (use table_ok_simps(8) [OF t'] in simp)
    have i': "v_key_itr (view (host (s\<lparr>host := h'\<rparr>))) itr = Some (index_key tb (s\<lparr>host := h'\<rparr>) n, q)" using i by simp
    obtain it s' where "note_iter tb n q itr (s\<lparr>host := h'\<rparr>) = Inr (it, s')" "table_ok tb ok view img valid s' T"
      "keeps (s\<lparr>host := h'\<rparr>) s'" "points s' it (Some v)" "looks (chain tb) view (host (s\<lparr>host := h'\<rparr>)) (host s')"
      "next_primary_key s' = next_primary_key (s\<lparr>host := h'\<rparr>)"
      using note_iter_ok [OF t' i' v] by blast
    then have "lands tb ok view img valid s T (Some q) (note_iter tb n q itr (s\<lparr>host := h'\<rparr>))"
      using v looks_trans [OF l(2)] by (simp add: lands_def)
    then show ?thesis using x i(2) pos l(2) by simp
  qed
qed

lemma least_such_in: "finite S \<Longrightarrow> least_such P S = Some x \<Longrightarrow> x \<in> S"
  by (simp add: least_such_Some)

lemma greatest_such_in: "finite S \<Longrightarrow> greatest_such P S = Some x \<Longrightarrow> x \<in> S"
  by (simp add: greatest_such_Some)

lemma lands_end:
  "table_ok tb ok view img valid (s\<lparr>host := h'\<rparr>) T \<Longrightarrow> looks (chain tb) view (host s) h' \<Longrightarrow>
   lands tb ok view img valid s T None (Inr (cend, s\<lparr>host := h'\<rparr>))"
  by (simp add: lands_def cend_def)

lemma seek_note_lands:
  assumes t: "table_ok tb ok view img valid s T" and n: "n < length (extractors tb)"
    and sub: "\<And>x. target = Some x \<Longrightarrow> x \<in> index_assocs tb n T"
    and seek: "seeks_assoc (chain tb) ok view (host s) (index_key tb s n) target (itr, pk, h')"
  shows "lands tb ok view img valid s T (map_option snd target)
    (if sint itr < 0 then Inr (cend, s\<lparr>host := h'\<rparr>) else note_iter tb n pk itr (s\<lparr>host := h'\<rparr>))"
  using note_seek [OF t n sub seek] lands_end [of tb ok view img valid _ s T] by (cases target) auto

lemma index_lower_bound_lands:
  assumes t: "table_ok tb ok view img valid s T" and n: "n < length (extractors tb)"
  shows "lands tb ok view img valid s T (map_option snd (least_such (\<lambda>a. k \<le> fst a) (index_assocs tb n T)))
    (index_lower_bound tb n k s)"
proof -
  let ?target = "least_such (\<lambda>a. k \<le> fst a) (index_assocs tb n T)"
  obtain itr pk h' where r: "db_idx_lowerbound (chain tb) (name_value (code s)) (scope s) (index_table_name (table_name tb) n) k (host s) = Inr (itr, pk, h')"
    and seek: "seeks_assoc (chain tb) ok view (host s) (index_key tb s n) ?target (itr, pk, h')"
    using key_host.key_lowerbound_law [OF table_ok_simps(4,5) [OF t], of "name_value (code s)" "scope s" "index_table_name (table_name tb) n" k]
    unfolding index_key_def [symmetric] index_keys(2) [OF t n] by (metis prod_cases3)
  show ?thesis
    using seek_note_lands [OF t n least_such_in seek] r by (simp add: index_lower_bound_def Let_def)
qed

lemma index_upper_bound_lands:
  assumes t: "table_ok tb ok view img valid s T" and n: "n < length (extractors tb)"
  shows "lands tb ok view img valid s T (map_option snd (least_such (\<lambda>a. k < fst a) (index_assocs tb n T)))
    (index_upper_bound tb n k s)"
proof -
  let ?target = "least_such (\<lambda>a. k < fst a) (index_assocs tb n T)"
  obtain itr pk h' where r: "db_idx_upperbound (chain tb) (name_value (code s)) (scope s) (index_table_name (table_name tb) n) k (host s) = Inr (itr, pk, h')"
    and seek: "seeks_assoc (chain tb) ok view (host s) (index_key tb s n) ?target (itr, pk, h')"
    using key_host.key_upperbound_law [OF table_ok_simps(4,5) [OF t], of "name_value (code s)" "scope s" "index_table_name (table_name tb) n" k]
    unfolding index_key_def [symmetric] index_keys(2) [OF t n] by (metis prod_cases3)
  show ?thesis
    using seek_note_lands [OF t n least_such_in seek] r by (simp add: index_upper_bound_def Let_def)
qed

lemma lands_from:
  assumes "lands tb ok view img valid s1 T target r" and "keeps s s1" and "looks (chain tb) view (host s) (host s1)"
    and "next_primary_key s1 = next_primary_key s"
  shows "lands tb ok view img valid s T target r"
proof -
  obtain it s' where s': "r = Inr (it, s')" "table_ok tb ok view img valid s' T" "keeps s1 s'" "points s' it (Option.bind target T)"
    "target = None \<or> Option.bind target T \<noteq> None" "next_primary_key s' = next_primary_key s1" "looks (chain tb) view (host s1) (host s')"
    using assms(1) unfolding lands_def by blast
  have "keeps s s'" "looks (chain tb) view (host s) (host s')"
    using keeps_trans [OF assms(2) s'(3)] looks_trans [OF assms(3) s'(7)] by simp_all
  then show ?thesis unfolding lands_def using s' assms(4) by metis
qed

lemma resolve_iter_ok:
  assumes t: "table_ok tb ok view img valid s T" and n: "n < length (extractors tb)"
    and i: "objects s p = Some i" "item_idx i = this_idx s"
  shows "\<exists>itr s'. resolve_iter tb n p i s = Inr (itr, s') \<and> table_ok tb ok view img valid s' T \<and> keeps s s' \<and>
    v_key_itr (view (host s')) itr = Some (index_key tb s n, primary_key tb (item_value i)) \<and>
    looks (chain tb) view (host s) (host s') \<and> next_primary_key s' = next_primary_key s"
proof -
  note io = object_cached(1) [OF t i]
  let ?pk = "primary_key tb (item_value i)"
  have T: "T ?pk = Some (item_value i)" using io by (simp add: item_ok_def)
  show ?thesis
  proof (cases "item_iters i ! n = - 1")
    case False
    then have "v_key_itr (view (host s)) (item_iters i ! n) = Some (index_key tb s n, ?pk)"
      using io n by (simp add: item_ok_def)
    then show ?thesis using False t by (simp add: resolve_iter_def)
  next
    case True
    have "v_keys (view (host s)) (index_key tb s n) ?pk = Some ((extractors tb ! n) (item_value i))"
      using index_keys(1) [OF t n] T by simp
    then obtain itr h where f: "db_idx_find_primary (chain tb) (name_value (code s)) (scope s) (index_table_name (table_name tb) n) ?pk (host s) = Inr (itr, h)"
      "ok h" "looks (chain tb) view (host s) h" "v_key_itr (view h) itr = Some (index_key tb s n, ?pk)"
      using key_host.find_primary_law [OF table_ok_simps(4,5) [OF t], of "name_value (code s)" "scope s" "index_table_name (table_name tb) n" ?pk]
      by (auto simp: index_key_def seeks_key_def)
    have t': "table_ok tb ok view img valid (s\<lparr>host := h\<rparr>) T" by (rule table_ok_looks [OF t f(2,3)])
    have o': "objects (s\<lparr>host := h\<rparr>) p = Some i" "item_idx i = this_idx (s\<lparr>host := h\<rparr>)" using i by simp_all
    note w = write_iter_ok [OF t' o', of itr n]
    show ?thesis using True f w by (simp add: resolve_iter_def)
  qed
qed

text \<open>Stepping to a neighbour, from an object of the table and from the end.\<close>

lemma index_next_lands:
  assumes t: "table_ok tb ok view img valid s T" and n: "n < length (extractors tb)" and it: "points s it (Some v)"
  shows "lands tb ok view img valid s T
    (map_option snd (least_such (\<lambda>a. ((extractors tb ! n) v, primary_key tb v) < a) (index_assocs tb n T))) (index_next tb n it s)"
proof -
  let ?target = "least_such (\<lambda>a. ((extractors tb ! n) v, primary_key tb v) < a) (index_assocs tb n T)"
  obtain p i where i: "it = Some p" "objects s p = Some i" "item_idx i = this_idx s" "item_value i = v"
    using it by (auto simp: points_def)
  obtain itr s1 where r: "resolve_iter tb n p i s = Inr (itr, s1)" "table_ok tb ok view img valid s1 T" "keeps s s1"
    "v_key_itr (view (host s1)) itr = Some (index_key tb s n, primary_key tb v)" "looks (chain tb) view (host s) (host s1)"
    "next_primary_key s1 = next_primary_key s"
    using resolve_iter_ok [OF t n i(2,3)] i(4) by auto
  have same: "index_key tb s1 n = index_key tb s n" using r(3) by (simp add: keeps_def index_key_def)
  have "T (primary_key tb v) = Some v" by (rule points_row(1) [OF t it])
  then have k: "v_keys (view (host s1)) (index_key tb s n) (primary_key tb v) = Some ((extractors tb ! n) v)"
    using index_keys(1) [OF r(2) n] same by simp
  obtain j q h' where j: "db_idx_next (chain tb) itr (host s1) = Inr (j, q, h')"
    "seeks_assoc (chain tb) ok view (host s1) (index_key tb s1 n) ?target (j, q, h')"
    using key_host.key_next_law [OF table_ok_simps(4,5) [OF r(2)] r(4) k]
    unfolding same [symmetric] index_keys(2) [OF r(2) n] by (metis prod_cases3)
  have sub: "\<And>x. ?target = Some x \<Longrightarrow> x \<in> index_assocs tb n T" by (rule least_such_in) simp_all
  have "lands tb ok view img valid s1 T (map_option snd ?target) (index_next tb n it s)"
    using seek_note_lands [OF r(2) n sub j(2)] i j(1) r(1)
    by (cases "sint j < 0") (simp_all add: index_next_def deref_def bind_check cend_def)
  then show ?thesis by (rule lands_from [OF _ r(3,5,6)])
qed

lemma index_previous_lands:
  assumes t: "table_ok tb ok view img valid s T" and n: "n < length (extractors tb)" and it: "points s it (Some v)"
  defines "target \<equiv> greatest_such (\<lambda>a. a < ((extractors tb ! n) v, primary_key tb v)) (index_assocs tb n T)"
  shows "if target = None then index_previous tb n it s = Inl (Assertion ''cannot decrement iterator at beginning of index'')
    else lands tb ok view img valid s T (map_option snd target) (index_previous tb n it s)"
proof -
  obtain p i where i: "it = Some p" "objects s p = Some i" "item_idx i = this_idx s" "item_value i = v"
    using it by (auto simp: points_def)
  obtain itr s1 where r: "resolve_iter tb n p i s = Inr (itr, s1)" "table_ok tb ok view img valid s1 T" "keeps s s1"
    "v_key_itr (view (host s1)) itr = Some (index_key tb s n, primary_key tb v)" "looks (chain tb) view (host s) (host s1)"
    "next_primary_key s1 = next_primary_key s"
    using resolve_iter_ok [OF t n i(2,3)] i(4) by auto
  have same: "index_key tb s1 n = index_key tb s n" using r(3) by (simp add: keeps_def index_key_def)
  have "T (primary_key tb v) = Some v" by (rule points_row(1) [OF t it])
  then have k: "v_keys (view (host s1)) (index_key tb s n) (primary_key tb v) = Some ((extractors tb ! n) v)"
    using index_keys(1) [OF r(2) n] same by simp
  obtain j q h' where j: "db_idx_previous (chain tb) itr (host s1) = Inr (j, q, h')"
    "seeks_assoc (chain tb) ok view (host s1) (index_key tb s1 n) target (j, q, h')"
    using key_host.key_previous_law [OF table_ok_simps(4,5) [OF r(2)] r(4) k]
    unfolding same [symmetric] index_keys(2) [OF r(2) n] target_def by (metis prod_cases3)
  have sub: "\<And>x. target = Some x \<Longrightarrow> x \<in> index_assocs tb n T" unfolding target_def by (rule greatest_such_in) simp_all
  note l = note_seek [OF r(2) n sub j(2)]
  show ?thesis
  proof (cases "target = None")
    case True
    then show ?thesis using l i j(1) r(1) by (simp add: index_previous_def deref_def bind_check)
  next
    case False
    then have "lands tb ok view img valid s1 T (map_option snd target) (index_previous tb n it s)"
      using l i j(1) r(1) by (simp add: index_previous_def deref_def bind_check)
    then have "lands tb ok view img valid s T (map_option snd target) (index_previous tb n it s)"
      by (rule lands_from [OF _ r(3,5,6)])
    then show ?thesis by (simp only: False if_False)
  qed
qed

lemma index_previous_end_lands:
  assumes t: "table_ok tb ok view img valid s T" and n: "n < length (extractors tb)"
  defines "target \<equiv> greatest_such (\<lambda>_. True) (index_assocs tb n T)"
  shows "if dom T = {} then index_previous tb n cend s = Inl (Assertion ''cannot decrement end iterator when the index is empty'')
    else lands tb ok view img valid s T (map_option snd target) (index_previous tb n cend s)"
proof -
  obtain e h where e: "db_idx_end (chain tb) (name_value (code s)) (scope s) (index_table_name (table_name tb) n) (host s) = Inr (e, h)"
    "ok h" "looks (chain tb) view (host s) h"
    "e = - 1 \<and> dom T = {} \<or> e \<noteq> - 1 \<and> v_key_end (view h) e = Some (index_key tb s n)"
    using key_host.key_end_law [OF table_ok_simps(4,5) [OF t]] index_keys(3) [OF t n] unfolding index_key_def by metis
  have t': "table_ok tb ok view img valid (s\<lparr>host := h\<rparr>) T" by (rule table_ok_looks [OF t e(2,3)])
  have empty: "target = None \<longleftrightarrow> dom T = {}"
    by (simp add: target_def index_assocs_image)
  show ?thesis
  proof (cases "e = - 1")
    case True
    then show ?thesis using e by (auto simp: index_previous_def cend_def bind_check)
  next
    case False
    then obtain j q h' where j: "db_idx_previous (chain tb) e h = Inr (j, q, h')"
      "seeks_assoc (chain tb) ok view (host (s\<lparr>host := h\<rparr>)) (index_key tb (s\<lparr>host := h\<rparr>) n) target (j, q, h')"
      using key_host.key_last_law [OF table_ok_simps(4,5) [OF t'], of e "index_key tb s n"] e(4) index_keys(2) [OF t' n]
      by (auto simp: target_def)
    have sub: "\<And>x. target = Some x \<Longrightarrow> x \<in> index_assocs tb n T" unfolding target_def by (rule greatest_such_in) simp_all
    note l = note_seek [OF t' n sub j(2)]
    show ?thesis
    proof (cases "target = None")
      case True
      then show ?thesis using l e(1) j(1) False empty by (simp add: index_previous_def cend_def bind_check)
    next
      case nonempty: False
      then have "lands tb ok view img valid (s\<lparr>host := h\<rparr>) T (map_option snd target) (index_previous tb n cend s)"
        using l e(1) j(1) False by (simp add: index_previous_def cend_def bind_check)
      then have "lands tb ok view img valid s T (map_option snd target) (index_previous tb n cend s)"
        by (rule lands_from) (simp_all add: e(3))
      then show ?thesis using empty nonempty by simp
    qed
  qed
qed

text \<open>
  A lookup by secondary key: the object with that key whose primary key is least. The key type's
  \<open>==\<close> and order are those of the linear order.
\<close>

lemma index_find_lands:
  assumes t: "table_ok tb ok view img valid s T" and n: "n < length (extractors tb)"
  shows "\<exists>it s'. index_find tb n k s = Inr (it, s') \<and> table_ok tb ok view img valid s' T \<and> keeps s s' \<and>
    points s' it (Option.bind (least_such (\<lambda>q. map_option (extractors tb ! n) (T q) = Some k) (dom T)) T)"
proof -
  let ?A = "index_assocs tb n T"
  let ?lb = "least_such (\<lambda>a. k \<le> fst a) ?A" and ?first = "least_such (\<lambda>q. map_option (extractors tb ! n) (T q) = Some k) (dom T)"
  obtain it s' where r: "index_lower_bound tb n k s = Inr (it, s')" "table_ok tb ok view img valid s' T" "keeps s s'"
    "points s' it (Option.bind (map_option snd ?lb) T)"
    using index_lower_bound_lands [OF t n, of k] by (auto simp: lands_def)
  show ?thesis
  proof (cases ?lb)
    case None
    then have "(k, y) \<notin> ?A" for y by auto
    then have first: "?first = None" by (auto simp: index_assocs_iff)
    show ?thesis using r None unfolding first by (simp add: index_find_def iterator_eq_def cend_def)
  next
    case (Some a)
    then obtain b q where a: "?lb = Some (b, q)" by (cases a) auto
    then have lb: "(b, q) \<in> ?A" "k \<le> b" "\<forall>c \<in> ?A. k \<le> fst c \<longrightarrow> (b, q) \<le> c" by (simp_all add: least_such_Some)
    then obtain v where v: "T q = Some v" "b = (extractors tb ! n) v" by (auto simp: index_assocs_iff)
    have p: "points s' it (Some v)" using r(4) a v by simp
    obtain i where i: "deref tb it s' = Inr i" "item_value i = v" using points_deref [OF p] by blast
    have it: "it \<noteq> None" using p by (cases it) auto
    show ?thesis
    proof (cases "k = b")
      case True
      have first: "?first = Some q"
      proof (subst least_such_Some, simp, intro conjI ballI impI)
        show "q \<in> dom T" "map_option (extractors tb ! n) (T q) = Some k" using v True by auto
        fix y assume "y \<in> dom T" "map_option (extractors tb ! n) (T y) = Some k"
        then have "(k, y) \<in> ?A" by (auto simp: index_assocs_iff)
        then show "q \<le> y" using lb(3) True by (auto simp: less_eq_prod_def)
      qed
      show ?thesis using r i it p v True unfolding first by (simp add: index_find_def iterator_eq_def cend_def extract_secondary_key_def)
    next
      case False
      have first: "?first = None"
      proof (subst least_such_None, intro ballI notI)
        fix y assume "y \<in> dom T" and y: "map_option (extractors tb ! n) (T y) = Some k"
        then have "(k, y) \<in> ?A" by (auto simp: index_assocs_iff)
        then show False using lb(2,3) False by (auto simp: less_eq_prod_def)
      qed
      show ?thesis using r i it v False unfolding first by (simp add: index_find_def iterator_eq_def cend_def extract_secondary_key_def)
    qed
  qed
qed

lemma index_get_outcome:
  assumes t: "table_ok tb ok view img valid s T" and n: "n < length (extractors tb)"
  shows "case Option.bind (least_such (\<lambda>q. map_option (extractors tb ! n) (T q) = Some k) (dom T)) T of
      None \<Rightarrow> index_get tb n k msg s = Inl (Assertion msg)
    | Some v \<Rightarrow> \<exists>p s'. index_get tb n k msg s = Inr (p, s') \<and> table_ok tb ok view img valid s' T \<and> keeps s s' \<and> points s' (Some p) (Some v)"
proof -
  obtain it s' where "index_find tb n k s = Inr (it, s')" "table_ok tb ok view img valid s' T" "keeps s s'"
    "points s' it (Option.bind (least_such (\<lambda>q. map_option (extractors tb ! n) (T q) = Some k) (dom T)) T)"
    using index_find_lands [OF t n] by blast
  then show ?thesis
    by (cases "Option.bind (least_such (\<lambda>q. map_option (extractors tb ! n) (T q) = Some k) (dom T)) T"; cases it)
      (simp_all add: index_get_def iterator_neq_def cend_def bind_check)
qed

lemma index_erase_ok:
  assumes t: "table_ok tb ok view img valid s T" and n: "n < length (extractors tb)" and it: "points s it (Some v)"
    and c: "name_value (code s) = receiver (chain tb) (host s)"
  shows "\<exists>next s'. index_erase tb n it s = Inr (next, s') \<and> table_ok tb ok view img valid s' (T(primary_key tb v := None)) \<and>
    points s' next (Option.bind (map_option snd (least_such (\<lambda>a. ((extractors tb ! n) v, primary_key tb v) < a) (index_assocs tb n T))) T)"
proof -
  let ?target = "least_such (\<lambda>a. ((extractors tb ! n) v, primary_key tb v) < a) (index_assocs tb n T)"
  have "map_option snd ?target \<noteq> Some (primary_key tb v)"
  proof
    assume "map_option snd ?target = Some (primary_key tb v)"
    then obtain a where a: "?target = Some (a, primary_key tb v)" by auto
    then have "(a, primary_key tb v) \<in> index_assocs tb n T" "((extractors tb ! n) v, primary_key tb v) < (a, primary_key tb v)"
      by (simp_all add: least_such_Some)
    then show False using points_row(1) [OF t it] by (auto simp: index_assocs_iff)
  qed
  note e = erase_after_step [OF t it c index_next_lands [OF t n it] this]
  have "it \<noteq> None" using it by (cases it) auto
  then show ?thesis using e by (auto simp: index_erase_def iterator_neq_def cend_def bind_check)
qed

end
