(* ===== verification/Uos_Singleton.thy ===== *)
theory Uos_Singleton
  imports Uos_Table
begin

text \<open>
  The class \<open>singleton\<close> of contracts/uosio/singleton.hpp: a table with at most one row, under the
  singleton's own name. It is a client of \<open>multi_index\<close>; the locale \<open>row_table\<close> is the interface
  it uses, with the laws that the primary operations of \<open>multi_index\<close> are shown to keep.
\<close>

declare split_paired_All [simp del] split_paired_Ex [simp del]

section \<open>The interface of a table of rows\<close>

text \<open>
  A state \<open>s\<close> holds a map from keys to rows; an iterator stands for a row or for the end. Storing
  and changing may end the action, looking and discarding may not when the table is the caller's own.
\<close>

locale row_table =
  fixes look :: "u64 \<Rightarrow> 's \<Rightarrow> ('i \<times> 's) res"
    and read :: "'i \<Rightarrow> 's \<Rightarrow> 't res"
    and ended :: "'i \<Rightarrow> bool"
    and store :: "('t \<Rightarrow> 't res) \<Rightarrow> 's \<Rightarrow> ('i \<times> 's) res"
    and change :: "'i \<Rightarrow> ('t \<Rightarrow> 't res) \<Rightarrow> 's \<Rightarrow> 's res"
    and discard :: "'i \<Rightarrow> 's \<Rightarrow> ('i \<times> 's) res"
    and fresh :: 't
    and key :: "'t \<Rightarrow> u64"
    and fits :: "'t \<Rightarrow> bool"
    and holds :: "'s \<Rightarrow> (u64 \<Rightarrow> 't option) \<Rightarrow> bool"
    and at :: "'s \<Rightarrow> 'i \<Rightarrow> 't option \<Rightarrow> bool"
    and mine :: "'s \<Rightarrow> bool"
  assumes look_law: "holds s T \<Longrightarrow> \<exists>it s'. look k s = Inr (it, s') \<and> holds s' T \<and> at s' it (T k) \<and> mine s' = mine s"
    and ended_law: "at s it target \<Longrightarrow> ended it \<longleftrightarrow> target = None"
    and read_law: "at s it (Some v) \<Longrightarrow> read it s = Inr v"
    and key_law: "holds s T \<Longrightarrow> T k = Some v \<Longrightarrow> key v = k"
    and store_law: "holds s T \<Longrightarrow> con fresh = Inr v \<Longrightarrow> fits v \<Longrightarrow> store con s = Inr (it, s') \<Longrightarrow>
      T (key v) = None \<and> holds s' (T(key v \<mapsto> v)) \<and> at s' it (Some v)"
    and change_law: "holds s T \<Longrightarrow> at s it (Some v) \<Longrightarrow> up v = Inr w \<Longrightarrow> fits w \<Longrightarrow> change it up s = Inr s' \<Longrightarrow>
      holds s' (T(key v \<mapsto> w))"
    and discard_law: "holds s T \<Longrightarrow> at s it (Some v) \<Longrightarrow> mine s \<Longrightarrow>
      \<exists>it' s'. discard it s = Inr (it', s') \<and> holds s' (T(key v := None))"
begin

text \<open>Looking a key up and reading what is found.\<close>

lemma look_then:
  assumes "holds s T"
  shows "\<exists>it s'. holds s' T \<and> mine s' = mine s \<and> at s' it (T k) \<and> bind_res (look k s) (\<lambda>(it, s). if ended it then f s else g it s) =
    (case T k of None \<Rightarrow> f s' | Some v \<Rightarrow> g it s')"
proof -
  obtain it s' where l: "look k s = Inr (it, s')" "holds s' T" "at s' it (T k)" "mine s' = mine s"
    using look_law [OF assms] by blast
  have "bind_res (look k s) (\<lambda>(it, s). if ended it then f s else g it s) = (case T k of None \<Rightarrow> f s' | Some v \<Rightarrow> g it s')"
    using ended_law [OF l(3)] l(1) by (cases "T k") simp_all
  then show ?thesis using l by blast
qed

lemma look_read:
  assumes "holds s T"
  shows "\<exists>s'. holds s' T \<and> bind_res (look k s) (\<lambda>(it, s). if ended it then f s else bind_res (read it s) (\<lambda>v. g v s)) =
    (case T k of None \<Rightarrow> f s' | Some v \<Rightarrow> g v s')"
proof -
  obtain it s' where "holds s' T" "at s' it (T k)"
    "bind_res (look k s) (\<lambda>(it, s). if ended it then f s else bind_res (read it s) (\<lambda>v. g v s)) =
      (case T k of None \<Rightarrow> f s' | Some v \<Rightarrow> bind_res (read it s') (\<lambda>v. g v s'))"
    using look_then [OF assms, of k f "\<lambda>it s. bind_res (read it s) (\<lambda>v. g v s)"] by blast
  then show ?thesis using read_law [of s' it] by (auto split: option.splits)
qed

text \<open>Storing a row under its key, whether or not the key is there, and discarding what is there.\<close>

lemma put_holds:
  assumes "holds s T" and "key v = k" and "fits v" and "con fresh = Inr v" and "\<And>w. up w = Inr v"
    and "bind_res (look k s) (\<lambda>(it, s). if ended it then bind_res (store con s) (\<lambda>(_, s). Inr s) else change it up s) = Inr s'"
  shows "holds s' (T(k \<mapsto> v))"
proof -
  obtain it s1 where l: "holds s1 T" "at s1 it (T k)"
    "(case T k of None \<Rightarrow> bind_res (store con s1) (\<lambda>(_, s). Inr s) | Some v \<Rightarrow> change it up s1) = Inr s'"
    using look_then [OF assms(1), of k "\<lambda>s. bind_res (store con s) (\<lambda>(_, s). Inr s)" "\<lambda>it s. change it up s"] assms(6) by auto
  show ?thesis
  proof (cases "T k")
    case None
    then obtain it' where "store con s1 = Inr (it', s')" using l(3) by (auto simp: bind_res_eq_Inr)
    from store_law [OF l(1) _ assms(3) this] show ?thesis using assms(2,4) by simp
  next
    case (Some w)
    then have "change it up s1 = Inr s'" using l(3) by simp
    from change_law [OF l(1) _ _ assms(3) this] show ?thesis using l(2) Some assms(5) key_law [OF l(1) Some] by auto
  qed
qed

lemma discard_holds:
  assumes "holds s T" and "mine s"
  shows "\<exists>s'. bind_res (look k s) (\<lambda>(it, s). if ended it then Inr s else bind_res (discard it s) (\<lambda>(_, s). Inr s)) = Inr s' \<and>
    holds s' (T(k := None))"
proof -
  obtain it s1 where l: "holds s1 T" "mine s1 = mine s" "at s1 it (T k)"
    "bind_res (look k s) (\<lambda>(it, s). if ended it then Inr s else bind_res (discard it s) (\<lambda>(_, s). Inr s)) =
      (case T k of None \<Rightarrow> Inr s1 | Some v \<Rightarrow> bind_res (discard it s1) (\<lambda>(_, s). Inr s))"
    using look_then [OF assms(1), of k "\<lambda>s. Inr s" "\<lambda>it s. bind_res (discard it s) (\<lambda>(_, s). Inr s)"] by blast
  show ?thesis
  proof (cases "T k")
    case None
    then show ?thesis using l by (simp add: fun_upd_idem)
  next
    case (Some v)
    then show ?thesis using discard_law [OF l(1), of it v] l assms(2) key_law [OF l(1) Some] by auto
  qed
qed

end

text \<open>\<open>multi_index\<close> keeps the laws.\<close>

definition read_item :: "('t, 'k, 'h) table_def \<Rightarrow> iterator \<Rightarrow> ('t, 'h) table \<Rightarrow> 't res" where
  "read_item tb it s = bind_res (deref tb it s) (\<lambda>i. Inr (item_value i))"

definition own_table :: "('t, 'k, 'h) table_def \<Rightarrow> ('t, 'h) table \<Rightarrow> bool" where
  "own_table tb s \<longleftrightarrow> name_value (code s) = receiver (chain tb) (host s)"

interpretation primary: row_table "table_find tb" "read_item tb" "\<lambda>it. \<not> iterator_neq it cend" "emplace tb payer"
    "\<lambda>it. modify_at tb it payer" "erase_at tb" "row_default tb" "primary_key tb" valid "table_ok tb ok view img valid" points "own_table tb"
  for tb :: "('t, 'k::linorder, 'h) table_def" and payer valid ok view img
proof
  fix s :: "('t, 'h) table" and T k it target v w con up s'
  show "points s it target \<Longrightarrow> (\<not> iterator_neq it cend) = (target = None)"
    using points_end by (auto simp: iterator_neq_def cend_def)
  show "points s it (Some v) \<Longrightarrow> read_item tb it s = Inr v"
    using points_deref [of s it v tb] by (auto simp: read_item_def)
  assume t: "table_ok tb ok view img valid s T"
  show "\<exists>it s'. table_find tb k s = Inr (it, s') \<and> table_ok tb ok view img valid s' T \<and> points s' it (T k) \<and> own_table tb s' = own_table tb s"
    using table_find_lands [OF t, of k] by (fastforce simp: own_table_def keeps_def looks_def)
  show "T k = Some v \<Longrightarrow> primary_key tb v = k" using t by (auto simp: table_ok_def stored_def)
  show "con (row_default tb) = Inr v \<Longrightarrow> valid v \<Longrightarrow> emplace tb payer con s = Inr (it, s') \<Longrightarrow>
      T (primary_key tb v) = None \<and> table_ok tb ok view img valid s' (T(primary_key tb v \<mapsto> v)) \<and> points s' it (Some v)"
    using emplace_ok [OF t] by blast
  show "points s it (Some v) \<Longrightarrow> up v = Inr w \<Longrightarrow> valid w \<Longrightarrow> modify_at tb it payer up s = Inr s' \<Longrightarrow>
      table_ok tb ok view img valid s' (T(primary_key tb v \<mapsto> w))"
    using modify_ok [OF t, of "the it" v up w payer s'] points_end [of s it "Some v"]
    by (auto simp: modify_at_def iterator_neq_def cend_def bind_check)
  show "points s it (Some v) \<Longrightarrow> own_table tb s \<Longrightarrow>
      \<exists>it' s'. erase_at tb it s = Inr (it', s') \<and> table_ok tb ok view img valid s' (T(primary_key tb v := None))"
    using erase_at_ok [OF t] by (fastforce simp: own_table_def)
qed

section \<open>Singletons\<close>

record 'v row =
  row_value :: 'v

record ('v, 'k, 'h) singleton_def =
  sg_chain :: "('k, 'h) chain"
  pk_value :: u64
  default_value :: 'v
  put_value_size :: "'v \<Rightarrow> size_stream \<Rightarrow> size_stream res"
  put_value :: "'v \<Rightarrow> datastream \<Rightarrow> datastream res"
  get_value :: "datastream \<Rightarrow> ('v \<times> datastream) res"
  sg_buffer_address :: "u32 \<Rightarrow> u32"
  sg_buffer_bytes :: "u32 \<Rightarrow> u8 list"
  sg_destroyed_item :: "'v row item \<Rightarrow> 'v row item res"

text \<open>The row is serialized as its value; a singleton has no secondary indices.\<close>

definition singleton_table :: "('v, 'k, 'h) singleton_def \<Rightarrow> ('v row, 'k, 'h) table_def" where
  "singleton_table sd =
     \<lparr>chain = sg_chain sd, table_name = pk_value sd, row_default = \<lparr>row_value = default_value sd\<rparr>,
      primary_key = (\<lambda>_. pk_value sd),
      put_row_size = (\<lambda>r. put_value_size sd (row_value r)), put_row = (\<lambda>r. put_value sd (row_value r)),
      get_row = (\<lambda>ds. bind_res (get_value sd ds) (\<lambda>(v, ds). Inr (\<lparr>row_value = v\<rparr>, ds))),
      extractors = [], key_bytes = (\<lambda>_. []),
      buffer_address = sg_buffer_address sd, buffer_bytes = sg_buffer_bytes sd, destroyed_item = sg_destroyed_item sd\<rparr>"

definition singleton_exists :: "('v, 'k, 'h) singleton_def \<Rightarrow> ('v row, 'h) table \<Rightarrow> (bool \<times> ('v row, 'h) table) res" where
  "singleton_exists sd s =
     bind_res (table_find (singleton_table sd) (pk_value sd) s) (\<lambda>(itr, s). Inr (iterator_neq itr cend, s))"

definition singleton_get :: "('v, 'k, 'h) singleton_def \<Rightarrow> ('v row, 'h) table \<Rightarrow> ('v \<times> ('v row, 'h) table) res" where
  "singleton_get sd s =
     bind_res (table_find (singleton_table sd) (pk_value sd) s) (\<lambda>(itr, s).
     bind_res (check (iterator_neq itr cend) ''singleton does not exist'') (\<lambda>_.
     bind_res (read_item (singleton_table sd) itr s) (\<lambda>r. Inr (row_value r, s))))"

definition singleton_get_or_default :: "('v, 'k, 'h) singleton_def \<Rightarrow> 'v \<Rightarrow> ('v row, 'h) table \<Rightarrow> ('v \<times> ('v row, 'h) table) res" where
  "singleton_get_or_default sd def s =
     bind_res (table_find (singleton_table sd) (pk_value sd) s) (\<lambda>(itr, s).
     if iterator_neq itr cend
     then bind_res (read_item (singleton_table sd) itr s) (\<lambda>r. Inr (row_value r, s))
     else Inr (def, s))"

definition singleton_get_or_create :: "('v, 'k, 'h) singleton_def \<Rightarrow> name \<Rightarrow> 'v \<Rightarrow> ('v row, 'h) table \<Rightarrow> ('v \<times> ('v row, 'h) table) res" where
  "singleton_get_or_create sd bill_to_account def s =
     bind_res (table_find (singleton_table sd) (pk_value sd) s) (\<lambda>(itr, s).
     if iterator_neq itr cend
     then bind_res (read_item (singleton_table sd) itr s) (\<lambda>r. Inr (row_value r, s))
     else
       bind_res (emplace (singleton_table sd) bill_to_account (\<lambda>r. Inr (r\<lparr>row_value := def\<rparr>)) s) (\<lambda>(itr, s).
       bind_res (read_item (singleton_table sd) itr s) (\<lambda>r. Inr (row_value r, s))))"

definition singleton_set :: "('v, 'k, 'h) singleton_def \<Rightarrow> 'v \<Rightarrow> name \<Rightarrow> ('v row, 'h) table \<Rightarrow> ('v row, 'h) table res" where
  "singleton_set sd value bill_to_account s =
     bind_res (table_find (singleton_table sd) (pk_value sd) s) (\<lambda>(itr, s).
     if iterator_neq itr cend
     then modify_at (singleton_table sd) itr bill_to_account (\<lambda>r. Inr (r\<lparr>row_value := value\<rparr>)) s
     else bind_res (emplace (singleton_table sd) bill_to_account (\<lambda>r. Inr (r\<lparr>row_value := value\<rparr>)) s) (\<lambda>(_, s). Inr s))"

definition singleton_remove :: "('v, 'k, 'h) singleton_def \<Rightarrow> ('v row, 'h) table \<Rightarrow> ('v row, 'h) table res" where
  "singleton_remove sd s =
     bind_res (table_find (singleton_table sd) (pk_value sd) s) (\<lambda>(itr, s).
     if iterator_neq itr cend
     then bind_res (erase_at (singleton_table sd) itr s) (\<lambda>(_, s). Inr s)
     else Inr s)"

text \<open>The singleton's contents: the value stored, if one is.\<close>

definition only_row :: "('v, 'k, 'h) singleton_def \<Rightarrow> 'v option \<Rightarrow> u64 \<Rightarrow> 'v row option" where
  "only_row sd x = (\<lambda>_. None)(pk_value sd := map_option (\<lambda>v. \<lparr>row_value = v\<rparr>) x)"

definition singleton_holds :: "('v, 'k::linorder, 'h) singleton_def \<Rightarrow> ('h \<Rightarrow> bool) \<Rightarrow> ('h \<Rightarrow> 'k chain_view) \<Rightarrow> ('v \<Rightarrow> u8 list) \<Rightarrow> ('v \<Rightarrow> bool) \<Rightarrow> ('v row, 'h) table \<Rightarrow> 'v option \<Rightarrow> bool" where
  "singleton_holds sd ok view img valid s x \<longleftrightarrow>
     table_ok (singleton_table sd) ok view (\<lambda>r. img (row_value r)) (\<lambda>r. valid (row_value r)) s (only_row sd x)"

lemma singleton_table_sel [simp]:
  "row_default (singleton_table sd) = \<lparr>row_value = default_value sd\<rparr>" "primary_key (singleton_table sd) r = pk_value sd"
  "chain (singleton_table sd) = sg_chain sd"
  by (simp_all add: singleton_table_def)

text \<open>A codec of the value type gives one of the row.\<close>

lemma singleton_codec:
  assumes "codec (put_value_size sd) (put_value sd) (get_value sd) img valid"
  shows "codec (put_row_size (singleton_table sd)) (put_row (singleton_table sd)) (get_row (singleton_table sd))
    (\<lambda>r. img (row_value r)) (\<lambda>r. valid (row_value r))"
proof -
  note c = codecD [OF assms]
  have "dsr.reads (\<lambda>ds. bind_res (get_value sd ds) (\<lambda>(v, ds). Inr (\<lparr>row_value = v\<rparr>, ds))) (img (row_value r)) r"
    if "valid (row_value r)" for r
    using dsr.reads_map [OF c(3) [OF that], of "\<lambda>v. \<lparr>row_value = v\<rparr>"] by (cases r) simp
  then show ?thesis using c(1,2) by unfold_locales (simp_all add: singleton_table_def)
qed

lemma only_row_simps [simp]:
  "only_row sd x (pk_value sd) = map_option (\<lambda>v. \<lparr>row_value = v\<rparr>) x"
  "(only_row sd x)(pk_value sd := None) = only_row sd None"
  "(only_row sd x)(pk_value sd \<mapsto> r) = only_row sd (Some (row_value r))"
  by (auto simp: only_row_def)

lemma if_not_neq: "(if iterator_neq itr cend then a else b) = (if \<not> iterator_neq itr cend then b else a)"
  by simp

lemma singleton_look:
  assumes "singleton_holds sd ok view img valid s x"
  shows "\<exists>s'. singleton_holds sd ok view img valid s' x \<and>
    bind_res (table_find (singleton_table sd) (pk_value sd) s) (\<lambda>(itr, s).
      if iterator_neq itr cend then bind_res (read_item (singleton_table sd) itr s) (\<lambda>r. g r s) else f s) =
    (case x of None \<Rightarrow> f s' | Some v \<Rightarrow> g \<lparr>row_value = v\<rparr> s')"
  using primary.look_read [OF assms [unfolded singleton_holds_def], of "pk_value sd" f g]
  unfolding if_not_neq singleton_holds_def by (cases x) auto

lemma check_then: "bind_res (check b msg) (\<lambda>_. m) = (if b then m else Inl (Assertion msg))"
  by (simp add: bind_check)

lemma singleton_reads:
  assumes h: "singleton_holds sd ok view img valid s x"
  shows "\<exists>s'. singleton_holds sd ok view img valid s' x \<and> singleton_exists sd s = Inr (x \<noteq> None, s')"
    and "\<exists>s'. singleton_holds sd ok view img valid s' x \<and>
      singleton_get sd s = (case x of None \<Rightarrow> Inl (Assertion ''singleton does not exist'') | Some v \<Rightarrow> Inr (v, s'))"
    and "\<exists>s'. singleton_holds sd ok view img valid s' x \<and>
      singleton_get_or_default sd def s = Inr (case x of None \<Rightarrow> def | Some v \<Rightarrow> v, s')"
proof -
  obtain it s' where f: "table_find (singleton_table sd) (pk_value sd) s = Inr (it, s')" "singleton_holds sd ok view img valid s' x"
    "points s' it (map_option (\<lambda>v. \<lparr>row_value = v\<rparr>) x)"
    using primary.look_law [OF h [unfolded singleton_holds_def], of "pk_value sd"] by (auto simp: singleton_holds_def)
  have "iterator_neq it cend \<longleftrightarrow> x \<noteq> None" using primary.ended_law [OF f(3)] by auto
  then show "\<exists>s'. singleton_holds sd ok view img valid s' x \<and> singleton_exists sd s = Inr (x \<noteq> None, s')"
    using f by (simp add: singleton_exists_def)
  show "\<exists>s'. singleton_holds sd ok view img valid s' x \<and>
      singleton_get sd s = (case x of None \<Rightarrow> Inl (Assertion ''singleton does not exist'') | Some v \<Rightarrow> Inr (v, s'))"
    using singleton_look [OF h, of "\<lambda>r s. Inr (row_value r, s)" "\<lambda>_. Inl (Assertion ''singleton does not exist'')"]
    by (cases x) (auto simp: singleton_get_def check_then)
  show "\<exists>s'. singleton_holds sd ok view img valid s' x \<and>
      singleton_get_or_default sd def s = Inr (case x of None \<Rightarrow> def | Some v \<Rightarrow> v, s')"
    using singleton_look [OF h, of "\<lambda>r s. Inr (row_value r, s)" "\<lambda>s. Inr (def, s)"]
    by (cases x) (auto simp: singleton_get_or_default_def)
qed

lemma singleton_set_holds:
  assumes "singleton_holds sd ok view img valid s x" and "valid v" and "singleton_set sd v payer s = Inr s'"
  shows "singleton_holds sd ok view img valid s' (Some v)"
  using primary.put_holds [OF assms(1) [unfolded singleton_holds_def], where k = "pk_value sd" and v = "\<lparr>row_value = v\<rparr>"
      and con = "\<lambda>r. Inr (r\<lparr>row_value := v\<rparr>)" and up = "\<lambda>r. Inr (r\<lparr>row_value := v\<rparr>)" and payer = payer and s' = s'] assms(2,3)
  unfolding singleton_set_def if_not_neq by (simp add: singleton_holds_def)

lemma singleton_remove_holds:
  assumes "singleton_holds sd ok view img valid s x" and "own_table (singleton_table sd) s"
  shows "\<exists>s'. singleton_remove sd s = Inr s' \<and> singleton_holds sd ok view img valid s' None"
  using primary.discard_holds [OF assms(1) [unfolded singleton_holds_def] assms(2), of "pk_value sd"]
  unfolding singleton_remove_def if_not_neq by (simp add: singleton_holds_def)

lemma singleton_get_or_create_holds:
  assumes h: "singleton_holds sd ok view img valid s x" and "valid def"
    and r: "singleton_get_or_create sd payer def s = Inr (v, s')"
  shows "v = (case x of None \<Rightarrow> def | Some v \<Rightarrow> v)" and "singleton_holds sd ok view img valid s' (Some v)"
proof -
  let ?create = "\<lambda>s. bind_res (emplace (singleton_table sd) payer (\<lambda>r. Inr (r\<lparr>row_value := def\<rparr>)) s) (\<lambda>(itr, s).
       bind_res (read_item (singleton_table sd) itr s) (\<lambda>r. Inr (row_value r, s)))"
  obtain s1 where s1: "singleton_holds sd ok view img valid s1 x"
    "(case x of None \<Rightarrow> ?create s1 | Some v \<Rightarrow> Inr (v, s1)) = Inr (v, s')"
    using singleton_look [OF h, of "\<lambda>r s. Inr (row_value r, s)" ?create] r by (fastforce simp: singleton_get_or_create_def split: option.splits)
  have "v = (case x of None \<Rightarrow> def | Some v \<Rightarrow> v) \<and> singleton_holds sd ok view img valid s' (Some v)"
  proof (cases x)
    case None
    then obtain it where e: "emplace (singleton_table sd) payer (\<lambda>r. Inr (r\<lparr>row_value := def\<rparr>)) s1 = Inr (it, s')"
      "bind_res (read_item (singleton_table sd) it s') (\<lambda>r. Inr (row_value r, s')) = Inr (v, s')"
      using s1(2) by (auto simp: bind_res_eq_Inr)
    have "points s' it (Some \<lparr>row_value = def\<rparr>)" "singleton_holds sd ok view img valid s' (Some def)"
      using primary.store_law [OF s1(1) [unfolded singleton_holds_def], of "\<lambda>r. Inr (r\<lparr>row_value := def\<rparr>)" "\<lparr>row_value = def\<rparr>"] e(1) assms(2)
      by (simp_all add: singleton_holds_def)
    then show ?thesis using e(2) primary.read_law [of s' it "\<lparr>row_value = def\<rparr>" "singleton_table sd"] None by auto
  next
    case (Some w)
    then show ?thesis using s1 by simp
  qed
  then show "v = (case x of None \<Rightarrow> def | Some v \<Rightarrow> v)" and "singleton_holds sd ok view img valid s' (Some v)" by blast+
qed

end
