(* ===== verification/Uos_Scan.thy ===== *)
theory Uos_Scan
  imports Uos_Index Uos_Singleton
begin

text \<open>
  Walking a table from an iterator to the end, the loop of every client that reads a whole table:
  \<open>for (auto it = t.begin(); it != t.end(); ++it)\<close>. The locale \<open>cursor\<close> states what the loop needs of
  an iterator; the iterators of the table and those of its secondary indices provide it.
\<close>

declare split_paired_All [simp del] split_paired_Ex [simp del]

text \<open>The loop may not end in general, so it takes the number of steps it is allowed.\<close>

primrec walk :: "('i \<Rightarrow> bool) \<Rightarrow> ('i \<Rightarrow> 's \<Rightarrow> 't res) \<Rightarrow> ('i \<Rightarrow> 's \<Rightarrow> ('i \<times> 's) res) \<Rightarrow> nat \<Rightarrow> 'i \<Rightarrow> 's \<Rightarrow> ('t list \<times> 's) res option" where
  "walk ended read step 0 it s = None"
| "walk ended read step (Suc n) it s =
     (if ended it then Some (Inr ([], s))
      else case bind_res (read it s) (\<lambda>v. bind_res (step it s) (\<lambda>(it, s). Inr (v, it, s))) of
        Inl e \<Rightarrow> Some (Inl e)
      | Inr (v, it, s) \<Rightarrow> map_option (\<lambda>r. bind_res r (\<lambda>(vs, s). Inr (v # vs, s))) (walk ended read step n it s))"

text \<open>An iterator is at a position of the finite ordered set \<open>S\<close>, or at the end.\<close>

locale cursor =
  fixes ended :: "'i \<Rightarrow> bool"
    and read :: "'i \<Rightarrow> 's \<Rightarrow> 't res"
    and step :: "'i \<Rightarrow> 's \<Rightarrow> ('i \<times> 's) res"
    and holds :: "'s \<Rightarrow> bool"
    and at :: "'s \<Rightarrow> 'i \<Rightarrow> 'p::linorder option \<Rightarrow> bool"
    and S :: "'p set"
    and row :: "'p \<Rightarrow> 't"
  assumes positions: "finite S"
    and ended_law: "at s it x \<Longrightarrow> ended it \<longleftrightarrow> x = None"
    and read_law: "holds s \<Longrightarrow> at s it (Some p) \<Longrightarrow> read it s = Inr (row p)"
    and step_law: "holds s \<Longrightarrow> at s it (Some p) \<Longrightarrow>
      \<exists>it' s'. step it s = Inr (it', s') \<and> holds s' \<and> at s' it' (least_such (\<lambda>q. p < q) S)"
begin

lemma walk_from:
  assumes "holds s" and "at s it (least_such P S)" and up: "\<And>p q. P p \<Longrightarrow> p \<le> q \<Longrightarrow> P q" and "card {p \<in> S. P p} < n"
  shows "\<exists>s'. walk ended read step n it s = Some (Inr (map row (sorted_list_of_set {p \<in> S. P p}), s')) \<and> holds s'"
  using assms
proof (induction n arbitrary: it s P)
  case (Suc n)
  show ?case
  proof (cases "least_such P S")
    case None
    then have e: "ended it" "{p \<in> S. P p} = {}" using ended_law [OF Suc.prems(2)] by auto
    then show ?thesis using Suc.prems(1) unfolding e(2) by simp
  next
    case (Some p)
    then have p: "p \<in> S" "P p" "\<And>q. q \<in> S \<Longrightarrow> P q \<Longrightarrow> p \<le> q" using least_such_Some [OF positions] by blast+
    obtain it' s' where st: "step it s = Inr (it', s')" "holds s'" "at s' it' (least_such (\<lambda>q. p < q) S)"
      using step_law Suc.prems(1,2) Some by metis
    have split: "{q \<in> S. P q} = insert p {q \<in> S. p < q}" "p \<notin> {q \<in> S. p < q}"
      using p Suc.prems(3) [OF p(2)] by (auto simp: order.order_iff_strict)
    have fin: "finite {q \<in> S. p < q}" using positions by simp
    have "sorted_list_of_set {q \<in> S. P q} = insort p (sorted_list_of_set {q \<in> S. p < q})"
      unfolding split(1) sorted_list_of_set_insert_remove [OF fin] Diff_insert_absorb [OF split(2), simplified]
      using split(2) by simp
    then have sorted: "sorted_list_of_set {q \<in> S. P q} = p # sorted_list_of_set {q \<in> S. p < q}"
      using fin by (subst (asm) insort_is_Cons) (auto simp only: set_sorted_list_of_set mem_Collect_eq less_imp_le)
    have "card {q \<in> S. p < q} < n" using Suc.prems(4) split fin by simp
    then obtain s'' where "walk ended read step n it' s' = Some (Inr (map row (sorted_list_of_set {q \<in> S. p < q}), s''))" "holds s''"
      using Suc.IH [OF st(2,3)] by fastforce
    then show ?thesis
      using st(1) sorted read_law [OF Suc.prems(1)] ended_law [OF Suc.prems(2)] Suc.prems(2) Some by simp
  qed
qed simp

lemma walk_all:
  assumes "holds s" and "at s it (least_such (\<lambda>_. True) S)" and "card S < n"
  shows "\<exists>s'. walk ended read step n it s = Some (Inr (map row (sorted_list_of_set S), s')) \<and> holds s'"
  using walk_from [OF assms(1,2)] assms(3) by simp

end

text \<open>The iterators of the table, and those of index number \<open>n\<close>.\<close>

definition at_key :: "(u64 \<Rightarrow> 't option) \<Rightarrow> ('t, 'h) table \<Rightarrow> iterator \<Rightarrow> u64 option \<Rightarrow> bool" where
  "at_key T s it k \<longleftrightarrow> points s it (Option.bind k T) \<and> (k = None \<or> Option.bind k T \<noteq> None)"

definition at_assoc :: "('t, 'k, 'h) table_def \<Rightarrow> nat \<Rightarrow> (u64 \<Rightarrow> 't option) \<Rightarrow> ('t, 'h) table \<Rightarrow> iterator \<Rightarrow> ('k \<times> u64) option \<Rightarrow> bool" where
  "at_assoc tb n T s it a \<longleftrightarrow> at_key T s it (map_option snd a) \<and> (\<forall>x. a = Some x \<longrightarrow> x \<in> index_assocs tb n T)"

lemma lands_at_key: "lands tb ok view img valid s T k r \<Longrightarrow> \<exists>it s'. r = Inr (it, s') \<and> table_ok tb ok view img valid s' T \<and> at_key T s' it k"
  unfolding lands_def at_key_def by blast

lemma at_key_end: "at_key T s it k \<Longrightarrow> iterator_eq it cend \<longleftrightarrow> k = None"
  by (cases k) (auto simp: at_key_def iterator_eq_def cend_def dest: points_end)

lemma at_key_row:
  assumes "table_ok tb ok view img valid s T" and "at_key T s it (Some k)"
  shows "\<exists>v. T k = Some v \<and> points s it (Some v) \<and> primary_key tb v = k \<and> read_item tb it s = Inr v"
proof -
  obtain v where v: "T k = Some v" "points s it (Some v)" using assms(2) by (auto simp: at_key_def)
  have "primary_key tb v = k" using primary.key_law [OF assms(1) v(1)] .
  moreover have "read_item tb it s = Inr v" using primary.read_law [OF v(2)] .
  ultimately show ?thesis using v by blast
qed

interpretation keys: cursor "\<lambda>it. iterator_eq it cend" "read_item tb" "iterator_next tb"
    "\<lambda>s. table_ok tb ok view img valid s T" "at_key T" "dom T" "\<lambda>k. the (T k)"
  for tb :: "('t, 'k::linorder, 'h) table_def" and ok view img valid T
proof
  fix s :: "('t, 'h) table" and it k
  show "at_key T s it k \<Longrightarrow> iterator_eq it cend = (k = None)" by (rule at_key_end)
  assume t: "table_ok tb ok view img valid s T"
  {
    fix k assume k: "at_key T s it (Some k)"
    obtain v where v: "T k = Some v" "points s it (Some v)" "primary_key tb v = k" "read_item tb it s = Inr v"
      using at_key_row [OF t k] by blast
    show "read_item tb it s = Inr (the (T k))" using v by simp
    show "\<exists>it' s'. iterator_next tb it s = Inr (it', s') \<and> table_ok tb ok view img valid s' T \<and>
        at_key T s' it' (least_such (\<lambda>q. k < q) (dom T))"
      using lands_at_key [OF iterator_next_lands [OF t v(2)]] v(3) by simp
  }
qed simp

interpretation assocs: cursor "\<lambda>it. iterator_eq it cend" "read_item tb" "index_next tb n"
    "\<lambda>s. table_ok tb ok view img valid s T \<and> n < length (extractors tb)" "at_assoc tb n T" "index_assocs tb n T" "\<lambda>a. the (T (snd a))"
  for tb :: "('t, 'k::linorder, 'h) table_def" and n ok view img valid T
proof
  fix s :: "('t, 'h) table" and it and x :: "('k \<times> u64) option"
  show "at_assoc tb n T s it x \<Longrightarrow> iterator_eq it cend = (x = None)" by (auto simp: at_assoc_def dest: at_key_end)
  assume t: "table_ok tb ok view img valid s T \<and> n < length (extractors tb)"
  {
    fix a assume a: "at_assoc tb n T s it (Some a)"
    obtain v where v: "T (snd a) = Some v" "points s it (Some v)" "primary_key tb v = snd a" "read_item tb it s = Inr v"
      using at_key_row [of tb ok view img valid s T it "snd a"] t a by (auto simp: at_assoc_def)
    have e: "((extractors tb ! n) v, primary_key tb v) = a" using a v by (cases a) (simp add: at_assoc_def index_assocs_iff)
    show "read_item tb it s = Inr (the (T (snd a)))" using v by simp
    have "lands tb ok view img valid s T (map_option snd (least_such (\<lambda>b. a < b) (index_assocs tb n T))) (index_next tb n it s)"
      using index_next_lands [of tb ok view img valid s T n it v] t v(2) e by simp
    from lands_at_key [OF this]
    show "\<exists>it' s'. index_next tb n it s = Inr (it', s') \<and> (table_ok tb ok view img valid s' T \<and> n < length (extractors tb)) \<and>
        at_assoc tb n T s' it' (least_such (\<lambda>b. a < b) (index_assocs tb n T))"
      using t least_such_in [OF finite_index_assocs] by (fastforce simp: at_assoc_def)
  }
qed simp

end
