(* ===== verification/Uos_Slots.thy ===== *)
theory Uos_Slots
  imports Uos_Chain
begin

text \<open>
  A chain that keeps the promises of \<open>chain_host\<close>: rows and associations are kept in slots in the
  order in which they were stored, and an iterator is the number of a slot. It stands in for the
  host in the concrete runs.
\<close>

section \<open>Slots\<close>

declare split_paired_All [simp del] split_paired_Ex [simp del]

datatype 'v slot = Slot (slot_table: table_id) (slot_key: u64) (slot_content: 'v)

type_synonym 'v slots = "'v slot option list"

definition slot_at :: "'v slots \<Rightarrow> i32 \<Rightarrow> 'v slot option" where
  "slot_at xs i = (if 0 \<le> sint i \<and> unat i < length xs then xs ! unat i else None)"

definition slot_name :: "'v slot \<Rightarrow> table_id \<times> u64" where
  "slot_name x = (slot_table x, slot_key x)"

definition slot_row :: "'v slots \<Rightarrow> i32 \<Rightarrow> (table_id \<times> u64) option" where
  "slot_row xs i = map_option slot_name (slot_at xs i)"

definition slot_index :: "table_id \<Rightarrow> u64 \<Rightarrow> 'v slots \<Rightarrow> nat option" where
  "slot_index t p xs = List.find (\<lambda>j. map_option slot_name (xs ! j) = Some (t, p)) [0..<length xs]"

definition slot_value :: "'v slots \<Rightarrow> table_id \<Rightarrow> u64 \<Rightarrow> 'v option" where
  "slot_value xs t p = (case slot_index t p xs of None \<Rightarrow> None | Some j \<Rightarrow> map_option slot_content (xs ! j))"

definition slot_itr :: "'v slots \<Rightarrow> table_id \<Rightarrow> u64 option \<Rightarrow> i32" where
  "slot_itr xs t target =
     (case target of None \<Rightarrow> - 1
      | Some p \<Rightarrow> (case slot_index t p xs of None \<Rightarrow> - 1 | Some j \<Rightarrow> of_nat j))"

definition slot_contents :: "'v slots \<Rightarrow> table_id \<Rightarrow> 'v slot list" where
  "slot_contents xs t = [x. Some x \<leftarrow> xs, slot_table x = t]"

definition slots_ok :: "'v slots \<Rightarrow> bool" where
  "slots_ok xs \<longleftrightarrow> length xs < 2 ^ 31 \<and>
     (\<forall>i < length xs. \<forall>j < length xs. \<forall>x y. xs ! i = Some x \<and> xs ! j = Some y \<and> slot_name x = slot_name y \<longrightarrow> i = j)"

text \<open>The end of a table: below -1, by the number of the table's first slot.\<close>

definition slot_end :: "'v slots \<Rightarrow> table_id \<Rightarrow> i32" where
  "slot_end xs t =
     (case List.find (\<lambda>j. map_option slot_table (xs ! j) = Some t) [0..<length xs] of None \<Rightarrow> - 1 | Some j \<Rightarrow> - of_nat j - 2)"

definition slot_ends :: "'v slots \<Rightarrow> i32 \<Rightarrow> table_id option" where
  "slot_ends xs i =
     (let j = unat (- i - 2) in if sint i < 0 \<and> j < length xs then map_option slot_table (xs ! j) else None)"

lemma of_nat_slot: "j < 2 ^ 31 \<Longrightarrow> sint (of_nat j :: i32) = int j" "j < 2 ^ 31 \<Longrightarrow> unat (of_nat j :: i32) = j"
  by (simp_all add: signed_of_nat signed_take_bit_int_eq_self unat_of_nat take_bit_nat_eq_self)

lemma slot_at_nat: "slots_ok xs \<Longrightarrow> j < length xs \<Longrightarrow> slot_at xs (of_nat j) = xs ! j"
  by (simp add: slot_at_def slots_ok_def of_nat_slot)

lemma slot_at_Some: "slot_at xs i = Some r \<longleftrightarrow> 0 \<le> sint i \<and> unat i < length xs \<and> xs ! unat i = Some r"
  by (auto simp: slot_at_def)

lemma slot_index_found: "slot_index t p xs = Some j \<Longrightarrow> j < length xs \<and> (\<exists>x. xs ! j = Some x \<and> slot_name x = (t, p))"
  by (auto simp: slot_index_def find_Some_iff)

lemma slot_index_None: "slot_index t p xs = None \<Longrightarrow> j < length xs \<Longrightarrow> xs ! j = Some x \<Longrightarrow> slot_name x \<noteq> (t, p)"
  by (auto simp: slot_index_def find_None_iff)

lemma slot_value_Some:
  assumes "slots_ok xs"
  shows "slot_value xs t p = Some v \<longleftrightarrow> Some (Slot t p v) \<in> set xs"
proof (cases "slot_index t p xs")
  case None
  have "Some (Slot t p v) \<notin> set xs"
  proof
    assume "Some (Slot t p v) \<in> set xs"
    then obtain j where "j < length xs" "xs ! j = Some (Slot t p v)" by (auto simp: in_set_conv_nth)
    from slot_index_None [OF None this] show False by (simp add: slot_name_def)
  qed
  then show ?thesis using None by (simp add: slot_value_def)
next
  case (Some j)
  obtain x where x: "j < length xs" "xs ! j = Some x" "slot_name x = (t, p)" using slot_index_found [OF Some] by blast
  have "x = Slot t p v" if m: "Some (Slot t p v) \<in> set xs"
  proof -
    obtain i where i: "i < length xs" "xs ! i = Some (Slot t p v)" using m unfolding in_set_conv_nth by blast
    then have "i = j" using assms x unfolding slots_ok_def by (metis slot.sel(1,2) slot_name_def)
    then show ?thesis using x i(2) by simp
  qed
  moreover have "x = Slot t p v \<Longrightarrow> Some (Slot t p v) \<in> set xs" using x nth_mem by metis
  ultimately have mem: "Some (Slot t p v) \<in> set xs \<longleftrightarrow> x = Slot t p v" by blast
  have "slot_value xs t p = Some v \<longleftrightarrow> slot_content x = v" using Some x(2) by (simp add: slot_value_def)
  also have "\<dots> \<longleftrightarrow> x = Slot t p v" using x(3) by (cases x) (simp add: slot_name_def)
  finally show ?thesis using mem by simp
qed

lemma slot_row_Some: "slot_row xs i = Some (t, p) \<longleftrightarrow> (\<exists>v. slot_at xs i = Some (Slot t p v))"
  by (auto simp: slot_row_def slot_name_def) (metis slot.collapse)

lemma slot_row_value: "slots_ok xs \<Longrightarrow> slot_at xs i = Some (Slot t p v) \<Longrightarrow> slot_value xs t p = Some v"
  by (auto simp: slot_value_Some slot_at_Some in_set_conv_nth)

lemma slot_row_inject:
  assumes "slots_ok xs" and "slot_row xs i = Some r" and "slot_row xs j = Some r"
  shows "i = j"
proof -
  obtain x y where "slot_at xs i = Some x" "slot_at xs j = Some y" "slot_name x = slot_name y"
    using assms(2,3) by (auto simp: slot_row_def)
  then have "unat i = unat j" using assms(1) unfolding slots_ok_def slot_at_Some by blast
  then show ?thesis by (simp add: word_unat_eq_iff)
qed

lemma slot_itr_None [simp]: "slot_itr xs t None = - 1"
  by (simp add: slot_itr_def)

lemma slot_itr_Some:
  assumes "slots_ok xs" and "slot_value xs t p \<noteq> None"
  shows "slot_row xs (slot_itr xs t (Some p)) = Some (t, p)"
proof -
  obtain j where j: "slot_index t p xs = Some j" using assms(2) by (auto simp: slot_value_def split: option.splits)
  then obtain x where "j < length xs" "xs ! j = Some x" "slot_name x = (t, p)" using slot_index_found by blast
  then show ?thesis using j slot_at_nat [OF assms(1), of j] by (simp add: slot_itr_def slot_row_def)
qed

lemma slot_itr_absent: "slots_ok xs \<Longrightarrow> slot_value xs t p = None \<Longrightarrow> slot_itr xs t (Some p) = - 1"
  by (auto simp: slot_itr_def slot_value_def dest: slot_index_found split: option.splits)

lemma slot_contents_iff: "slots_ok xs \<Longrightarrow> x \<in> set (slot_contents xs t) \<longleftrightarrow> slot_table x = t \<and> slot_value xs t (slot_key x) = Some (slot_content x)"
  by (cases x) (auto simp: slot_contents_def slot_value_Some split: option.splits)

lemma slot_contents_slot: "slots_ok xs \<Longrightarrow> slot_value xs t p = Some v \<Longrightarrow> Slot t p v \<in> set (slot_contents xs t)"
  by (simp add: slot_contents_iff)

lemma slot_contents_dom: "slots_ok xs \<Longrightarrow> slot_key ` set (slot_contents xs t) = dom (slot_value xs t)"
proof (intro set_eqI iffI)
  assume ok: "slots_ok xs"
  fix k show "k \<in> slot_key ` set (slot_contents xs t) \<Longrightarrow> k \<in> dom (slot_value xs t)" using ok by (auto simp: slot_contents_iff)
  assume "k \<in> dom (slot_value xs t)"
  then obtain v where "slot_value xs t k = Some v" by blast
  from slot_contents_slot [OF ok this] show "k \<in> slot_key ` set (slot_contents xs t)" by (rule rev_image_eqI) simp
qed

lemma slot_contents_assocs: "slots_ok xs \<Longrightarrow> (\<lambda>x. (slot_content x, slot_key x)) ` set (slot_contents xs t) = assocs (slot_value xs t)"
proof (intro set_eqI iffI)
  assume ok: "slots_ok xs"
  fix a show "a \<in> (\<lambda>x. (slot_content x, slot_key x)) ` set (slot_contents xs t) \<Longrightarrow> a \<in> assocs (slot_value xs t)"
    using ok by (auto simp: slot_contents_iff assocs_def)
  assume "a \<in> assocs (slot_value xs t)"
  then obtain v p where a: "a = (v, p)" "slot_value xs t p = Some v" by (cases a) (auto simp: assocs_def)
  from slot_contents_slot [OF ok a(2)] show "a \<in> (\<lambda>x. (slot_content x, slot_key x)) ` set (slot_contents xs t)"
    by (rule rev_image_eqI) (simp add: a(1))
qed

lemma slot_end_cases:
  assumes "slots_ok xs"
  shows "slot_end xs t = - 1 \<and> dom (slot_value xs t) = {} \<or> slot_end xs t \<noteq> - 1 \<and> slot_ends xs (slot_end xs t) = Some t"
proof (cases "List.find (\<lambda>j. map_option slot_table (xs ! j) = Some t) [0..<length xs]")
  case None
  then have "slot_value xs t p \<noteq> Some v" for p v
    using slot_value_Some [OF assms, of t p v] by (fastforce simp: find_None_iff in_set_conv_nth)
  then have "slot_value xs t = (\<lambda>_. None)" by (metis not_None_eq)
  then show ?thesis using None by (auto simp: slot_end_def)
next
  case (Some j)
  then have j: "j < length xs" "map_option slot_table (xs ! j) = Some t" by (auto simp: find_Some_iff)
  then have "j < 2 ^ 31" using assms by (simp add: slots_ok_def)
  then have "unat (of_nat j :: i32) = j" by (rule of_nat_slot)
  moreover have "(- of_nat j - 2 :: i32) = of_int (- int j - 2)" by simp
  then have neg: "sint (- of_nat j - 2 :: i32) = - int j - 2"
    using \<open>j < 2 ^ 31\<close> j(1) assms by (simp only: signed_of_int) (simp add: signed_take_bit_int_eq_self slots_ok_def)
  moreover have "- of_nat j - 2 \<noteq> (- 1 :: i32)"
  proof
    assume "- of_nat j - 2 = (- 1 :: i32)"
    then show False using neg by simp
  qed
  ultimately show ?thesis using j Some by (simp add: slot_end_def slot_ends_def)
qed

text \<open>A store takes a new slot, a removal empties one.\<close>

lemma slots_store:
  assumes ok: "slots_ok xs" and new: "slot_value xs t p = None" and len: "length xs + 1 < 2 ^ 31"
  shows "slots_ok (xs @ [Some (Slot t p v)])"
    and "slot_value (xs @ [Some (Slot t p v)]) = (slot_value xs)(t := (slot_value xs t)(p \<mapsto> v))"
    and "slot_row xs \<subseteq>\<^sub>m slot_row (xs @ [Some (Slot t p v)])"
    and "slot_row (xs @ [Some (Slot t p v)]) (of_nat (length xs)) = Some (t, p)"
proof -
  let ?ys = "xs @ [Some (Slot t p v)]"
  have absent: "slot_name x \<noteq> (t, p)" if "i < length xs" "xs ! i = Some x" for i x
  proof
    assume "slot_name x = (t, p)"
    then have "x = Slot t p (slot_content x)" by (cases x) (simp add: slot_name_def)
    then have "Some (Slot t p (slot_content x)) \<in> set xs" using that nth_mem by metis
    then show False using slot_value_Some [OF ok, of t p] new by simp
  qed
  show ok': "slots_ok ?ys"
    using ok len absent unfolding slots_ok_def by (auto simp: nth_append less_Suc_eq slot_name_def)
  show "slot_value ?ys = (slot_value xs)(t := (slot_value xs t)(p \<mapsto> v))"
  proof (intro ext)
    fix u q
    have "slot_value ?ys u q = Some w \<longleftrightarrow> ((slot_value xs)(t := (slot_value xs t)(p \<mapsto> v))) u q = Some w" for w
      using slot_value_Some [OF ok', of u q w] slot_value_Some [OF ok, of u q w] new by auto
    then show "slot_value ?ys u q = ((slot_value xs)(t := (slot_value xs t)(p \<mapsto> v))) u q" by (metis not_None_eq)
  qed
  show "slot_row xs \<subseteq>\<^sub>m slot_row ?ys"
    by (auto simp: map_le_def slot_row_def slot_at_def nth_append)
  show "slot_row ?ys (of_nat (length xs)) = Some (t, p)"
    using slot_at_nat [OF ok', of "length xs"] by (simp add: slot_row_def slot_name_def)
qed

lemma slots_change:
  assumes ok: "slots_ok xs" and i: "slot_at xs i = Some (Slot t p u)" and y: "\<And>x. y = Some x \<Longrightarrow> slot_name x = (t, p)"
  shows "slots_ok (xs[unat i := y])"
    and "slot_value (xs[unat i := y]) = (slot_value xs)(t := (slot_value xs t)(p := map_option slot_content y))"
    and "slot_row (xs[unat i := y]) = (slot_row xs)(i := map_option slot_name y)"
proof -
  let ?ys = "xs[unat i := y]"
  have l: "unat i < length xs" "xs ! unat i = Some (Slot t p u)" "0 \<le> sint i" using i by (simp_all add: slot_at_Some)
  show ok': "slots_ok ?ys"
    using ok l y unfolding slots_ok_def
    by (auto simp: nth_list_update slot_name_def split: if_splits)
  show "slot_value ?ys = (slot_value xs)(t := (slot_value xs t)(p := map_option slot_content y))"
  proof (intro ext)
    fix a q
    have mem: "Some (Slot a q w) \<in> set ?ys \<longleftrightarrow> (if a = t \<and> q = p then y = Some (Slot a q w) else Some (Slot a q w) \<in> set xs)" for w
    proof
      assume "Some (Slot a q w) \<in> set ?ys"
      then obtain j where j: "j < length xs" "?ys ! j = Some (Slot a q w)" by (auto simp: in_set_conv_nth)
      show "if a = t \<and> q = p then y = Some (Slot a q w) else Some (Slot a q w) \<in> set xs"
      proof (cases "j = unat i")
        case True
        then show ?thesis using j l y [of "Slot a q w"] by (simp add: slot_name_def)
      next
        case False
        then have "xs ! j = Some (Slot a q w)" using j by simp
        moreover have "\<not> (a = t \<and> q = p)"
          using ok l j(1) False \<open>xs ! j = _\<close> unfolding slots_ok_def by (metis slot.sel(1,2) slot_name_def)
        ultimately show ?thesis using j(1) nth_mem by metis
      qed
    next
      assume r: "if a = t \<and> q = p then y = Some (Slot a q w) else Some (Slot a q w) \<in> set xs"
      show "Some (Slot a q w) \<in> set ?ys"
      proof (cases "a = t \<and> q = p")
        case True
        then show ?thesis using r l(1) set_update_memI by fastforce
      next
        case False
        then obtain j where j: "j < length xs" "xs ! j = Some (Slot a q w)" using r by (auto simp: in_set_conv_nth)
        then have "j \<noteq> unat i" using l(2) False by auto
        then have "?ys ! j = Some (Slot a q w)" using j by simp
        then show ?thesis using j(1) nth_mem by (metis length_list_update)
      qed
    qed
    have "slot_value ?ys a q = Some w \<longleftrightarrow> ((slot_value xs)(t := (slot_value xs t)(p := map_option slot_content y))) a q = Some w" for w
    proof (cases "a = t \<and> q = p")
      case True
      have "y = Some (Slot t p w) \<longleftrightarrow> map_option slot_content y = Some w"
      proof (cases y)
        case (Some x)
        then show ?thesis using y [OF Some] by (cases x) (simp add: slot_name_def)
      qed simp
      then show ?thesis using True slot_value_Some [OF ok', of a q w] mem [of w] by simp
    next
      case False
      then have "((slot_value xs)(t := (slot_value xs t)(p := map_option slot_content y))) a q = slot_value xs a q" by auto
      then show ?thesis using slot_value_Some [OF ok', of a q w] slot_value_Some [OF ok, of a q w] mem [of w] False by simp
    qed
    then show "slot_value ?ys a q = ((slot_value xs)(t := (slot_value xs t)(p := map_option slot_content y))) a q" by (metis not_None_eq)
  qed
  show "slot_row ?ys = (slot_row xs)(i := map_option slot_name y)"
  proof
    fix j
    show "slot_row ?ys j = ((slot_row xs)(i := map_option slot_name y)) j"
    proof (cases "j = i")
      case False
      then have "unat j \<noteq> unat i" by (simp add: word_unat_eq_iff)
      then show ?thesis using False by (simp add: slot_row_def slot_at_def)
    qed (use l in \<open>simp add: slot_row_def slot_at_def\<close>)
  qed
qed

section \<open>The chain\<close>

record 'k ref_state =
  r_receiver :: u64
  r_rows :: "u8 list slots"
  r_keys :: "'k slots"

definition ref_ok :: "'k ref_state \<Rightarrow> bool" where
  "ref_ok h \<longleftrightarrow> slots_ok (r_rows h) \<and> slots_ok (r_keys h) \<and> (\<forall>x. Some x \<in> set (r_rows h) \<longrightarrow> length (slot_content x) < 2 ^ 31)"

definition ref_view :: "'k ref_state \<Rightarrow> 'k chain_view" where
  "ref_view h = \<lparr>v_rows = slot_value (r_rows h), v_itr = slot_row (r_rows h), v_end = slot_ends (r_rows h),
     v_keys = slot_value (r_keys h), v_key_itr = slot_row (r_keys h), v_key_end = slot_ends (r_keys h)\<rparr>"

definition ref_seek :: "(u64 \<Rightarrow> bool) \<Rightarrow> u64 \<Rightarrow> u64 \<Rightarrow> u64 \<Rightarrow> 'k ref_state \<Rightarrow> (i32 \<times> 'k ref_state) res" where
  "ref_seek P c s n h =
     Inr (slot_itr (r_rows h) (c, s, n) (least_such P (slot_key ` set (slot_contents (r_rows h) (c, s, n)))), h)"

definition ref_row_step :: "table_id \<Rightarrow> u64 option \<Rightarrow> 'k ref_state \<Rightarrow> (i32 \<times> u64 \<times> 'k ref_state) res" where
  "ref_row_step t target h = Inr (slot_itr (r_rows h) t target, case target of None \<Rightarrow> 0 | Some q \<Rightarrow> q, h)"

definition ref_next :: "i32 \<Rightarrow> 'k ref_state \<Rightarrow> (i32 \<times> u64 \<times> 'k ref_state) res" where
  "ref_next i h =
     (case slot_row (r_rows h) i of
        None \<Rightarrow> Inl (Assertion ''invalid iterator'')
      | Some (t, p) \<Rightarrow> ref_row_step t (least_such (\<lambda>q. p < q) (slot_key ` set (slot_contents (r_rows h) t))) h)"

definition ref_previous :: "i32 \<Rightarrow> 'k ref_state \<Rightarrow> (i32 \<times> u64 \<times> 'k ref_state) res" where
  "ref_previous i h =
     (case slot_row (r_rows h) i of
        Some (t, p) \<Rightarrow> ref_row_step t (greatest_such (\<lambda>q. q < p) (slot_key ` set (slot_contents (r_rows h) t))) h
      | None \<Rightarrow> (case slot_ends (r_rows h) i of
          None \<Rightarrow> Inl (Assertion ''invalid iterator'')
        | Some t \<Rightarrow> ref_row_step t (greatest_such (\<lambda>_. True) (slot_key ` set (slot_contents (r_rows h) t))) h))"

definition ref_store :: "u64 \<Rightarrow> u64 \<Rightarrow> u64 \<Rightarrow> u64 \<Rightarrow> u8 list \<Rightarrow> 'k ref_state \<Rightarrow> (i32 \<times> 'k ref_state) res" where
  "ref_store s n payer p d h =
     (let t = (r_receiver h, s, n) in
      if slot_value (r_rows h) t p \<noteq> None \<or> length (r_rows h) + 1 \<ge> 2 ^ 31 \<or> length d \<ge> 2 ^ 31
      then Inl (Assertion ''db_store_i64'')
      else Inr (of_nat (length (r_rows h)), h\<lparr>r_rows := r_rows h @ [Some (Slot t p d)]\<rparr>))"

definition ref_put :: "'v slots \<Rightarrow> i32 \<Rightarrow> 'v option \<Rightarrow> 'v slots res" where
  "ref_put xs i d =
     (case slot_at xs i of
        None \<Rightarrow> Inl (Assertion ''invalid iterator'')
      | Some x \<Rightarrow> Inr (xs[unat i := map_option (Slot (slot_table x) (slot_key x)) d]))"

definition ref_update :: "i32 \<Rightarrow> u64 \<Rightarrow> u8 list \<Rightarrow> 'k ref_state \<Rightarrow> 'k ref_state res" where
  "ref_update i payer d h =
     (if length d \<ge> 2 ^ 31 then Inl (Assertion ''db_update_i64'')
      else bind_res (ref_put (r_rows h) i (Some d)) (\<lambda>xs. Inr (h\<lparr>r_rows := xs\<rparr>)))"

definition ref_get :: "i32 \<Rightarrow> u32 \<Rightarrow> 'k ref_state \<Rightarrow> (i32 \<times> u8 list) res" where
  "ref_get i len h =
     (case slot_at (r_rows h) i of
        None \<Rightarrow> Inl (Assertion ''invalid iterator'')
      | Some x \<Rightarrow> (let d = slot_content x in
          Inr (if len = 0 then (of_nat (length d), []) else (of_nat (min (unat len) (length d)), take (unat len) d))))"

definition ref_key_step :: "table_id \<Rightarrow> ('k \<times> u64) option \<Rightarrow> 'k ref_state \<Rightarrow> (i32 \<times> u64 \<times> 'k ref_state) res" where
  "ref_key_step t target h =
     Inr (slot_itr (r_keys h) t (map_option snd target), case target of None \<Rightarrow> 0 | Some (_, q) \<Rightarrow> q, h)"

definition ref_assocs :: "'k ref_state \<Rightarrow> table_id \<Rightarrow> ('k \<times> u64) set" where
  "ref_assocs h t = (\<lambda>x. (slot_content x, slot_key x)) ` set (slot_contents (r_keys h) t)"

definition ref_key_next :: "i32 \<Rightarrow> 'k::linorder ref_state \<Rightarrow> (i32 \<times> u64 \<times> 'k ref_state) res" where
  "ref_key_next i h =
     (case slot_at (r_keys h) i of
        None \<Rightarrow> Inl (Assertion ''invalid iterator'')
      | Some x \<Rightarrow> ref_key_step (slot_table x) (least_such (\<lambda>a. (slot_content x, slot_key x) < a) (ref_assocs h (slot_table x))) h)"

definition ref_key_previous :: "i32 \<Rightarrow> 'k::linorder ref_state \<Rightarrow> (i32 \<times> u64 \<times> 'k ref_state) res" where
  "ref_key_previous i h =
     (case slot_at (r_keys h) i of
        Some x \<Rightarrow> ref_key_step (slot_table x) (greatest_such (\<lambda>a. a < (slot_content x, slot_key x)) (ref_assocs h (slot_table x))) h
      | None \<Rightarrow> (case slot_ends (r_keys h) i of
          None \<Rightarrow> Inl (Assertion ''invalid iterator'')
        | Some t \<Rightarrow> ref_key_step t (greatest_such (\<lambda>_. True) (ref_assocs h t)) h))"

definition ref_key_store :: "u64 \<Rightarrow> u64 \<Rightarrow> u64 \<Rightarrow> u64 \<Rightarrow> 'k \<Rightarrow> 'k ref_state \<Rightarrow> (i32 \<times> 'k ref_state) res" where
  "ref_key_store s n payer p k h =
     (let t = (r_receiver h, s, n) in
      if slot_value (r_keys h) t p \<noteq> None \<or> length (r_keys h) + 1 \<ge> 2 ^ 31
      then Inl (Assertion ''db_idx_store'')
      else Inr (of_nat (length (r_keys h)), h\<lparr>r_keys := r_keys h @ [Some (Slot t p k)]\<rparr>))"

definition ref_chain :: "('k::linorder, 'k ref_state) chain" where
  "ref_chain = \<lparr>
     receiver = r_receiver,
     db_store_i64 = ref_store,
     db_update_i64 = ref_update,
     db_remove_i64 = (\<lambda>i h. bind_res (ref_put (r_rows h) i None) (\<lambda>xs. Inr (h\<lparr>r_rows := xs\<rparr>))),
     db_get_i64 = ref_get,
     db_next_i64 = ref_next,
     db_previous_i64 = ref_previous,
     db_find_i64 = (\<lambda>c s n p. ref_seek (\<lambda>q. q = p) c s n),
     db_lowerbound_i64 = (\<lambda>c s n p. ref_seek (\<lambda>q. p \<le> q) c s n),
     db_upperbound_i64 = (\<lambda>c s n p. ref_seek (\<lambda>q. p < q) c s n),
     db_end_i64 = (\<lambda>c s n h. Inr (slot_end (r_rows h) (c, s, n), h)),
     db_idx_store = ref_key_store,
     db_idx_update = (\<lambda>i payer k h. bind_res (ref_put (r_keys h) i (Some k)) (\<lambda>xs. Inr (h\<lparr>r_keys := xs\<rparr>))),
     db_idx_remove = (\<lambda>i h. bind_res (ref_put (r_keys h) i None) (\<lambda>xs. Inr (h\<lparr>r_keys := xs\<rparr>))),
     db_idx_next = ref_key_next,
     db_idx_previous = ref_key_previous,
     db_idx_find_primary = (\<lambda>c s n p h. Inr (slot_itr (r_keys h) (c, s, n)
       (if slot_value (r_keys h) (c, s, n) p = None then None else Some p), h)),
     db_idx_lowerbound = (\<lambda>c s n k h. ref_key_step (c, s, n) (least_such (\<lambda>a. k \<le> fst a) (ref_assocs h (c, s, n))) h),
     db_idx_upperbound = (\<lambda>c s n k h. ref_key_step (c, s, n) (least_such (\<lambda>a. k < fst a) (ref_assocs h (c, s, n))) h),
     db_idx_end = (\<lambda>c s n h. Inr (slot_end (r_keys h) (c, s, n), h))\<rparr>"

lemma ref_chain_sel [simp]:
  "receiver ref_chain = r_receiver"
  "db_store_i64 ref_chain = ref_store"
  "db_update_i64 ref_chain = ref_update"
  "db_remove_i64 ref_chain = (\<lambda>i h. bind_res (ref_put (r_rows h) i None) (\<lambda>xs. Inr (h\<lparr>r_rows := xs\<rparr>)))"
  "db_get_i64 ref_chain = ref_get"
  "db_next_i64 ref_chain = ref_next"
  "db_previous_i64 ref_chain = ref_previous"
  "db_find_i64 ref_chain = (\<lambda>c s n p. ref_seek (\<lambda>q. q = p) c s n)"
  "db_lowerbound_i64 ref_chain = (\<lambda>c s n p. ref_seek (\<lambda>q. p \<le> q) c s n)"
  "db_upperbound_i64 ref_chain = (\<lambda>c s n p. ref_seek (\<lambda>q. p < q) c s n)"
  "db_end_i64 ref_chain = (\<lambda>c s n h. Inr (slot_end (r_rows h) (c, s, n), h))"
  "db_idx_store ref_chain = ref_key_store"
  "db_idx_update ref_chain = (\<lambda>i payer k h. bind_res (ref_put (r_keys h) i (Some k)) (\<lambda>xs. Inr (h\<lparr>r_keys := xs\<rparr>)))"
  "db_idx_remove ref_chain = (\<lambda>i h. bind_res (ref_put (r_keys h) i None) (\<lambda>xs. Inr (h\<lparr>r_keys := xs\<rparr>)))"
  "db_idx_next ref_chain = ref_key_next"
  "db_idx_previous ref_chain = ref_key_previous"
  "db_idx_find_primary ref_chain = (\<lambda>c s n p h. Inr (slot_itr (r_keys h) (c, s, n)
       (if slot_value (r_keys h) (c, s, n) p = None then None else Some p), h))"
  "db_idx_lowerbound ref_chain = (\<lambda>c s n k h. ref_key_step (c, s, n) (least_such (\<lambda>a. k \<le> fst a) (ref_assocs h (c, s, n))) h)"
  "db_idx_upperbound ref_chain = (\<lambda>c s n k h. ref_key_step (c, s, n) (least_such (\<lambda>a. k < fst a) (ref_assocs h (c, s, n))) h)"
  "db_idx_end ref_chain = (\<lambda>c s n h. Inr (slot_end (r_keys h) (c, s, n), h))"
  by (simp_all add: ref_chain_def)

lemma ref_view_sel [simp]:
  "v_rows (ref_view h) = slot_value (r_rows h)" "v_itr (ref_view h) = slot_row (r_rows h)" "v_end (ref_view h) = slot_ends (r_rows h)"
  "v_keys (ref_view h) = slot_value (r_keys h)" "v_key_itr (ref_view h) = slot_row (r_keys h)" "v_key_end (ref_view h) = slot_ends (r_keys h)"
  by (simp_all add: ref_view_def)

lemma ref_okD: "ref_ok h \<Longrightarrow> slots_ok (r_rows h)" "ref_ok h \<Longrightarrow> slots_ok (r_keys h)"
  by (simp_all add: ref_ok_def)

lemma ref_view_ok: "ref_ok h \<Longrightarrow> view_ok (ref_view h)"
  unfolding view_ok_def ref_view_sel
proof (intro conjI allI impI)
  assume ok: "ref_ok h"
  note oks = ref_okD [OF ok]
  fix i j t p d
  show "slot_row (r_rows h) i = Some (t, p) \<Longrightarrow> 0 \<le> sint i" "slot_row (r_keys h) i = Some (t, p) \<Longrightarrow> 0 \<le> sint i"
    by (auto simp: slot_row_Some slot_at_Some)
  show "slot_row (r_rows h) i = Some (t, p) \<Longrightarrow> slot_value (r_rows h) t p \<noteq> None"
    "slot_row (r_keys h) i = Some (t, p) \<Longrightarrow> slot_value (r_keys h) t p \<noteq> None"
    using oks by (auto simp: slot_row_Some slot_row_value)
  show "slot_row (r_rows h) i = slot_row (r_rows h) j \<and> slot_row (r_rows h) i \<noteq> None \<Longrightarrow> i = j"
    "slot_row (r_keys h) i = slot_row (r_keys h) j \<and> slot_row (r_keys h) i \<noteq> None \<Longrightarrow> i = j"
    using slot_row_inject oks by (metis not_None_eq)+
  show "slot_value (r_rows h) t p = Some d \<Longrightarrow> length d < 2 ^ 31"
    using ok slot_value_Some [OF oks(1)] unfolding ref_ok_def by fastforce
qed

lemma ref_looks [simp]: "looks ref_chain ref_view h h"
  by (simp add: looks_def)

lemma least_such_mem: "least_such P S = Some x \<Longrightarrow> finite S \<Longrightarrow> x \<in> S"
  by (simp add: least_such_Some)

lemma greatest_such_mem: "greatest_such P S = Some x \<Longrightarrow> finite S \<Longrightarrow> x \<in> S"
  by (simp add: greatest_such_Some)

lemma ref_seeks_row:
  assumes "ref_ok h" and "\<And>p. target = Some p \<Longrightarrow> p \<in> dom (slot_value (r_rows h) t)"
  shows "seeks_row ref_chain ref_ok ref_view h t target (slot_itr (r_rows h) t target) h"
  using assms slot_itr_Some [OF ref_okD(1) [OF assms(1)], of t]
  by (cases target) (auto simp: seeks_row_def)

lemma ref_seeks_assoc:
  assumes "ref_ok h" and "\<And>k p. target = Some (k, p) \<Longrightarrow> (k, p) \<in> assocs (slot_value (r_keys h) t)"
  shows "seeks_assoc ref_chain ref_ok ref_view h t target (slot_itr (r_keys h) t (map_option snd target), case target of None \<Rightarrow> 0 | Some (_, q) \<Rightarrow> q, h)"
  using assms slot_itr_Some [OF ref_okD(2) [OF assms(1)], of t]
  by (cases target) (auto simp: seeks_assoc_def seeks_key_def assocs_def)

lemma ref_put_change:
  assumes ok: "slots_ok xs" and i: "slot_row xs i = Some (t, p)" and put: "ref_put xs i d = Inr ys"
  shows "slots_ok ys" "slot_value ys = (slot_value xs)(t := (slot_value xs t)(p := d))"
    "slot_row ys = (slot_row xs)(i := map_option (\<lambda>_. (t, p)) d)" "set ys \<subseteq> insert (map_option (Slot t p) d) (set xs)"
proof -
  obtain u where u: "slot_at xs i = Some (Slot t p u)" using i by (auto simp: slot_row_Some)
  have ys: "ys = xs[unat i := map_option (Slot t p) d]" using put u by (simp add: ref_put_def)
  have y: "map_option (Slot t p) d = Some x \<Longrightarrow> slot_name x = (t, p)" for x by (auto simp: slot_name_def)
  have sel: "map_option slot_content (map_option (Slot t p) d) = d"
    "map_option slot_name (map_option (Slot t p) d) = map_option (\<lambda>_. (t, p)) d"
    by (cases d; simp add: slot_name_def)+
  show "slots_ok ys" unfolding ys by (rule slots_change(1) [OF ok u]) (rule y)
  show "slot_value ys = (slot_value xs)(t := (slot_value xs t)(p := d))"
    unfolding ys by (subst slots_change(2) [OF ok u]) (simp_all add: y sel del: map_option_eq_Some)
  show "slot_row ys = (slot_row xs)(i := map_option (\<lambda>_. (t, p)) d)"
    unfolding ys by (subst slots_change(3) [OF ok u]) (simp_all add: y sel del: map_option_eq_Some)
  show "set ys \<subseteq> insert (map_option (Slot t p) d) (set xs)" unfolding ys by (rule set_update_subset_insert)
qed

lemma ref_rows_change:
  assumes ok: "ref_ok h" and i: "slot_row (r_rows h) i = Some (t, p)" and d: "\<And>b. d = Some b \<Longrightarrow> length b < 2 ^ 31"
    and put: "ref_put (r_rows h) i d = Inr xs"
  shows "rows_change ref_chain ref_ok ref_view h t p d (h\<lparr>r_rows := xs\<rparr>)"
proof -
  note c = ref_put_change [OF ref_okD(1) [OF ok] i put]
  have "length (slot_content x) < 2 ^ 31" if "Some x \<in> set xs" for x
    using that c(4) ok d unfolding ref_ok_def by (cases d) auto
  then show ?thesis using ok c(1,2) by (simp add: rows_change_def ref_ok_def)
qed

lemma ref_keys_change:
  assumes ok: "ref_ok h" and i: "slot_row (r_keys h) i = Some (t, p)" and put: "ref_put (r_keys h) i d = Inr xs"
  shows "keys_change ref_chain ref_ok ref_view h t p d (h\<lparr>r_keys := xs\<rparr>)"
  using ok ref_put_change [OF ref_okD(2) [OF ok] i put] by (simp add: keys_change_def ref_ok_def)

lemma ref_put_ok: "slot_row xs i = Some r \<Longrightarrow> \<exists>ys. ref_put xs i d = Inr ys"
  by (auto simp: ref_put_def slot_row_def)

lemma slot_ends_row: "slot_ends xs i = Some t \<Longrightarrow> slot_row xs i = None"
  by (auto simp: slot_ends_def slot_row_def slot_at_def Let_def split: if_splits)

lemma ref_store_change:
  assumes ok: "ref_ok h" and put: "ref_store s n payer p d h = Inr (i, h')"
  shows "slot_value (r_rows h) (r_receiver h, s, n) p = None"
    and "rows_change ref_chain ref_ok ref_view h (r_receiver h, s, n) p (Some d) h'"
    and "slot_row (r_rows h) \<subseteq>\<^sub>m slot_row (r_rows h')" "slot_row (r_rows h') i = Some ((r_receiver h, s, n), p)"
proof -
  have c: "slot_value (r_rows h) (r_receiver h, s, n) p = None" "length (r_rows h) + 1 < 2 ^ 31" "length d < 2 ^ 31"
    "i = of_nat (length (r_rows h))" "h' = h\<lparr>r_rows := r_rows h @ [Some (Slot (r_receiver h, s, n) p d)]\<rparr>"
    using put by (auto simp: ref_store_def Let_def split: if_splits)
  note s = slots_store [OF ref_okD(1) [OF ok] c(1,2), of d]
  show "slot_value (r_rows h) (r_receiver h, s, n) p = None" by (rule c)
  show "rows_change ref_chain ref_ok ref_view h (r_receiver h, s, n) p (Some d) h'"
    using ok s(1,2) c by (auto simp: rows_change_def ref_ok_def)
  show "slot_row (r_rows h) \<subseteq>\<^sub>m slot_row (r_rows h')" "slot_row (r_rows h') i = Some ((r_receiver h, s, n), p)"
    using s(3,4) c(4,5) by simp_all
qed

lemma ref_key_store_change:
  assumes ok: "ref_ok h" and put: "ref_key_store s n payer p k h = Inr (i, h')"
  shows "slot_value (r_keys h) (r_receiver h, s, n) p = None"
    and "keys_change ref_chain ref_ok ref_view h (r_receiver h, s, n) p (Some k) h'"
    and "slot_row (r_keys h) \<subseteq>\<^sub>m slot_row (r_keys h')" "slot_row (r_keys h') i = Some ((r_receiver h, s, n), p)"
proof -
  have c: "slot_value (r_keys h) (r_receiver h, s, n) p = None" "length (r_keys h) + 1 < 2 ^ 31"
    "i = of_nat (length (r_keys h))" "h' = h\<lparr>r_keys := r_keys h @ [Some (Slot (r_receiver h, s, n) p k)]\<rparr>"
    using put by (auto simp: ref_key_store_def Let_def split: if_splits)
  note s = slots_store [OF ref_okD(2) [OF ok] c(1,2), of k]
  show "slot_value (r_keys h) (r_receiver h, s, n) p = None" by (rule c)
  show "keys_change ref_chain ref_ok ref_view h (r_receiver h, s, n) p (Some k) h'"
    using ok s(1,2) c by (auto simp: keys_change_def ref_ok_def)
  show "slot_row (r_keys h) \<subseteq>\<^sub>m slot_row (r_keys h')" "slot_row (r_keys h') i = Some ((r_receiver h, s, n), p)"
    using s(3,4) c(3,4) by simp_all
qed

interpretation ref_rows: row_host ref_chain ref_ok ref_view
proof
  fix h :: "'k::linorder ref_state" and c s n p payer i t d len h'
  assume ok: "ref_ok h"
  note dom = slot_contents_dom [OF ref_okD(1) [OF ok]]
  have seek: "seeks_row ref_chain ref_ok ref_view h t target (slot_itr (r_rows h) t target) h"
    if "\<And>p. target = Some p \<Longrightarrow> p \<in> dom (slot_value (r_rows h) t)" for target t
    using ok that by (rule ref_seeks_row)
  show "view_ok (ref_view h)" using ok by (rule ref_view_ok)
  show "\<exists>i h'. db_find_i64 ref_chain c s n p h = Inr (i, h') \<and>
      seeks_row ref_chain ref_ok ref_view h (c, s, n) (least_such (\<lambda>q. q = p) (dom (v_rows (ref_view h) (c, s, n)))) i h'"
    "\<exists>i h'. db_lowerbound_i64 ref_chain c s n p h = Inr (i, h') \<and>
      seeks_row ref_chain ref_ok ref_view h (c, s, n) (least_such (\<lambda>q. p \<le> q) (dom (v_rows (ref_view h) (c, s, n)))) i h'"
    "\<exists>i h'. db_upperbound_i64 ref_chain c s n p h = Inr (i, h') \<and>
      seeks_row ref_chain ref_ok ref_view h (c, s, n) (least_such (\<lambda>q. p < q) (dom (v_rows (ref_view h) (c, s, n)))) i h'"
    by (simp_all add: ref_seek_def dom) (rule seek, erule least_such_mem, simp)+
  show "v_itr (ref_view h) i = Some (t, p) \<Longrightarrow> \<exists>j q h'. db_next_i64 ref_chain i h = Inr (j, q, h') \<and>
      seeks_row ref_chain ref_ok ref_view h t (least_such (\<lambda>q. p < q) (dom (v_rows (ref_view h) t))) j h'"
    by (simp add: ref_next_def ref_row_step_def dom) (rule seek, erule least_such_mem, simp)
  show "v_itr (ref_view h) i = Some (t, p) \<Longrightarrow> \<exists>j q h'. db_previous_i64 ref_chain i h = Inr (j, q, h') \<and>
      seeks_row ref_chain ref_ok ref_view h t (greatest_such (\<lambda>q. q < p) (dom (v_rows (ref_view h) t))) j h'"
    by (simp add: ref_previous_def ref_row_step_def dom) (rule seek, erule greatest_such_mem, simp)
  show "v_end (ref_view h) i = Some t \<Longrightarrow> \<exists>j q h'. db_previous_i64 ref_chain i h = Inr (j, q, h') \<and>
      seeks_row ref_chain ref_ok ref_view h t (greatest_such (\<lambda>_. True) (dom (v_rows (ref_view h) t))) j h'"
    by (simp add: ref_previous_def ref_row_step_def dom slot_ends_row) (rule seek, erule greatest_such_mem, simp)
  show "v_itr (ref_view h) i = Some (t, p) \<Longrightarrow> v_rows (ref_view h) t p = Some d \<Longrightarrow> db_get_i64 ref_chain i len h =
        Inr (if len = 0 then (of_nat (length d), []) else (of_nat (min (unat len) (length d)), take (unat len) d))"
    using slot_row_value [OF ref_okD(1) [OF ok], of i t p]
    by (auto simp: ref_get_def slot_row_Some Let_def)
  show "\<exists>i h'. db_end_i64 ref_chain c s n h = Inr (i, h') \<and> ref_ok h' \<and> looks ref_chain ref_view h h' \<and>
      (i = - 1 \<and> dom (v_rows (ref_view h) (c, s, n)) = {} \<or> i \<noteq> - 1 \<and> v_end (ref_view h') i = Some (c, s, n))"
    using slot_end_cases [OF ref_okD(1) [OF ok]] ok by (simp)
  show "db_store_i64 ref_chain s n payer p d h = Inr (i, h') \<Longrightarrow>
      v_rows (ref_view h) (receiver ref_chain h, s, n) p = None \<and>
      rows_change ref_chain ref_ok ref_view h (receiver ref_chain h, s, n) p (Some d) h' \<and>
      v_itr (ref_view h) \<subseteq>\<^sub>m v_itr (ref_view h') \<and> v_itr (ref_view h') i = Some ((receiver ref_chain h, s, n), p)" for s n payer d
    using ok ref_store_change [OF ok] by (simp)
  show "v_itr (ref_view h) i = Some (t, p) \<Longrightarrow> db_update_i64 ref_chain i payer d h = Inr h' \<Longrightarrow>
      rows_change ref_chain ref_ok ref_view h t p (Some d) h' \<and> v_itr (ref_view h) \<subseteq>\<^sub>m v_itr (ref_view h')"
    using ref_rows_change [OF ok, of i t p "Some d"] ref_put_change(3) [OF ref_okD(1) [OF ok], of i t p "Some d"]
    by (auto simp: ref_update_def bind_res_eq_Inr map_le_def split: if_splits)
  show "v_itr (ref_view h) i = Some (t, p) \<Longrightarrow> fst t = receiver ref_chain h \<Longrightarrow> \<exists>h'. db_remove_i64 ref_chain i h = Inr h' \<and>
      rows_change ref_chain ref_ok ref_view h t p None h' \<and> (v_itr (ref_view h))(i := None) \<subseteq>\<^sub>m v_itr (ref_view h')"
    using ref_put_ok [of "r_rows h" i "(t, p)" None] ref_rows_change [OF ok, of i t p None]
      ref_put_change(3) [OF ref_okD(1) [OF ok], of i t p None]
    by auto
qed

lemma ref_assocs_eq: "ref_ok h \<Longrightarrow> ref_assocs h t = assocs (slot_value (r_keys h) t)"
  using slot_contents_assocs [OF ref_okD(2)] by (simp add: ref_assocs_def)

lemma ref_key_stepped:
  assumes "ref_ok h" and "\<And>a. target = Some a \<Longrightarrow> a \<in> assocs (slot_value (r_keys h) t)"
  shows "\<exists>r. ref_key_step t target h = Inr r \<and> seeks_assoc ref_chain ref_ok ref_view h t target r"
  using ref_seeks_assoc [OF assms] by (simp add: ref_key_step_def)

lemma ref_key_least: "ref_ok h \<Longrightarrow> \<exists>r. ref_key_step t (least_such P (assocs (slot_value (r_keys h) t))) h = Inr r \<and>
    seeks_assoc ref_chain ref_ok ref_view h t (least_such P (assocs (slot_value (r_keys h) t))) r"
  by (rule ref_key_stepped) (auto dest: least_such_mem)

lemma ref_key_greatest: "ref_ok h \<Longrightarrow> \<exists>r. ref_key_step t (greatest_such P (assocs (slot_value (r_keys h) t))) h = Inr r \<and>
    seeks_assoc ref_chain ref_ok ref_view h t (greatest_such P (assocs (slot_value (r_keys h) t))) r"
  by (rule ref_key_stepped) (auto dest: greatest_such_mem)

interpretation ref_keys: key_host ref_chain ref_ok ref_view
proof
  fix h :: "'k::linorder ref_state" and c s n p payer i t k h'
  assume ok: "ref_ok h"
  note assocs = ref_assocs_eq [OF ok]
  have at: "slot_at (r_keys h) i = Some (Slot t p k)" if "v_key_itr (ref_view h) i = Some (t, p)" "v_keys (ref_view h) t p = Some k"
    using that slot_row_value [OF ref_okD(2) [OF ok], of i t p] by (auto simp: slot_row_Some)
  show "\<exists>i h'. db_idx_find_primary ref_chain c s n p h = Inr (i, h') \<and>
      seeks_key ref_chain ref_ok ref_view h (c, s, n) (map_option (\<lambda>_. p) (v_keys (ref_view h) (c, s, n) p)) i h'"
    using ok slot_itr_Some [OF ref_okD(2) [OF ok], of "(c, s, n)" p]
    by (cases "slot_value (r_keys h) (c, s, n) p") (simp_all add: seeks_key_def)
  show "\<exists>r. db_idx_lowerbound ref_chain c s n k h = Inr r \<and>
      seeks_assoc ref_chain ref_ok ref_view h (c, s, n) (least_such (\<lambda>a. k \<le> fst a) (assocs (v_keys (ref_view h) (c, s, n)))) r"
    "\<exists>r. db_idx_upperbound ref_chain c s n k h = Inr r \<and>
      seeks_assoc ref_chain ref_ok ref_view h (c, s, n) (least_such (\<lambda>a. k < fst a) (assocs (v_keys (ref_view h) (c, s, n)))) r"
    using ref_key_least [OF ok] by (simp_all add: assocs)
  show "v_key_itr (ref_view h) i = Some (t, p) \<Longrightarrow> v_keys (ref_view h) t p = Some k \<Longrightarrow> \<exists>r. db_idx_next ref_chain i h = Inr r \<and>
      seeks_assoc ref_chain ref_ok ref_view h t (least_such (\<lambda>a. (k, p) < a) (assocs (v_keys (ref_view h) t))) r"
    using ref_key_least [OF ok, of t "\<lambda>a. (k, p) < a"] at by (simp add: ref_key_next_def assocs)
  show "v_key_itr (ref_view h) i = Some (t, p) \<Longrightarrow> v_keys (ref_view h) t p = Some k \<Longrightarrow> \<exists>r. db_idx_previous ref_chain i h = Inr r \<and>
      seeks_assoc ref_chain ref_ok ref_view h t (greatest_such (\<lambda>a. a < (k, p)) (assocs (v_keys (ref_view h) t))) r"
    using ref_key_greatest [OF ok, of t "\<lambda>a. a < (k, p)"] at by (simp add: ref_key_previous_def assocs)
  show "v_key_end (ref_view h) i = Some t \<Longrightarrow> \<exists>r. db_idx_previous ref_chain i h = Inr r \<and>
      seeks_assoc ref_chain ref_ok ref_view h t (greatest_such (\<lambda>_. True) (assocs (v_keys (ref_view h) t))) r"
    using ref_key_greatest [OF ok, of t "\<lambda>_. True"] slot_ends_row [of "r_keys h" i t]
    by (simp add: ref_key_previous_def assocs slot_row_def)
  show "\<exists>i h'. db_idx_end ref_chain c s n h = Inr (i, h') \<and> ref_ok h' \<and> looks ref_chain ref_view h h' \<and>
      (i = - 1 \<and> dom (v_keys (ref_view h) (c, s, n)) = {} \<or> i \<noteq> - 1 \<and> v_key_end (ref_view h') i = Some (c, s, n))"
    using slot_end_cases [OF ref_okD(2) [OF ok]] ok by simp
  show "db_idx_store ref_chain s n payer p k h = Inr (i, h') \<Longrightarrow>
      v_keys (ref_view h) (receiver ref_chain h, s, n) p = None \<and>
      keys_change ref_chain ref_ok ref_view h (receiver ref_chain h, s, n) p (Some k) h' \<and>
      v_key_itr (ref_view h) \<subseteq>\<^sub>m v_key_itr (ref_view h') \<and> v_key_itr (ref_view h') i = Some ((receiver ref_chain h, s, n), p)" for s n payer
    using ok ref_key_store_change [OF ok] by simp
  show "v_key_itr (ref_view h) i = Some (t, p) \<Longrightarrow> db_idx_update ref_chain i payer k h = Inr h' \<Longrightarrow>
      keys_change ref_chain ref_ok ref_view h t p (Some k) h' \<and> v_key_itr (ref_view h) \<subseteq>\<^sub>m v_key_itr (ref_view h')"
    using ref_keys_change [OF ok, of i t p "Some k"] ref_put_change(3) [OF ref_okD(2) [OF ok], of i t p "Some k"]
    by (auto simp: bind_res_eq_Inr map_le_def split: if_splits)
  show "v_key_itr (ref_view h) i = Some (t, p) \<Longrightarrow> fst t = receiver ref_chain h \<Longrightarrow> \<exists>h'. db_idx_remove ref_chain i h = Inr h' \<and>
      keys_change ref_chain ref_ok ref_view h t p None h' \<and> (v_key_itr (ref_view h))(i := None) \<subseteq>\<^sub>m v_key_itr (ref_view h')"
    using ref_put_ok [of "r_keys h" i "(t, p)" None] ref_keys_change [OF ok, of i t p None]
      ref_put_change(3) [OF ref_okD(2) [OF ok], of i t p None]
    by auto
qed

interpretation ref_host: chain_host ref_chain ref_ok ref_view
  by unfold_locales

end
