(* ===== verification/Uos_Ledger.thy ===== *)
theory Uos_Ledger
  imports Uos_Index Uos_Singleton Uos_Slots
begin

text \<open>
  A concrete table on the chain of Uos\_Slots, for the runs of the properties: rows are pairs of an
  account number, the primary key, and a balance, by which a secondary index orders them. Reading
  a destroyed item gives the item as it was, which is what the allocator of malloc.cpp does:
  its \<open>free\<close> only clears a flag in the block's header.
\<close>

definition ledger :: "(u64 \<times> u64, u64, u64 ref_state) table_def" where
  "ledger =
     \<lparr>chain = ref_chain, table_name = 0x8A71500000000000, row_default = (0, 0), primary_key = fst,
      put_row_size = put_pair (put_prim ss_write) (put_prim ss_write),
      put_row = put_pair (put_prim ds_write) (put_prim ds_write),
      get_row = get_pair (get_prim ds_read) (get_prim ds_read),
      extractors = [snd], key_bytes = le_bytes 8,
      buffer_address = (\<lambda>_. 4096), buffer_bytes = (\<lambda>n. replicate (unat n) 0), destroyed_item = Inr\<rparr>"

definition ledger_image :: "u64 \<times> u64 \<Rightarrow> u8 list" where
  "ledger_image = pair_image (le_bytes 8) (le_bytes 8)"

definition ledger_valid :: "u64 \<times> u64 \<Rightarrow> bool" where
  "ledger_valid r \<longleftrightarrow> True"

lemma ledger_sel [simp]:
  "chain ledger = ref_chain" "row_default ledger = (0, 0)" "primary_key ledger = fst" "extractors ledger = [snd]"
  "table_name ledger = 0x8A71500000000000" "destroyed_item ledger = Inr" "key_bytes ledger = le_bytes 8"
  by (simp_all add: ledger_def)

lemma le_bytes_8_eq [simp]: "le_bytes 8 v = le_bytes 8 w \<longleftrightarrow> v = w" for v w :: u64
proof
  assume "le_bytes 8 v = le_bytes 8 w"
  then have "(le_word (le_bytes 8 v) :: u64) = le_word (le_bytes 8 w)" by (rule arg_cong)
  then show "v = w" by simp
qed simp

lemma ledger_def_ok: "table_def_ok ledger ref_ok ref_view ledger_image ledger_valid"
proof -
  have "codec (put_row_size ledger) (put_row ledger) (get_row ledger) ledger_image ledger_valid"
    using codec_pair [OF u64_codec.codec_axioms u64_codec.codec_axioms]
    by (simp add: ledger_def ledger_image_def ledger_valid_def [abs_def])
  moreover have "inj (le_bytes 8 :: u64 \<Rightarrow> u8 list)" by (rule injI) simp
  moreover have "length (ledger_image r) = 16" for r by (simp add: ledger_image_def pair_image_def)
  ultimately show ?thesis
    using ref_host.chain_host_axioms by (simp add: table_def_ok_def ledger_def addressable_def)
qed

text \<open>A table object over rows that are already in the database.\<close>

lemma make_table_ok:
  assumes "table_def_ok tb ok view img valid" and "ok h" and "stored tb img valid (view h) (make_table this c sc h) T"
  shows "table_ok tb ok view img valid (make_table this c sc h) T"
  using assms by (simp add: table_ok_def cache_ok_def next_ok_def make_table_def)

text \<open>Two accounts with a balance, put into an empty chain by its receiver, the account number 7.\<close>

definition ledger_start :: "(u64 \<times> u64, u64 ref_state) table" where
  "ledger_start = make_table 0 \<lparr>name_value = 7\<rparr> 1 \<lparr>r_receiver = 7, r_rows = [], r_keys = []\<rparr>"

definition ledger_two :: "(iterator \<times> (u64 \<times> u64, u64 ref_state) table) res" where
  "ledger_two =
     bind_res (emplace ledger \<lparr>name_value = 7\<rparr> (\<lambda>_. Inr (9, 40)) ledger_start) (\<lambda>(_, s).
     emplace ledger \<lparr>name_value = 7\<rparr> (\<lambda>_. Inr (5, 60)) s)"

definition ledger_map :: "u64 \<Rightarrow> (u64 \<times> u64) option" where
  "ledger_map = [9 \<mapsto> (9, 40), 5 \<mapsto> (5, 60)]"

lemma ledger_start_ok: "table_ok ledger ref_ok ref_view ledger_image ledger_valid ledger_start (\<lambda>_. None)"
  unfolding ledger_start_def
proof (rule make_table_ok [OF ledger_def_ok])
  show "ref_ok (\<lparr>r_receiver = 7, r_rows = [], r_keys = []\<rparr> :: u64 ref_state)" by (simp add: ref_ok_def slots_ok_def)
  show "stored ledger ledger_image ledger_valid (ref_view \<lparr>r_receiver = 7, r_rows = [], r_keys = []\<rparr>)
     (make_table 0 \<lparr>name_value = 7\<rparr> 1 \<lparr>r_receiver = 7, r_rows = [], r_keys = []\<rparr>) (\<lambda>_. None)"
    by (simp add: stored_def slot_value_def slot_index_def)
qed

lemma ledger_row_bytes: "row_bytes ledger r = Inr (ledger_image r)"
  by (rule row_bytes_image [OF ledger_def_ok]) (simp add: ledger_valid_def)

lemma ledger_image_length [simp]: "length (ledger_image r) = 16"
  by (simp add: ledger_image_def pair_image_def)

lemmas ledger_run = ledger_row_bytes emplace_def bind_check make_table_def bump_primary_key_def cache_item_def set_item_def
  ref_store_def ref_key_store_def slot_value_def slot_index_def slot_name_def upt_conv_Cons index_table_name_def

lemma ledger_two_runs: "\<exists>it s. ledger_two = Inr (it, s)"
  by (simp add: ledger_two_def ledger_start_def ledger_run Let_def)

definition ledger_state :: "(u64 \<times> u64, u64 ref_state) table" where
  "ledger_state = (case ledger_two of Inr (_, s) \<Rightarrow> s | Inl _ \<Rightarrow> ledger_start)"

lemma ledger_state_sel:
  "code ledger_state = \<lparr>name_value = 7\<rparr>" "scope ledger_state = 1" "this_idx ledger_state = 0"
  "r_receiver (host ledger_state) = 7" "items_vector ledger_state \<noteq> []"
  "r_rows (host ledger_state) = [Some (Slot (7, 1, 0x8A71500000000000) 9 (ledger_image (9, 40))), Some (Slot (7, 1, 0x8A71500000000000) 5 (ledger_image (5, 60)))]"
  "r_keys (host ledger_state) = [Some (Slot (7, 1, 0x8A71500000000000) 9 40), Some (Slot (7, 1, 0x8A71500000000000) 5 60)]"
  "objects ledger_state 0 = Some \<lparr>item_value = (9, 40), item_idx = 0, item_primary_itr = 0, item_iters = [0]\<rparr>"
  "objects ledger_state (Suc 0) = Some \<lparr>item_value = (5, 60), item_idx = 0, item_primary_itr = 1, item_iters = [1]\<rparr>"
  by (simp_all add: ledger_state_def ledger_two_def ledger_start_def ledger_run Let_def)

lemma ledger_points: "points ledger_state (Some 0) (Some (9, 40))" "points ledger_state (Some (Suc 0)) (Some (5, 60))"
  by (simp_all add: points_def ledger_state_sel)

lemma ledger_state_ok: "table_ok ledger ref_ok ref_view ledger_image ledger_valid ledger_state ledger_map"
proof -
  obtain it s where run: "ledger_two = Inr (it, s)" using ledger_two_runs by blast
  then obtain it1 s1 where r: "emplace ledger \<lparr>name_value = 7\<rparr> (\<lambda>_. Inr (9, 40)) ledger_start = Inr (it1, s1)"
    "emplace ledger \<lparr>name_value = 7\<rparr> (\<lambda>_. Inr (5, 60)) s1 = Inr (it, s)"
    by (auto simp: ledger_two_def bind_res_eq_Inr)
  have "table_ok ledger ref_ok ref_view ledger_image ledger_valid s1 [9 \<mapsto> (9, 40)]"
    using emplace_ok(2) [OF ledger_start_ok _ _ r(1), of "(9, 40)"] by (simp add: ledger_valid_def)
  from emplace_ok(2) [OF this _ _ r(2), of "(5, 60)"] show ?thesis
    unfolding ledger_state_def ledger_map_def run by (simp add: ledger_valid_def)
qed

lemma ledger_dom: "dom ledger_map = {5, 9}"
  by (auto simp: ledger_map_def)

end
