(* ===== verification/Uos_Records.thy ===== *)
theory Uos_Records
  imports Uos_Serialize
begin

text \<open>
  Codecs of structs whose operators the macro \<open>UOSLIB_SERIALIZE\<close> writes: the members one after the
  other. The lemmas take a struct's operators apart member by member.
\<close>

context byte_writer
begin

lemma writes_member: "writes m bs \<Longrightarrow> writes (put_members [m]) bs"
  using writes_fields [of "[m]" "[bs]"] by (simp add: put_members_def [abs_def] del: put_fields.simps)

lemma writes_members: "writes m bs \<Longrightarrow> writes (put_members (n # ms)) cs \<Longrightarrow> writes (put_members (m # n # ms)) (bs @ cs)"
  unfolding put_members_def [abs_def] by (subst put_fields.simps(2) [abs_def]) (rule writes_bind)

lemma writes_derived: "writes base bs \<Longrightarrow> writes (put_members ms) cs \<Longrightarrow> writes (put_derived base ms) (bs @ cs)"
  unfolding put_members_def [abs_def] put_derived_def [abs_def] by (rule writes_bind)

end

context byte_reader
begin

text \<open>The last member read and the object made from the members.\<close>

lemma reads_last: "reads g bs v \<Longrightarrow> f v = w \<Longrightarrow> reads (\<lambda>s. bind_res (g s) (\<lambda>(v, s). Inr (f v, s))) bs w"
  using reads_map [of g bs v f] by simp

end

lemmas struct_writes = ssw.writes_member ssw.writes_members ssw.writes_derived dsw.writes_member dsw.writes_members dsw.writes_derived

lemma codecI:
  assumes "\<And>v. valid v \<Longrightarrow> ssw.writes (ps v) (img v)" and "\<And>v. valid v \<Longrightarrow> dsw.writes (pd v) (img v)"
    and "\<And>v. valid v \<Longrightarrow> dsr.reads g (img v) v"
  shows "codec ps pd g img valid"
  using assms by unfold_locales

text \<open>A struct with one member.\<close>

lemma codec_member:
  assumes "codec ps pd g img valid" and "\<And>r. mk (sel r) = r"
  shows "codec (\<lambda>r. put_members [ps (sel r)]) (\<lambda>r. put_members [pd (sel r)])
    (\<lambda>ds. bind_res (g ds) (\<lambda>(v, ds). Inr (mk v, ds))) (\<lambda>r. img (sel r)) (\<lambda>r. valid (sel r))"
proof (rule codecI)
  fix r assume v: "valid (sel r)"
  show "dsr.reads (\<lambda>ds. bind_res (g ds) (\<lambda>(v, ds). Inr (mk v, ds))) (img (sel r)) r"
    using dsr.reads_map [OF codec.get_image [OF assms(1) v], of mk] by (simp add: assms(2))
qed (auto intro: struct_writes codec.size_image [OF assms(1)] codec.put_image [OF assms(1)])

end
