(* ===== verification/Uos_Time.thy ===== *)
theory Uos_Time
  imports Uos_Records Uos_Check
begin

text \<open>
  The time types of core/uosio/time.hpp: a duration and a point in time in signed 64-bit
  microseconds, a point in unsigned 32-bit seconds, and the slot number of a block. Signed results
  that do not fit have no defined value (\<open>i64_of\<close>); unsigned ones wrap; a conversion of a signed to an unsigned
  integer keeps the low bits.
\<close>

section \<open>Durations\<close>

record microseconds =
  us_count :: i64

definition microseconds_maximum :: microseconds where
  "microseconds_maximum = \<lparr>us_count = 0x7fffffffffffffff\<rparr>"

definition microseconds_add :: "microseconds \<Rightarrow> microseconds \<Rightarrow> microseconds res" where
  "microseconds_add l r = bind_res (i64_of (sint (us_count l) + sint (us_count r))) (\<lambda>c. Inr \<lparr>us_count = c\<rparr>)"

definition microseconds_sub :: "microseconds \<Rightarrow> microseconds \<Rightarrow> microseconds res" where
  "microseconds_sub l r = bind_res (i64_of (sint (us_count l) - sint (us_count r))) (\<lambda>c. Inr \<lparr>us_count = c\<rparr>)"

definition microseconds_eq :: "microseconds \<Rightarrow> microseconds \<Rightarrow> bool" where
  "microseconds_eq a b \<longleftrightarrow> us_count a = us_count b"

definition microseconds_neq :: "microseconds \<Rightarrow> microseconds \<Rightarrow> bool" where
  "microseconds_neq a b \<longleftrightarrow> us_count a \<noteq> us_count b"

definition microseconds_gt :: "microseconds \<Rightarrow> microseconds \<Rightarrow> bool" where
  "microseconds_gt a b \<longleftrightarrow> sint (us_count a) > sint (us_count b)"

definition microseconds_ge :: "microseconds \<Rightarrow> microseconds \<Rightarrow> bool" where
  "microseconds_ge a b \<longleftrightarrow> sint (us_count a) \<ge> sint (us_count b)"

definition microseconds_less :: "microseconds \<Rightarrow> microseconds \<Rightarrow> bool" where
  "microseconds_less a b \<longleftrightarrow> sint (us_count a) < sint (us_count b)"

definition microseconds_le :: "microseconds \<Rightarrow> microseconds \<Rightarrow> bool" where
  "microseconds_le a b \<longleftrightarrow> sint (us_count a) \<le> sint (us_count b)"

definition microseconds_add_assign :: "microseconds \<Rightarrow> microseconds \<Rightarrow> microseconds res" where
  "microseconds_add_assign this c = bind_res (i64_of (sint (us_count this) + sint (us_count c))) (\<lambda>n. Inr (this\<lparr>us_count := n\<rparr>))"

definition microseconds_sub_assign :: "microseconds \<Rightarrow> microseconds \<Rightarrow> microseconds res" where
  "microseconds_sub_assign this c = bind_res (i64_of (sint (us_count this) - sint (us_count c))) (\<lambda>n. Inr (this\<lparr>us_count := n\<rparr>))"

definition to_seconds :: "microseconds \<Rightarrow> i64" where
  "to_seconds m = word_of_int (sint (us_count m) sdiv 1000000)"

definition seconds :: "int \<Rightarrow> microseconds res" where
  "seconds s = bind_res (i64_of (s * 1000000)) (\<lambda>c. Inr \<lparr>us_count = c\<rparr>)"

definition milliseconds :: "int \<Rightarrow> microseconds res" where
  "milliseconds s = bind_res (i64_of (s * 1000)) (\<lambda>c. Inr \<lparr>us_count = c\<rparr>)"

definition minutes :: "int \<Rightarrow> microseconds res" where
  "minutes m = bind_res (i64_of (60 * m)) (\<lambda>s. seconds (sint s))"

definition hours :: "int \<Rightarrow> microseconds res" where
  "hours h = bind_res (i64_of (60 * h)) (\<lambda>m. minutes (sint m))"

definition days :: "int \<Rightarrow> microseconds res" where
  "days d = bind_res (i64_of (24 * d)) (\<lambda>h. hours (sint h))"

definition put_microseconds :: "(u8 list \<Rightarrow> 's \<Rightarrow> 's res) \<Rightarrow> microseconds \<Rightarrow> 's \<Rightarrow> 's res" where
  "put_microseconds wr m ds = put_members [put_prim wr (us_count m)] ds"

definition get_microseconds :: "(u32 \<Rightarrow> 's \<Rightarrow> (u8 list \<times> 's) res) \<Rightarrow> 's \<Rightarrow> (microseconds \<times> 's) res" where
  "get_microseconds rd ds = bind_res (get_prim rd ds) (\<lambda>(c, ds). Inr (\<lparr>us_count = c\<rparr>, ds))"

section \<open>Points in time\<close>

record time_point =
  elapsed :: microseconds

definition time_since_epoch :: "time_point \<Rightarrow> microseconds" where
  "time_since_epoch t = elapsed t"

definition tp_sec_since_epoch :: "time_point \<Rightarrow> u32" where
  "tp_sec_since_epoch t = word_of_int (sint (us_count (elapsed t)) sdiv 1000000)"

definition time_point_gt :: "time_point \<Rightarrow> time_point \<Rightarrow> bool" where
  "time_point_gt a b \<longleftrightarrow> sint (us_count (elapsed a)) > sint (us_count (elapsed b))"

definition time_point_ge :: "time_point \<Rightarrow> time_point \<Rightarrow> bool" where
  "time_point_ge a b \<longleftrightarrow> sint (us_count (elapsed a)) \<ge> sint (us_count (elapsed b))"

definition time_point_less :: "time_point \<Rightarrow> time_point \<Rightarrow> bool" where
  "time_point_less a b \<longleftrightarrow> sint (us_count (elapsed a)) < sint (us_count (elapsed b))"

definition time_point_le :: "time_point \<Rightarrow> time_point \<Rightarrow> bool" where
  "time_point_le a b \<longleftrightarrow> sint (us_count (elapsed a)) \<le> sint (us_count (elapsed b))"

definition time_point_eq :: "time_point \<Rightarrow> time_point \<Rightarrow> bool" where
  "time_point_eq a b \<longleftrightarrow> us_count (elapsed a) = us_count (elapsed b)"

definition time_point_neq :: "time_point \<Rightarrow> time_point \<Rightarrow> bool" where
  "time_point_neq a b \<longleftrightarrow> us_count (elapsed a) \<noteq> us_count (elapsed b)"

definition time_point_add_assign :: "time_point \<Rightarrow> microseconds \<Rightarrow> time_point res" where
  "time_point_add_assign this m = bind_res (microseconds_add_assign (elapsed this) m) (\<lambda>e. Inr (this\<lparr>elapsed := e\<rparr>))"

definition time_point_sub_assign :: "time_point \<Rightarrow> microseconds \<Rightarrow> time_point res" where
  "time_point_sub_assign this m = bind_res (microseconds_sub_assign (elapsed this) m) (\<lambda>e. Inr (this\<lparr>elapsed := e\<rparr>))"

definition time_point_add :: "time_point \<Rightarrow> microseconds \<Rightarrow> time_point res" where
  "time_point_add t m = bind_res (microseconds_add (elapsed t) m) (\<lambda>e. Inr \<lparr>elapsed = e\<rparr>)"

definition time_point_plus :: "time_point \<Rightarrow> time_point \<Rightarrow> time_point res" where
  "time_point_plus t m = bind_res (microseconds_add (elapsed t) (elapsed m)) (\<lambda>e. Inr \<lparr>elapsed = e\<rparr>)"

definition time_point_sub :: "time_point \<Rightarrow> microseconds \<Rightarrow> time_point res" where
  "time_point_sub t m = bind_res (microseconds_sub (elapsed t) m) (\<lambda>e. Inr \<lparr>elapsed = e\<rparr>)"

definition time_point_diff :: "time_point \<Rightarrow> time_point \<Rightarrow> microseconds res" where
  "time_point_diff t m =
     bind_res (i64_of (sint (us_count (elapsed t)) - sint (us_count (elapsed m)))) (\<lambda>c. Inr \<lparr>us_count = c\<rparr>)"

definition put_time_point :: "(u8 list \<Rightarrow> 's \<Rightarrow> 's res) \<Rightarrow> time_point \<Rightarrow> 's \<Rightarrow> 's res" where
  "put_time_point wr t ds = put_members [put_microseconds wr (elapsed t)] ds"

definition get_time_point :: "(u32 \<Rightarrow> 's \<Rightarrow> (u8 list \<times> 's) res) \<Rightarrow> 's \<Rightarrow> (time_point \<times> 's) res" where
  "get_time_point rd ds = bind_res (get_microseconds rd ds) (\<lambda>(e, ds). Inr (\<lparr>elapsed = e\<rparr>, ds))"

section \<open>Points in seconds\<close>

record time_point_sec =
  utc_seconds :: u32

definition sec_of_time_point :: "time_point \<Rightarrow> time_point_sec" where
  "sec_of_time_point t = \<lparr>utc_seconds = word_of_int (sint (us_count (time_since_epoch t)) sdiv 1000000)\<rparr>"

definition sec_assign :: "time_point_sec \<Rightarrow> time_point \<Rightarrow> time_point_sec" where
  "sec_assign this t = this\<lparr>utc_seconds := word_of_int (sint (us_count (time_since_epoch t)) sdiv 1000000)\<rparr>"

definition sec_maximum :: time_point_sec where
  "sec_maximum = \<lparr>utc_seconds = 0xffffffff\<rparr>"

definition sec_min :: time_point_sec where
  "sec_min = \<lparr>utc_seconds = 0\<rparr>"

definition sec_to_time_point :: "time_point_sec \<Rightarrow> time_point res" where
  "sec_to_time_point t = bind_res (seconds (uint (utc_seconds t))) (\<lambda>e. Inr \<lparr>elapsed = e\<rparr>)"

definition sec_since_epoch :: "time_point_sec \<Rightarrow> u32" where
  "sec_since_epoch t = utc_seconds t"

definition sec_less :: "time_point_sec \<Rightarrow> time_point_sec \<Rightarrow> bool" where
  "sec_less a b \<longleftrightarrow> utc_seconds a < utc_seconds b"

definition sec_gt :: "time_point_sec \<Rightarrow> time_point_sec \<Rightarrow> bool" where
  "sec_gt a b \<longleftrightarrow> utc_seconds a > utc_seconds b"

definition sec_le :: "time_point_sec \<Rightarrow> time_point_sec \<Rightarrow> bool" where
  "sec_le a b \<longleftrightarrow> utc_seconds a \<le> utc_seconds b"

definition sec_ge :: "time_point_sec \<Rightarrow> time_point_sec \<Rightarrow> bool" where
  "sec_ge a b \<longleftrightarrow> utc_seconds a \<ge> utc_seconds b"

definition sec_eq :: "time_point_sec \<Rightarrow> time_point_sec \<Rightarrow> bool" where
  "sec_eq a b \<longleftrightarrow> utc_seconds a = utc_seconds b"

definition sec_neq :: "time_point_sec \<Rightarrow> time_point_sec \<Rightarrow> bool" where
  "sec_neq a b \<longleftrightarrow> utc_seconds a \<noteq> utc_seconds b"

definition sec_add_assign :: "time_point_sec \<Rightarrow> u32 \<Rightarrow> time_point_sec" where
  "sec_add_assign this m = this\<lparr>utc_seconds := utc_seconds this + m\<rparr>"

definition sec_add_assign_us :: "time_point_sec \<Rightarrow> microseconds \<Rightarrow> time_point_sec" where
  "sec_add_assign_us this m = this\<lparr>utc_seconds := word_of_int (uint (utc_seconds this) + sint (to_seconds m))\<rparr>"

definition sec_add_assign_sec :: "time_point_sec \<Rightarrow> time_point_sec \<Rightarrow> time_point_sec" where
  "sec_add_assign_sec this m = this\<lparr>utc_seconds := utc_seconds this + utc_seconds m\<rparr>"

definition sec_sub_assign :: "time_point_sec \<Rightarrow> u32 \<Rightarrow> time_point_sec" where
  "sec_sub_assign this m = this\<lparr>utc_seconds := utc_seconds this - m\<rparr>"

definition sec_sub_assign_us :: "time_point_sec \<Rightarrow> microseconds \<Rightarrow> time_point_sec" where
  "sec_sub_assign_us this m = this\<lparr>utc_seconds := word_of_int (uint (utc_seconds this) - sint (to_seconds m))\<rparr>"

definition sec_sub_assign_sec :: "time_point_sec \<Rightarrow> time_point_sec \<Rightarrow> time_point_sec" where
  "sec_sub_assign_sec this m = this\<lparr>utc_seconds := utc_seconds this - utc_seconds m\<rparr>"

definition sec_add :: "time_point_sec \<Rightarrow> u32 \<Rightarrow> time_point_sec" where
  "sec_add t offset = \<lparr>utc_seconds = utc_seconds t + offset\<rparr>"

definition sec_sub :: "time_point_sec \<Rightarrow> u32 \<Rightarrow> time_point_sec" where
  "sec_sub t offset = \<lparr>utc_seconds = utc_seconds t - offset\<rparr>"

definition sec_add_us :: "time_point_sec \<Rightarrow> microseconds \<Rightarrow> time_point res" where
  "sec_add_us t m = bind_res (sec_to_time_point t) (\<lambda>p. time_point_add p m)"

definition sec_sub_us :: "time_point_sec \<Rightarrow> microseconds \<Rightarrow> time_point res" where
  "sec_sub_us t m = bind_res (sec_to_time_point t) (\<lambda>p. time_point_sub p m)"

definition sec_diff :: "time_point_sec \<Rightarrow> time_point_sec \<Rightarrow> microseconds res" where
  "sec_diff t m = bind_res (sec_to_time_point t) (\<lambda>p. bind_res (sec_to_time_point m) (\<lambda>q. time_point_diff p q))"

definition time_point_diff_sec :: "time_point \<Rightarrow> time_point_sec \<Rightarrow> microseconds res" where
  "time_point_diff_sec t m = bind_res (sec_to_time_point m) (\<lambda>q. time_point_diff t q)"

definition put_time_point_sec :: "(u8 list \<Rightarrow> 's \<Rightarrow> 's res) \<Rightarrow> time_point_sec \<Rightarrow> 's \<Rightarrow> 's res" where
  "put_time_point_sec wr t ds = put_members [put_prim wr (utc_seconds t)] ds"

definition get_time_point_sec :: "(u32 \<Rightarrow> 's \<Rightarrow> (u8 list \<times> 's) res) \<Rightarrow> 's \<Rightarrow> (time_point_sec \<times> 's) res" where
  "get_time_point_sec rd ds = bind_res (get_prim rd ds) (\<lambda>(u, ds). Inr (\<lparr>utc_seconds = u\<rparr>, ds))"

section \<open>Block times\<close>

record block_timestamp =
  bt_slot :: u32

definition block_interval_ms :: int where
  "block_interval_ms = 500"

text \<open>The first second of the year 2000.\<close>

definition block_timestamp_epoch :: int where
  "block_timestamp_epoch = 946684800000"

definition block_maximum :: block_timestamp where
  "block_maximum = \<lparr>bt_slot = 0xffff\<rparr>"

definition block_min :: block_timestamp where
  "block_min = \<lparr>bt_slot = 0\<rparr>"

text \<open>
  The private \<open>set_time_point\<close> and the constructors that call it. The differences and products stay
  far inside 64 bits (\<open>slot_arithmetic_fits\<close>).
\<close>

definition set_time_point :: "time_point \<Rightarrow> block_timestamp \<Rightarrow> block_timestamp" where
  "set_time_point t this =
     (let micro_since_epoch = sint (us_count (time_since_epoch t));
          msec_since_epoch = micro_since_epoch sdiv 1000
      in this\<lparr>bt_slot := word_of_int ((msec_since_epoch - block_timestamp_epoch) sdiv block_interval_ms)\<rparr>)"

definition set_time_point_sec :: "time_point_sec \<Rightarrow> block_timestamp \<Rightarrow> block_timestamp" where
  "set_time_point_sec t this =
     (let sec = uint (sec_since_epoch t)
      in this\<lparr>bt_slot := word_of_int ((sec * 1000 - block_timestamp_epoch) sdiv block_interval_ms)\<rparr>)"

definition block_of_time_point :: "time_point \<Rightarrow> block_timestamp" where
  "block_of_time_point t = set_time_point t \<lparr>bt_slot = 0\<rparr>"

definition block_of_sec :: "time_point_sec \<Rightarrow> block_timestamp" where
  "block_of_sec t = set_time_point_sec t \<lparr>bt_slot = 0\<rparr>"

definition block_assign :: "block_timestamp \<Rightarrow> time_point \<Rightarrow> block_timestamp" where
  "block_assign this t = set_time_point t this"

definition block_next :: "block_timestamp \<Rightarrow> block_timestamp res" where
  "block_next this =
     bind_res (check (0xffffffff - bt_slot this \<ge> 1) ''block timestamp overflow'') (\<lambda>_.
     Inr (this\<lparr>bt_slot := bt_slot this + 1\<rparr>))"

definition block_time_point :: "block_timestamp \<Rightarrow> time_point res" where
  "block_time_point b =
     (let msec = uint (bt_slot b) * block_interval_ms;
          msec = msec + block_timestamp_epoch
      in bind_res (milliseconds msec) (\<lambda>e. Inr \<lparr>elapsed = e\<rparr>))"

definition block_to_time_point :: "block_timestamp \<Rightarrow> time_point res" where
  "block_to_time_point b = block_time_point b"

definition block_gt :: "block_timestamp \<Rightarrow> block_timestamp \<Rightarrow> bool" where
  "block_gt a b \<longleftrightarrow> bt_slot a > bt_slot b"

definition block_ge :: "block_timestamp \<Rightarrow> block_timestamp \<Rightarrow> bool" where
  "block_ge a b \<longleftrightarrow> bt_slot a \<ge> bt_slot b"

definition block_less :: "block_timestamp \<Rightarrow> block_timestamp \<Rightarrow> bool" where
  "block_less a b \<longleftrightarrow> bt_slot a < bt_slot b"

definition block_le :: "block_timestamp \<Rightarrow> block_timestamp \<Rightarrow> bool" where
  "block_le a b \<longleftrightarrow> bt_slot a \<le> bt_slot b"

definition block_eq :: "block_timestamp \<Rightarrow> block_timestamp \<Rightarrow> bool" where
  "block_eq a b \<longleftrightarrow> bt_slot a = bt_slot b"

definition block_neq :: "block_timestamp \<Rightarrow> block_timestamp \<Rightarrow> bool" where
  "block_neq a b \<longleftrightarrow> bt_slot a \<noteq> bt_slot b"

definition put_block_timestamp :: "(u8 list \<Rightarrow> 's \<Rightarrow> 's res) \<Rightarrow> block_timestamp \<Rightarrow> 's \<Rightarrow> 's res" where
  "put_block_timestamp wr b ds = put_members [put_prim wr (bt_slot b)] ds"

definition get_block_timestamp :: "(u32 \<Rightarrow> 's \<Rightarrow> (u8 list \<times> 's) res) \<Rightarrow> 's \<Rightarrow> (block_timestamp \<times> 's) res" where
  "get_block_timestamp rd ds = bind_res (get_prim rd ds) (\<lambda>(s, ds). Inr (\<lparr>bt_slot = s\<rparr>, ds))"

section \<open>Conversions\<close>

lemma sdiv_nonneg: "0 \<le> a \<Longrightarrow> 0 < b \<Longrightarrow> a sdiv b = a div (b :: int)"
  by (cases "a = 0") (auto simp: signed_divide_int_def)

lemma uint_u32_bounds: "0 \<le> uint (w :: u32)" "uint (w :: u32) < 2 ^ 32"
  using uint_bounded [of w] by simp_all

lemma in_i64I: "- 9223372036854775808 \<le> x \<Longrightarrow> x \<le> 9223372036854775807 \<Longrightarrow> in_i64 x"
  by (simp add: in_i64_def)

definition count_of :: "time_point \<Rightarrow> int" where
  "count_of t = sint (us_count (elapsed t))"

text \<open>The intermediate results of the conversions to slots fit 64 bits.\<close>

lemma slot_arithmetic_fits:
  "in_i64 (sint (us_count (elapsed t)) sdiv 1000 - block_timestamp_epoch)"
  "in_i64 (uint (sec_since_epoch s) * 1000 - block_timestamp_epoch)"
  "in_i64 (uint (bt_slot b) * block_interval_ms + block_timestamp_epoch)"
proof -
  let ?c = "sint (us_count (elapsed t))"
  have "- (2 ^ 63) \<le> ?c" "?c < 2 ^ 63" using in_i64_sint [of "us_count (elapsed t)"] by (simp_all add: in_i64_def)
  then have "\<bar>?c\<bar> \<le> 9223372036854775808" by simp
  then have "\<bar>?c\<bar> div 1000 \<le> 9223372036854775" using zdiv_mono1 [of "\<bar>?c\<bar>" 9223372036854775808 1000] by simp
  moreover have "\<bar>?c sdiv 1000\<bar> \<le> \<bar>?c\<bar> div 1000"
    by (auto simp: signed_divide_int_def abs_mult abs_sgn_eq)
  ultimately show "in_i64 (?c sdiv 1000 - block_timestamp_epoch)"
    by (intro in_i64I) (auto simp: block_timestamp_epoch_def)
  show "in_i64 (uint (sec_since_epoch s) * 1000 - block_timestamp_epoch)"
    using uint_u32_bounds [of "sec_since_epoch s"] by (intro in_i64I) (simp_all add: block_timestamp_epoch_def)
  show "in_i64 (uint (bt_slot b) * block_interval_ms + block_timestamp_epoch)"
    using uint_u32_bounds [of "bt_slot b"] by (intro in_i64I) (simp_all add: block_timestamp_epoch_def block_interval_ms_def)
qed

lemma i64_of_ok: "in_i64 x \<Longrightarrow> \<exists>w. i64_of x = Inr w \<and> sint w = x"
  by (simp add: i64_of_def)

lemma block_time_point_count:
  "\<exists>t. block_time_point b = Inr t \<and> count_of t = (uint (bt_slot b) * 500 + 946684800000) * 1000"
proof -
  let ?x = "(uint (bt_slot b) * 500 + 946684800000) * 1000"
  have "in_i64 ?x" using uint_u32_bounds [of "bt_slot b"] by (intro in_i64I) simp_all
  from i64_of_ok [OF this] obtain w where "i64_of ?x = Inr w" "sint w = ?x" by blast
  then show ?thesis
    by (simp only: block_time_point_def milliseconds_def count_of_def Let_def block_interval_ms_def block_timestamp_epoch_def
        bind_res.simps sum.inject ex_simps simp_thms microseconds.simps time_point.simps)
qed

lemma block_of_time_point_slot:
  assumes "946684800000000 \<le> count_of t" and "count_of t < (2 ^ 32 * 500 + 946684800000) * 1000"
  shows "uint (bt_slot (block_of_time_point t)) = (count_of t - 946684800000000) div 500000"
proof -
  let ?c = "count_of t"
  have ms: "?c sdiv 1000 = ?c div 1000" using assms(1) by (simp add: sdiv_nonneg)
  have "946684800000 \<le> ?c div 1000" using zdiv_mono1 [OF assms(1), of 1000] by simp
  then have "(?c div 1000 - 946684800000) sdiv 500 = (?c div 1000 - 946684800000) div 500" by (simp add: sdiv_nonneg)
  moreover have "?c div 1000 - 946684800000 = (?c - 946684800000000) div 1000" by simp
  moreover have "(?c - 946684800000000) div 1000 div 500 = (?c - 946684800000000) div 500000"
    by (simp add: zdiv_zmult2_eq [symmetric])
  ultimately have s: "(?c div 1000 - 946684800000) sdiv 500 = (?c - 946684800000000) div 500000" by metis
  have "(?c - 946684800000000) div 500000 < 2 ^ 32" using assms(2) by simp
  moreover have "0 \<le> (?c - 946684800000000) div 500000" using assms(1) by simp
  ultimately have "uint (word_of_int ((?c - 946684800000000) div 500000) :: u32) = (?c - 946684800000000) div 500000"
    by (simp add: uint_word_of_int)
  then show ?thesis
    using ms s by (simp add: block_of_time_point_def set_time_point_def time_since_epoch_def Let_def count_of_def
        block_interval_ms_def block_timestamp_epoch_def)
qed

lemma block_roundtrip:
  assumes "block_time_point b = Inr t"
  shows "block_of_time_point t = b"
proof -
  have c: "count_of t = (uint (bt_slot b) * 500 + 946684800000) * 1000" using block_time_point_count [of b] assms by auto
  have "uint (bt_slot (block_of_time_point t)) = uint (bt_slot b)"
    using uint_u32_bounds [of "bt_slot b"] by (subst block_of_time_point_slot) (simp_all add: c)
  then show ?thesis by (cases b; cases "block_of_time_point t") (simp add: word_uint_eq_iff)
qed

lemma sec_to_time_point_count: "\<exists>p. sec_to_time_point t = Inr p \<and> count_of p = uint (utc_seconds t) * 1000000"
proof -
  have "0 \<le> uint (utc_seconds t)" "uint (utc_seconds t) < 4294967296" using uint_u32_bounds [of "utc_seconds t"] by simp_all
  then have "in_i64 (uint (utc_seconds t) * 1000000)" by (intro in_i64I) linarith+
  from i64_of_ok [OF this] obtain w where "i64_of (uint (utc_seconds t) * 1000000) = Inr w" "sint w = uint (utc_seconds t) * 1000000" by blast
  then show ?thesis
    by (simp only: sec_to_time_point_def seconds_def count_of_def bind_res.simps sum.inject simp_thms microseconds.simps time_point.simps)
qed

lemma sec_roundtrip:
  assumes "sec_to_time_point t = Inr p"
  shows "sec_of_time_point p = t"
proof -
  have "count_of p = uint (utc_seconds t) * 1000000" using sec_to_time_point_count [of t] assms by auto
  then show ?thesis by (simp add: sec_of_time_point_def time_since_epoch_def count_of_def sdiv_nonneg)
qed

section \<open>Codecs\<close>

interpretation microseconds_codec: codec "put_microseconds ss_write" "put_microseconds ds_write" "get_microseconds ds_read"
    "\<lambda>m. le_bytes 8 (us_count m)" "\<lambda>_. True"
  using codec_member [OF u64_codec.codec_axioms, of "\<lambda>c. \<lparr>us_count = c\<rparr>" us_count]
  by (simp add: put_microseconds_def [abs_def] get_microseconds_def [abs_def])

interpretation time_point_codec: codec "put_time_point ss_write" "put_time_point ds_write" "get_time_point ds_read"
    "\<lambda>t. le_bytes 8 (us_count (elapsed t))" "\<lambda>_. True"
  using codec_member [OF microseconds_codec.codec_axioms, of "\<lambda>e. \<lparr>elapsed = e\<rparr>" elapsed]
  by (simp add: put_time_point_def [abs_def] get_time_point_def [abs_def])

interpretation time_point_sec_codec: codec "put_time_point_sec ss_write" "put_time_point_sec ds_write" "get_time_point_sec ds_read"
    "\<lambda>t. le_bytes 4 (utc_seconds t)" "\<lambda>_. True"
  using codec_member [OF u32_codec.codec_axioms, of "\<lambda>u. \<lparr>utc_seconds = u\<rparr>" utc_seconds]
  by (simp add: put_time_point_sec_def [abs_def] get_time_point_sec_def [abs_def])

interpretation block_timestamp_codec: codec "put_block_timestamp ss_write" "put_block_timestamp ds_write" "get_block_timestamp ds_read"
    "\<lambda>b. le_bytes 4 (bt_slot b)" "\<lambda>_. True"
  using codec_member [OF u32_codec.codec_axioms, of "\<lambda>s. \<lparr>bt_slot = s\<rparr>" bt_slot]
  by (simp add: put_block_timestamp_def [abs_def] get_block_timestamp_def [abs_def])

lemma block_next_outcome:
  "block_next b = (if bt_slot b = 0xffffffff then Inl (Assertion ''block timestamp overflow'') else Inr \<lparr>bt_slot = bt_slot b + 1\<rparr>)" for b :: block_timestamp
proof -
  have "1 \<le> w \<longleftrightarrow> w \<noteq> 0" for w :: u32 by (simp add: word_le_nat_alt Suc_le_eq unat_gt_0)
  then have "0xffffffff - bt_slot b \<ge> 1 \<longleftrightarrow> bt_slot b \<noteq> 0xffffffff" by (metis right_minus_eq)
  then show ?thesis by (cases b) (simp add: block_next_def check_def)
qed

end
