(* ===== verification/Uos_Action.thy ===== *)
theory Uos_Action
  imports Uos_Records Uos_Time Uos_Name
begin

text \<open>
  contracts/uosio/action.hpp, dispatcher.hpp, contract.hpp and core/uosio/ignore.hpp: actions, what a
  contract sends and how an action that reaches it is unpacked and handed to one of its methods.

  The functions that the host exports (capi/uosio/action.h) and the allocator are fields of the
  record \<open>action_api\<close>, over a host state \<open>'h\<close>. A type \<open>T\<close> that an action carries comes as its stream operators.
\<close>

section \<open>The imported functions\<close>

text \<open>
  \<open>read_action_data len\<close> gives the bytes it copies to the buffer. \<open>malloc\<close> and \<open>alloca\<close> give the
  address and the old contents of \<open>n\<close> bytes of memory.
\<close>

record 'h action_api =
  host_action_data_size :: "'h \<Rightarrow> u32"
  host_read_action_data :: "u32 \<Rightarrow> 'h \<Rightarrow> u8 list"
  host_require_recipient :: "u64 \<Rightarrow> 'h \<Rightarrow> 'h res"
  host_require_auth :: "u64 \<Rightarrow> 'h \<Rightarrow> 'h res"
  host_require_auth2 :: "u64 \<Rightarrow> u64 \<Rightarrow> 'h \<Rightarrow> 'h res"
  host_has_auth :: "u64 \<Rightarrow> 'h \<Rightarrow> bool"
  host_is_account :: "u64 \<Rightarrow> 'h \<Rightarrow> bool"
  host_send_inline :: "u8 list \<Rightarrow> 'h \<Rightarrow> 'h res"
  host_send_context_free_inline :: "u8 list \<Rightarrow> 'h \<Rightarrow> 'h res"
  host_publication_time :: "'h \<Rightarrow> u64"
  host_current_receiver :: "'h \<Rightarrow> u64"
  host_malloc :: "u32 \<Rightarrow> 'h \<Rightarrow> ((u32 \<times> u8 list) \<times> 'h) res"
  host_alloca :: "u32 \<Rightarrow> 'h \<Rightarrow> u32 \<times> u8 list"
  host_free :: "u32 \<Rightarrow> 'h \<Rightarrow> 'h res"

definition max_stack_buffer_size :: u32 where
  "max_stack_buffer_size = 512"

definition action_buffer :: "'h action_api \<Rightarrow> u32 \<Rightarrow> 'h \<Rightarrow> ((u32 \<times> u8 list) \<times> 'h) res" where
  "action_buffer api sz h =
     (if max_stack_buffer_size < sz then host_malloc api sz h else Inr (host_alloca api sz h, h))"

text \<open>Copying to the start of a buffer leaves what is behind the copied bytes.\<close>

definition fill_buffer :: "u8 list \<Rightarrow> u8 list \<Rightarrow> u8 list" where
  "fill_buffer bytes mem = bytes @ drop (length bytes) mem"

definition unpack_action_data :: "'h action_api \<Rightarrow> (datastream \<Rightarrow> ('t \<times> datastream) res) \<Rightarrow> 'h \<Rightarrow> ('t \<times> 'h) res" where
  "unpack_action_data api get h =
     (let sz = host_action_data_size api h in
      bind_res (action_buffer api sz h) (\<lambda>((buffer, mem), h).
      let mem = fill_buffer (host_read_action_data api sz h) mem in
      bind_res (unpack get buffer sz mem) (\<lambda>v. Inr (v, h))))"

definition require_recipient :: "'h action_api \<Rightarrow> name \<Rightarrow> 'h \<Rightarrow> 'h res" where
  "require_recipient api notify_account h = host_require_recipient api (name_value notify_account) h"

fun require_recipients :: "'h action_api \<Rightarrow> name \<Rightarrow> name list \<Rightarrow> 'h \<Rightarrow> 'h res" where
  "require_recipients api notify_account [] h = require_recipient api notify_account h"
| "require_recipients api notify_account (n # remaining_accounts) h =
     bind_res (host_require_recipient api (name_value notify_account) h) (require_recipients api n remaining_accounts)"

definition require_auth :: "'h action_api \<Rightarrow> name \<Rightarrow> 'h \<Rightarrow> 'h res" where
  "require_auth api n h = host_require_auth api (name_value n) h"

definition publication_time :: "'h action_api \<Rightarrow> 'h \<Rightarrow> time_point" where
  "publication_time api h = \<lparr>elapsed = \<lparr>us_count = host_publication_time api h\<rparr>\<rparr>"

definition current_receiver :: "'h action_api \<Rightarrow> 'h \<Rightarrow> name" where
  "current_receiver api h = \<lparr>name_value = host_current_receiver api h\<rparr>"

definition read_action_data :: "'h action_api \<Rightarrow> u8 list \<Rightarrow> u32 \<Rightarrow> 'h \<Rightarrow> u32 \<times> u8 list" where
  "read_action_data api msg len h =
     (let bytes = host_read_action_data api len h in (of_nat (length bytes), fill_buffer bytes msg))"

definition action_data_size :: "'h action_api \<Rightarrow> 'h \<Rightarrow> u32" where
  "action_data_size api h = host_action_data_size api h"

section \<open>Permission levels\<close>

record permission_level =
  perm_actor :: name
  perm_permission :: name

definition permission_level_eq :: "permission_level \<Rightarrow> permission_level \<Rightarrow> bool" where
  "permission_level_eq a b \<longleftrightarrow>
     name_eq (perm_actor a) (perm_actor b) \<and> name_eq (perm_permission a) (perm_permission b)"

definition put_permission_level :: "(u8 list \<Rightarrow> 's \<Rightarrow> 's res) \<Rightarrow> permission_level \<Rightarrow> 's \<Rightarrow> 's res" where
  "put_permission_level wr p ds = put_members [put_name wr (perm_actor p), put_name wr (perm_permission p)] ds"

definition get_permission_level :: "(u32 \<Rightarrow> 's \<Rightarrow> (u8 list \<times> 's) res) \<Rightarrow> 's \<Rightarrow> (permission_level \<times> 's) res" where
  "get_permission_level rd ds =
     bind_res (get_name rd ds) (\<lambda>(a, ds). bind_res (get_name rd ds) (\<lambda>(p, ds).
     Inr (\<lparr>perm_actor = a, perm_permission = p\<rparr>, ds)))"

definition require_auth_level :: "'h action_api \<Rightarrow> permission_level \<Rightarrow> 'h \<Rightarrow> 'h res" where
  "require_auth_level api level h =
     host_require_auth2 api (name_value (perm_actor level)) (name_value (perm_permission level)) h"

definition has_auth :: "'h action_api \<Rightarrow> name \<Rightarrow> 'h \<Rightarrow> bool" where
  "has_auth api n h = host_has_auth api (name_value n) h"

definition is_account :: "'h action_api \<Rightarrow> name \<Rightarrow> 'h \<Rightarrow> bool" where
  "is_account api n h = host_is_account api (name_value n) h"

section \<open>Actions\<close>

record action =
  act_account :: name
  act_name :: name
  act_authorization :: "permission_level list"
  act_data :: "u8 list"

text \<open>
  The value of an action comes as its two writers, applied to it; \<open>addr\<close> is where the vector that \<open>pack\<close> returns lives.
\<close>

definition action_of_list :: "permission_level list \<Rightarrow> name \<Rightarrow> name \<Rightarrow> (size_stream \<Rightarrow> size_stream res) \<Rightarrow> (datastream \<Rightarrow> datastream res) \<Rightarrow> u32 \<Rightarrow> action res" where
  "action_of_list auths a n ps pd addr =
     bind_res (pack ps pd addr) (\<lambda>data. Inr \<lparr>act_account = a, act_name = n, act_authorization = auths, act_data = data\<rparr>)"

definition action_of_level :: "permission_level \<Rightarrow> name \<Rightarrow> name \<Rightarrow> (size_stream \<Rightarrow> size_stream res) \<Rightarrow> (datastream \<Rightarrow> datastream res) \<Rightarrow> u32 \<Rightarrow> action res" where
  "action_of_level auth a n ps pd addr =
     bind_res (pack ps pd addr) (\<lambda>data. Inr \<lparr>act_account = a, act_name = n, act_authorization = [auth], act_data = data\<rparr>)"

definition put_action :: "(u8 list \<Rightarrow> 's \<Rightarrow> 's res) \<Rightarrow> action \<Rightarrow> 's \<Rightarrow> 's res" where
  "put_action wr a ds =
     put_members [put_name wr (act_account a), put_name wr (act_name a),
       put_vector wr (put_permission_level wr) (act_authorization a), put_char_vector wr (act_data a)] ds"

definition get_action :: "('s \<Rightarrow> (u8 \<times> 's) res) \<Rightarrow> (u32 \<Rightarrow> 's \<Rightarrow> (u8 list \<times> 's) res) \<Rightarrow> 's \<Rightarrow> (action \<times> 's) res" where
  "get_action gt rd ds =
     bind_res (get_name rd ds) (\<lambda>(a, ds). bind_res (get_name rd ds) (\<lambda>(n, ds).
     bind_res (get_vector gt (get_permission_level rd) ds) (\<lambda>(auths, ds).
     bind_res (get_char_vector gt rd ds) (\<lambda>(data, ds).
     Inr (\<lparr>act_account = a, act_name = n, act_authorization = auths, act_data = data\<rparr>, ds)))))"

definition action_send :: "'h action_api \<Rightarrow> u32 \<Rightarrow> action \<Rightarrow> 'h \<Rightarrow> 'h res" where
  "action_send api addr act h =
     bind_res (pack (put_action ss_write act) (put_action ds_write act) addr) (\<lambda>bytes. host_send_inline api bytes h)"

definition action_send_context_free :: "'h action_api \<Rightarrow> u32 \<Rightarrow> action \<Rightarrow> 'h \<Rightarrow> 'h res" where
  "action_send_context_free api addr act h =
     bind_res (check (length (act_authorization act) = 0) ''context free actions cannot have authorizations'') (\<lambda>_.
     bind_res (pack (put_action ss_write act) (put_action ds_write act) addr) (\<lambda>bytes. host_send_context_free_inline api bytes h))"

text \<open>\<open>buf\<close> is the address of the action's data.\<close>

definition data_as :: "(datastream \<Rightarrow> ('t \<times> datastream) res) \<Rightarrow> u32 \<Rightarrow> action \<Rightarrow> 't res" where
  "data_as get buf act = unpack get buf (of_nat (length (act_data act))) (act_data act)"

section \<open>Action wrappers\<close>

text \<open>The template arguments of a wrapper are its name and the member function, which fixes the arguments' types.\<close>

record action_wrapper =
  code_name :: name
  permissions :: "permission_level list"

definition wrapper_of_list :: "name \<Rightarrow> permission_level list \<Rightarrow> action_wrapper" where
  "wrapper_of_list code perms = \<lparr>code_name = code, permissions = perms\<rparr>"

definition wrapper_of_level :: "name \<Rightarrow> permission_level \<Rightarrow> action_wrapper" where
  "wrapper_of_level code perm = \<lparr>code_name = code, permissions = [perm]\<rparr>"

definition wrapper_of_code :: "name \<Rightarrow> action_wrapper" where
  "wrapper_of_code code = \<lparr>code_name = code, permissions = []\<rparr>"

text \<open>\<open>tps\<close> and \<open>tpd\<close> write the tuple of the member function's decayed arguments.\<close>

definition to_action :: "name \<Rightarrow> ('a \<Rightarrow> size_stream \<Rightarrow> size_stream res) \<Rightarrow> ('a \<Rightarrow> datastream \<Rightarrow> datastream res) \<Rightarrow> action_wrapper \<Rightarrow> u32 \<Rightarrow> 'a \<Rightarrow> action res" where
  "to_action action_name tps tpd w addr args =
     action_of_list (permissions w) (code_name w) action_name (tps args) (tpd args) addr"

definition wrapper_send :: "'h action_api \<Rightarrow> name \<Rightarrow> ('a \<Rightarrow> size_stream \<Rightarrow> size_stream res) \<Rightarrow> ('a \<Rightarrow> datastream \<Rightarrow> datastream res) \<Rightarrow> action_wrapper \<Rightarrow> u32 \<Rightarrow> 'a \<Rightarrow> 'h \<Rightarrow> 'h res" where
  "wrapper_send api action_name tps tpd w addr args h =
     bind_res (to_action action_name tps tpd w addr args) (\<lambda>act. action_send api addr act h)"

definition wrapper_send_context_free :: "'h action_api \<Rightarrow> name \<Rightarrow> ('a \<Rightarrow> size_stream \<Rightarrow> size_stream res) \<Rightarrow> ('a \<Rightarrow> datastream \<Rightarrow> datastream res) \<Rightarrow> action_wrapper \<Rightarrow> u32 \<Rightarrow> 'a \<Rightarrow> 'h \<Rightarrow> 'h res" where
  "wrapper_send_context_free api action_name tps tpd w addr args h =
     bind_res (to_action action_name tps tpd w addr args) (\<lambda>act. action_send_context_free api addr act h)"

text \<open>
  \<open>get_nth\<close> picks one of a variant wrapper's actions at compile time: past the end there is no instance. The data
  begin with the number of the action.
\<close>

fun get_nth_impl :: "nat \<Rightarrow> nat \<Rightarrow> 'x list \<Rightarrow> 'x option" where
  "get_nth_impl N I [] = None"
| "get_nth_impl N I (arg # args) = (if I = N then Some arg else get_nth_impl N (I + 1) args)"

definition get_nth :: "nat \<Rightarrow> 'x list \<Rightarrow> 'x option" where
  "get_nth N args = get_nth_impl N 0 args"

definition variant_to_action :: "name \<Rightarrow> (('a \<Rightarrow> size_stream \<Rightarrow> size_stream res) \<times> ('a \<Rightarrow> datastream \<Rightarrow> datastream res)) list \<Rightarrow> nat \<Rightarrow> action_wrapper \<Rightarrow> u32 \<Rightarrow> 'a \<Rightarrow> action res" where
  "variant_to_action action_name actions variant w addr args =
     (case get_nth variant actions of
        None \<Rightarrow> Inl (Undefined ''no such action'')
      | Some (tps, tpd) \<Rightarrow>
          let var = unsigned_int_of (of_nat variant) in
          action_of_list (permissions w) (code_name w) action_name
            (put_tuple [put_unsigned_int ss_write var, tps args])
            (put_tuple [put_unsigned_int ds_write var, tpd args]) addr)"

definition variant_send :: "'h action_api \<Rightarrow> name \<Rightarrow> (('a \<Rightarrow> size_stream \<Rightarrow> size_stream res) \<times> ('a \<Rightarrow> datastream \<Rightarrow> datastream res)) list \<Rightarrow> nat \<Rightarrow> action_wrapper \<Rightarrow> u32 \<Rightarrow> 'a \<Rightarrow> 'h \<Rightarrow> 'h res" where
  "variant_send api action_name actions variant w addr args h =
     bind_res (variant_to_action action_name actions variant w addr args) (\<lambda>act. action_send api addr act h)"

definition variant_send_context_free :: "'h action_api \<Rightarrow> name \<Rightarrow> (('a \<Rightarrow> size_stream \<Rightarrow> size_stream res) \<times> ('a \<Rightarrow> datastream \<Rightarrow> datastream res)) list \<Rightarrow> nat \<Rightarrow> action_wrapper \<Rightarrow> u32 \<Rightarrow> 'a \<Rightarrow> 'h \<Rightarrow> 'h res" where
  "variant_send_context_free api action_name actions variant w addr args h =
     bind_res (variant_to_action action_name actions variant w addr args) (\<lambda>act. action_send_context_free api addr act h)"

definition dispatch_inline :: "'h action_api \<Rightarrow> name \<Rightarrow> name \<Rightarrow> permission_level list \<Rightarrow> (size_stream \<Rightarrow> size_stream res) \<Rightarrow> (datastream \<Rightarrow> datastream res) \<Rightarrow> u32 \<Rightarrow> 'h \<Rightarrow> 'h res" where
  "dispatch_inline api code act perms ps pd addr h =
     bind_res (action_of_list perms code act ps pd addr) (\<lambda>a. action_send api addr a h)"

definition inline_dispatcher_call :: "'h action_api \<Rightarrow> name \<Rightarrow> name \<Rightarrow> permission_level \<Rightarrow> (size_stream \<Rightarrow> size_stream res) \<Rightarrow> (datastream \<Rightarrow> datastream res) \<Rightarrow> u32 \<Rightarrow> 'h \<Rightarrow> 'h res" where
  "inline_dispatcher_call api Name code perm ps pd addr h = dispatch_inline api code Name [perm] ps pd addr h"

definition inline_dispatcher_call_list :: "'h action_api \<Rightarrow> name \<Rightarrow> name \<Rightarrow> permission_level list \<Rightarrow> (size_stream \<Rightarrow> size_stream res) \<Rightarrow> (datastream \<Rightarrow> datastream res) \<Rightarrow> u32 \<Rightarrow> 'h \<Rightarrow> 'h res" where
  "inline_dispatcher_call_list api Name code perms ps pd addr h = dispatch_inline api code Name perms ps pd addr h"

section \<open>Serialization\<close>

lemma codec_char_vector:
  "codec (put_char_vector ss_write) (put_char_vector ds_write) (get_char_vector ds_get ds_read)
     (\<lambda>bs. size_bytes (length bs) @ bs) (\<lambda>bs. length bs < 2 ^ 32)"
proof (rule codecI)
  fix bs :: "u8 list"
  show "ssw.writes (put_char_vector ss_write bs) (size_bytes (length bs) @ bs)"
    unfolding put_char_vector_def [abs_def] by (rule ssw.writes_bind [OF ssw.writes_size ssw.writes_wr])
  show "dsw.writes (put_char_vector ds_write bs) (size_bytes (length bs) @ bs)"
    unfolding put_char_vector_def [abs_def] by (rule dsw.writes_bind [OF dsw.writes_size dsw.writes_wr])
qed (rule dsr.reads_char_vector)

definition permission_level_image :: "permission_level \<Rightarrow> u8 list" where
  "permission_level_image p = name_image (perm_actor p) @ name_image (perm_permission p)"

lemma permission_level_codec:
  "codec (put_permission_level ss_write) (put_permission_level ds_write) (get_permission_level ds_read)
     permission_level_image (\<lambda>_. True)"
proof (rule codecI)
  fix p :: permission_level
  show "dsr.reads (get_permission_level ds_read) (permission_level_image p) p"
    unfolding get_permission_level_def [abs_def] permission_level_image_def
    by (rule dsr.reads_bind, rule name_codec.get_image, simp, rule dsr.reads_last, rule name_codec.get_image, simp_all)
qed (auto simp: put_permission_level_def [abs_def] permission_level_image_def intro!: struct_writes codecD [OF name_codec.codec_axioms])

definition action_image :: "action \<Rightarrow> u8 list" where
  "action_image a = name_image (act_account a) @ name_image (act_name a) @
     seq_image permission_level_image (act_authorization a) @ size_bytes (length (act_data a)) @ act_data a"

definition action_ok :: "action \<Rightarrow> bool" where
  "action_ok a \<longleftrightarrow> length (act_authorization a) < 2 ^ 32 \<and> length (act_data a) < 2 ^ 32"

lemmas permission_levels_codec = codec_seq(1) [OF permission_level_codec]

lemma action_codec:
  "codec (put_action ss_write) (put_action ds_write) (get_action ds_get ds_read) action_image action_ok"
proof (rule codecI)
  fix a assume a: "action_ok a"
  then have v: "seq_valid (\<lambda>_. True) (act_authorization a)" "length (act_data a) < 2 ^ 32"
    by (simp_all add: action_ok_def seq_valid_def)
  show "dsr.reads (get_action ds_get ds_read) (action_image a) a"
    unfolding get_action_def [abs_def] action_image_def
    by (rule dsr.reads_bind, rule name_codec.get_image, simp, rule dsr.reads_bind, rule name_codec.get_image, simp,
        rule dsr.reads_bind, rule codec.get_image [OF permission_levels_codec v(1)],
        rule dsr.reads_last, rule codec.get_image [OF codec_char_vector v(2)], simp)
  show "ssw.writes (put_action ss_write a) (action_image a)" "dsw.writes (put_action ds_write a) (action_image a)"
    using codecD(1,2) [OF permission_levels_codec v(1)] codecD(1,2) [OF codec_char_vector v(2)]
      codecD(1,2) [OF name_codec.codec_axioms]
    unfolding put_action_def [abs_def] action_image_def
    by (auto intro!: struct_writes)
qed

text \<open>What \<open>send\<close> hands to the host is the action's image.\<close>

lemma action_send_image:
  assumes "action_ok a" and "addressable addr (length (action_image a))"
  shows "action_send api addr a h = host_send_inline api (action_image a) h"
    and "action_send_context_free api addr a h =
      (if act_authorization a = [] then host_send_context_free_inline api (action_image a) h
       else Inl (Assertion ''context free actions cannot have authorizations''))"
  using codec.pack_image [OF action_codec assms]
  by (simp_all add: action_send_def action_send_context_free_def check_def)

text \<open>An action in the host's hands: its data have come to the buffer at \<open>buf\<close>, with \<open>h'\<close> the state after the buffer was obtained.\<close>

definition delivered :: "'h action_api \<Rightarrow> u8 list \<Rightarrow> u32 \<Rightarrow> 'h \<Rightarrow> 'h \<Rightarrow> bool" where
  "delivered api bytes buf h h' \<longleftrightarrow>
     (let sz = of_nat (length bytes) :: u32 in
      host_action_data_size api h = sz \<and> addressable buf (length bytes) \<and>
      (if bytes = [] then buf = 0 \<and> h' = h
       else \<exists>mem. action_buffer api sz h = Inr ((buf, mem), h') \<and> length mem = length bytes \<and>
         host_read_action_data api sz h' = bytes))"

lemma fill_buffer_all: "length mem = length bytes \<Longrightarrow> fill_buffer bytes mem = bytes"
  by (simp add: fill_buffer_def)

lemma size_zero_iff: "addressable buf (length bytes) \<Longrightarrow> (of_nat (length bytes) :: u32) = 0 \<longleftrightarrow> bytes = []"
  using unat_of_nat_small [of "length bytes"] by (auto simp: addressable_def word_unat_eq_iff)

lemma unpack_delivered:
  assumes "delivered api (bs @ rest) buf h h'" and "bs \<noteq> []" and "dsr.reads get bs v"
  shows "unpack_action_data api get h = Inr (v, h')"
proof -
  let ?all = "bs @ rest"
  obtain mem where d: "host_action_data_size api h = of_nat (length ?all)" "addressable buf (length ?all)"
      "action_buffer api (of_nat (length ?all)) h = Inr ((buf, mem), h')" "length mem = length ?all"
      "host_read_action_data api (of_nat (length ?all)) h' = ?all"
    using assms(1,2) by (auto simp: delivered_def Let_def)
  have "unpack get buf (of_nat (length ?all)) ?all = Inr v"
    using unpack_bytes_reads [OF assms(3) d(2)] by (simp only: unpack_bytes_def)
  then show ?thesis
    using d(1,3,5) fill_buffer_all [OF d(4)] by (simp add: unpack_action_data_def)
qed

end
