(* ===== verification/Uos_Dispatch.thy ===== *)
theory Uos_Dispatch
  imports Uos_Action
begin

text \<open>
  contracts/uosio/contract.hpp, dispatcher.hpp and core/uosio/ignore.hpp: the entry point of a contract
  selects a method by the name of the action and calls it on a fresh contract object with the
  arguments read from the action's data.
\<close>

section \<open>Contracts\<close>

record contract =
  ct_self :: name
  ct_first_receiver :: name
  ct_ds :: datastream

definition contract_make :: "name \<Rightarrow> name \<Rightarrow> datastream \<Rightarrow> contract" where
  "contract_make self first_receiver ds = \<lparr>ct_self = self, ct_first_receiver = first_receiver, ct_ds = ds\<rparr>"

definition get_self :: "contract \<Rightarrow> name" where
  "get_self c = ct_self c"

definition get_code :: "contract \<Rightarrow> name" where
  "get_code c = ct_first_receiver c"

definition get_first_receiver :: "contract \<Rightarrow> name" where
  "get_first_receiver c = ct_first_receiver c"

definition get_datastream :: "contract \<Rightarrow> datastream" where
  "get_datastream c = ct_ds c"

section \<open>Ignored arguments\<close>

text \<open>An argument of type \<open>ignore<T>\<close> has no value and takes no bytes: the method reads it from the contract's stream.\<close>

type_synonym ignore = unit

record 'a ignore_wrapper =
  iw_value :: 'a

definition ignore_wrapper_of :: "'a \<Rightarrow> 'a ignore_wrapper" where
  "ignore_wrapper_of val = \<lparr>iw_value = val\<rparr>"

definition ignore_wrapper_get :: "'a ignore_wrapper \<Rightarrow> 'a" where
  "ignore_wrapper_get w = iw_value w"

definition ignore_wrapper_conv :: "'a ignore_wrapper \<Rightarrow> 'a" where
  "ignore_wrapper_conv w = iw_value w"

definition ignore_wrapper_ignore :: "'a ignore_wrapper \<Rightarrow> ignore" where
  "ignore_wrapper_ignore w = ()"

definition put_ignore_wrapper :: "('a \<Rightarrow> 's \<Rightarrow> 's res) \<Rightarrow> 'a ignore_wrapper \<Rightarrow> 's \<Rightarrow> 's res" where
  "put_ignore_wrapper enc val ds = enc (iw_value val) ds"

definition put_ignore :: "ignore \<Rightarrow> 's \<Rightarrow> 's res" where
  "put_ignore val ds = Inr ds"

definition get_ignore :: "'s \<Rightarrow> (ignore \<times> 's) res" where
  "get_ignore ds = Inr ((), ds)"

section \<open>Static dispatch\<close>

text \<open>
  An action type of \<open>dispatch\<close>: its account, its name, and the call of the contract's \<open>on\<close> with the
  unpacked action.
\<close>

record 'h static_action =
  sa_account :: u64
  sa_name :: u64
  sa_run :: "'h \<Rightarrow> 'h res"

definition on_action :: "'h action_api \<Rightarrow> (datastream \<Rightarrow> ('t \<times> datastream) res) \<Rightarrow> ('t \<Rightarrow> 'h \<Rightarrow> 'h res) \<Rightarrow> 'h \<Rightarrow> 'h res" where
  "on_action api get on h = bind_res (unpack_action_data api get h) (\<lambda>(v, h). on v h)"

fun dispatch :: "'h static_action list \<Rightarrow> u64 \<Rightarrow> u64 \<Rightarrow> 'h \<Rightarrow> (bool \<times> 'h) res" where
  "dispatch [] code act h = Inr (False, h)"
| "dispatch [first] code act h =
     (if code = sa_account first \<and> sa_name first = act then bind_res (sa_run first h) (\<lambda>h. Inr (True, h))
      else Inr (False, h))"
| "dispatch (first # second # actions) code act h =
     (if code = sa_account first \<and> sa_name first = act then bind_res (sa_run first h) (\<lambda>h. Inr (True, h))
      else dispatch (second # actions) code act h)"

section \<open>Dispatch to the methods of a contract\<close>

text \<open>
  \<open>mk\<close> is the constructor of the contract class \<open>T\<close>, \<open>get\<close> reads the tuple of the method's decayed arguments. With
  no data the buffer is the null pointer.
\<close>

definition execute_action :: "'h action_api \<Rightarrow> (name \<Rightarrow> name \<Rightarrow> datastream \<Rightarrow> 'c) \<Rightarrow> (datastream \<Rightarrow> ('a \<times> datastream) res) \<Rightarrow> ('c \<Rightarrow> 'a \<Rightarrow> 'h \<Rightarrow> 'h res) \<Rightarrow> name \<Rightarrow> name \<Rightarrow> 'h \<Rightarrow> (bool \<times> 'h) res" where
  "execute_action api mk get func self code h =
     (let sz = action_data_size api h in
      bind_res
        (if sz > 0 then
           bind_res (action_buffer api sz h) (\<lambda>((buffer, mem), h).
           let (_, mem) = read_action_data api mem sz h in Inr ((buffer, mem), h))
         else Inr ((0, []), h)) (\<lambda>((buffer, mem), h).
      let ds = ds_make buffer sz mem in
      bind_res (get ds) (\<lambda>(args, ds).
      let inst = mk self code ds in
      bind_res (func inst args h) (\<lambda>h.
      bind_res (if max_stack_buffer_size < sz then host_free api buffer h else Inr h) (\<lambda>h.
      Inr (True, h))))))"

text \<open>
  A member of \<open>UOSIO_DISPATCH\<close> is its identifier and the call the macro makes for it. The case labels are names computed
  by the compiler: an identifier that is no name does not compile.
\<close>

type_synonym 'h member = "string \<times> (name \<Rightarrow> name \<Rightarrow> 'h \<Rightarrow> (bool \<times> 'h) res)"

fun dispatch_switch :: "'h member list \<Rightarrow> u64 \<Rightarrow> u64 \<Rightarrow> u64 \<Rightarrow> 'h \<Rightarrow> 'h res" where
  "dispatch_switch [] receiver code action h = Inr h"
| "dispatch_switch ((elem, call) # members) receiver code action h =
     bind_res (name_of_string elem) (\<lambda>n.
     if action = name_value n then
       bind_res (call (name_of_value receiver) (name_of_value code) h) (\<lambda>(_, h). Inr h)
     else dispatch_switch members receiver code action h)"

definition apply_action :: "'h member list \<Rightarrow> u64 \<Rightarrow> u64 \<Rightarrow> u64 \<Rightarrow> 'h \<Rightarrow> 'h res" where
  "apply_action members receiver code action h =
     (if code = receiver then dispatch_switch members receiver code action h else Inr h)"

section \<open>One method is called, with the arguments that were sent\<close>

text \<open>The buffer's size decides whether it came from \<open>malloc\<close>.\<close>

definition release :: "'h action_api \<Rightarrow> nat \<Rightarrow> u32 \<Rightarrow> 'h \<Rightarrow> 'h res" where
  "release api n buf h = (if max_stack_buffer_size < of_nat n then host_free api buf h else Inr h)"

lemma execute_action_delivered:
  assumes d: "delivered api (bs @ rest) buf h h'" and r: "dsr.reads get bs args"
  defines "ds \<equiv> ds_adv (length bs) (ds_make buf (of_nat (length (bs @ rest))) (bs @ rest))"
  shows "execute_action api mk get func self code h =
      bind_res (func (mk self code ds) args h') (\<lambda>h. bind_res (release api (length (bs @ rest)) buf h) (\<lambda>h. Inr (True, h)))"
    and "ds_ok ds" and "ds_view ds = rest"
proof -
  let ?all = "bs @ rest"
  let ?ds = "ds_make buf (of_nat (length ?all)) ?all"
  have a: "addressable buf (length ?all)" and sz: "host_action_data_size api h = of_nat (length ?all)"
    using d by (simp_all add: delivered_def Let_def)
  note mk = ds_make_ok [OF a]
  have g: "get ?ds = Inr (args, ds)"
    unfolding ds_def using dsr.readsD [OF r mk(1,2)] by simp
  have z: "(of_nat (length ?all) :: u32) = 0 \<longleftrightarrow> ?all = []" using size_zero_iff [OF a] .
  show "ds_ok ds" "ds_view ds = rest"
    unfolding ds_def using dsr.adv_ok [OF mk(1)] dsr.adv_view [OF mk(1)] mk(2) by simp_all
  show "execute_action api mk get func self code h =
      bind_res (func (mk self code ds) args h') (\<lambda>h. bind_res (release api (length ?all) buf h) (\<lambda>h. Inr (True, h)))"
  proof (cases "?all = []")
    case True
    then have "buf = 0" "h' = h" using d by (simp_all add: delivered_def Let_def)
    then show ?thesis using True g sz
      by (simp add: execute_action_def action_data_size_def release_def max_stack_buffer_size_def)
  next
    case False
    then obtain mem where m: "action_buffer api (of_nat (length ?all)) h = Inr ((buf, mem), h')" "length mem = length ?all"
        "host_read_action_data api (of_nat (length ?all)) h' = ?all"
      using d by (auto simp: delivered_def Let_def)
    have "(of_nat (length ?all) :: u32) > 0" using z False by (simp only: word_neq_0_conv [symmetric]) simp
    then show ?thesis using g sz m(1,3) fill_buffer_all [OF m(2)]
      by (simp add: execute_action_def action_data_size_def read_action_data_def release_def Let_def del: length_append of_nat_add)
  qed
qed

text \<open>A list of members that compiles: every identifier is a name and no two are the same name.\<close>

definition members_ok :: "'h member list \<Rightarrow> bool" where
  "members_ok members \<longleftrightarrow>
     (\<forall>m \<in> set members. is_ok (name_of_string (fst m))) \<and> distinct (map (\<lambda>m. name_of_string (fst m)) members)"

lemma members_ok_Cons [simp]:
  "members_ok ((elem, call) # members) \<longleftrightarrow>
     is_ok (name_of_string elem) \<and> (\<forall>m \<in> set members. name_of_string (fst m) \<noteq> name_of_string elem) \<and> members_ok members"
  by (simp add: members_ok_def image_iff) (metis fst_conv)

lemma name_value_inject: "name_value m = name_value n \<longleftrightarrow> m = n" for m n :: name
  by (cases m, cases n) simp

lemma dispatch_switch_hit:
  assumes "members_ok members" and "(elem, call) \<in> set members" and "name_of_string elem = Inr n"
  shows "dispatch_switch members receiver code (name_value n) h =
    bind_res (call (name_of_value receiver) (name_of_value code) h) (\<lambda>(_, h). Inr h)"
  using assms
proof (induction members)
  case (Cons m members)
  obtain e c where m: "m = (e, c)" by (cases m)
  show ?case
  proof (cases "(e, c) = (elem, call)")
    case True
    then show ?thesis using m Cons.prems(3) by simp
  next
    case False
    then have "(elem, call) \<in> set members" using Cons.prems(2) m by auto
    moreover from this obtain n' where "name_of_string e = Inr n'" "n' \<noteq> n"
      using Cons.prems(1,3) m by (fastforce simp: is_ok_iff)
    moreover have "members_ok members" using Cons.prems(1) m by simp
    ultimately show ?thesis using Cons.IH Cons.prems(3) m by (simp add: name_value_inject)
  qed
qed simp

lemma dispatch_switch_miss:
  assumes "members_ok members" and "\<forall>m \<in> set members. name_of_string (fst m) \<noteq> Inr (name_of_value action)"
  shows "dispatch_switch members receiver code action h = Inr h"
  using assms
proof (induction members)
  case (Cons m members)
  obtain e c where m: "m = (e, c)" by (cases m)
  then obtain n where "name_of_string e = Inr n" using Cons.prems(1) by (auto simp: is_ok_iff)
  then show ?case using Cons m by (auto simp: name_of_value_def)
qed simp

text \<open>Static dispatch calls the first action type that matches.\<close>

lemma dispatch_find:
  "dispatch acts code act h =
     (case List.find (\<lambda>a. code = sa_account a \<and> sa_name a = act) acts of
        None \<Rightarrow> Inr (False, h) | Some a \<Rightarrow> bind_res (sa_run a h) (\<lambda>h. Inr (True, h)))"
  by (induction acts code act h rule: dispatch.induct) simp_all

end
