(* ===== verification/Uos_Fixed_Bytes.thy ===== *)
theory Uos_Fixed_Bytes
  imports Uos_Records Uos_Print Uos_Check
begin

text \<open>
  The class template \<open>fixed_bytes<Size>\<close> of core/uosio/fixed\_bytes.hpp: \<open>Size\<close> bytes kept in words of 128 bits, the
  first byte the highest, the last word padded below. \<open>Size\<close> is an argument of the definitions; the type
  \<open>Word\<close> of a sequence's elements is the length of the Isabelle words.
\<close>

section \<open>Operations\<close>

record fixed_bytes =
  fb_data :: "u128 list"

definition num_words :: "nat \<Rightarrow> nat" where
  "num_words sz = (sz + 16 - 1) div 16"

definition padded_bytes :: "nat \<Rightarrow> nat" where
  "padded_bytes sz = num_words sz * 16 - sz"

definition fixed_bytes_zero :: "nat \<Rightarrow> fixed_bytes" where
  "fixed_bytes_zero sz = \<lparr>fb_data = replicate (num_words sz) 0\<rparr>"

definition fixed_bytes_of_array :: "u128 list \<Rightarrow> fixed_bytes" where
  "fixed_bytes_of_array arr = \<lparr>fb_data = arr\<rparr>"

text \<open>The loop of \<open>set_from_word_sequence\<close>: its state is \<open>sub_words_left\<close>, \<open>temp_word\<close>, \<open>itr\<close> and the data.\<close>

definition fb_store :: "nat \<Rightarrow> u128 \<Rightarrow> u128 list \<Rightarrow> u128 list res" where
  "fb_store itr w data = (if itr < length data then Inr (data[itr := w]) else Inl (Undefined ''write past the words''))"

fun word_sequence_loop :: "nat \<Rightarrow> nat \<Rightarrow> nat \<Rightarrow> u128 \<Rightarrow> nat \<Rightarrow> u128 list \<Rightarrow> 'w::len word list \<Rightarrow> (nat \<times> u128 \<times> nat \<times> u128 list) res" where
  "word_sequence_loop sub_word_shift num_sub_words sub_words_left temp_word itr data [] =
     Inr (sub_words_left, temp_word, itr, data)"
| "word_sequence_loop sub_word_shift num_sub_words sub_words_left temp_word itr data (w # ws) =
     (if sub_words_left > 1 then
        word_sequence_loop sub_word_shift num_sub_words (sub_words_left - 1)
          (push_bit sub_word_shift (temp_word OR ucast w)) itr data ws
      else
        bind_res (check (sub_words_left = 1) ''unexpected error in fixed_bytes constructor'') (\<lambda>_.
        bind_res (fb_store itr (temp_word OR ucast w) data) (\<lambda>data.
        word_sequence_loop sub_word_shift num_sub_words num_sub_words 0 (itr + 1) data ws)))"

definition set_from_word_sequence :: "'w::len word list \<Rightarrow> fixed_bytes \<Rightarrow> fixed_bytes res" where
  "set_from_word_sequence ws key =
     (let word_size = LENGTH('w) div 8;
          num_sub_words = 16 div word_size in
      bind_res (word_sequence_loop (8 * word_size) num_sub_words num_sub_words 0 0 (fb_data key) ws) (\<lambda>(sub_words_left, temp_word, itr, data).
      if sub_words_left \<noteq> num_sub_words then
        bind_res (fb_store itr (if sub_words_left > 1 then push_bit (8 * (sub_words_left - 1)) temp_word else temp_word) data) (\<lambda>data.
        Inr (key\<lparr>fb_data := data\<rparr>))
      else Inr (key\<lparr>fb_data := data\<rparr>)))"

text \<open>The constructors from a \<open>std::array\<close> or a C array leave \<open>_data\<close> as memory was: it is an argument.\<close>

definition fixed_bytes_of_words :: "fixed_bytes \<Rightarrow> 'w::len word list \<Rightarrow> fixed_bytes res" where
  "fixed_bytes_of_words uninitialized arr = set_from_word_sequence arr uninitialized"

definition fixed_bytes_of_carray :: "fixed_bytes \<Rightarrow> 'w::len word list \<Rightarrow> fixed_bytes res" where
  "fixed_bytes_of_carray uninitialized arr = set_from_word_sequence arr uninitialized"

definition make_from_word_sequence :: "nat \<Rightarrow> 'w::len word list \<Rightarrow> fixed_bytes res" where
  "make_from_word_sequence sz words = set_from_word_sequence words (fixed_bytes_zero sz)"

definition fb_get_array :: "fixed_bytes \<Rightarrow> u128 list" where
  "fb_get_array fb = fb_data fb"

definition fb_size :: "fixed_bytes \<Rightarrow> nat" where
  "fb_size fb = length (fb_data fb)"

text \<open>\<open>extract_as_byte_array\<close>: the inner loop fills the bytes of a word from its last, the outer goes over the words.\<close>

fun extract_word :: "nat \<Rightarrow> u128 \<Rightarrow> nat \<Rightarrow> u8 list \<Rightarrow> u8 list" where
  "extract_word 0 temp_word arr_itr arr = arr"
| "extract_word (Suc sub_words) temp_word arr_itr arr =
     extract_word sub_words (drop_bit 8 temp_word) arr_itr (arr[arr_itr + sub_words := ucast (temp_word AND 0xFF)])"

fun extract_loop :: "nat \<Rightarrow> u128 list \<Rightarrow> nat \<Rightarrow> u8 list \<Rightarrow> u8 list" where
  "extract_loop sz [] arr_itr arr = arr"
| "extract_loop sz (word # rest) arr_itr arr =
     (let last = (rest = []);
          sub_words_left = 16 - (if last then padded_bytes sz else 0);
          temp_word = (if last then drop_bit (8 * padded_bytes sz) word else word)
      in extract_loop sz rest (arr_itr + 16) (extract_word sub_words_left temp_word arr_itr arr))"

definition extract_as_byte_array :: "nat \<Rightarrow> fixed_bytes \<Rightarrow> u8 list" where
  "extract_as_byte_array sz fb = extract_loop sz (fb_data fb) 0 (replicate sz 0)"

definition fixed_bytes_print :: "nat \<Rightarrow> fixed_bytes \<Rightarrow> print_call list" where
  "fixed_bytes_print sz fb = printhex (extract_as_byte_array sz fb)"

text \<open>The comparisons are those of \<open>std::array\<close>.\<close>

fun array_less :: "'a::linorder list \<Rightarrow> 'a list \<Rightarrow> bool" where
  "array_less [] [] \<longleftrightarrow> False"
| "array_less [] (y # ys) \<longleftrightarrow> True"
| "array_less (x # xs) [] \<longleftrightarrow> False"
| "array_less (x # xs) (y # ys) \<longleftrightarrow> x < y \<or> (\<not> y < x \<and> array_less xs ys)"

definition fixed_bytes_eq :: "fixed_bytes \<Rightarrow> fixed_bytes \<Rightarrow> bool" where
  "fixed_bytes_eq c1 c2 \<longleftrightarrow> fb_data c1 = fb_data c2"

definition fixed_bytes_neq :: "fixed_bytes \<Rightarrow> fixed_bytes \<Rightarrow> bool" where
  "fixed_bytes_neq c1 c2 \<longleftrightarrow> fb_data c1 \<noteq> fb_data c2"

definition fixed_bytes_gt :: "fixed_bytes \<Rightarrow> fixed_bytes \<Rightarrow> bool" where
  "fixed_bytes_gt c1 c2 \<longleftrightarrow> array_less (fb_data c2) (fb_data c1)"

definition fixed_bytes_less :: "fixed_bytes \<Rightarrow> fixed_bytes \<Rightarrow> bool" where
  "fixed_bytes_less c1 c2 \<longleftrightarrow> array_less (fb_data c1) (fb_data c2)"

definition fixed_bytes_ge :: "fixed_bytes \<Rightarrow> fixed_bytes \<Rightarrow> bool" where
  "fixed_bytes_ge c1 c2 \<longleftrightarrow> \<not> array_less (fb_data c1) (fb_data c2)"

definition fixed_bytes_le :: "fixed_bytes \<Rightarrow> fixed_bytes \<Rightarrow> bool" where
  "fixed_bytes_le c1 c2 \<longleftrightarrow> \<not> array_less (fb_data c2) (fb_data c1)"

definition put_fixed_bytes :: "nat \<Rightarrow> (u8 list \<Rightarrow> 's \<Rightarrow> 's res) \<Rightarrow> fixed_bytes \<Rightarrow> 's \<Rightarrow> 's res" where
  "put_fixed_bytes sz wr d ds = wr (extract_as_byte_array sz d) ds"

definition get_fixed_bytes :: "nat \<Rightarrow> fixed_bytes \<Rightarrow> (u32 \<Rightarrow> 's \<Rightarrow> (u8 list \<times> 's) res) \<Rightarrow> 's \<Rightarrow> (fixed_bytes \<times> 's) res" where
  "get_fixed_bytes sz uninitialized rd ds =
     bind_res (rd (of_nat sz) ds) (\<lambda>(arr, ds).
     bind_res (fixed_bytes_of_words uninitialized arr) (\<lambda>d. Inr (d, ds)))"

section \<open>The words of a sequence of bytes\<close>

text \<open>The value of up to sixteen bytes with the first one highest, and the word that holds them.\<close>

definition be_word :: "u8 list \<Rightarrow> u128" where
  "be_word bs = le_word (rev bs)"

definition chunk_word :: "u8 list \<Rightarrow> u128" where
  "chunk_word bs = push_bit (8 * (16 - length bs)) (be_word bs)"

function chunk_words :: "u8 list \<Rightarrow> u128 list" where
  "chunk_words bs = (if bs = [] then [] else chunk_word (take 16 bs) # chunk_words (drop 16 bs))"
  by pat_completeness auto
termination by (relation "measure length") auto

declare chunk_words.simps [simp del]

lemma chunk_words_Nil [simp]: "chunk_words [] = []"
  by (simp add: chunk_words.simps)

lemma length_chunk_words: "length (chunk_words bs) = (length bs + 15) div 16"
proof (induction bs rule: chunk_words.induct)
  case (1 bs)
  show ?case
  proof (cases "bs = []")
    case False
    then have "0 < length bs" by simp
    then have "length bs + 15 = (length bs - 1) + 16" by simp
    then have "(length bs + 15) div 16 = Suc ((length bs - 1) div 16)" by (simp only: div_add_self2)
    moreover have "(length bs - 1) div 16 = (length bs - 16 + 15) div 16"
      using \<open>0 < length bs\<close> by (cases "length bs < 16") simp_all
    ultimately have "(length bs + 15) div 16 = Suc ((length bs - 16 + 15) div 16)" by simp
    then show ?thesis using 1 False by (simp add: chunk_words.simps [of bs])
  qed simp
qed

lemma be_word_simps [simp]: "be_word [] = 0" "be_word (bs @ [b]) = push_bit 8 (be_word bs) OR ucast b"
  by (simp_all add: be_word_def or.commute)

lemma chunk_words_short: "0 < length bs \<Longrightarrow> length bs \<le> 16 \<Longrightarrow> chunk_words bs = [chunk_word bs]"
  by (subst chunk_words.simps) auto

lemma chunk_words_append: "length pre = 16 \<Longrightarrow> chunk_words (pre @ bs) = be_word pre # chunk_words bs"
  by (subst chunk_words.simps) (auto simp: chunk_word_def)

text \<open>The loop of the constructor, from a word of which \<open>pre\<close> is already read.\<close>

lemma list_update_take_drop: "itr < length data \<Longrightarrow> take (Suc itr) (data[itr := w]) = take itr data @ [w]"
  by (simp add: take_Suc_conv_app_nth)

lemma word_sequence_loop_bytes:
  assumes "length pre < 16" and "itr + length (chunk_words (pre @ bs)) \<le> length data"
  shows "bind_res (word_sequence_loop 8 16 (16 - length pre) (push_bit 8 (be_word pre)) itr data bs) (\<lambda>(sub_words_left, temp_word, itr, data).
      if sub_words_left \<noteq> 16 then
        bind_res (fb_store itr (if sub_words_left > 1 then push_bit (8 * (sub_words_left - 1)) temp_word else temp_word) data) (\<lambda>data.
        Inr (key\<lparr>fb_data := data\<rparr>))
      else Inr (key\<lparr>fb_data := data\<rparr>)) =
    Inr (key\<lparr>fb_data := take itr data @ chunk_words (pre @ bs) @ drop (itr + length (chunk_words (pre @ bs))) data\<rparr>)"
  using assms
proof (induction bs arbitrary: pre itr data)
  case Nil
  show ?case
  proof (cases "pre = []")
    case False
    then have c: "chunk_words pre = [chunk_word pre]" using Nil.prems(1) by (intro chunk_words_short) auto
    have "chunk_word pre = (if 16 - length pre > 1 then push_bit (8 * (16 - length pre - 1)) (push_bit 8 (be_word pre)) else push_bit 8 (be_word pre))"
    proof (cases "length pre = 15")
      case True
      then show ?thesis by (simp add: chunk_word_def)
    next
      case False
      then have "8 * (16 - length pre - 1) + 8 = 8 * (16 - length pre)" "16 - length pre > 1" using Nil.prems(1) by simp_all
      then show ?thesis by (simp add: chunk_word_def push_bit_push_bit)
    qed
    moreover have "data[itr := chunk_word pre] = take itr data @ [chunk_word pre] @ drop (Suc itr) data"
      using Nil.prems(2) c by (simp add: upd_conv_take_nth_drop)
    moreover have "16 - length pre \<noteq> 16" using False Nil.prems(1) by (cases pre) simp_all
    ultimately show ?thesis using Nil.prems False c by (simp add: fb_store_def)
  qed simp
next
  case (Cons b bs)
  show ?case
  proof (cases "length pre < 15")
    case True
    then have "16 - length pre - 1 = 16 - length (pre @ [b])" "16 - length pre > 1" by simp_all
    then show ?thesis using Cons.IH [of "pre @ [b]" itr data] Cons.prems True by simp
  next
    case False
    then have len: "length pre = 15" using Cons.prems(1) by simp
    then have c: "chunk_words (pre @ b # bs) = be_word (pre @ [b]) # chunk_words bs"
      using chunk_words_append [of "pre @ [b]" bs] by simp
    let ?w = "be_word (pre @ [b])"
    have itr: "itr < length data" using Cons.prems(2) c by simp
    have "Suc itr + length (chunk_words ([] @ bs)) \<le> length (data[itr := ?w])" using Cons.prems(2) c by simp
    from Cons.IH [of "[]", OF _ this] show ?thesis
      using len itr c by (simp add: fb_store_def list_update_take_drop)
  qed
qed

lemma fixed_bytes_of_bytes:
  assumes "length (chunk_words bs) \<le> length (fb_data key)"
  shows "set_from_word_sequence bs key = Inr (key\<lparr>fb_data := chunk_words bs @ drop (length (chunk_words bs)) (fb_data key)\<rparr>)"
  using word_sequence_loop_bytes [of "[]" 0 bs "fb_data key" key] assms by (simp add: set_from_word_sequence_def)

section \<open>The bytes of the words\<close>

lemma drop_Suc_update: "Suc k \<le> length arr \<Longrightarrow> drop k (arr[k := b]) = b # drop (Suc k) arr"
  by (simp add: Cons_nth_drop_Suc [symmetric] drop_update_cancel)

lemma extract_word_bytes:
  "arr_itr + k \<le> length arr \<Longrightarrow>
   extract_word k w arr_itr arr = take arr_itr arr @ rev (le_bytes k w) @ drop (arr_itr + k) arr"
proof (induction k arbitrary: w arr)
  case (Suc k)
  have m: "(0xFF :: u128) = mask 8" by (simp add: mask_eq_exp_minus_1)
  have "ucast (w AND 0xFF) = (ucast w :: u8)" unfolding m by (rule bit_word_eqI) (simp add: bit_simps)
  then show ?case using Suc by (simp add: drop_Suc_update)
qed simp

lemma be_word_bytes: "length bs \<le> 16 \<Longrightarrow> rev (le_bytes (length bs) (be_word bs)) = bs"
  using le_bytes_word [of "rev bs", where 'a = 128] by (simp add: be_word_def)

lemma be_word_small: "length bs \<le> 16 \<Longrightarrow> bit (be_word bs) i \<Longrightarrow> i < 8 * length bs"
  using bit_le_word_bytes [of "length bs" "be_word bs" i] le_bytes_word [of "rev bs", where 'a = 128]
  by (simp add: be_word_def)

lemma chunk_word_drop: "length bs \<le> 16 \<Longrightarrow> drop_bit (8 * (16 - length bs)) (chunk_word bs) = be_word bs"
  by (rule bit_word_eqI) (auto simp: chunk_word_def bit_simps dest: be_word_small)

lemma extract_loop_chunks:
  assumes "padded_bytes n = 16 * length (chunk_words bs) - length bs"
    and "itr + length bs \<le> length arr"
  shows "extract_loop n (chunk_words bs) itr arr = take itr arr @ bs @ drop (itr + length bs) arr"
  using assms
proof (induction bs arbitrary: itr arr rule: chunk_words.induct)
  case (1 bs)
  show ?case
  proof (cases "length bs \<le> 16")
    case True
    show ?thesis
    proof (cases "bs = []")
      case False
      then have c: "chunk_words bs = [chunk_word bs]" using True by (intro chunk_words_short) auto
      then have p: "padded_bytes n = 16 - length bs" using 1(2) by simp
      then show ?thesis
        using c True 1(3) chunk_word_drop [OF True] be_word_bytes [OF True] by (simp add: extract_word_bytes)
    qed simp
  next
    case False
    then have ne: "bs \<noteq> []" by auto
    let ?pre = "take 16 bs" and ?rest = "drop 16 bs"
    have c: "chunk_words bs = be_word ?pre # chunk_words ?rest"
      using chunk_words_append [of ?pre ?rest] False by simp
    moreover have "chunk_words ?rest \<noteq> []" using False by (subst chunk_words.simps) simp
    moreover have "extract_word 16 (be_word ?pre) itr arr = take itr arr @ ?pre @ drop (itr + 16) arr"
      using be_word_bytes [of ?pre] False 1(3) by (simp add: extract_word_bytes)
    moreover have "extract_loop n (chunk_words ?rest) (itr + 16) (take itr arr @ ?pre @ drop (itr + 16) arr) =
        take itr arr @ ?pre @ ?rest @ drop (itr + length bs) arr"
      using 1(1) [of "itr + 16" "take itr arr @ ?pre @ drop (itr + 16) arr"] 1(2,3) c False ne by (auto simp: min_def ac_simps)
    moreover have "?pre @ ?rest @ zs = bs @ zs" for zs by (simp flip: append_assoc)
    ultimately show ?thesis by simp
  qed
qed

lemma padded_bytes_chunks: "padded_bytes (length bs) = 16 * length (chunk_words bs) - length bs"
  by (simp add: padded_bytes_def num_words_def length_chunk_words ac_simps)

lemma length_fixed_bytes: "length (chunk_words bs) = num_words (length bs)"
  by (simp add: num_words_def length_chunk_words)

text \<open>The object made from exactly \<open>Size\<close> bytes, whatever memory held before, and its bytes.\<close>

lemma fixed_bytes_exact:
  assumes "length (fb_data key) = num_words (length bs)"
  shows "set_from_word_sequence bs key = Inr \<lparr>fb_data = chunk_words bs\<rparr>"
  using fixed_bytes_of_bytes [of bs key] assms by (cases key) (simp add: length_fixed_bytes)

lemma extract_exact: "extract_as_byte_array (length bs) \<lparr>fb_data = chunk_words bs\<rparr> = bs"
  using extract_loop_chunks [OF padded_bytes_chunks, of 0 bs "replicate (length bs) 0"]
  by (simp add: extract_as_byte_array_def)

section \<open>The order\<close>

lemma array_less_irrefl [simp]: "\<not> array_less xs xs"
  by (induction xs) auto

lemma array_less_append:
  "length xs = length ys \<Longrightarrow> array_less (xs @ us) (ys @ vs) \<longleftrightarrow> array_less xs ys \<or> xs = ys \<and> array_less us vs"
  by (induction xs ys rule: list_induct2) auto

lemma unat_be_word:
  "length bs < 16 \<Longrightarrow> unat (be_word (bs @ [b])) = 256 * unat (be_word bs) + unat b"
proof -
  assume l: "length bs < 16"
  have "unat (be_word bs) < 2 ^ (8 * length bs)"
  proof -
    have "be_word bs = take_bit (8 * length bs) (be_word bs)"
      using l be_word_small [of bs] by (intro bit_word_eqI) (auto simp: bit_simps)
    then show ?thesis by (metis unsigned_take_bit_eq take_bit_nat_less_exp)
  qed
  moreover have "8 * length bs \<le> 120" using l by simp
  then have "(2::nat) ^ (8 * length bs) \<le> 2 ^ 120" by (rule power_increasing) simp
  ultimately have "unat (be_word bs) * 256 < 2 ^ 128" by simp
  then have "unat (push_bit 8 (be_word bs)) = unat (be_word bs) * 2 ^ 8" by (simp add: unat_push_mod)
  moreover have "unat (ucast b :: u128) = unat b" by (rule unat_ucast_up) simp
  moreover have "unat b < 2 ^ 8" using unat_less [of b] by simp
  ultimately show ?thesis using unat_or_shift [of "ucast b :: u128" 8 "push_bit 8 (be_word bs)" "unat (be_word bs)"] by (simp add: or.commute)
qed

lemma be_word_less:
  "length xs = length ys \<Longrightarrow> length xs \<le> 16 \<Longrightarrow> be_word xs < be_word ys \<longleftrightarrow> array_less xs ys"
proof (induction xs arbitrary: ys rule: rev_induct)
  case (snoc x xs)
  then obtain y ys' where ys: "ys = ys' @ [y]" "length ys' = length xs" by (cases ys rule: rev_cases) auto
  have IH: "be_word xs < be_word ys' \<longleftrightarrow> array_less xs ys'" using snoc ys by simp
  have eq: "be_word xs = be_word ys' \<longleftrightarrow> xs = ys'"
    using be_word_bytes [of xs] be_word_bytes [of ys'] snoc.prems ys by (metis length_append_singleton Suc_leD)
  have v: "unat (be_word (xs @ [x])) = 256 * unat (be_word xs) + unat x" "unat (be_word (ys' @ [y])) = 256 * unat (be_word ys') + unat y"
    using snoc.prems ys by (simp_all add: unat_be_word del: be_word_simps)
  moreover have "unat x < 256" "unat y < 256" using unat_less [of x] unat_less [of y] by simp_all
  ultimately have "be_word (xs @ [x]) < be_word (ys' @ [y]) \<longleftrightarrow> unat (be_word xs) < unat (be_word ys') \<or> unat (be_word xs) = unat (be_word ys') \<and> unat x < unat y"
    unfolding word_less_nat_alt by (simp only: v) linarith
  then show ?case
    using IH eq ys by (simp add: array_less_append word_less_nat_alt word_unat_eq_iff del: be_word_simps)
qed simp

lemma chunk_word_less:
  assumes "length xs = length ys" and "length xs \<le> 16"
  shows "chunk_word xs < chunk_word ys \<longleftrightarrow> array_less xs ys" and "chunk_word xs = chunk_word ys \<longleftrightarrow> xs = ys"
proof -
  let ?k = "8 * (16 - length xs)"
  have v: "unat (chunk_word zs) = unat (be_word zs) * 2 ^ ?k" if "length zs = length xs" for zs
  proof -
    have "be_word zs = take_bit (8 * length zs) (be_word zs)"
      using assms(2) that be_word_small [of zs] by (intro bit_word_eqI) (auto simp: bit_simps)
    then have "unat (be_word zs) < 2 ^ (8 * length zs)" by (metis unsigned_take_bit_eq take_bit_nat_less_exp)
    then have "unat (be_word zs) * 2 ^ ?k < 2 ^ (8 * length zs) * 2 ^ ?k" by simp
    moreover have "8 * length zs + ?k = 128" using assms(2) that by simp
    then have "(2::nat) ^ (8 * length zs) * 2 ^ ?k = 2 ^ 128" by (simp only: power_add [symmetric])
    ultimately have "unat (be_word zs) * 2 ^ ?k < 2 ^ 128" by simp
    then show ?thesis using that by (simp add: chunk_word_def unat_push_mod)
  qed
  show "chunk_word xs < chunk_word ys \<longleftrightarrow> array_less xs ys"
    using be_word_less [OF assms] v [of xs] v [of ys] assms(1) by (simp add: word_less_nat_alt)
  have "be_word xs = be_word ys \<longleftrightarrow> xs = ys"
    using be_word_bytes [of xs] be_word_bytes [of ys] assms by metis
  then show "chunk_word xs = chunk_word ys \<longleftrightarrow> xs = ys"
    using v [of xs] v [of ys] assms(1) by (simp add: word_unat_eq_iff)
qed

lemma chunk_words_less:
  "length xs = length ys \<Longrightarrow> array_less (chunk_words xs) (chunk_words ys) \<longleftrightarrow> array_less xs ys"
proof (induction xs arbitrary: ys rule: chunk_words.induct)
  case (1 xs)
  show ?case
  proof (cases "xs = []")
    case False
    then have ne: "ys \<noteq> []" using 1(2) by auto
    let ?x = "take 16 xs" and ?y = "take 16 ys"
    have len: "length ?x = length ?y" "length ?x \<le> 16" using 1(2) by simp_all
    have "array_less (chunk_words (drop 16 xs)) (chunk_words (drop 16 ys)) \<longleftrightarrow> array_less (drop 16 xs) (drop 16 ys)"
      using 1 False by simp
    moreover have "array_less xs ys \<longleftrightarrow> array_less ?x ?y \<or> ?x = ?y \<and> array_less (drop 16 xs) (drop 16 ys)"
      using array_less_append [OF len(1), of "drop 16 xs" "drop 16 ys"] by simp
    moreover have "\<not> array_less ?y ?x" if "?x = ?y" using that by simp
    moreover have "chunk_word ?x < chunk_word ?y \<longleftrightarrow> array_less ?x ?y" "chunk_word ?x = chunk_word ?y \<longleftrightarrow> ?x = ?y"
      using chunk_word_less [OF len] by simp_all
    ultimately show ?thesis
      using False ne by (subst (1 2) chunk_words.simps) (auto simp: not_less_iff_gr_or_eq)
  qed (use 1(2) in simp)
qed

lemma array_less_lexord: "array_less xs ys \<longleftrightarrow> (xs, ys) \<in> lexord {(x, y). x < y}"
  by (induction xs ys rule: array_less.induct) auto

text \<open>The streams: \<open>Size\<close> bytes, and what they were made from is what they give back.\<close>

definition fixed_bytes_ok :: "nat \<Rightarrow> fixed_bytes \<Rightarrow> bool" where
  "fixed_bytes_ok n fb \<longleftrightarrow> fb = \<lparr>fb_data = chunk_words (extract_as_byte_array n fb)\<rparr> \<and> length (extract_as_byte_array n fb) = n"

lemma fixed_bytes_ok_iff: "fixed_bytes_ok n fb \<longleftrightarrow> (\<exists>bs. length bs = n \<and> fb = \<lparr>fb_data = chunk_words bs\<rparr>)"
  using extract_exact unfolding fixed_bytes_ok_def by metis

lemma fixed_bytes_codec:
  assumes "n < 2 ^ 32" and "length (fb_data junk) = num_words n"
  shows "codec (put_fixed_bytes n ss_write) (put_fixed_bytes n ds_write) (get_fixed_bytes n junk ds_read)
    (extract_as_byte_array n) (fixed_bytes_ok n)"
proof (rule codecI)
  fix fb assume "fixed_bytes_ok n fb"
  then have fb: "fb = \<lparr>fb_data = chunk_words (extract_as_byte_array n fb)\<rparr>" "length (extract_as_byte_array n fb) = n"
    by (simp_all add: fixed_bytes_ok_def)
  show "dsr.reads (get_fixed_bytes n junk ds_read) (extract_as_byte_array n fb) fb"
  proof -
    let ?bs = "extract_as_byte_array n fb"
    have r: "dsr.reads (ds_read (of_nat n)) ?bs ?bs" using fb(2) assms(1) by (intro dsr.reads_rd) (simp add: unat_of_nat_small)
    have "fixed_bytes_of_words junk ?bs = Inr fb"
      using fixed_bytes_exact [of junk ?bs] assms(2) fb by (simp add: fixed_bytes_of_words_def)
    then have "dsr.reads (\<lambda>ds. bind_res (fixed_bytes_of_words junk ?bs) (\<lambda>d. Inr (d, ds))) [] fb" by simp
    with r have "dsr.reads (\<lambda>ds. bind_res (ds_read (of_nat n) ds) (\<lambda>(arr, ds). bind_res (fixed_bytes_of_words junk arr) (\<lambda>d. Inr (d, ds))))
        (?bs @ []) fb"
      by (rule dsr.reads_bind)
    then show ?thesis by (simp add: get_fixed_bytes_def [abs_def])
  qed
qed (simp_all add: put_fixed_bytes_def [abs_def])

text \<open>
  With 32-bit words the last shift of \<open>set_from_word_sequence\<close>, which counts words as if they were bytes, is too small:
  a \<open>checksum160\<close> made from five such words loses the fifth.
\<close>

lemma checksum160_loses_a_word:
  "bind_res (make_from_word_sequence 20 [1, 2, 3, 4, 5 :: u32]) (\<lambda>fb. Inr (extract_as_byte_array 20 fb)) =
     Inr [0, 0, 0, 1, 0, 0, 0, 2, 0, 0, 0, 3, 0, 0, 0, 4, 0, 0, 0, 0]"
  by code_simp

end
