(* ===== verification/Uos_Crypto.thy ===== *)
theory Uos_Crypto
  imports Uos_Fixed_Bytes
begin

text \<open>
  core/uosio/crypto.hpp and crypto.cpp: public keys, signatures, and the wrappers of the host's hash functions, which
  are fields of \<open>crypto_api\<close>. A pointer to data is the bytes it points to; a host function that fills a hash
  returns its bytes. Stack arrays come with the address and the old contents of their memory.
\<close>

section \<open>Keys and signatures\<close>

record public_key =
  pk_type :: unsigned_int
  pk_data :: "u8 list"

definition public_key_eq :: "public_key \<Rightarrow> public_key \<Rightarrow> bool" where
  "public_key_eq a b \<longleftrightarrow> unsigned_int_eq (pk_type a) (pk_type b) \<and> pk_data a = pk_data b"

definition public_key_neq :: "public_key \<Rightarrow> public_key \<Rightarrow> bool" where
  "public_key_neq a b \<longleftrightarrow> \<not> (unsigned_int_eq (pk_type a) (pk_type b) \<and> pk_data a = pk_data b)"

definition put_public_key :: "(u8 list \<Rightarrow> 's \<Rightarrow> 's res) \<Rightarrow> public_key \<Rightarrow> 's \<Rightarrow> 's res" where
  "put_public_key wr pubkey ds = bind_res (put_unsigned_int wr (pk_type pubkey) ds) (\<lambda>ds. wr (pk_data pubkey) ds)"

definition get_public_key :: "('s \<Rightarrow> (u8 \<times> 's) res) \<Rightarrow> (u32 \<Rightarrow> 's \<Rightarrow> (u8 list \<times> 's) res) \<Rightarrow> 's \<Rightarrow> (public_key \<times> 's) res" where
  "get_public_key gt rd ds =
     bind_res (get_unsigned_int gt ds) (\<lambda>(t, ds). bind_res (rd 33 ds) (\<lambda>(d, ds).
     Inr (\<lparr>pk_type = t, pk_data = d\<rparr>, ds)))"

record signature =
  sig_type :: unsigned_int
  sig_data :: "u8 list"

definition signature_eq :: "signature \<Rightarrow> signature \<Rightarrow> bool" where
  "signature_eq a b \<longleftrightarrow> unsigned_int_eq (sig_type a) (sig_type b) \<and> sig_data a = sig_data b"

definition signature_neq :: "signature \<Rightarrow> signature \<Rightarrow> bool" where
  "signature_neq a b \<longleftrightarrow> \<not> (unsigned_int_eq (sig_type a) (sig_type b) \<and> sig_data a = sig_data b)"

definition put_signature :: "(u8 list \<Rightarrow> 's \<Rightarrow> 's res) \<Rightarrow> signature \<Rightarrow> 's \<Rightarrow> 's res" where
  "put_signature wr s ds = bind_res (put_unsigned_int wr (sig_type s) ds) (\<lambda>ds. wr (sig_data s) ds)"

definition get_signature :: "('s \<Rightarrow> (u8 \<times> 's) res) \<Rightarrow> (u32 \<Rightarrow> 's \<Rightarrow> (u8 list \<times> 's) res) \<Rightarrow> 's \<Rightarrow> (signature \<times> 's) res" where
  "get_signature gt rd ds =
     bind_res (get_unsigned_int gt ds) (\<lambda>(t, ds). bind_res (rd 65 ds) (\<lambda>(d, ds).
     Inr (\<lparr>sig_type = t, sig_data = d\<rparr>, ds)))"

section \<open>Host functions\<close>

record crypto_api =
  host_assert_sha256 :: "u8 list \<Rightarrow> u32 \<Rightarrow> u8 list \<Rightarrow> unit res"
  host_assert_sha1 :: "u8 list \<Rightarrow> u32 \<Rightarrow> u8 list \<Rightarrow> unit res"
  host_assert_sha512 :: "u8 list \<Rightarrow> u32 \<Rightarrow> u8 list \<Rightarrow> unit res"
  host_assert_ripemd160 :: "u8 list \<Rightarrow> u32 \<Rightarrow> u8 list \<Rightarrow> unit res"
  host_sha256 :: "u8 list \<Rightarrow> u32 \<Rightarrow> u8 list"
  host_sha1 :: "u8 list \<Rightarrow> u32 \<Rightarrow> u8 list"
  host_sha512 :: "u8 list \<Rightarrow> u32 \<Rightarrow> u8 list"
  host_ripemd160 :: "u8 list \<Rightarrow> u32 \<Rightarrow> u8 list"
  host_recover_key :: "u8 list \<Rightarrow> u8 list \<Rightarrow> u32 \<Rightarrow> i32 \<times> u8 list"
  host_assert_recover_key :: "u8 list \<Rightarrow> u8 list \<Rightarrow> u8 list \<Rightarrow> unit res"

definition assert_sha256 :: "crypto_api \<Rightarrow> u8 list \<Rightarrow> u32 \<Rightarrow> fixed_bytes \<Rightarrow> unit res" where
  "assert_sha256 api data len hash = host_assert_sha256 api data len (extract_as_byte_array 32 hash)"

definition assert_sha1 :: "crypto_api \<Rightarrow> u8 list \<Rightarrow> u32 \<Rightarrow> fixed_bytes \<Rightarrow> unit res" where
  "assert_sha1 api data len hash = host_assert_sha1 api data len (extract_as_byte_array 20 hash)"

definition assert_sha512 :: "crypto_api \<Rightarrow> u8 list \<Rightarrow> u32 \<Rightarrow> fixed_bytes \<Rightarrow> unit res" where
  "assert_sha512 api data len hash = host_assert_sha512 api data len (extract_as_byte_array 64 hash)"

definition assert_ripemd160 :: "crypto_api \<Rightarrow> u8 list \<Rightarrow> u32 \<Rightarrow> fixed_bytes \<Rightarrow> unit res" where
  "assert_ripemd160 api data len hash = host_assert_ripemd160 api data len (extract_as_byte_array 20 hash)"

text \<open>The hash that the constructor from an array makes; \<open>mem\<close> is what its memory held.\<close>

definition sha256 :: "crypto_api \<Rightarrow> fixed_bytes \<Rightarrow> u8 list \<Rightarrow> u32 \<Rightarrow> fixed_bytes res" where
  "sha256 api mem data len = fixed_bytes_of_carray mem (host_sha256 api data len)"

definition sha1 :: "crypto_api \<Rightarrow> fixed_bytes \<Rightarrow> u8 list \<Rightarrow> u32 \<Rightarrow> fixed_bytes res" where
  "sha1 api mem data len = fixed_bytes_of_carray mem (host_sha1 api data len)"

definition sha512 :: "crypto_api \<Rightarrow> fixed_bytes \<Rightarrow> u8 list \<Rightarrow> u32 \<Rightarrow> fixed_bytes res" where
  "sha512 api mem data len = fixed_bytes_of_carray mem (host_sha512 api data len)"

definition ripemd160 :: "crypto_api \<Rightarrow> fixed_bytes \<Rightarrow> u8 list \<Rightarrow> u32 \<Rightarrow> fixed_bytes res" where
  "ripemd160 api mem data len = fixed_bytes_of_carray mem (host_ripemd160 api data len)"

text \<open>
  What a stream on a local array has written: from its begin to its position. A stream reads no further than the size it was given. \<open>sig_mem\<close> are 70 bytes, \<open>pub_mem\<close> 38.
\<close>

definition written :: "datastream \<Rightarrow> u8 list" where
  "written ds = take (unat (ds_tellp ds)) (ds_buf ds)"

definition recover_key :: "crypto_api \<Rightarrow> u32 \<times> u8 list \<Rightarrow> u32 \<times> u8 list \<Rightarrow> fixed_bytes \<Rightarrow> signature \<Rightarrow> public_key res" where
  "recover_key api sig_mem pub_mem digest s =
     (let digest_data = extract_as_byte_array 32 digest in
      bind_res (put_signature ds_write s (ds_make (fst sig_mem) 70 (snd sig_mem))) (\<lambda>sig_ds.
      let (pubkey_size, bytes) = host_recover_key api digest_data (written sig_ds) 38;
          pubkey_data = bytes @ drop (length bytes) (snd pub_mem)
      in bind_res (get_public_key ds_get ds_read (ds_make (fst pub_mem) pubkey_size (take (unat pubkey_size) pubkey_data))) (\<lambda>(pubkey, _).
         Inr pubkey)))"

definition assert_recover_key :: "crypto_api \<Rightarrow> u32 \<times> u8 list \<Rightarrow> u32 \<times> u8 list \<Rightarrow> fixed_bytes \<Rightarrow> signature \<Rightarrow> public_key \<Rightarrow> unit res" where
  "assert_recover_key api sig_mem pub_mem digest s pubkey =
     (let digest_data = extract_as_byte_array 32 digest in
      bind_res (put_signature ds_write s (ds_make (fst sig_mem) 70 (snd sig_mem))) (\<lambda>sig_ds.
      bind_res (put_public_key ds_write pubkey (ds_make (fst pub_mem) 38 (snd pub_mem))) (\<lambda>pubkey_ds.
      host_assert_recover_key api digest_data (written sig_ds) (written pubkey_ds))))"

section \<open>Serialization\<close>

definition public_key_image :: "public_key \<Rightarrow> u8 list" where
  "public_key_image k = vlq_bytes (unat (uint_value (pk_type k))) @ pk_data k"

definition signature_image :: "signature \<Rightarrow> u8 list" where
  "signature_image s = vlq_bytes (unat (uint_value (sig_type s))) @ sig_data s"

lemma public_key_codec:
  "codec (put_public_key ss_write) (put_public_key ds_write) (get_public_key ds_get ds_read) public_key_image (\<lambda>k. length (pk_data k) = 33)"
proof (rule codecI)
  fix k :: public_key assume k: "length (pk_data k) = 33"
  show "ssw.writes (put_public_key ss_write k) (public_key_image k)"
    unfolding put_public_key_def [abs_def] public_key_image_def
    by (rule ssw.writes_bind [OF unsigned_int_codec.size_image ssw.writes_wr]) simp
  show "dsw.writes (put_public_key ds_write k) (public_key_image k)"
    unfolding put_public_key_def [abs_def] public_key_image_def
    by (rule dsw.writes_bind [OF unsigned_int_codec.put_image dsw.writes_wr]) simp
  show "dsr.reads (get_public_key ds_get ds_read) (public_key_image k) k"
    unfolding get_public_key_def [abs_def] public_key_image_def
    by (rule dsr.reads_bind, rule unsigned_int_codec.get_image, simp, rule dsr.reads_last, rule dsr.reads_rd) (simp_all add: k)
qed

lemma signature_codec:
  "codec (put_signature ss_write) (put_signature ds_write) (get_signature ds_get ds_read) signature_image (\<lambda>s. length (sig_data s) = 65)"
proof (rule codecI)
  fix s :: signature assume s: "length (sig_data s) = 65"
  show "ssw.writes (put_signature ss_write s) (signature_image s)"
    unfolding put_signature_def [abs_def] signature_image_def
    by (rule ssw.writes_bind [OF unsigned_int_codec.size_image ssw.writes_wr]) simp
  show "dsw.writes (put_signature ds_write s) (signature_image s)"
    unfolding put_signature_def [abs_def] signature_image_def
    by (rule dsw.writes_bind [OF unsigned_int_codec.put_image dsw.writes_wr]) simp
  show "dsr.reads (get_signature ds_get ds_read) (signature_image s) s"
    unfolding get_signature_def [abs_def] signature_image_def
    by (rule dsr.reads_bind, rule unsigned_int_codec.get_image, simp, rule dsr.reads_last, rule dsr.reads_rd) (simp_all add: s)
qed

text \<open>What is written to a local array that is large enough.\<close>

lemma written_image:
  assumes w: "dsw.writes put bs" and a: "addressable addr (length mem)" and fits: "length bs \<le> length mem"
  shows "\<exists>ds. put (ds_make addr (of_nat (length mem)) mem) = Inr ds \<and> written ds = bs"
proof -
  let ?ds = "ds_make addr (of_nat (length mem)) mem"
  note mk = ds_make_ok [OF a]
  have len: "length bs < 2 ^ 31" using a fits by (simp add: addressable_def)
  have "put ?ds = Inr ((ds_adv (length bs) ?ds)\<lparr>ds_buf := bs @ drop (length bs) mem\<rparr>)"
    using dsw.writesD [OF w mk(1) len] ds_write_law [OF mk(1) len] mk(2,3) fits by simp
  moreover have "unat (of_nat (length bs) :: u32) = length bs" using len by (simp add: unat_of_nat_small)
  ultimately show ?thesis by (simp add: written_def ds_tellp_def ds_adv_def ds_make_def)
qed

lemma signature_fits: "length (sig_data s) = 65 \<Longrightarrow> length (signature_image s) \<le> 70"
  using length_vlq_bytes_le [of "unat (uint_value (sig_type s))" 4] unat_less [of "uint_value (sig_type s)"]
  by (simp add: signature_image_def)

lemma public_key_fits: "length (pk_data k) = 33 \<Longrightarrow> length (public_key_image k) \<le> 38"
  using length_vlq_bytes_le [of "unat (uint_value (pk_type k))" 4] unat_less [of "uint_value (pk_type k)"]
  by (simp add: public_key_image_def)

text \<open>The local arrays are large enough: the host gets the images of the signature and the key.\<close>

lemma assert_recover_key_images:
  assumes "length (sig_data s) = 65" and "length (pk_data k) = 33"
    and "addressable (fst sm) 70" and "length (snd sm) = 70" and "addressable (fst pm) 38" and "length (snd pm) = 38"
  shows "assert_recover_key api sm pm digest s k =
    host_assert_recover_key api (extract_as_byte_array 32 digest) (signature_image s) (public_key_image k)"
proof -
  obtain d where "put_signature ds_write s (ds_make (fst sm) 70 (snd sm)) = Inr d" "written d = signature_image s"
    using written_image [OF codec.put_image [OF signature_codec assms(1)], of "fst sm" "snd sm"] signature_fits [OF assms(1)] assms by auto
  moreover obtain e where "put_public_key ds_write k (ds_make (fst pm) 38 (snd pm)) = Inr e" "written e = public_key_image k"
    using written_image [OF codec.put_image [OF public_key_codec assms(2)], of "fst pm" "snd pm"] public_key_fits [OF assms(2)] assms by auto
  ultimately show ?thesis by (simp add: assert_recover_key_def)
qed

lemma recover_key_image:
  assumes "length (sig_data s) = 65" and "addressable (fst sm) 70" and "length (snd sm) = 70"
    and "addressable (fst pm) 38" and "length (snd pm) = 38" and k: "length (pk_data k) = 33"
    and h: "host_recover_key api (extract_as_byte_array 32 digest) (signature_image s) 38 = (of_nat (length (public_key_image k)), public_key_image k)"
  shows "recover_key api sm pm digest s = Inr k"
proof -
  let ?n = "length (public_key_image k)"
  obtain d where d: "put_signature ds_write s (ds_make (fst sm) 70 (snd sm)) = Inr d" "written d = signature_image s"
    using written_image [OF codec.put_image [OF signature_codec assms(1)], of "fst sm" "snd sm"] signature_fits [OF assms(1)] assms by auto
  have "addressable (fst pm) ?n" using assms(4) public_key_fits [OF k] by (simp add: addressable_def)
  note mk = ds_make_ok [OF this]
  have "unat (of_nat ?n :: u32) = ?n" using public_key_fits [OF k] by (simp add: unat_of_nat_small)
  moreover have "get_public_key ds_get ds_read (ds_make (fst pm) (of_nat ?n) (public_key_image k)) =
      Inr (k, ds_adv ?n (ds_make (fst pm) (of_nat ?n) (public_key_image k)))"
    using dsr.readsD [OF codec.get_image [OF public_key_codec k] mk(1), of "[]"] mk(2) by simp
  ultimately show ?thesis using d h by (simp add: recover_key_def)
qed

end
