(* ===== verification/Uos_Transaction.thy ===== *)
theory Uos_Transaction
  imports Uos_Action Uos_Crypto
begin

text \<open>
  contracts/uosio/transaction.hpp, system.hpp, permission.hpp and the time functions of uosiolib.cpp: deferred
  transactions, the current time, and the host's authorization checks. The host's functions are the fields of
  \<open>chain_api\<close>.
\<close>

section \<open>Host functions\<close>

text \<open>
  A function that fills a buffer is given the buffer's size and returns its result and the bytes it copies. The
  arguments \<open>trx\<close>, \<open>keys\<close>, \<open>perms\<close> of the checks are the bytes of a pointer and a size.
\<close>

record 'h chain_api = "'h action_api" +
  host_send_deferred :: "u128 \<Rightarrow> u64 \<Rightarrow> u8 list \<Rightarrow> u32 \<Rightarrow> 'h \<Rightarrow> 'h res"
  host_cancel_deferred :: "u128 \<Rightarrow> 'h \<Rightarrow> (i32 \<times> 'h) res"
  host_read_transaction :: "u32 \<Rightarrow> 'h \<Rightarrow> u32 \<times> u8 list"
  host_transaction_size :: "'h \<Rightarrow> u32"
  host_tapos_block_num :: "'h \<Rightarrow> i32"
  host_tapos_block_prefix :: "'h \<Rightarrow> i32"
  host_expiration :: "'h \<Rightarrow> u32"
  host_get_action :: "u32 \<Rightarrow> u32 \<Rightarrow> u32 \<Rightarrow> 'h \<Rightarrow> i32 \<times> u8 list"
  host_get_context_free_data :: "u32 \<Rightarrow> u32 \<Rightarrow> 'h \<Rightarrow> i32 \<times> u8 list"
  host_current_time :: "'h \<Rightarrow> u64"
  host_exit :: "i32 \<Rightarrow> 'h \<Rightarrow> 'h res"
  host_check_transaction_authorization :: "u8 list \<Rightarrow> u8 list \<Rightarrow> u8 list \<Rightarrow> 'h \<Rightarrow> i32"
  host_check_permission_authorization :: "u64 \<Rightarrow> u64 \<Rightarrow> u8 list \<Rightarrow> u8 list \<Rightarrow> u64 \<Rightarrow> 'h \<Rightarrow> i32"
  host_get_permission_last_used :: "u64 \<Rightarrow> u64 \<Rightarrow> 'h \<Rightarrow> i64"
  host_get_account_creation_time :: "u64 \<Rightarrow> 'h \<Rightarrow> i64"

definition uosio_exit :: "'h chain_api \<Rightarrow> i32 \<Rightarrow> 'h \<Rightarrow> 'h res" where
  "uosio_exit api code h = host_exit api code h"

section \<open>The current time\<close>

text \<open>The function-local statics, which the first call sets.\<close>

record time_statics =
  static_ct :: "time_point option"
  static_bt :: "block_timestamp option"

definition current_time_point :: "'h chain_api \<Rightarrow> 'h \<Rightarrow> time_statics \<Rightarrow> time_point \<times> time_statics" where
  "current_time_point api h st =
     (case static_ct st of
        Some ct \<Rightarrow> (ct, st)
      | None \<Rightarrow> let ct = \<lparr>elapsed = \<lparr>us_count = host_current_time api h\<rparr>\<rparr> in (ct, st\<lparr>static_ct := Some ct\<rparr>))"

definition current_block_time :: "'h chain_api \<Rightarrow> 'h \<Rightarrow> time_statics \<Rightarrow> block_timestamp \<times> time_statics" where
  "current_block_time api h st =
     (case static_bt st of
        Some bt \<Rightarrow> (bt, st)
      | None \<Rightarrow>
          let (ct, st) = current_time_point api h st; bt = block_of_time_point ct
          in (bt, st\<lparr>static_bt := Some bt\<rparr>))"

section \<open>Transactions\<close>

type_synonym extension = "u16 \<times> u8 list"

definition put_extension :: "(u8 list \<Rightarrow> 's \<Rightarrow> 's res) \<Rightarrow> extension \<Rightarrow> 's \<Rightarrow> 's res" where
  "put_extension wr e ds = put_tuple [put_prim wr (fst e), put_char_vector wr (snd e)] ds"

definition get_extension :: "('s \<Rightarrow> (u8 \<times> 's) res) \<Rightarrow> (u32 \<Rightarrow> 's \<Rightarrow> (u8 list \<times> 's) res) \<Rightarrow> 's \<Rightarrow> (extension \<times> 's) res" where
  "get_extension gt rd ds =
     bind_res (get_prim rd ds) (\<lambda>(t, ds). bind_res (get_char_vector gt rd ds) (\<lambda>(d, ds). Inr ((t, d), ds)))"

record transaction_header =
  th_expiration :: time_point_sec
  th_ref_block_num :: u16
  th_ref_block_prefix :: u32
  th_max_net_usage_words :: unsigned_int
  th_max_cpu_usage_ms :: u8
  th_delay_sec :: unsigned_int

text \<open>The constructors leave \<open>ref_block_num\<close> and \<open>ref_block_prefix\<close> as memory was. The default expiration is a minute from now.\<close>

definition default_expiration :: "'h chain_api \<Rightarrow> 'h \<Rightarrow> time_statics \<Rightarrow> time_point_sec \<times> time_statics" where
  "default_expiration api h st = (let (ct, st) = current_time_point api h st in (sec_add (sec_of_time_point ct) 60, st))"

definition transaction_header_of :: "u16 \<Rightarrow> u32 \<Rightarrow> time_point_sec \<Rightarrow> transaction_header" where
  "transaction_header_of num prefix exp =
     \<lparr>th_expiration = exp, th_ref_block_num = num, th_ref_block_prefix = prefix,
      th_max_net_usage_words = unsigned_int_of 0, th_max_cpu_usage_ms = 0, th_delay_sec = unsigned_int_of 0\<rparr>"

definition put_transaction_header :: "(u8 list \<Rightarrow> 's \<Rightarrow> 's res) \<Rightarrow> 'x transaction_header_scheme \<Rightarrow> 's \<Rightarrow> 's res" where
  "put_transaction_header wr t ds =
     put_members [put_time_point_sec wr (th_expiration t), put_prim wr (th_ref_block_num t), put_prim wr (th_ref_block_prefix t),
       put_unsigned_int wr (th_max_net_usage_words t), put_prim wr (th_max_cpu_usage_ms t), put_unsigned_int wr (th_delay_sec t)] ds"

definition get_transaction_header :: "('s \<Rightarrow> (u8 \<times> 's) res) \<Rightarrow> (u32 \<Rightarrow> 's \<Rightarrow> (u8 list \<times> 's) res) \<Rightarrow> 's \<Rightarrow> (transaction_header \<times> 's) res" where
  "get_transaction_header gt rd ds =
     bind_res (get_time_point_sec rd ds) (\<lambda>(e, ds). bind_res (get_prim rd ds) (\<lambda>(n, ds). bind_res (get_prim rd ds) (\<lambda>(p, ds).
     bind_res (get_unsigned_int gt ds) (\<lambda>(w, ds). bind_res (get_prim rd ds) (\<lambda>(c, ds). bind_res (get_unsigned_int gt ds) (\<lambda>(d, ds).
     Inr (\<lparr>th_expiration = e, th_ref_block_num = n, th_ref_block_prefix = p, th_max_net_usage_words = w,
           th_max_cpu_usage_ms = c, th_delay_sec = d\<rparr>, ds)))))))"

record transaction = transaction_header +
  tx_context_free_actions :: "action list"
  tx_actions :: "action list"
  tx_extensions :: "extension list"

definition transaction_of :: "u16 \<Rightarrow> u32 \<Rightarrow> time_point_sec \<Rightarrow> transaction" where
  "transaction_of num prefix exp =
     transaction_header.extend (transaction_header_of num prefix exp)
       \<lparr>tx_context_free_actions = [], tx_actions = [], tx_extensions = []\<rparr>"

definition put_transaction :: "(u8 list \<Rightarrow> 's \<Rightarrow> 's res) \<Rightarrow> transaction \<Rightarrow> 's \<Rightarrow> 's res" where
  "put_transaction wr t ds =
     put_derived (put_transaction_header wr t)
       [put_vector wr (put_action wr) (tx_context_free_actions t), put_vector wr (put_action wr) (tx_actions t),
        put_vector wr (put_extension wr) (tx_extensions t)] ds"

definition get_transaction :: "('s \<Rightarrow> (u8 \<times> 's) res) \<Rightarrow> (u32 \<Rightarrow> 's \<Rightarrow> (u8 list \<times> 's) res) \<Rightarrow> 's \<Rightarrow> (transaction \<times> 's) res" where
  "get_transaction gt rd ds =
     bind_res (get_transaction_header gt rd ds) (\<lambda>(hd, ds).
     bind_res (get_vector gt (get_action gt rd) ds) (\<lambda>(cfa, ds).
     bind_res (get_vector gt (get_action gt rd) ds) (\<lambda>(acts, ds).
     bind_res (get_vector gt (get_extension gt rd) ds) (\<lambda>(exts, ds).
     Inr (transaction_header.extend hd \<lparr>tx_context_free_actions = cfa, tx_actions = acts, tx_extensions = exts\<rparr>, ds)))))"

definition transaction_send :: "'h chain_api \<Rightarrow> u32 \<Rightarrow> transaction \<Rightarrow> u128 \<Rightarrow> name \<Rightarrow> bool \<Rightarrow> 'h \<Rightarrow> 'h res" where
  "transaction_send api addr t sender_id payer replace_existing h =
     bind_res (pack (put_transaction ss_write t) (put_transaction ds_write t) addr) (\<lambda>bytes.
     host_send_deferred api sender_id (name_value payer) bytes (of_bool replace_existing) h)"

record onerror =
  oe_sender_id :: u128
  oe_sent_trx :: "u8 list"

definition put_onerror :: "(u8 list \<Rightarrow> 's \<Rightarrow> 's res) \<Rightarrow> onerror \<Rightarrow> 's \<Rightarrow> 's res" where
  "put_onerror wr e ds = put_members [put_prim wr (oe_sender_id e), put_char_vector wr (oe_sent_trx e)] ds"

definition get_onerror :: "('s \<Rightarrow> (u8 \<times> 's) res) \<Rightarrow> (u32 \<Rightarrow> 's \<Rightarrow> (u8 list \<times> 's) res) \<Rightarrow> 's \<Rightarrow> (onerror \<times> 's) res" where
  "get_onerror gt rd ds =
     bind_res (get_prim rd ds) (\<lambda>(i, ds). bind_res (get_char_vector gt rd ds) (\<lambda>(t, ds).
     Inr (\<lparr>oe_sender_id = i, oe_sent_trx = t\<rparr>, ds)))"

definition from_current_action :: "'h chain_api \<Rightarrow> 'h \<Rightarrow> (onerror \<times> 'h) res" where
  "from_current_action api h = unpack_action_data (action_api.truncate api) (get_onerror ds_get ds_read) h"

definition unpack_sent_trx :: "u32 \<Rightarrow> onerror \<Rightarrow> transaction res" where
  "unpack_sent_trx addr e = unpack_bytes (get_transaction ds_get ds_read) addr (oe_sent_trx e)"

definition send_deferred :: "'h chain_api \<Rightarrow> u128 \<Rightarrow> name \<Rightarrow> u8 list \<Rightarrow> bool \<Rightarrow> 'h \<Rightarrow> 'h res" where
  "send_deferred api sender_id payer serialized replace h = host_send_deferred api sender_id (name_value payer) serialized (of_bool replace) h"

definition get_transaction_action :: "'h chain_api \<Rightarrow> u32 \<Rightarrow> u32 \<Rightarrow> 'h \<Rightarrow> (action \<times> 'h) res" where
  "get_transaction_action api type index h =
     (let s = fst (host_get_action api type index 0 h) in
      bind_res (check (sint s > 0) ''get_action size failed'') (\<lambda>_.
      let sz = s in
      bind_res (action_buffer (action_api.truncate api) sz h) (\<lambda>((buffer, mem), h).
      let (size2, bytes) = host_get_action api type index sz h; mem = fill_buffer bytes mem in
      bind_res (check (sz = size2) ''get_action failed'') (\<lambda>_.
      bind_res (unpack (get_action ds_get ds_read) buffer sz mem) (\<lambda>a. Inr (a, h))))))"

definition read_transaction :: "'h chain_api \<Rightarrow> u8 list \<Rightarrow> u32 \<Rightarrow> 'h \<Rightarrow> u32 \<times> u8 list" where
  "read_transaction api ptr sz h = (let (n, bytes) = host_read_transaction api sz h in (n, fill_buffer bytes ptr))"

definition cancel_deferred :: "'h chain_api \<Rightarrow> u128 \<Rightarrow> 'h \<Rightarrow> (i32 \<times> 'h) res" where
  "cancel_deferred api sender_id h = host_cancel_deferred api sender_id h"

definition transaction_size :: "'h chain_api \<Rightarrow> 'h \<Rightarrow> u32" where
  "transaction_size api h = host_transaction_size api h"

definition tapos_block_num :: "'h chain_api \<Rightarrow> 'h \<Rightarrow> i32" where
  "tapos_block_num api h = host_tapos_block_num api h"

definition tapos_block_prefix :: "'h chain_api \<Rightarrow> 'h \<Rightarrow> i32" where
  "tapos_block_prefix api h = host_tapos_block_prefix api h"

definition expiration :: "'h chain_api \<Rightarrow> 'h \<Rightarrow> u32" where
  "expiration api h = host_expiration api h"

definition get_context_free_data :: "'h chain_api \<Rightarrow> u32 \<Rightarrow> u8 list \<Rightarrow> u32 \<Rightarrow> 'h \<Rightarrow> i32 \<times> u8 list" where
  "get_context_free_data api index buff sz h =
     (let (n, bytes) = host_get_context_free_data api index sz h in (n, fill_buffer bytes buff))"

section \<open>Authorization\<close>

text \<open>The host answers with an \<open>int32_t\<close>: the wrappers of the raw functions convert it to \<open>bool\<close>, the others test its sign.\<close>

definition check_transaction_authorization_raw :: "'h chain_api \<Rightarrow> u8 list \<Rightarrow> u8 list \<Rightarrow> u8 list \<Rightarrow> 'h \<Rightarrow> bool" where
  "check_transaction_authorization_raw api trx keys perms h \<longleftrightarrow> host_check_transaction_authorization api trx keys perms h \<noteq> 0"

definition check_permission_authorization_raw :: "'h chain_api \<Rightarrow> name \<Rightarrow> name \<Rightarrow> u8 list \<Rightarrow> u8 list \<Rightarrow> microseconds \<Rightarrow> 'h \<Rightarrow> bool res" where
  "check_permission_authorization_raw api account permission keys perms delay h =
     (let delay_us = us_count delay in
      bind_res (check (sint delay_us \<ge> 0) ''negative delay is not allowed'') (\<lambda>_.
      Inr (host_check_permission_authorization api (name_value account) (name_value permission) keys perms delay_us h \<noteq> 0)))"

text \<open>
  A \<open>std::set\<close> of keys or permissions is the list of its elements in the order of iteration; an empty one is passed as a null
  pointer and no bytes.
\<close>

definition put_ordered :: "(u8 list \<Rightarrow> 's \<Rightarrow> 's res) \<Rightarrow> ('a \<Rightarrow> 's \<Rightarrow> 's res) \<Rightarrow> 'a list \<Rightarrow> 's \<Rightarrow> 's res" where
  "put_ordered wr enc s ds = bind_res (put_size wr (length s) ds) (put_elems enc s)"

definition pack_set :: "('a \<Rightarrow> size_stream \<Rightarrow> size_stream res) \<Rightarrow> ('a \<Rightarrow> datastream \<Rightarrow> datastream res) \<Rightarrow> u32 \<Rightarrow> 'a list \<Rightarrow> u8 list res" where
  "pack_set encs encd addr s =
     (if length s > 0 then pack (put_ordered ss_write encs s) (put_ordered ds_write encd s) addr else Inr [])"

definition check_transaction_authorization :: "'h chain_api \<Rightarrow> u32 \<Rightarrow> transaction \<Rightarrow> permission_level list \<Rightarrow> public_key list \<Rightarrow> 'h \<Rightarrow> bool res" where
  "check_transaction_authorization api addr trx provided_permissions provided_keys h =
     bind_res (pack (put_transaction ss_write trx) (put_transaction ds_write trx) addr) (\<lambda>packed_trx.
     bind_res (pack_set (put_public_key ss_write) (put_public_key ds_write) addr provided_keys) (\<lambda>packed_keys.
     bind_res (pack_set (put_permission_level ss_write) (put_permission_level ds_write) addr provided_permissions) (\<lambda>packed_perms.
     Inr (sint (host_check_transaction_authorization api packed_trx packed_keys packed_perms h) > 0))))"

definition check_permission_authorization :: "'h chain_api \<Rightarrow> u32 \<Rightarrow> name \<Rightarrow> name \<Rightarrow> public_key list \<Rightarrow> permission_level list \<Rightarrow> microseconds \<Rightarrow> 'h \<Rightarrow> bool res" where
  "check_permission_authorization api addr account permission provided_keys provided_permissions provided_delay h =
     (let provided_delay_us = us_count provided_delay in
      bind_res (check (sint provided_delay_us \<ge> 0) ''negative delay is not allowed'') (\<lambda>_.
      bind_res (pack_set (put_public_key ss_write) (put_public_key ds_write) addr provided_keys) (\<lambda>packed_keys.
      bind_res (pack_set (put_permission_level ss_write) (put_permission_level ds_write) addr provided_permissions) (\<lambda>packed_perms.
      Inr (sint (host_check_permission_authorization api (name_value account) (name_value permission)
        packed_keys packed_perms provided_delay_us h) > 0)))))"

definition get_permission_last_used :: "'h chain_api \<Rightarrow> name \<Rightarrow> name \<Rightarrow> 'h \<Rightarrow> time_point" where
  "get_permission_last_used api account permission h =
     \<lparr>elapsed = \<lparr>us_count = host_get_permission_last_used api (name_value account) (name_value permission) h\<rparr>\<rparr>"

definition get_account_creation_time :: "'h chain_api \<Rightarrow> name \<Rightarrow> 'h \<Rightarrow> time_point" where
  "get_account_creation_time api account h = \<lparr>elapsed = \<lparr>us_count = host_get_account_creation_time api (name_value account) h\<rparr>\<rparr>"

section \<open>Serialization\<close>

interpretation u128_codec: codec "put_prim ss_write" "put_prim ds_write" "get_prim ds_read"
    "le_bytes 16 :: u128 \<Rightarrow> u8 list" "\<lambda>_. True"
  by (rule codec_prim) simp_all

lemmas word_codecs = u8_codec.codec_axioms u16_codec.codec_axioms u32_codec.codec_axioms u64_codec.codec_axioms
  u128_codec.codec_axioms unsigned_int_codec.codec_axioms

definition extension_image :: "extension \<Rightarrow> u8 list" where
  "extension_image e = le_bytes 2 (fst e) @ size_bytes (length (snd e)) @ snd e"

lemma extension_codec:
  "codec (put_extension ss_write) (put_extension ds_write) (get_extension ds_get ds_read) extension_image (\<lambda>e. length (snd e) < 2 ^ 32)"
proof (rule codecI)
  fix e :: extension assume v: "length (snd e) < 2 ^ 32"
  show "dsr.reads (get_extension ds_get ds_read) (extension_image e) e"
    unfolding get_extension_def [abs_def] extension_image_def
    by (rule dsr.reads_bind, rule u16_codec.get_image, simp, rule dsr.reads_last,
        rule codec.get_image [OF codec_char_vector v], simp)
  have t: "put_tuple = put_members" by (simp add: fun_eq_iff put_tuple_def put_members_def)
  show "ssw.writes (put_extension ss_write e) (extension_image e)" "dsw.writes (put_extension ds_write e) (extension_image e)"
    using codecD(1,2) [OF codec_char_vector v] codecD(1,2) [OF u16_codec.codec_axioms]
    unfolding put_extension_def [abs_def] extension_image_def t by (auto intro!: struct_writes)
qed

definition transaction_header_image :: "'x transaction_header_scheme \<Rightarrow> u8 list" where
  "transaction_header_image t = le_bytes 4 (utc_seconds (th_expiration t)) @ le_bytes 2 (th_ref_block_num t) @
     le_bytes 4 (th_ref_block_prefix t) @ vlq_bytes (unat (uint_value (th_max_net_usage_words t))) @
     le_bytes 1 (th_max_cpu_usage_ms t) @ vlq_bytes (unat (uint_value (th_delay_sec t)))"

lemma transaction_header_writes:
  "ssw.writes (put_transaction_header ss_write t) (transaction_header_image t)"
  "dsw.writes (put_transaction_header ds_write t) (transaction_header_image t)"
  unfolding put_transaction_header_def [abs_def] transaction_header_image_def
  by (intro struct_writes word_codecs [THEN codecD(1)] word_codecs [THEN codecD(2)] time_point_sec_codec.size_image
      time_point_sec_codec.put_image TrueI)+

lemma transaction_header_reads:
  "dsr.reads (get_transaction_header ds_get ds_read) (transaction_header_image t) (transaction_header.truncate t)"
  unfolding get_transaction_header_def [abs_def] transaction_header_image_def
  by (rule dsr.reads_bind, rule time_point_sec_codec.get_image, simp, rule dsr.reads_bind, rule u16_codec.get_image, simp,
      rule dsr.reads_bind, rule u32_codec.get_image, simp, rule dsr.reads_bind, rule unsigned_int_codec.get_image, simp,
      rule dsr.reads_bind, rule u8_codec.get_image, simp, rule dsr.reads_last, rule unsigned_int_codec.get_image, simp,
      simp add: transaction_header.truncate_def)

definition transaction_image :: "transaction \<Rightarrow> u8 list" where
  "transaction_image t = transaction_header_image t @ seq_image action_image (tx_context_free_actions t) @
     seq_image action_image (tx_actions t) @ seq_image extension_image (tx_extensions t)"

definition transaction_ok :: "transaction \<Rightarrow> bool" where
  "transaction_ok t \<longleftrightarrow> seq_valid action_ok (tx_context_free_actions t) \<and> seq_valid action_ok (tx_actions t) \<and>
     seq_valid (\<lambda>e. length (snd e) < 2 ^ 32) (tx_extensions t)"

lemmas actions_codec = codec_seq(1) [OF action_codec]
lemmas extensions_codec = codec_seq(1) [OF extension_codec]

lemma transaction_codec:
  "codec (put_transaction ss_write) (put_transaction ds_write) (get_transaction ds_get ds_read) transaction_image transaction_ok"
proof (rule codecI)
  fix t assume "transaction_ok t"
  then have v: "seq_valid action_ok (tx_context_free_actions t)" "seq_valid action_ok (tx_actions t)"
      "seq_valid (\<lambda>e. length (snd e) < 2 ^ 32) (tx_extensions t)"
    by (simp_all add: transaction_ok_def)
  note a = codecD [OF actions_codec v(1)] codecD [OF actions_codec v(2)] codecD [OF extensions_codec v(3)]
  show "ssw.writes (put_transaction ss_write t) (transaction_image t)" "dsw.writes (put_transaction ds_write t) (transaction_image t)"
    using a transaction_header_writes [of t]
    unfolding put_transaction_def [abs_def] transaction_image_def by (auto intro!: struct_writes)
  show "dsr.reads (get_transaction ds_get ds_read) (transaction_image t) t"
    unfolding get_transaction_def [abs_def] transaction_image_def
    by (rule dsr.reads_bind, rule transaction_header_reads, rule dsr.reads_bind, rule a, rule dsr.reads_bind, rule a,
        rule dsr.reads_last, rule a, simp add: transaction_header.extend_def transaction_header.truncate_def)
qed

text \<open>A deferred transaction comes back in the error notification as it was sent.\<close>

lemma transaction_send_image:
  assumes "transaction_ok t" and "addressable addr (length (transaction_image t))"
  shows "transaction_send api addr t sender_id payer replace h =
      host_send_deferred api sender_id (name_value payer) (transaction_image t) (of_bool replace) h"
    and "unpack_sent_trx addr \<lparr>oe_sender_id = sender_id, oe_sent_trx = transaction_image t\<rparr> = Inr t"
  using codec.pack_image [OF transaction_codec assms] codec.unpack_image [OF transaction_codec assms(1), of addr "[]"] assms(2)
  by (simp_all add: transaction_send_def unpack_sent_trx_def)

text \<open>The time is the same in every call.\<close>

lemma current_time_stable:
  assumes "current_time_point api h st = (ct, st')"
  shows "current_time_point api h' st' = (ct, st')"
  using assms by (auto simp: current_time_point_def Let_def split: option.splits)

lemma current_block_time_stable:
  assumes "current_block_time api h st = (bt, st')"
  shows "current_block_time api h' st' = (bt, st')"
  using assms by (auto simp: current_block_time_def Let_def split: option.splits prod.splits)

definition onerror_image :: "onerror \<Rightarrow> u8 list" where
  "onerror_image e = le_bytes 16 (oe_sender_id e) @ size_bytes (length (oe_sent_trx e)) @ oe_sent_trx e"

lemma onerror_codec:
  "codec (put_onerror ss_write) (put_onerror ds_write) (get_onerror ds_get ds_read) onerror_image (\<lambda>e. length (oe_sent_trx e) < 2 ^ 32)"
proof (rule codecI)
  fix e :: onerror assume v: "length (oe_sent_trx e) < 2 ^ 32"
  show "dsr.reads (get_onerror ds_get ds_read) (onerror_image e) e"
    unfolding get_onerror_def [abs_def] onerror_image_def
    by (rule dsr.reads_bind, rule u128_codec.get_image, simp, rule dsr.reads_last,
        rule codec.get_image [OF codec_char_vector v], simp)
  show "ssw.writes (put_onerror ss_write e) (onerror_image e)" "dsw.writes (put_onerror ds_write e) (onerror_image e)"
    using codecD(1,2) [OF codec_char_vector v] codecD(1,2) [OF u128_codec.codec_axioms]
    unfolding put_onerror_def [abs_def] onerror_image_def by (auto intro!: struct_writes)
qed

lemma onerror_image_nonempty [simp]: "onerror_image e \<noteq> []"
  by (simp add: onerror_image_def) (metis length_le_bytes list.size(3) zero_neq_numeral)

end
