(* ===== verification/Uos_Privileged.thy ===== *)
theory Uos_Privileged
  imports Uos_Transaction
begin

text \<open>
  contracts/uosio/privileged.hpp, producer_schedule.hpp and their functions in uosiolib.cpp: the chain's parameters,
  the producers and the resource limits of accounts, as packed bytes for the host (\<open>privileged_api\<close>).
\<close>

section \<open>Host functions\<close>

record 'h privileged_api =
  host_is_privileged :: "u64 \<Rightarrow> 'h \<Rightarrow> bool"
  host_get_resource_limits :: "u64 \<Rightarrow> 'h \<Rightarrow> i64 \<times> i64 \<times> i64"
  host_set_resource_limits :: "u64 \<Rightarrow> i64 \<Rightarrow> i64 \<Rightarrow> i64 \<Rightarrow> 'h \<Rightarrow> 'h res"
  host_set_privileged :: "u64 \<Rightarrow> bool \<Rightarrow> 'h \<Rightarrow> 'h res"
  host_set_blockchain_parameters_packed :: "u8 list \<Rightarrow> 'h \<Rightarrow> 'h res"
  host_get_blockchain_parameters_packed :: "u32 \<Rightarrow> 'h \<Rightarrow> u32 \<times> u8 list"
  host_set_proposed_producers :: "u8 list \<Rightarrow> 'h \<Rightarrow> (i64 \<times> 'h) res"
  host_get_active_producers :: "u32 \<Rightarrow> 'h \<Rightarrow> u32 \<times> u8 list"

section \<open>Producers\<close>

record producer_key =
  producer_name :: name
  block_signing_key :: public_key

definition producer_key_less :: "producer_key \<Rightarrow> producer_key \<Rightarrow> bool" where
  "producer_key_less a b \<longleftrightarrow> name_less (producer_name a) (producer_name b)"

definition put_producer_key :: "(u8 list \<Rightarrow> 's \<Rightarrow> 's res) \<Rightarrow> producer_key \<Rightarrow> 's \<Rightarrow> 's res" where
  "put_producer_key wr p ds = put_members [put_name wr (producer_name p), put_public_key wr (block_signing_key p)] ds"

definition get_producer_key :: "('s \<Rightarrow> (u8 \<times> 's) res) \<Rightarrow> (u32 \<Rightarrow> 's \<Rightarrow> (u8 list \<times> 's) res) \<Rightarrow> 's \<Rightarrow> (producer_key \<times> 's) res" where
  "get_producer_key gt rd ds =
     bind_res (get_name rd ds) (\<lambda>(n, ds). bind_res (get_public_key gt rd ds) (\<lambda>(k, ds).
     Inr (\<lparr>producer_name = n, block_signing_key = k\<rparr>, ds)))"

record producer_schedule =
  ps_version :: u32
  ps_producers :: "producer_key list"

definition set_proposed_producers :: "'h privileged_api \<Rightarrow> u32 \<Rightarrow> producer_key list \<Rightarrow> 'h \<Rightarrow> (u64 option \<times> 'h) res" where
  "set_proposed_producers api addr prods h =
     bind_res (pack (put_vector ss_write (put_producer_key ss_write) prods) (put_vector ds_write (put_producer_key ds_write) prods) addr) (\<lambda>packed_prods.
     bind_res (host_set_proposed_producers api packed_prods h) (\<lambda>(ret, h).
     Inr (if sint ret \<ge> 0 then Some ret else None, h)))"

text \<open>The names of a vector of \<open>n\<close> elements over its memory.\<close>

fun names_of_memory :: "nat \<Rightarrow> u8 list \<Rightarrow> name list" where
  "names_of_memory 0 mem = []"
| "names_of_memory (Suc n) mem = \<lparr>name_value = le_word (take 8 mem)\<rparr> # names_of_memory n (drop 8 mem)"

definition get_active_producers :: "'h privileged_api \<Rightarrow> 'h \<Rightarrow> name list" where
  "get_active_producers api h =
     (let prod_cnt = fst (host_get_active_producers api 0 h) div 8;
          active_prods = replicate (8 * unat prod_cnt) 0;
          (_, bytes) = host_get_active_producers api prod_cnt h
      in names_of_memory (unat prod_cnt) (fill_buffer bytes active_prods))"

section \<open>Chain parameters\<close>

record blockchain_parameters =
  max_block_net_usage :: u64
  target_block_net_usage_pct :: u32
  max_transaction_net_usage :: u32
  base_per_transaction_net_usage :: u32
  net_usage_leeway :: u32
  context_free_discount_net_usage_num :: u32
  context_free_discount_net_usage_den :: u32
  max_block_cpu_usage :: u32
  target_block_cpu_usage_pct :: u32
  max_transaction_cpu_usage :: u32
  min_transaction_cpu_usage :: u32
  max_transaction_lifetime :: u32
  deferred_trx_expiration_window :: u32
  max_transaction_delay :: u32
  max_inline_action_size :: u32
  max_inline_action_depth :: u16
  max_authority_depth :: u16

definition put_blockchain_parameters :: "(u8 list \<Rightarrow> 's \<Rightarrow> 's res) \<Rightarrow> blockchain_parameters \<Rightarrow> 's \<Rightarrow> 's res" where
  "put_blockchain_parameters wr p ds =
     put_members [put_prim wr (max_block_net_usage p), put_prim wr (target_block_net_usage_pct p), put_prim wr (max_transaction_net_usage p),
      put_prim wr (base_per_transaction_net_usage p), put_prim wr (net_usage_leeway p), put_prim wr (context_free_discount_net_usage_num p),
      put_prim wr (context_free_discount_net_usage_den p), put_prim wr (max_block_cpu_usage p), put_prim wr (target_block_cpu_usage_pct p),
      put_prim wr (max_transaction_cpu_usage p), put_prim wr (min_transaction_cpu_usage p), put_prim wr (max_transaction_lifetime p),
      put_prim wr (deferred_trx_expiration_window p), put_prim wr (max_transaction_delay p), put_prim wr (max_inline_action_size p),
      put_prim wr (max_inline_action_depth p), put_prim wr (max_authority_depth p)] ds"

definition get_blockchain_parameters :: "(u32 \<Rightarrow> 's \<Rightarrow> (u8 list \<times> 's) res) \<Rightarrow> 's \<Rightarrow> (blockchain_parameters \<times> 's) res" where
  "get_blockchain_parameters rd ds =
     bind_res (get_prim rd ds) (\<lambda>(v0, ds). bind_res (get_prim rd ds) (\<lambda>(v1, ds). bind_res (get_prim rd ds) (\<lambda>(v2, ds). 
     bind_res (get_prim rd ds) (\<lambda>(v3, ds). bind_res (get_prim rd ds) (\<lambda>(v4, ds). bind_res (get_prim rd ds) (\<lambda>(v5, ds). 
     bind_res (get_prim rd ds) (\<lambda>(v6, ds). bind_res (get_prim rd ds) (\<lambda>(v7, ds). bind_res (get_prim rd ds) (\<lambda>(v8, ds). 
     bind_res (get_prim rd ds) (\<lambda>(v9, ds). bind_res (get_prim rd ds) (\<lambda>(v10, ds). bind_res (get_prim rd ds) (\<lambda>(v11, ds). 
     bind_res (get_prim rd ds) (\<lambda>(v12, ds). bind_res (get_prim rd ds) (\<lambda>(v13, ds). bind_res (get_prim rd ds) (\<lambda>(v14, ds). 
     bind_res (get_prim rd ds) (\<lambda>(v15, ds). bind_res (get_prim rd ds) (\<lambda>(v16, ds). 
     Inr (\<lparr>max_block_net_usage = v0, target_block_net_usage_pct = v1, max_transaction_net_usage = v2,
      base_per_transaction_net_usage = v3, net_usage_leeway = v4, context_free_discount_net_usage_num = v5,
      context_free_discount_net_usage_den = v6, max_block_cpu_usage = v7, target_block_cpu_usage_pct = v8,
      max_transaction_cpu_usage = v9, min_transaction_cpu_usage = v10, max_transaction_lifetime = v11,
      deferred_trx_expiration_window = v12, max_transaction_delay = v13, max_inline_action_size = v14,
      max_inline_action_depth = v15, max_authority_depth = v16\<rparr>, ds))))))))))))))))))"

text \<open>\<open>sizeof(blockchain_parameters)\<close>: 68 bytes of members, rounded up to the alignment of the first.\<close>

definition sizeof_blockchain_parameters :: u32 where
  "sizeof_blockchain_parameters = 72"

definition set_chain_parameters :: "'h privileged_api \<Rightarrow> u32 \<times> u8 list \<Rightarrow> blockchain_parameters \<Rightarrow> 'h \<Rightarrow> 'h res" where
  "set_chain_parameters api buf params h =
     bind_res (put_blockchain_parameters ds_write params (ds_make (fst buf) sizeof_blockchain_parameters (snd buf))) (\<lambda>ds.
     host_set_blockchain_parameters_packed api (take (unat (ds_tellp ds)) (ds_buf ds)) h)"

definition get_chain_parameters :: "'h privileged_api \<Rightarrow> u32 \<times> u8 list \<Rightarrow> 'h \<Rightarrow> blockchain_parameters res" where
  "get_chain_parameters api buf h =
     (let (sz, bytes) = host_get_blockchain_parameters_packed api sizeof_blockchain_parameters h;
          mem = fill_buffer bytes (snd buf)
      in bind_res (check (sz \<le> sizeof_blockchain_parameters) ''buffer is too small'') (\<lambda>_.
         bind_res (get_blockchain_parameters ds_read (ds_make (fst buf) sz (take (unat sz) mem))) (\<lambda>(params, _). Inr params)))"

section \<open>Accounts\<close>

definition get_resource_limits :: "'h privileged_api \<Rightarrow> name \<Rightarrow> 'h \<Rightarrow> i64 \<times> i64 \<times> i64" where
  "get_resource_limits api account h = host_get_resource_limits api (name_value account) h"

definition set_resource_limits :: "'h privileged_api \<Rightarrow> name \<Rightarrow> i64 \<Rightarrow> i64 \<Rightarrow> i64 \<Rightarrow> 'h \<Rightarrow> 'h res" where
  "set_resource_limits api account ram_bytes net_weight cpu_weight h =
     host_set_resource_limits api (name_value account) ram_bytes net_weight cpu_weight h"

definition is_privileged :: "'h privileged_api \<Rightarrow> name \<Rightarrow> 'h \<Rightarrow> bool" where
  "is_privileged api account h = host_is_privileged api (name_value account) h"

definition set_privileged :: "'h privileged_api \<Rightarrow> name \<Rightarrow> bool \<Rightarrow> 'h \<Rightarrow> 'h res" where
  "set_privileged api account is_priv h = host_set_privileged api (name_value account) is_priv h"

section \<open>The packed parameters\<close>

definition parameters_image :: "blockchain_parameters \<Rightarrow> u8 list" where
  "parameters_image p =
     le_bytes 8 (max_block_net_usage p) @ le_bytes 4 (target_block_net_usage_pct p) @ le_bytes 4 (max_transaction_net_usage p) @
     le_bytes 4 (base_per_transaction_net_usage p) @ le_bytes 4 (net_usage_leeway p) @ le_bytes 4 (context_free_discount_net_usage_num p) @
     le_bytes 4 (context_free_discount_net_usage_den p) @ le_bytes 4 (max_block_cpu_usage p) @ le_bytes 4 (target_block_cpu_usage_pct p) @
     le_bytes 4 (max_transaction_cpu_usage p) @ le_bytes 4 (min_transaction_cpu_usage p) @ le_bytes 4 (max_transaction_lifetime p) @
     le_bytes 4 (deferred_trx_expiration_window p) @ le_bytes 4 (max_transaction_delay p) @ le_bytes 4 (max_inline_action_size p) @
     le_bytes 2 (max_inline_action_depth p) @ le_bytes 2 (max_authority_depth p)"

lemma parameters_codec:
  "codec (put_blockchain_parameters ss_write) (put_blockchain_parameters ds_write) (get_blockchain_parameters ds_read)
     parameters_image (\<lambda>_. True)"
proof (rule codecI)
  fix p :: blockchain_parameters
  show "ssw.writes (put_blockchain_parameters ss_write p) (parameters_image p)"
    "dsw.writes (put_blockchain_parameters ds_write p) (parameters_image p)"
    unfolding put_blockchain_parameters_def [abs_def] parameters_image_def append_assoc
    by (intro struct_writes word_codecs [THEN codecD(1)] word_codecs [THEN codecD(2)] TrueI)+
  show "dsr.reads (get_blockchain_parameters ds_read) (parameters_image p) p"
    unfolding get_blockchain_parameters_def [abs_def] parameters_image_def append_assoc
    by (rule dsr.reads_bind, rule u64_codec.get_image, rule TrueI, (rule dsr.reads_bind, rule u32_codec.get_image, rule TrueI)+,
        rule dsr.reads_bind, rule u16_codec.get_image, rule TrueI, rule dsr.reads_last, rule u16_codec.get_image, rule TrueI, simp)
qed

lemma length_parameters_image [simp]: "length (parameters_image p) = 68"
  by (simp add: parameters_image_def)

text \<open>What is set is what a later get returns, when the host keeps the bytes.\<close>

lemma set_chain_parameters_image:
  assumes "addressable (fst buf) 72" and "length (snd buf) = 72"
  shows "set_chain_parameters api buf p h = host_set_blockchain_parameters_packed api (parameters_image p) h"
proof -
  obtain ds where "put_blockchain_parameters ds_write p (ds_make (fst buf) 72 (snd buf)) = Inr ds" "written ds = parameters_image p"
    using written_image [OF codec.put_image [OF parameters_codec TrueI], of "fst buf" "snd buf" p] assms by auto
  then show ?thesis by (simp add: set_chain_parameters_def sizeof_blockchain_parameters_def written_def)
qed

lemma get_chain_parameters_image:
  assumes "addressable (fst buf) 72" and "length (snd buf) = 72"
    and "host_get_blockchain_parameters_packed api 72 h = (68, parameters_image p)"
  shows "get_chain_parameters api buf h = Inr p"
proof -
  have "addressable (fst buf) (length (parameters_image p))" using assms(1) by (simp add: addressable_def)
  note mk = ds_make_ok [OF this]
  have "get_blockchain_parameters ds_read (ds_make (fst buf) 68 (parameters_image p)) = Inr (p, ds_adv 68 (ds_make (fst buf) 68 (parameters_image p)))"
    using dsr.readsD [OF codec.get_image [OF parameters_codec TrueI] mk(1), where rest = "[]"] mk(2) by simp
  then show ?thesis
    using assms(2,3) by (simp add: get_chain_parameters_def sizeof_blockchain_parameters_def fill_buffer_def check_def)
qed

definition producer_key_image :: "producer_key \<Rightarrow> u8 list" where
  "producer_key_image p = name_image (producer_name p) @ public_key_image (block_signing_key p)"

lemma producer_key_codec:
  "codec (put_producer_key ss_write) (put_producer_key ds_write) (get_producer_key ds_get ds_read)
     producer_key_image (\<lambda>p. length (pk_data (block_signing_key p)) = 33)"
proof (rule codecI)
  fix p :: producer_key assume v: "length (pk_data (block_signing_key p)) = 33"
  show "ssw.writes (put_producer_key ss_write p) (producer_key_image p)" "dsw.writes (put_producer_key ds_write p) (producer_key_image p)"
    using codecD(1,2) [OF public_key_codec v] codecD(1,2) [OF name_codec.codec_axioms]
    unfolding put_producer_key_def [abs_def] producer_key_image_def by (auto intro!: struct_writes)
  show "dsr.reads (get_producer_key ds_get ds_read) (producer_key_image p) p"
    unfolding get_producer_key_def [abs_def] producer_key_image_def
    by (rule dsr.reads_bind, rule name_codec.get_image, rule TrueI, rule dsr.reads_last, rule codec.get_image [OF public_key_codec v], simp)
qed

text \<open>
  \<open>get_active_producers\<close> passes the number of names where the host expects the size of the buffer in bytes: of two names it
  gets two bytes.
\<close>

definition two_producers :: "u32 \<Rightarrow> u32 \<times> u8 list" where
  "two_producers datalen =
     (let bytes = le_bytes 8 (0x1111111111111111 :: u64) @ le_bytes 8 (0x2222222222222222 :: u64)
      in if datalen = 0 then (16, []) else (min datalen 16, take (unat datalen) bytes))"

lemma active_producers_truncated:
  assumes "\<forall>n. host_get_active_producers api n h = two_producers n"
  shows "get_active_producers api h = [\<lparr>name_value = 0x1111\<rparr>, \<lparr>name_value = 0\<rparr>]"
proof -
  have "names_of_memory 2 (fill_buffer (snd (two_producers 2)) (replicate 16 0)) = [\<lparr>name_value = 0x1111\<rparr>, \<lparr>name_value = 0\<rparr>]"
    by code_simp
  moreover have "fst (two_producers 0) div 8 = 2" by code_simp
  ultimately show ?thesis using assms by (simp add: get_active_producers_def case_prod_unfold)
qed

end
