(* ===== verification/Uos_Extension.thy ===== *)
theory Uos_Extension
  imports Uos_Records
begin

text \<open>
  core/uosio/binary\_extension.hpp: a value at the end of a record that older writers left out. The object is its flag
  and its storage; the storage of an empty one holds no object, and reaching into it has no meaning. A default
  constructed \<open>T\<close> is the argument \<open>dflt\<close>. The overload of \<open>value_or()\<close> for constant rvalues, which assigns to the
  flag of a constant object, has no instance.
\<close>

record 'a binary_extension =
  be_has_value :: bool
  be_data :: 'a

text \<open>\<open>mem\<close> is what the storage held.\<close>

definition be_empty :: "'a \<Rightarrow> 'a binary_extension" where
  "be_empty mem = \<lparr>be_has_value = False, be_data = mem\<rparr>"

definition be_of :: "'a \<Rightarrow> 'a binary_extension" where
  "be_of ext = \<lparr>be_has_value = True, be_data = ext\<rparr>"

definition be_in_place :: "('args \<Rightarrow> 'a) \<Rightarrow> 'args \<Rightarrow> 'a binary_extension" where
  "be_in_place mk args = \<lparr>be_has_value = True, be_data = mk args\<rparr>"

definition be_copy :: "'a \<Rightarrow> 'a binary_extension \<Rightarrow> 'a binary_extension" where
  "be_copy mem other =
     (if be_has_value other then \<lparr>be_has_value = True, be_data = be_data other\<rparr> else \<lparr>be_has_value = False, be_data = mem\<rparr>)"

text \<open>Moving leaves \<open>moved v\<close> in the storage of the source, and its flag cleared.\<close>

definition be_move :: "('a \<Rightarrow> 'a) \<Rightarrow> 'a \<Rightarrow> 'a binary_extension \<Rightarrow> 'a binary_extension \<times> 'a binary_extension" where
  "be_move moved mem other =
     (if be_has_value other then
        (\<lparr>be_has_value = True, be_data = be_data other\<rparr>, \<lparr>be_has_value = False, be_data = moved (be_data other)\<rparr>)
      else (\<lparr>be_has_value = False, be_data = mem\<rparr>, other))"

definition has_value :: "'a binary_extension \<Rightarrow> bool" where
  "has_value this \<longleftrightarrow> be_has_value this"

definition be_get :: "'a binary_extension \<Rightarrow> 'a res" where
  "be_get this = (if be_has_value this then Inr (be_data this) else Inl (Undefined ''no object in the storage''))"

definition be_value :: "'a binary_extension \<Rightarrow> 'a res" where
  "be_value this =
     bind_res (if \<not> be_has_value this then check False ''cannot get value of empty binary_extension'' else Inr ()) (\<lambda>_. be_get this)"

definition be_value_or :: "'a \<Rightarrow> 'a binary_extension \<Rightarrow> 'a res" where
  "be_value_or def this = (if be_has_value this then be_get this else Inr def)"

text \<open>On an rvalue the result refers to a destroyed temporary when there is no value; else the flag is cleared.\<close>

definition be_take_value_or :: "'a binary_extension \<Rightarrow> ('a \<times> 'a binary_extension) res" where
  "be_take_value_or this =
     (if \<not> be_has_value this then Inl (Undefined ''reference to a temporary'')
      else Inr (be_data this, this\<lparr>be_has_value := False\<rparr>))"

definition be_value_or_default :: "'a \<Rightarrow> 'a binary_extension \<Rightarrow> 'a res" where
  "be_value_or_default dflt this = (if \<not> be_has_value this then Inr dflt else be_get this)"

definition be_arrow :: "'a binary_extension \<Rightarrow> 'a res" where
  "be_arrow this = be_get this"

definition be_deref :: "'a binary_extension \<Rightarrow> 'a res" where
  "be_deref this = be_get this"

definition be_reset :: "'a binary_extension \<Rightarrow> 'a binary_extension" where
  "be_reset this = (if be_has_value this then this\<lparr>be_has_value := False\<rparr> else this)"

definition be_emplace :: "'a \<Rightarrow> 'a binary_extension \<Rightarrow> 'a binary_extension" where
  "be_emplace v this = (let this = (if be_has_value this then be_reset this else this) in this\<lparr>be_data := v, be_has_value := True\<rparr>)"

definition put_binary_extension :: "('a \<Rightarrow> 's \<Rightarrow> 's res) \<Rightarrow> 'a \<Rightarrow> 'a binary_extension \<Rightarrow> 's \<Rightarrow> 's res" where
  "put_binary_extension enc dflt be ds = bind_res (be_value_or_default dflt be) (\<lambda>v. enc v ds)"

definition get_binary_extension :: "('s \<Rightarrow> u32) \<Rightarrow> ('s \<Rightarrow> ('a \<times> 's) res) \<Rightarrow> 'a binary_extension \<Rightarrow> 's \<Rightarrow> ('a binary_extension \<times> 's) res" where
  "get_binary_extension remaining dec be ds =
     (if remaining ds \<noteq> 0 then bind_res (dec ds) (\<lambda>(val, ds). Inr (be_emplace val be, ds)) else Inr (be, ds))"

section \<open>Reading what was written\<close>

lemma be_emplace_value [simp]: "be_emplace v be = be_of v"
  by (simp add: be_emplace_def be_reset_def be_of_def)

lemma be_value_cases:
  "be_value (be_of v) = Inr v" "be_value (be_empty mem) = Inl (Assertion ''cannot get value of empty binary_extension'')"
  "be_value (be_reset be) = Inl (Assertion ''cannot get value of empty binary_extension'')"
  by (simp_all add: be_value_def be_get_def be_of_def be_empty_def be_reset_def check_def)

text \<open>At the end of the input nothing is read and the extension stays; else the value is read, over what was there.\<close>

lemma get_binary_extension_outcome:
  assumes "ds_ok ds"
  shows "ds_view ds = [] \<Longrightarrow> get_binary_extension ds_remaining dec be ds = Inr (be, ds)"
    and "dsr.reads dec bs v \<Longrightarrow> ds_view ds = bs @ rest \<Longrightarrow> ds_view ds \<noteq> [] \<Longrightarrow>
      get_binary_extension ds_remaining dec be ds = Inr (be_of v, ds_adv (length bs) ds)"
proof -
  have r: "unat (ds_remaining ds) = length (ds_view ds)" using dsr.rem_law [OF assms] .
  show "get_binary_extension ds_remaining dec be ds = Inr (be, ds)" if "ds_view ds = []"
    using r that by (simp add: get_binary_extension_def unat_eq_zero)
  assume d: "dsr.reads dec bs v" and v: "ds_view ds = bs @ rest" and ne: "ds_view ds \<noteq> []"
  have "ds_remaining ds \<noteq> 0" using r ne by auto
  then show "get_binary_extension ds_remaining dec be ds = Inr (be_of v, ds_adv (length bs) ds)"
    using dsr.readsD [OF d assms v] by (simp add: get_binary_extension_def)
qed

text \<open>An empty extension is written as the default value, so a reader finds a value there.\<close>

lemma put_binary_extension_image:
  assumes "codec ps pd gd img valid" and "valid (if be_has_value be then be_data be else dflt)"
  shows "dsw.writes (put_binary_extension pd dflt be) (img (if be_has_value be then be_data be else dflt))"
    and "ssw.writes (put_binary_extension ps dflt be) (img (if be_has_value be then be_data be else dflt))"
  using codec.put_image [OF assms] codec.size_image [OF assms]
  by (auto simp: put_binary_extension_def [abs_def] be_value_or_default_def be_get_def)

end
