(* ===== verification/Uos_Rope.thy ===== *)
theory Uos_Rope
  imports Uos_Malloc Uos_Print Uos_Check
begin

text \<open>
  core/uosio/rope.hpp: strings built by concatenation as trees of nodes that ropes share. Nodes are never
  freed, so the store is the list of the nodes made so far and a \<open>rope_node*\<close> is an index into it. A
  leaf points to characters that the rope does not own: it has the characters from there to the end of
  their array. \<open>c_str\<close> walks the tree without recursion, keeping the way back in the nodes' \<open>temp\<close>.
\<close>

section \<open>Nodes\<close>

type_synonym node_ptr = "nat option"

datatype rope_node =
    is_str: Str_t (node_c_str: string) (node_size: u32) (node_temp: node_ptr)
  | is_concat: Concat_t (node_left: node_ptr) (node_right: node_ptr) (node_temp: node_ptr) (node_temp_left: bool)

record rope =
  rp_root :: node_ptr
  rp_last :: node_ptr
  rp_size :: u32

definition new_node :: "rope_node \<Rightarrow> rope_node list \<Rightarrow> nat \<times> rope_node list" where
  "new_node n ns = (length ns, ns @ [n])"

definition set_temp :: "node_ptr \<Rightarrow> rope_node \<Rightarrow> rope_node" where
  "set_temp t n = (case n of Str_t s k _ \<Rightarrow> Str_t s k t | Concat_t l r _ side \<Rightarrow> Concat_t l r t side)"

text \<open>An access through a pointer; null and addresses of no node have no meaning.\<close>

definition node_at :: "node_ptr \<Rightarrow> rope_node list \<Rightarrow> rope_node res" where
  "node_at p ns =
     (case p of None \<Rightarrow> Inl (Undefined ''null rope node'')
      | Some i \<Rightarrow> if i < length ns then Inr (ns ! i) else Inl (Undefined ''no rope node''))"

text \<open>\<open>strlen\<close> counts the terminator.\<close>

fun strlen_loop :: "string \<Rightarrow> nat \<Rightarrow> nat res" where
  "strlen_loop [] i = Inl (Undefined ''read past the end of a string'')"
| "strlen_loop (c # cs) i = (if c \<noteq> CHR 0x00 then strlen_loop cs (i + 1) else Inr (i + 1))"

definition rope_strlen :: "string \<Rightarrow> u32 res" where
  "rope_strlen str = bind_res (strlen_loop str 0) (\<lambda>i. Inr (of_nat i))"

section \<open>The walk of \<open>c_str\<close>\<close>

record c_str_state =
  cs_nodes :: "rope_node list"
  cs_r :: node_ptr
  cs_going_down :: bool
  cs_off :: u32
  cs_buffer :: string

definition buffer_copy :: "u32 \<Rightarrow> string \<Rightarrow> u32 \<Rightarrow> string \<Rightarrow> string res" where
  "buffer_copy off src n buffer =
     (if unat n \<le> length src \<and> unat off + unat n \<le> length buffer
      then Inr (take (unat off) buffer @ take (unat n) src @ drop (unat off + unat n) buffer)
      else Inl (Undefined ''copy outside an array''))"

text \<open>From node \<open>r\<close> down to its child \<open>k\<close>: the way back goes to the child, the side is kept in \<open>r\<close>.\<close>

definition go_to_child :: "nat \<Rightarrow> bool \<Rightarrow> node_ptr \<Rightarrow> c_str_state \<Rightarrow> c_str_state res" where
  "go_to_child r left_side k s =
     (case cs_nodes s ! r of
        Concat_t a b t _ \<Rightarrow>
          (let ns = (cs_nodes s)[r := Concat_t a b t left_side] in
           bind_res (node_at k ns) (\<lambda>child.
           Inr (s\<lparr>cs_nodes := ns[the k := set_temp (Some r) child], cs_going_down := True, cs_r := k\<rparr>)))
      | _ \<Rightarrow> Inl (Undefined ''bad variant access''))"

definition c_str_step :: "c_str_state \<Rightarrow> (c_str_state + c_str_state) out" where
  "c_str_step s =
     (case cs_r s of
        None \<Rightarrow> Some (Inr (Inr s))
      | Some r \<Rightarrow>
          Some (bind_res
            (bind_res (node_at (Some r) (cs_nodes s)) (\<lambda>node.
             if cs_going_down s then
               (case node of
                  Concat_t left right temp _ \<Rightarrow>
                    if left \<noteq> None then go_to_child r True left s
                    else if right \<noteq> None then go_to_child r False right s
                    else Inr (s\<lparr>cs_going_down := False, cs_r := temp\<rparr>)
                | Str_t c_str sz temp \<Rightarrow>
                    let off = cs_off s - sz in
                    bind_res (buffer_copy off c_str sz (cs_buffer s)) (\<lambda>buffer.
                    Inr (s\<lparr>cs_off := off, cs_buffer := buffer, cs_going_down := False, cs_r := temp\<rparr>)))
             else
               (case node of
                  Concat_t left right temp temp_left \<Rightarrow>
                    if temp_left \<and> right \<noteq> None then go_to_child r False right s
                    else Inr (s\<lparr>cs_going_down := False, cs_r := temp\<rparr>)
                | Str_t _ _ _ \<Rightarrow> Inl (Undefined ''bad variant access''))))
            (\<lambda>s. Inr (Inl s))))"

definition c_str_walk :: "string \<Rightarrow> node_ptr \<Rightarrow> u32 \<Rightarrow> rope_node list \<Rightarrow> c_str_state out" where
  "c_str_walk buffer r off ns =
     bind_out (Some (case r of None \<Rightarrow> Inr ns | Some i \<Rightarrow>
         bind_res (node_at r ns) (\<lambda>n. Inr (ns[i := set_temp None n])))) (\<lambda>ns.
     loop_out c_str_step \<lparr>cs_nodes = ns, cs_r = r, cs_going_down = True, cs_off = off, cs_buffer = buffer\<rparr>)"

text \<open>\<open>ret\<close> is the memory from \<open>new char[size+1]\<close>; the result is its contents.\<close>

definition rope_c_str :: "string \<Rightarrow> rope \<Rightarrow> rope_node list \<Rightarrow> (string \<times> rope_node list) out" where
  "rope_c_str ret this ns =
     bind_out
       (if rp_root this \<noteq> None then
          bind_out (c_str_walk ret (rp_root this) (rp_size this) ns) (\<lambda>s. Some (Inr (cs_buffer s, cs_nodes s)))
        else Some (Inr (ret, ns))) (\<lambda>(ret, ns).
     if unat (rp_size this) < length ret then Some (Inr (ret[unat (rp_size this) := CHR 0x00], ns))
     else Some (Inl (Undefined ''write past a new array'')))"

definition rope_sv :: "string \<Rightarrow> rope \<Rightarrow> rope_node list \<Rightarrow> (string \<times> rope_node list) out" where
  "rope_sv ret this ns = bind_out (rope_c_str ret this ns) (\<lambda>(ret, ns). Some (Inr (take (unat (rp_size this)) ret, ns)))"

definition rope_print :: "string \<Rightarrow> rope \<Rightarrow> rope_node list \<Rightarrow> (print_call list \<times> rope_node list) out" where
  "rope_print ret this ns =
     bind_out (rope_c_str ret this ns) (\<lambda>(ret, ns). Some (Inr (print_one (P_cstr (takeWhile (\<lambda>c. c \<noteq> CHR 0x00) ret)), ns)))"

section \<open>Construction\<close>

definition append_node :: "nat \<Rightarrow> bool \<Rightarrow> rope \<Rightarrow> rope_node list \<Rightarrow> (rope \<times> rope_node list) res" where
  "append_node rn use_left this ns =
     bind_res (node_at (Some rn) ns) (\<lambda>cc.
     bind_res (check (is_concat cc) ''append should only allow concat nodes'') (\<lambda>_.
     if use_left then
       let (p, ns) = new_node (Concat_t (Some rn) (rp_root this) None False) ns in Inr (this\<lparr>rp_root := Some p\<rparr>, ns)
     else
       Inr (this\<lparr>rp_root := Some rn\<rparr>, ns[rn := Concat_t (node_left cc) (rp_root this) (node_temp cc) (node_temp_left cc)])))"

definition rope_of_cstr :: "string \<Rightarrow> rope_node list \<Rightarrow> (rope \<times> rope_node list) res" where
  "rope_of_cstr s ns =
     bind_res (rope_strlen s) (\<lambda>n.
     let (leaf, ns) = new_node (Str_t s (n - 1) None) ns;
         (root, ns) = new_node (Concat_t (Some leaf) None None False) ns
     in Inr (\<lparr>rp_root = Some root, rp_last = Some root, rp_size = n - 1\<rparr>, ns))"

text \<open>A \<open>string_view\<close> is its characters.\<close>

definition rope_of_sv :: "string \<Rightarrow> rope_node list \<Rightarrow> rope \<times> rope_node list" where
  "rope_of_sv s ns =
     (let (leaf, ns) = new_node (Str_t s (of_nat (length s)) None) ns;
          (root, ns) = new_node (Concat_t (Some leaf) None None False) ns
      in (\<lparr>rp_root = Some root, rp_last = None, rp_size = of_nat (length s)\<rparr>, ns))"

definition append_chars :: "string \<Rightarrow> u32 \<Rightarrow> rope \<Rightarrow> rope_node list \<Rightarrow> (rope \<times> rope_node list) res" where
  "append_chars s len this ns =
     (let (leaf, ns) = new_node (Str_t s len None) ns;
          (rn, ns) = new_node (Concat_t (Some leaf) None None False) ns
      in bind_res (append_node rn False this ns) (\<lambda>(this, ns).
         Inr (this\<lparr>rp_size := rp_size this + len\<rparr>, ns)))"

text \<open>An array argument is appended with all its \<open>N\<close> characters, the terminator of a literal included.\<close>

definition append_array :: "string \<Rightarrow> rope \<Rightarrow> rope_node list \<Rightarrow> (rope \<times> rope_node list) res" where
  "append_array s this ns = append_chars s (of_nat (length s)) this ns"

definition append_rope :: "rope \<Rightarrow> rope \<Rightarrow> rope_node list \<Rightarrow> (rope \<times> rope_node list) res" where
  "append_rope r this ns =
     (case rp_root r of
        None \<Rightarrow> Inl (Assertion ''append should only allow concat nodes'')
      | Some rn \<Rightarrow>
          bind_res (append_node rn True this ns) (\<lambda>(this', ns).
          Inr (this'\<lparr>rp_size := rp_size this' + rp_size r\<rparr>, ns)))"

definition add_assign_cstr :: "string \<Rightarrow> rope \<Rightarrow> rope_node list \<Rightarrow> (rope \<times> rope_node list) res" where
  "add_assign_cstr s this ns = bind_res (rope_strlen s) (\<lambda>n. append_chars s (n - 1) this ns)"

definition add_assign_rope :: "rope \<Rightarrow> rope \<Rightarrow> rope_node list \<Rightarrow> (rope \<times> rope_node list) res" where
  "add_assign_rope r this ns = append_rope r this ns"

definition add_cstr :: "rope \<Rightarrow> string \<Rightarrow> rope_node list \<Rightarrow> (rope \<times> rope_node list) res" where
  "add_cstr lhs s ns = add_assign_cstr s lhs ns"

definition add_rope :: "rope \<Rightarrow> rope \<Rightarrow> rope_node list \<Rightarrow> (rope \<times> rope_node list) res" where
  "add_rope lhs rhs ns = add_assign_rope rhs lhs ns"

definition rope_length :: "rope \<Rightarrow> u32" where
  "rope_length this = rp_size this"

section \<open>Access to one character\<close>

text \<open>The recursive \<open>at\<close>, with its reference arguments \<open>ret\<close>, \<open>index_so_far\<close> and \<open>stop\<close> as results.\<close>

lemma bind_out_bind: "bind_out m f = Option.bind m (\<lambda>r. case r of Inl e \<Rightarrow> Some (Inl e) | Inr v \<Rightarrow> f v)"
  by (cases m; cases "the m") auto

lemma mono_bind_out [partial_function_mono]:
  assumes "mono_option B" and "\<And>y. mono_option (\<lambda>f. C y f)"
  shows "mono_option (\<lambda>f. bind_out (B f) (\<lambda>y. C y f))"
  unfolding bind_out_bind using assms by (intro bind_mono mono_case_sum) (auto intro: monotoneI option.leq_refl)

partial_function (option) at_node :: "rope_node list \<Rightarrow> u32 \<Rightarrow> node_ptr \<Rightarrow> char \<Rightarrow> u32 \<Rightarrow> bool \<Rightarrow> (char \<times> u32 \<times> bool) out" where
  "at_node ns index rn ret index_so_far stop =
     (if rn = None then Some (Inr (ret, index_so_far, stop))
      else
        bind_out (Some (node_at rn ns)) (\<lambda>node.
        if is_concat node then
          if \<not> stop then
            bind_out
              (if node_left node \<noteq> None then at_node ns index (node_left node) ret index_so_far stop
               else Some (Inr (ret, index_so_far, stop))) (\<lambda>v.
            if node_right node \<noteq> None
            then at_node ns index (node_right node) (fst v) (fst (snd v)) (snd (snd v))
            else Some (Inr v))
          else Some (Inr (ret, index_so_far, stop))
        else
          let index_so_far = index_so_far - node_size node in
          if index \<ge> index_so_far then
            if unat (index - index_so_far) < length (node_c_str node)
            then Some (Inr (node_c_str node ! unat (index - index_so_far), index_so_far, True))
            else Some (Inl (Undefined ''read past the end of a string''))
          else Some (Inr (ret, index_so_far, stop))))"

declare at_node.simps [code]

definition rope_at :: "u32 \<Rightarrow> rope \<Rightarrow> rope_node list \<Rightarrow> char out" where
  "rope_at index this ns =
     bind_out (at_node ns index (rp_root this) CHR 0x00 (rp_size this) False) (\<lambda>(ret, _, _). Some (Inr ret))"

definition rope_index :: "u32 \<Rightarrow> rope \<Rightarrow> rope_node list \<Rightarrow> char out" where
  "rope_index index this ns = rope_at index this ns"

section \<open>What a node spells\<close>

text \<open>
  The text under a pointer and the nodes it is spread over. The left child holds what was appended later. A node is not
  among the nodes below it; a node may be shared.
\<close>

definition right_ok :: "rope_node list \<Rightarrow> node_ptr \<Rightarrow> bool" where
  "right_ok ns r \<longleftrightarrow> (case r of None \<Rightarrow> True | Some j \<Rightarrow> is_concat (ns ! j))"

inductive spells :: "rope_node list \<Rightarrow> node_ptr \<Rightarrow> string \<Rightarrow> nat set \<Rightarrow> bool" for ns where
  null: "spells ns None [] {}"
| leaf: "i < length ns \<Longrightarrow> ns ! i = Str_t cs k t \<Longrightarrow> unat k \<le> length cs \<Longrightarrow> spells ns (Some i) (take (unat k) cs) {i}"
| concat: "i < length ns \<Longrightarrow> ns ! i = Concat_t l r t sd \<Longrightarrow> spells ns l sl Dl \<Longrightarrow> spells ns r sr Dr \<Longrightarrow>
    i \<notin> Dl \<Longrightarrow> i \<notin> Dr \<Longrightarrow> right_ok ns r \<Longrightarrow> spells ns (Some i) (sr @ sl) (insert i (Dl \<union> Dr))"

declare spells.intros [intro]
inductive_cases spells_NoneE [elim!]: "spells ns None s D"

text \<open>A walk changes the way back in the nodes and nothing else.\<close>

definition core :: "rope_node \<Rightarrow> rope_node" where
  "core n = (case n of Str_t s k _ \<Rightarrow> Str_t s k None | Concat_t l r _ _ \<Rightarrow> Concat_t l r None False)"

lemma core_simps [simp]:
  "core (Str_t s k t) = Str_t s k None" "core (Concat_t l r t sd) = Concat_t l r None False" "core (set_temp t n) = core n"
  "node_temp (set_temp t n) = t"
  by (auto simp: core_def set_temp_def split: rope_node.splits)

lemma core_Str: "core n = Str_t s k t \<longleftrightarrow> t = None \<and> n = Str_t s k (node_temp n)"
  by (cases n) auto

lemma core_Concat: "core n = Concat_t l r t sd \<longleftrightarrow> t = None \<and> \<not> sd \<and> n = Concat_t l r (node_temp n) (node_temp_left n)"
  by (cases n) auto

lemma core_nth: "map core ns' = map core ns \<Longrightarrow> i < length ns \<Longrightarrow> core (ns' ! i) = core (ns ! i)"
  by (metis length_map nth_map)

lemma core_length: "map core ns' = map core ns \<Longrightarrow> length ns' = length ns"
  by (metis length_map)

lemma core_is_concat: "core m = core n \<Longrightarrow> is_concat m = is_concat n"
  by (cases m; cases n) auto

lemma core_update: "core m = core (ns ! i) \<Longrightarrow> map core (ns[i := m]) = map core ns"
  by (cases "i < length ns") (simp_all add: map_update list_update_same_conv list_update_beyond)

lemma spells_bound: "spells ns p s D \<Longrightarrow> D \<subseteq> {..<length ns} \<and> (\<forall>i. p = Some i \<longrightarrow> i \<in> D)"
  by (induction rule: spells.induct) auto

lemma spells_same:
  assumes "spells ns p s D" and "map core ns' = map core ns"
  shows "spells ns' p s D"
  using assms(1)
proof (induction rule: spells.induct)
  case (leaf i cs k t)
  then have "ns' ! i = Str_t cs k (node_temp (ns' ! i))"
    using core_nth [OF assms(2) leaf(1)] by (simp add: core_Str)
  then show ?case using leaf core_length [OF assms(2)] by (intro spells.leaf) auto
next
  case (concat i l r t sd sl Dl sr Dr)
  then have c: "ns' ! i = Concat_t l r (node_temp (ns' ! i)) (node_temp_left (ns' ! i))"
    using core_nth [OF assms(2) concat(1)] by (simp add: core_Concat)
  have "right_ok ns' r"
    using concat.hyps spells_bound [OF concat.hyps(4)] core_is_concat [OF core_nth [OF assms(2)]]
    by (auto simp: right_ok_def split: option.splits)
  then show ?case using concat c core_length [OF assms(2)] by (intro spells.concat) auto
qed auto

lemma spells_append: "spells ns p s D \<Longrightarrow> spells (ns @ ms) p s D"
proof (induction rule: spells.induct)
  case (leaf i cs k t)
  then show ?case by (intro spells.leaf) (auto simp: nth_append)
next
  case (concat i l r t sd sl Dl sr Dr)
  have "right_ok (ns @ ms) r"
    using concat.hyps spells_bound [OF concat.hyps(4)] by (auto simp: right_ok_def nth_append split: option.splits)
  then show ?case using concat by (intro spells.concat) (auto simp: nth_append)
qed auto

section \<open>The walk writes the text\<close>

definition put_before :: "u32 \<Rightarrow> string \<Rightarrow> string \<Rightarrow> string" where
  "put_before off s buf = take (unat off - length s) buf @ s @ drop (unat off) buf"

lemma put_before_Nil [simp]: "put_before off [] buf = buf"
  by (simp add: put_before_def)

lemma unat_sub_length: "length s \<le> unat off \<Longrightarrow> unat (off - of_nat (length s) :: u32) = unat off - length s"
proof -
  assume le: "length s \<le> unat off"
  then have u: "unat (of_nat (length s) :: u32) = length s"
    using unat_less [of off] by (simp add: unat_of_nat)
  then show ?thesis using le by (subst unat_sub) (auto simp: word_le_nat_alt)
qed

lemma put_before_append:
  assumes "length (r @ l) \<le> unat off" and "unat off \<le> length buf"
  shows "put_before (off - of_nat (length l)) r (put_before off l buf) = put_before off (r @ l) buf"
  using assms by (simp add: put_before_def unat_sub_length min_def add.commute)

lemma length_put_before: "length s \<le> unat off \<Longrightarrow> unat off \<le> length buf \<Longrightarrow> length (put_before off s buf) = length buf"
  by (simp add: put_before_def)

lemma loop_step: "c_str_step s = Some (Inr (Inl s')) \<Longrightarrow> loop_out c_str_step s = loop_out c_str_step s'"
  by (subst loop_out.simps) simp

abbreviation cs_at :: "rope_node list \<Rightarrow> node_ptr \<Rightarrow> bool \<Rightarrow> u32 \<Rightarrow> string \<Rightarrow> c_str_state" where
  "cs_at ns r d off buf \<equiv> \<lparr>cs_nodes = ns, cs_r = r, cs_going_down = d, cs_off = off, cs_buffer = buf\<rparr>"


text \<open>Going to a child and coming back: \<open>visit\<close> is what the walk does below one pointer.\<close>

definition visited :: "rope_node list \<Rightarrow> nat \<Rightarrow> string \<Rightarrow> nat set \<Rightarrow> bool" where
  "visited ns0 i s D \<longleftrightarrow>
     (\<forall>ns off buf. map core ns = map core ns0 \<longrightarrow> length s \<le> unat off \<longrightarrow> unat off \<le> length buf \<longrightarrow>
        (\<exists>ns'. map core ns' = map core ns0 \<and> (\<forall>j. j \<notin> D \<longrightarrow> ns' ! j = ns ! j) \<and>
           loop_out c_str_step (cs_at ns (Some i) True off buf) =
           loop_out c_str_step (cs_at ns' (node_temp (ns ! i)) False (off - of_nat (length s)) (put_before off s buf))))"

lemma visited_child:
  assumes v: "visited ns0 k s D" and D: "k \<in> D" "i \<notin> D" "i < length ns0" "k < length ns0"
    and ns: "map core ns = map core ns0" "ns ! i = Concat_t l r t sd"
    and fits: "length s \<le> unat off" "unat off \<le> length buf"
  obtains s' ns' where "go_to_child i b (Some k) (cs_at ns (Some i) d off buf) = Inr s'"
    and "map core ns' = map core ns0" and "ns' ! i = Concat_t l r t b" and "\<forall>j. j \<notin> insert i D \<longrightarrow> ns' ! j = ns ! j"
    and "loop_out c_str_step s' = loop_out c_str_step (cs_at ns' (Some i) False (off - of_nat (length s)) (put_before off s buf))"
proof -
  have len: "length ns = length ns0" using core_length [OF ns(1)] .
  have ik: "i \<noteq> k" using D by auto
  let ?ns1 = "ns[i := Concat_t l r t b]"
  let ?ns2 = "?ns1[k := set_temp (Some i) (?ns1 ! k)]"
  let ?s = "cs_at ?ns2 (Some k) True off buf"
  have g: "go_to_child i b (Some k) (cs_at ns (Some i) d off buf) = Inr ?s"
    using D len ns(2) by (simp add: go_to_child_def node_at_def Let_def)
  have "map core ?ns1 = map core ns" by (rule core_update) (simp add: ns(2))
  moreover have "map core ?ns2 = map core ?ns1" by (rule core_update) simp
  ultimately have "map core ?ns2 = map core ns0" using ns(1) by simp
  then obtain ns' where n: "map core ns' = map core ns0" "\<forall>j. j \<notin> D \<longrightarrow> ns' ! j = ?ns2 ! j"
      "loop_out c_str_step ?s = loop_out c_str_step (cs_at ns' (node_temp (?ns2 ! k)) False (off - of_nat (length s)) (put_before off s buf))"
    using v fits unfolding visited_def by meson
  moreover have "node_temp (?ns2 ! k) = Some i" using D len by simp
  moreover have "ns' ! i = Concat_t l r t b" using n(2) D len ik by simp
  moreover have "ns' ! j = ns ! j" if "j \<notin> insert i D" for j
  proof -
    have "j \<noteq> i" "j \<noteq> k" "j \<notin> D" using that D(1) by auto
    then show ?thesis using n(2) by simp
  qed
  ultimately show ?thesis using that g by simp
qed

lemma visited_leaf:
  assumes "i < length ns0" and "ns0 ! i = Str_t cs k t" and "unat k \<le> length cs"
  shows "visited ns0 i (take (unat k) cs) {i}"
  unfolding visited_def
proof (intro allI impI)
  fix ns and off :: u32 and buf :: string
  assume c: "map core ns = map core ns0" and fits: "length (take (unat k) cs) \<le> unat off" "unat off \<le> length buf"
  obtain t' where i: "ns ! i = Str_t cs k t'" using core_nth [OF c assms(1)] assms(2) by (auto simp: core_Str)
  have len: "length (take (unat k) cs) = unat k" using assms(3) by simp
  have off: "unat (off - k) = unat off - unat k" using unat_sub_length [of "take (unat k) cs" off] fits(1) len by simp
  have "buffer_copy (off - k) cs k buf = Inr (put_before off (take (unat k) cs) buf)"
    using assms(3) fits len off by (simp add: buffer_copy_def put_before_def)
  then have "c_str_step (cs_at ns (Some i) True off buf) =
      Some (Inr (Inl (cs_at ns (node_temp (ns ! i)) False (off - k) (put_before off (take (unat k) cs) buf))))"
    using i assms(1) core_length [OF c] by (simp add: c_str_step_def node_at_def Let_def)
  from loop_step [OF this]
  show "\<exists>ns'. map core ns' = map core ns0 \<and> (\<forall>j. j \<notin> {i} \<longrightarrow> ns' ! j = ns ! j) \<and>
      loop_out c_str_step (cs_at ns (Some i) True off buf) =
      loop_out c_str_step (cs_at ns' (node_temp (ns ! i)) False (off - of_nat (length (take (unat k) cs))) (put_before off (take (unat k) cs) buf))"
    using c len by auto
qed


text \<open>A node with children: down the left side, over to the right, and up.\<close>

lemma go_left:
  "i < length ns \<Longrightarrow> ns ! i = Concat_t (Some k) r t sd \<Longrightarrow> go_to_child i True (Some k) (cs_at ns (Some i) True off buf) = Inr s' \<Longrightarrow>
   loop_out c_str_step (cs_at ns (Some i) True off buf) = loop_out c_str_step s'"
  by (rule loop_step) (simp add: c_str_step_def node_at_def)

lemma go_right:
  "i < length ns \<Longrightarrow> ns ! i = Concat_t l (Some k) t sd \<Longrightarrow> (if d then l = None else sd) \<Longrightarrow>
   go_to_child i False (Some k) (cs_at ns (Some i) d off buf) = Inr s' \<Longrightarrow>
   loop_out c_str_step (cs_at ns (Some i) d off buf) = loop_out c_str_step s'"
  by (rule loop_step) (simp add: c_str_step_def node_at_def split: if_splits)

lemma go_up:
  "i < length ns \<Longrightarrow> ns ! i = Concat_t l r t sd \<Longrightarrow> (if d then l = None \<and> r = None else \<not> sd \<or> r = None) \<Longrightarrow>
   loop_out c_str_step (cs_at ns (Some i) d off buf) = loop_out c_str_step (cs_at ns t False off buf)"
  by (rule loop_step) (auto simp: c_str_step_def node_at_def split: if_splits)

definition visited_opt :: "rope_node list \<Rightarrow> node_ptr \<Rightarrow> string \<Rightarrow> nat set \<Rightarrow> bool" where
  "visited_opt ns0 p s D \<longleftrightarrow>
     (case p of None \<Rightarrow> s = [] \<and> D = {} | Some k \<Rightarrow> visited ns0 k s D \<and> k \<in> D \<and> k < length ns0)"

text \<open>The right side, from above or from the left child.\<close>

lemma visited_right:
  assumes r: "visited_opt ns0 r sr Dr" and i: "i \<notin> Dr" "i < length ns0"
    and ns: "map core ns = map core ns0" "ns ! i = Concat_t l r t sd" and d: "if d then l = None else sd"
    and fits: "length sr \<le> unat off" "unat off \<le> length buf"
  obtains ns' where "map core ns' = map core ns0" and "\<forall>j. j \<notin> insert i Dr \<longrightarrow> ns' ! j = ns ! j"
    and "loop_out c_str_step (cs_at ns (Some i) d off buf) =
      loop_out c_str_step (cs_at ns' t False (off - of_nat (length sr)) (put_before off sr buf))"
proof (cases r)
  case None
  have "i < length ns" using core_length [OF ns(1)] i(2) by simp
  from go_up [OF this ns(2), of d off buf]
  have "loop_out c_str_step (cs_at ns (Some i) d off buf) = loop_out c_str_step (cs_at ns t False off buf)" using None d by simp
  then show ?thesis using that [of ns] ns(1) r None by (simp add: visited_opt_def)
next
  case (Some k)
  have k: "visited ns0 k sr Dr" "k \<in> Dr" "k < length ns0" using r Some by (simp_all add: visited_opt_def)
  have len: "length ns = length ns0" using core_length [OF ns(1)] .
  obtain s' ns' where c: "go_to_child i False (Some k) (cs_at ns (Some i) d off buf) = Inr s'"
      "map core ns' = map core ns0" "ns' ! i = Concat_t l r t False" "\<forall>j. j \<notin> insert i Dr \<longrightarrow> ns' ! j = ns ! j"
      "loop_out c_str_step s' = loop_out c_str_step (cs_at ns' (Some i) False (off - of_nat (length sr)) (put_before off sr buf))"
    using visited_child [OF k(1,2) i k(3) ns fits, where d = d and b = False] by blast
  have "loop_out c_str_step (cs_at ns (Some i) d off buf) = loop_out c_str_step s'"
    using go_right [OF _ _ d c(1)] ns(2) len i(2) Some by simp
  also have "\<dots> = loop_out c_str_step (cs_at ns' t False (off - of_nat (length sr)) (put_before off sr buf))"
    using c(5) go_up [OF _ c(3), of False] core_length [OF c(2)] i(2) by simp
  finally show ?thesis using that c(2,4) by blast
qed

lemma visited_concat:
  assumes i: "i < length ns0" "ns0 ! i = Concat_t l r t0 sd0" "i \<notin> Dl" "i \<notin> Dr"
    and l: "visited_opt ns0 l sl Dl" and r: "visited_opt ns0 r sr Dr"
  shows "visited ns0 i (sr @ sl) (insert i (Dl \<union> Dr))"
  unfolding visited_def
proof (intro allI impI)
  fix ns and off :: u32 and buf :: string
  assume c: "map core ns = map core ns0" and fits: "length (sr @ sl) \<le> unat off" "unat off \<le> length buf"
  define t where "t = node_temp (ns ! i)"
  have n: "ns ! i = Concat_t l r t (node_temp_left (ns ! i))" and len: "length ns = length ns0"
    using core_nth [OF c i(1)] i(2) core_length [OF c] by (simp_all add: core_Concat t_def)
  have fr: "length sr \<le> unat (off - of_nat (length sl))" and off: "unat (off - of_nat (length sl)) = unat off - length sl"
    using fits(1) by (simp_all add: unat_sub_length)
  show "\<exists>ns'. map core ns' = map core ns0 \<and> (\<forall>j. j \<notin> insert i (Dl \<union> Dr) \<longrightarrow> ns' ! j = ns ! j) \<and>
      loop_out c_str_step (cs_at ns (Some i) True off buf) =
      loop_out c_str_step (cs_at ns' t False (off - of_nat (length (sr @ sl))) (put_before off (sr @ sl) buf))"
  proof (cases l)
    case None
    then have e: "sl = []" "Dl = {}" using l by (simp_all add: visited_opt_def)
    have "length sr \<le> unat off" using fits(1) by simp
    from visited_right [OF r i(4,1) c n, of True off buf, OF _ this fits(2)] None
    obtain ns' where "map core ns' = map core ns0" "\<forall>j. j \<notin> insert i Dr \<longrightarrow> ns' ! j = ns ! j"
      "loop_out c_str_step (cs_at ns (Some i) True off buf) =
        loop_out c_str_step (cs_at ns' t False (off - of_nat (length sr)) (put_before off sr buf))"
      by auto
    then show ?thesis using e by auto
  next
    case (Some k)
    have k: "visited ns0 k sl Dl" "k \<in> Dl" "k < length ns0" using l Some by (simp_all add: visited_opt_def)
    have fl: "length sl \<le> unat off" using fits(1) by simp
    obtain s1 ns1 where c1: "go_to_child i True (Some k) (cs_at ns (Some i) True off buf) = Inr s1"
        "map core ns1 = map core ns0" "ns1 ! i = Concat_t l r t True" "\<forall>j. j \<notin> insert i Dl \<longrightarrow> ns1 ! j = ns ! j"
        "loop_out c_str_step s1 = loop_out c_str_step (cs_at ns1 (Some i) False (off - of_nat (length sl)) (put_before off sl buf))"
      using visited_child [OF k(1,2) i(3,1) k(3) c n fl fits(2), where d = True and b = True] by blast
    have b: "unat (off - of_nat (length sl)) \<le> length (put_before off sl buf)"
      using off fits(2) fl by (simp add: length_put_before)
    obtain ns' where c2: "map core ns' = map core ns0" "\<forall>j. j \<notin> insert i Dr \<longrightarrow> ns' ! j = ns1 ! j"
      "loop_out c_str_step (cs_at ns1 (Some i) False (off - of_nat (length sl)) (put_before off sl buf)) =
        loop_out c_str_step (cs_at ns' t False (off - of_nat (length sl) - of_nat (length sr))
          (put_before (off - of_nat (length sl)) sr (put_before off sl buf)))"
      using visited_right [OF r i(4,1) c1(2,3), of False, OF _ fr b] by auto
    have "loop_out c_str_step (cs_at ns (Some i) True off buf) = loop_out c_str_step s1"
      using go_left [OF _ _ c1(1)] n len i(1) Some by simp
    then have "loop_out c_str_step (cs_at ns (Some i) True off buf) =
        loop_out c_str_step (cs_at ns' t False (off - of_nat (length (sr @ sl))) (put_before off (sr @ sl) buf))"
      using c1(5) c2(3) put_before_append [OF fits] by (simp add: algebra_simps)
    moreover have "\<forall>j. j \<notin> insert i (Dl \<union> Dr) \<longrightarrow> ns' ! j = ns ! j" using c1(4) c2(2) by auto
    ultimately show ?thesis using c2(1) by blast
  qed
qed

lemma spells_visited: "spells ns p s D \<Longrightarrow> visited_opt ns p s D"
proof (induction rule: spells.induct)
  case (leaf i cs k t)
  then show ?case using visited_leaf [OF leaf] by (simp add: visited_opt_def)
next
  case (concat i l r t sd sl Dl sr Dr)
  then show ?case using visited_concat [OF concat.hyps(1,2,5,6) concat.IH] by (simp add: visited_opt_def)
qed (simp add: visited_opt_def)

section \<open>Ropes\<close>

text \<open>A rope with its text, and a step after which all ropes still have theirs.\<close>

definition rope_ok :: "rope_node list \<Rightarrow> rope \<Rightarrow> string \<Rightarrow> bool" where
  "rope_ok ns this text \<longleftrightarrow>
     (\<exists>i D. rp_root this = Some i \<and> spells ns (Some i) text D \<and> is_concat (ns ! i)) \<and> unat (rp_size this) = length text"

definition keeps_ropes :: "rope_node list \<Rightarrow> rope_node list \<Rightarrow> bool" where
  "keeps_ropes ns ns' \<longleftrightarrow> (\<forall>r text. rope_ok ns r text \<longrightarrow> rope_ok ns' r text)"

lemma spells_lt: "spells ns (Some i) s D \<Longrightarrow> i < length ns"
  using spells_bound by blast

lemma keeps_core: "map core ns' = map core ns \<Longrightarrow> keeps_ropes ns ns'"
  using spells_same core_is_concat [OF core_nth] spells_lt unfolding keeps_ropes_def rope_ok_def by metis

lemma keeps_append: "keeps_ropes ns (ns @ ms)"
  unfolding keeps_ropes_def rope_ok_def by (auto simp: nth_append dest: spells_append spells_lt)

lemma rope_c_str_text:
  assumes ok: "rope_ok ns this text" and ret: "length ret = length text + 1"
  shows "\<exists>ns'. rope_c_str ret this ns = Some (Inr (text @ [CHR 0x00], ns')) \<and> map core ns' = map core ns"
proof -
  obtain i D where i: "rp_root this = Some i" "spells ns (Some i) text D" and sz: "unat (rp_size this) = length text"
    using ok by (auto simp: rope_ok_def)
  let ?ns = "ns[i := set_temp None (ns ! i)]"
  have lt: "i < length ns" using i(2) by (rule spells_lt)
  have c: "map core ?ns = map core ns" by (rule core_update) simp
  have v: "visited ns i text D" using spells_visited [OF i(2)] by (simp add: visited_opt_def)
  have fits: "length text \<le> unat (rp_size this)" "unat (rp_size this) \<le> length ret" using sz ret by simp_all
  obtain ns' where n: "map core ns' = map core ns" "loop_out c_str_step (cs_at ?ns (Some i) True (rp_size this) ret) =
      loop_out c_str_step (cs_at ns' (node_temp (?ns ! i)) False (rp_size this - of_nat (length text)) (put_before (rp_size this) text ret))"
    using v c fits unfolding visited_def by meson
  have "put_before (rp_size this) text ret = text @ drop (length text) ret" using sz by (simp add: put_before_def)
  moreover have "loop_out c_str_step (cs_at ns' None False off buf) = Some (Inr (cs_at ns' None False off buf))" for off buf
    by (subst loop_out.simps) (simp add: c_str_step_def)
  moreover have "(text @ drop (length text) ret)[length text := CHR 0x00] = text @ [CHR 0x00]"
  proof -
    have "length (drop (length text) ret) = Suc 0" using ret by simp
    then obtain c where "drop (length text) ret = [c]" by (auto simp: length_Suc_conv simp del: length_drop)
    then show ?thesis by (simp add: list_update_append)
  qed
  ultimately have "rope_c_str ret this ns = Some (Inr (text @ [CHR 0x00], ns'))"
    using n(2) i(1) lt sz ret by (simp add: rope_c_str_def c_str_walk_def node_at_def)
  then show ?thesis using n(1) by blast
qed

lemma strlen_loop_terminated:
  "CHR 0x00 \<in> set s \<Longrightarrow> strlen_loop s i = Inr (i + length (takeWhile (\<lambda>c. c \<noteq> CHR 0x00) s) + 1)"
  by (induction s arbitrary: i) auto

lemma strlen_loop_unterminated: "CHR 0x00 \<notin> set s \<Longrightarrow> strlen_loop s i = Inl (Undefined ''read past the end of a string'')"
  by (induction s arbitrary: i) auto

lemma rope_strlen_terminated:
  assumes "CHR 0x00 \<in> set s" and "length s < 2 ^ 32"
  shows "\<exists>n. rope_strlen s = Inr n \<and> unat (n - 1) = length (takeWhile (\<lambda>c. c \<noteq> CHR 0x00) s)"
proof -
  let ?t = "takeWhile (\<lambda>c. c \<noteq> CHR 0x00) s"
  have "length ?t < 2 ^ 32" using length_takeWhile_le [of "\<lambda>c. c \<noteq> CHR 0x00" s] assms(2) by (rule le_less_trans)
  then have "unat (of_nat (length ?t) :: u32) = length ?t" by (simp add: unat_of_nat)
  moreover have "of_nat (0 + length ?t + 1) - 1 = (of_nat (length ?t) :: u32)" by simp
  ultimately show ?thesis using strlen_loop_terminated [OF assms(1), of 0] by (simp add: rope_strlen_def)
qed

text \<open>A new leaf under a new node, with what was there before on its right.\<close>

lemma spells_new:
  assumes "spells ns p s D" and "right_ok ns p" and "unat k \<le> length cs"
  defines "ms \<equiv> ns @ [Str_t cs k None, Concat_t (Some (length ns)) p None False]"
  shows "spells ms (Some (length ns + 1)) (s @ take (unat k) cs) (insert (length ns + 1) ({length ns} \<union> D))"
proof (rule spells.concat)
  show "length ns + 1 < length ms" "ms ! (length ns + 1) = Concat_t (Some (length ns)) p None False"
    by (simp_all add: ms_def nth_append)
  show "spells ms (Some (length ns)) (take (unat k) cs) {length ns}"
    using assms(3) by (intro spells.leaf) (auto simp: ms_def nth_append)
  show "spells ms p s D" unfolding ms_def using assms(1) by (rule spells_append)
  show "length ns + 1 \<notin> D" using spells_bound [OF assms(1)] by auto
  show "right_ok ms p"
    using assms(2) spells_bound [OF assms(1)] by (auto simp: ms_def right_ok_def nth_append split: option.splits)
qed simp

lemma append_chars_text:
  assumes ok: "rope_ok ns this text" and k: "unat k \<le> length cs" and fits: "length text + unat k < 2 ^ 32"
  shows "\<exists>this' ns'. append_chars cs k this ns = Inr (this', ns') \<and> rope_ok ns' this' (text @ take (unat k) cs) \<and> keeps_ropes ns ns'"
proof -
  obtain i D where i: "rp_root this = Some i" "spells ns (Some i) text D" "is_concat (ns ! i)" and sz: "unat (rp_size this) = length text"
    using ok by (auto simp: rope_ok_def)
  let ?ms = "ns @ [Str_t cs k None, Concat_t (Some (length ns)) (Some i) None False]"
  let ?rp = "this\<lparr>rp_root := Some (length ns + 1), rp_size := rp_size this + k\<rparr>"
  have "append_chars cs k this ns = Inr (?rp, ?ms)"
    by (simp add: append_chars_def append_node_def new_node_def node_at_def check_def nth_append i(1) list_update_append)
  moreover have "unat (rp_size this + k) = length text + unat k" using sz fits by (simp add: unat_word_ariths)
  then have "rope_ok ?ms ?rp (text @ take (unat k) cs)"
    using spells_new [OF i(2) _ k] i(3) k by (auto simp: rope_ok_def right_ok_def nth_append)
  moreover have "keeps_ropes ns ?ms" by (rule keeps_append)
  ultimately show ?thesis by blast
qed

lemma append_rope_text:
  assumes r: "rope_ok ns r s" and ok: "rope_ok ns this text" and fits: "length text + length s < 2 ^ 32"
  shows "\<exists>this' ns'. append_rope r this ns = Inr (this', ns') \<and> rope_ok ns' this' (text @ s) \<and> keeps_ropes ns ns'"
proof -
  obtain i D where i: "rp_root this = Some i" "spells ns (Some i) text D" "is_concat (ns ! i)" and sz: "unat (rp_size this) = length text"
    using ok by (auto simp: rope_ok_def)
  obtain j E where j: "rp_root r = Some j" "spells ns (Some j) s E" "is_concat (ns ! j)" and sz': "unat (rp_size r) = length s"
    using r by (auto simp: rope_ok_def)
  let ?ms = "ns @ [Concat_t (Some j) (Some i) None False]"
  let ?rp = "this\<lparr>rp_root := Some (length ns), rp_size := rp_size this + rp_size r\<rparr>"
  have lt: "i < length ns" "j < length ns" using i(2) j(2) by (auto dest: spells_lt)
  have "append_rope r this ns = Inr (?rp, ?ms)"
    using lt by (simp add: append_rope_def append_node_def new_node_def node_at_def check_def i(1) j(1,3))
  moreover have "spells ?ms (Some (length ns)) (text @ s) (insert (length ns) (E \<union> D))"
  proof (rule spells.concat)
    show "spells ?ms (Some j) s E" "spells ?ms (Some i) text D" using i(2) j(2) by (simp_all add: spells_append)
    show "length ns \<notin> E" "length ns \<notin> D" using spells_bound [OF i(2)] spells_bound [OF j(2)] by auto
    show "right_ok ?ms (Some i)" using i(3) lt by (simp add: right_ok_def nth_append)
    show "?ms ! length ns = Concat_t (Some j) (Some i) None False" by simp
  qed simp
  then have "rope_ok ?ms ?rp (text @ s)"
    using sz sz' fits by (auto simp: rope_ok_def unat_word_ariths nth_append)
  moreover have "keeps_ropes ns ?ms" by (rule keeps_append)
  ultimately show ?thesis by blast
qed

lemma rope_of_sv_text:
  assumes "length s < 2 ^ 32"
  shows "\<exists>rp ns'. rope_of_sv s ns = (rp, ns') \<and> rope_ok ns' rp s \<and> keeps_ropes ns ns'"
proof -
  let ?k = "of_nat (length s) :: u32"
  have k: "unat ?k = length s" using assms by (simp add: unat_of_nat)
  have "spells (ns @ [Str_t s ?k None, Concat_t (Some (length ns)) None None False]) (Some (length ns + 1)) s (insert (length ns + 1) ({length ns} \<union> {}))"
    using spells_new [OF spells.null, of ns ?k s] k by (simp add: right_ok_def)
  then show ?thesis
    using k keeps_append [of ns] by (auto simp: rope_of_sv_def new_node_def rope_ok_def nth_append)
qed

lemma rope_of_cstr_text:
  assumes "CHR 0x00 \<in> set s" and "length s < 2 ^ 32"
  shows "\<exists>rp ns'. rope_of_cstr s ns = Inr (rp, ns') \<and> rope_ok ns' rp (c_string s) \<and> keeps_ropes ns ns'"
proof -
  obtain n where n: "rope_strlen s = Inr n" "unat (n - 1) = length (c_string s)"
    using rope_strlen_terminated [OF assms] by (auto simp: c_string_def)
  have le: "unat (n - 1) \<le> length s" using n(2) by (simp add: c_string_def length_takeWhile_le)
  have t: "take (unat (n - 1)) s = c_string s" using n(2) by (simp add: c_string_def flip: takeWhile_eq_take)
  have "spells (ns @ [Str_t s (n - 1) None, Concat_t (Some (length ns)) None None False]) (Some (length ns + 1)) (c_string s) (insert (length ns + 1) ({length ns} \<union> {}))"
    using spells_new [OF spells.null, of ns "n - 1" s] le t by (simp add: right_ok_def)
  then show ?thesis
    using n keeps_append [of ns] by (auto simp: rope_of_cstr_def new_node_def rope_ok_def nth_append)
qed

lemma add_assign_cstr_text:
  assumes "rope_ok ns this text" and "CHR 0x00 \<in> set s" and "length s < 2 ^ 32" and "length text + length (c_string s) < 2 ^ 32"
  shows "\<exists>this' ns'. add_assign_cstr s this ns = Inr (this', ns') \<and> rope_ok ns' this' (text @ c_string s) \<and> keeps_ropes ns ns'"
proof -
  obtain n where n: "rope_strlen s = Inr n" "unat (n - 1) = length (c_string s)"
    using rope_strlen_terminated [OF assms(2,3)] by (auto simp: c_string_def)
  have le: "unat (n - 1) \<le> length s" using n(2) by (simp add: c_string_def length_takeWhile_le)
  have t: "take (unat (n - 1)) s = c_string s" using n(2) by (simp add: c_string_def flip: takeWhile_eq_take)
  show ?thesis using append_chars_text [OF assms(1) le] n assms(4) t by (simp add: add_assign_cstr_def)
qed

text \<open>An array argument is appended with its terminator.\<close>

lemma append_array_text:
  assumes "rope_ok ns this text" and "length text + length s < 2 ^ 32"
  shows "\<exists>this' ns'. append_array s this ns = Inr (this', ns') \<and> rope_ok ns' this' (text @ s) \<and> keeps_ropes ns ns'"
proof -
  have "unat (of_nat (length s) :: u32) = length s" using assms(2) by (simp add: unat_of_nat)
  then show ?thesis using append_chars_text [OF assms(1), of "of_nat (length s)" s] assms(2) by (simp add: append_array_def)
qed

section \<open>Characters by index\<close>

lemma at_node_None [simp]: "at_node ns index None ret so_far stop = Some (Inr (ret, so_far, stop))"
  by (subst at_node.simps) simp

lemma at_node_leaf:
  "i < length ns \<Longrightarrow> ns ! i = Str_t cs k t \<Longrightarrow>
   at_node ns index (Some i) ret so_far stop =
     (if so_far - k \<le> index
      then if unat (index - (so_far - k)) < length cs
           then Some (Inr (cs ! unat (index - (so_far - k)), so_far - k, True))
           else Some (Inl (Undefined ''read past the end of a string''))
      else Some (Inr (ret, so_far - k, stop)))"
  by (subst at_node.simps) (simp add: node_at_def Let_def)

lemma at_node_concat:
  "i < length ns \<Longrightarrow> ns ! i = Concat_t l r t sd \<Longrightarrow>
   at_node ns index (Some i) ret so_far stop =
     (if stop then Some (Inr (ret, so_far, stop))
      else bind_out (at_node ns index l ret so_far stop) (\<lambda>v. at_node ns index r (fst v) (fst (snd v)) (snd (snd v))))"
  by (subst at_node.simps) (auto simp: node_at_def intro!: arg_cong2 [where f = bind_out] ext)

lemma at_node_stopped: "right_ok ns r \<Longrightarrow> (\<forall>j. r = Some j \<longrightarrow> j < length ns) \<Longrightarrow> at_node ns index r ret so_far True = Some (Inr (ret, so_far, True))"
  by (cases r) (auto simp: right_ok_def is_concat_def at_node_concat)

lemma at_node_text:
  "spells ns p s D \<Longrightarrow> length s \<le> unat so_far \<Longrightarrow> unat index < unat so_far \<Longrightarrow>
   \<exists>x. at_node ns index p ret so_far False =
     (if unat so_far - length s \<le> unat index then Some (Inr (s ! (unat index - (unat so_far - length s)), x, True))
      else Some (Inr (ret, so_far - of_nat (length s), False)))"
proof (induction arbitrary: so_far ret rule: spells.induct)
  case (leaf i cs k t)
  then have len: "length (take (unat k) cs) = unat k" by simp
  then have off: "unat (so_far - k) = unat so_far - unat k"
    using unat_sub_length [of "take (unat k) cs" so_far] leaf.prems(1) by simp
  have "unat (index - (so_far - k)) = unat index - (unat so_far - unat k)" if "so_far - k \<le> index"
    using that off by (simp add: unat_sub)
  then show ?case
    using leaf off len by (auto simp: at_node_leaf word_le_nat_alt)
next
  case (concat i l r t sd sl Dl sr Dr)
  have r: "\<forall>j. r = Some j \<longrightarrow> j < length ns" using concat.hyps(4) by (auto dest: spells_lt)
  have fl: "length sl \<le> unat so_far" and u: "unat (so_far - of_nat (length sl)) = unat so_far - length sl"
    using concat.prems(1) by (simp_all add: unat_sub_length)
  obtain x where x: "at_node ns index l ret so_far False =
     (if unat so_far - length sl \<le> unat index then Some (Inr (sl ! (unat index - (unat so_far - length sl)), x, True))
      else Some (Inr (ret, so_far - of_nat (length sl), False)))"
    using concat.IH(1) [OF fl concat.prems(2), of ret] by blast
  show ?case
  proof (cases "unat so_far - length sl \<le> unat index")
    case True
    then have "unat so_far - length (sr @ sl) \<le> unat index" by simp
    moreover have "(sr @ sl) ! (unat index - (unat so_far - length (sr @ sl))) = sl ! (unat index - (unat so_far - length sl))"
    proof -
      have "unat index - (unat so_far - length (sr @ sl)) = length sr + (unat index - (unat so_far - length sl))"
        using True concat.prems(1) by simp
      then show ?thesis by (simp only: nth_append_length_plus)
    qed
    ultimately show ?thesis
      using True x concat.hyps(1,2) at_node_stopped [OF concat.hyps(7) r] by (simp add: at_node_concat)
  next
    case False
    have "length sr \<le> unat (so_far - of_nat (length sl))" "unat index < unat (so_far - of_nat (length sl))"
      using concat.prems(1) False u by simp_all
    from concat.IH(2) [OF this, of ret] obtain y where y: "at_node ns index r ret (so_far - of_nat (length sl)) False =
       (if unat so_far - length sl - length sr \<le> unat index then Some (Inr (sr ! (unat index - (unat so_far - length sl - length sr)), y, True))
        else Some (Inr (ret, so_far - of_nat (length sl) - of_nat (length sr), False)))"
      unfolding u by blast
    have e: "unat so_far - length sl - length sr = unat so_far - length (sr @ sl)" by simp
    have "unat index - (unat so_far - length (sr @ sl)) < length sr"
      if "unat so_far - length (sr @ sl) \<le> unat index" using that False concat.prems(1) by simp
    then show ?thesis
      using False x y concat.hyps(1,2) unfolding e by (auto simp: at_node_concat nth_append algebra_simps)
  qed
qed auto

lemma rope_at_text:
  assumes "rope_ok ns this text" and "unat index < length text"
  shows "rope_at index this ns = Some (Inr (text ! unat index))"
proof -
  obtain i D where i: "rp_root this = Some i" "spells ns (Some i) text D" and sz: "unat (rp_size this) = length text"
    using assms(1) by (auto simp: rope_ok_def)
  then show ?thesis
    using at_node_text [OF i(2), of "rp_size this" index "CHR 0x00"] assms(2) by (auto simp: rope_at_def)
qed

end
