(* ===== verification/Uos_Abi.thy ===== *)
theory Uos_Abi
imports Uos_Prelude Complex_Main "HOL-Library.Char_ord" "HOL-Library.Multiset"
begin

text \<open>
  ABI files: the descriptions of \<^verbatim>\<open>src/tools/include/uosio/abi.hpp\<close> and the merging of two files by the class
  \<open>ABIMerger\<close> of \<^verbatim>\<open>abimerge.hpp\<close>. The tools hold a file as a JSON object. Here it is a record whose
  members may be missing (reading a missing one throws); the entries of its arrays are complete. An
  \<open>Assertion\<close> is an exception with its text.
\<close>

section \<open>Descriptions\<close>

record abi_typedef =
  td_name :: string
  td_type :: string

record abi_field =
  fd_name :: string
  fd_type :: string

record abi_struct =
  st_name :: string
  st_base :: string
  st_fields :: "abi_field list"

record abi_action =
  ac_name :: string
  ac_type :: string
  ac_contract :: string

record abi_table =
  ta_name :: string
  ta_type :: string
  ta_index_type :: string
  ta_key_names :: "string list"
  ta_key_types :: "string list"

record abi_ricardian_clause_pair =
  cl_id :: string
  cl_body :: string

record abi_variant =
  va_name :: string
  va_types :: "string list"

record abi_json =
  aj_comment :: "string option"
  aj_version :: "string option"
  aj_types :: "abi_typedef list option"
  aj_structs :: "abi_struct list option"
  aj_actions :: "abi_action list option"
  aj_tables :: "abi_table list option"
  aj_clauses :: "abi_ricardian_clause_pair list option"
  aj_variants :: "abi_variant list option"

fun json_member :: "'a option \<Rightarrow> 'a res" where
  "json_member None = Inl (Assertion ''Key not found'')"
| "json_member (Some v) = Inr v"

section \<open>Version numbers\<close>

text \<open>
  \<open>std::stod\<close> on the three characters at the end of a version. Two such numbers are equal or far
  enough apart that a comparison of the doubles, times ten, is the comparison of the numbers.
\<close>

datatype dbl = Finite rat | Infinite | Not_a_number

definition is_space :: "char \<Rightarrow> bool" where
  "is_space c \<longleftrightarrow> c = CHR '' '' \<or> CHR 0x09 \<le> c \<and> c \<le> CHR 0x0D"

definition is_digit :: "char \<Rightarrow> bool" where
  "is_digit c \<longleftrightarrow> CHR ''0'' \<le> c \<and> c \<le> CHR ''9''"

definition hex_digit :: "char \<Rightarrow> nat option" where
  "hex_digit c =
     (if is_digit c then Some (of_char c - 48)
      else if CHR ''a'' \<le> c \<and> c \<le> CHR ''f'' then Some (of_char c - 87)
      else if CHR ''A'' \<le> c \<and> c \<le> CHR ''F'' then Some (of_char c - 55)
      else None)"

definition lower :: "char \<Rightarrow> char" where
  "lower c = (if CHR ''A'' \<le> c \<and> c \<le> CHR ''Z'' then char_of (of_char c + 32 :: nat) else c)"

definition decimal_value :: "string \<Rightarrow> nat" where
  "decimal_value ds = foldl (\<lambda>n c. 10 * n + (of_char c - 48)) 0 ds"

fun read_sign :: "string \<Rightarrow> bool \<times> string" where
  "read_sign [] = (False, [])"
| "read_sign (c # s) = (if c = CHR ''-'' then (True, s) else if c = CHR ''+'' then (False, s) else (False, c # s))"

text \<open>The exponent behind a mantissa; without a digit there is none.\<close>

fun read_exponent :: "string \<Rightarrow> int" where
  "read_exponent [] = 0"
| "read_exponent (c # s) =
     (let (neg, s) = read_sign s; ds = takeWhile is_digit s
      in if lower c = CHR ''e'' \<and> ds \<noteq> [] then (if neg then - int (decimal_value ds) else int (decimal_value ds))
         else 0)"

definition stod :: "string \<Rightarrow> dbl res" where
  "stod s =
     (let (neg, s) = read_sign (dropWhile is_space s);
          signed = (\<lambda>x. Inr (Finite (if neg then - x else x)));
          whole = takeWhile is_digit s;
          r = dropWhile is_digit s;
          (fraction, r) = (if r \<noteq> [] \<and> hd r = CHR ''.'' then (takeWhile is_digit (tl r), dropWhile is_digit (tl r)) else ([], r));
          e = read_exponent r - int (length fraction);
          m = of_nat (decimal_value (whole @ fraction))
      in if map lower (take 3 s) = ''inf'' then Inr Infinite
         else if map lower (take 3 s) = ''nan'' then Inr Not_a_number
         else if map lower (take 2 s) = ''0x'' \<and> length s > 2 \<and> hex_digit (s ! 2) \<noteq> None
         then signed (of_nat (the (hex_digit (s ! 2))))
         else if whole = [] \<and> fraction = [] then Inl (Assertion ''stod'')
         else signed (if 0 \<le> e then m * 10 ^ nat e else m / 10 ^ nat (- e)))"

text \<open>\<open>ver.substr(ver.size() - 3)\<close> throws for a shorter string: the position wraps around.\<close>

definition version_digits :: "string \<Rightarrow> string res" where
  "version_digits ver =
     (if length ver < 3 then Inl (Assertion ''out_of_range'') else Inr (drop (length ver - 3) ver))"

definition version_number :: "string \<Rightarrow> dbl res" where
  "version_number ver = bind_res (version_digits ver) stod"

text \<open>\<open>operator<\<close> on the numbers, each times ten.\<close>

fun dbl_less :: "dbl \<Rightarrow> dbl \<Rightarrow> bool" where
  "dbl_less (Finite x) (Finite y) = (x * 10 < y * 10)"
| "dbl_less (Finite x) Infinite = True"
| "dbl_less _ _ = False"

section \<open>The merger\<close>

definition merge_version :: "abi_json \<Rightarrow> abi_json \<Rightarrow> string res" where
  "merge_version a b =
     bind_res (json_member (aj_version a)) (\<lambda>ver_a.
     bind_res (json_member (aj_version b)) (\<lambda>ver_b.
     bind_res (version_number ver_a) (\<lambda>x.
     bind_res (version_number ver_b) (\<lambda>y.
     Inr (if dbl_less x y then ver_b else ver_a)))))"

definition struct_is_same :: "abi_struct \<Rightarrow> abi_struct \<Rightarrow> bool" where
  "struct_is_same a b =
     (let same_fields = length (st_fields a) = length (st_fields b) in
      if \<not> list_all (\<lambda>f. list_ex (\<lambda>g. fd_name f = fd_name g \<and> fd_type f = fd_type g) (st_fields b)) (st_fields a)
      then False
      else st_name a = st_name b \<and> st_base a = st_base b \<and> same_fields)"

definition type_is_same :: "abi_typedef \<Rightarrow> abi_typedef \<Rightarrow> bool" where
  "type_is_same a b \<longleftrightarrow> td_name a = td_name b \<and> td_type a = td_type b"

definition action_is_same :: "abi_action \<Rightarrow> abi_action \<Rightarrow> bool" where
  "action_is_same a b \<longleftrightarrow> ac_name a = ac_name b \<and> ac_type a = ac_type b \<and> ac_contract a = ac_contract b"

text \<open>Returns the comparison and the contract, which it takes over where the first has none.\<close>

definition action_is_almost_same :: "abi_action \<Rightarrow> abi_action \<Rightarrow> string \<Rightarrow> bool \<times> string" where
  "action_is_almost_same a b rc =
     (ac_name a = ac_name b \<and> ac_type a = ac_type b, if ac_contract a = [] then ac_contract b else rc)"

definition variant_is_same :: "abi_variant \<Rightarrow> abi_variant \<Rightarrow> bool" where
  "variant_is_same a b =
     (if \<not> list_all (\<lambda>ty. list_ex (\<lambda>ty'. ty' = ty) (va_types b)) (va_types a) then False
      else va_name a = va_name b)"

definition table_is_same :: "abi_table \<Rightarrow> abi_table \<Rightarrow> bool" where
  "table_is_same a b \<longleftrightarrow>
     ta_name a = ta_name b \<and> ta_type a = ta_type b \<and> ta_index_type a = ta_index_type b \<and>
     ta_key_names a = ta_key_names b \<and> ta_key_types a = ta_key_types b"

definition clause_is_same :: "abi_ricardian_clause_pair \<Rightarrow> abi_ricardian_clause_pair \<Rightarrow> bool" where
  "clause_is_same a b \<longleftrightarrow> cl_id a = cl_id b \<and> cl_body a = cl_body b"

text \<open>The inner loop of \<open>add_object\<close>: whether the entry is skipped, or the exception.\<close>

fun should_skip :: "('o \<Rightarrow> string) \<Rightarrow> ('o \<Rightarrow> 'o \<Rightarrow> bool) \<Rightarrow> 'o \<Rightarrow> 'o list \<Rightarrow> bool \<Rightarrow> bool res" where
  "should_skip oid same b [] skip = Inr skip"
| "should_skip oid same b (a # as) skip =
     (if oid a = oid b then
        if \<not> same a b then Inl (Assertion (''Error, ABI structs malformed : '' @ oid a @ '' already defined''))
        else should_skip oid same b as True
      else should_skip oid same b as skip)"

fun add_from :: "('o \<Rightarrow> string) \<Rightarrow> ('o \<Rightarrow> 'o \<Rightarrow> bool) \<Rightarrow> 'o list \<Rightarrow> 'o list \<Rightarrow> 'o list \<Rightarrow> 'o list res" where
  "add_from oid same as [] ret = Inr ret"
| "add_from oid same as (b # bs) ret =
     bind_res (should_skip oid same b as False) (\<lambda>skip.
     add_from oid same as bs (if \<not> skip then ret @ [b] else ret))"

definition add_object ::
  "('o \<Rightarrow> string) \<Rightarrow> ('o \<Rightarrow> 'o \<Rightarrow> bool) \<Rightarrow> 'o list option \<Rightarrow> 'o list option \<Rightarrow> 'o list res" where
  "add_object oid same a b =
     bind_res (json_member a) (\<lambda>as.
     bind_res (json_member b) (\<lambda>bs.
     add_from oid same as bs as))"

definition merge_structs :: "abi_json \<Rightarrow> abi_json \<Rightarrow> abi_struct list res" where
  "merge_structs a b = add_object st_name struct_is_same (aj_structs a) (aj_structs b)"

definition merge_types :: "abi_json \<Rightarrow> abi_json \<Rightarrow> abi_typedef list res" where
  "merge_types a b = add_object td_name type_is_same (aj_types a) (aj_types b)"

definition merge_variants :: "abi_json \<Rightarrow> abi_json \<Rightarrow> abi_variant list res" where
  "merge_variants a b = add_object va_name variant_is_same (aj_variants a) (aj_variants b)"

definition merge_actions :: "abi_json \<Rightarrow> abi_json \<Rightarrow> abi_action list res" where
  "merge_actions a b = add_object ac_name action_is_same (aj_actions a) (aj_actions b)"

definition merge_tables :: "abi_json \<Rightarrow> abi_json \<Rightarrow> abi_table list res" where
  "merge_tables a b = add_object ta_name table_is_same (aj_tables a) (aj_tables b)"

definition merge_clauses :: "abi_json \<Rightarrow> abi_json \<Rightarrow> abi_ricardian_clause_pair list res" where
  "merge_clauses a b = add_object cl_id clause_is_same (aj_clauses a) (aj_clauses b)"

definition abi_merge :: "abi_json \<Rightarrow> abi_json \<Rightarrow> abi_json res" where
  "abi_merge a b =
     bind_res (json_member (aj_comment a)) (\<lambda>comment.
     bind_res (merge_version a b) (\<lambda>version.
     bind_res (merge_types a b) (\<lambda>types.
     bind_res (merge_structs a b) (\<lambda>structs.
     bind_res (merge_actions a b) (\<lambda>actions.
     bind_res (merge_tables a b) (\<lambda>tables.
     bind_res (merge_clauses a b) (\<lambda>clauses.
     bind_res (merge_variants a b) (\<lambda>variants.
     Inr \<lparr>aj_comment = Some comment, aj_version = Some version, aj_types = Some types,
       aj_structs = Some structs, aj_actions = Some actions, aj_tables = Some tables,
       aj_clauses = Some clauses, aj_variants = Some variants\<rparr>))))))))"

section \<open>What merging a list of entries gives\<close>

text \<open>The entries of two files agree when entries of the same name are the same.\<close>

definition agree :: "('o \<Rightarrow> string) \<Rightarrow> ('o \<Rightarrow> 'o \<Rightarrow> bool) \<Rightarrow> 'o list \<Rightarrow> 'o list \<Rightarrow> bool" where
  "agree oid same as bs \<longleftrightarrow> (\<forall>a \<in> set as. \<forall>b \<in> set bs. oid a = oid b \<longrightarrow> same a b)"

definition joined_entries :: "('o \<Rightarrow> string) \<Rightarrow> 'o list \<Rightarrow> 'o list \<Rightarrow> 'o list" where
  "joined_entries oid as bs = as @ filter (\<lambda>b. oid b \<notin> oid ` set as) bs"

lemma should_skip_eq:
  "should_skip oid same b as skip = Inr s \<longleftrightarrow>
   (\<forall>a \<in> set as. oid a = oid b \<longrightarrow> same a b) \<and> s = (skip \<or> oid b \<in> oid ` set as)"
  by (induction oid same b as skip rule: should_skip.induct) auto

lemma add_from_eq:
  "add_from oid same as bs ret = Inr r \<longleftrightarrow>
   agree oid same as bs \<and> r = ret @ filter (\<lambda>b. oid b \<notin> oid ` set as) bs"
  by (induction oid same as bs ret rule: add_from.induct) (auto simp: agree_def bind_res_eq_Inr should_skip_eq)

lemma add_object_eq:
  "add_object oid same a b = Inr r \<longleftrightarrow>
   (\<exists>as bs. a = Some as \<and> b = Some bs \<and> agree oid same as bs \<and> r = joined_entries oid as bs)"
  by (cases a; cases b) (auto simp: add_object_def add_from_eq joined_entries_def)

text \<open>Looking up a name: the entry of the first file, otherwise that of the second.\<close>

lemma find_joined:
  "find (\<lambda>x. oid x = k) (joined_entries oid as bs) =
   (case find (\<lambda>x. oid x = k) as of Some x \<Rightarrow> Some x | None \<Rightarrow> find (\<lambda>x. oid x = k) bs)"
proof -
  have app: "find P (xs @ ys) = (case find P xs of Some x \<Rightarrow> Some x | None \<Rightarrow> find P ys)" for P and xs ys :: "'a list"
    by (induction xs) simp_all
  have "find (\<lambda>x. oid x = k) (filter (\<lambda>b. oid b \<notin> oid ` set as) bs) = find (\<lambda>x. oid x = k) bs"
    if "k \<notin> oid ` set as"
    using that by (induction bs) auto
  moreover have "find (\<lambda>x. oid x = k) as = None \<longleftrightarrow> k \<notin> oid ` set as"
    by (auto simp: find_None_iff)
  ultimately show ?thesis by (cases "find (\<lambda>x. oid x = k) as") (simp_all add: joined_entries_def app)
qed

lemma joined_self: "joined_entries oid as as = as"
  by (simp add: joined_entries_def)

lemma distinct_joined:
  "distinct (map oid as) \<Longrightarrow> distinct (map oid bs) \<Longrightarrow> distinct (map oid (joined_entries oid as bs))"
  by (auto simp: joined_entries_def distinct_map_filter) (metis imageI)

lemma struct_is_same_iff:
  "struct_is_same a b \<longleftrightarrow>
   st_name a = st_name b \<and> st_base a = st_base b \<and> length (st_fields a) = length (st_fields b) \<and>
   set (st_fields a) \<subseteq> set (st_fields b)"
proof -
  have eq: "fd_name f = fd_name g \<and> fd_type f = fd_type g \<longleftrightarrow> f = g" for f g :: abi_field
    by (cases f; cases g) auto
  show ?thesis by (auto simp: struct_is_same_def list_all_iff list_ex_iff eq)
qed

lemma variant_is_same_iff:
  "variant_is_same a b \<longleftrightarrow> va_name a = va_name b \<and> set (va_types a) \<subseteq> set (va_types b)"
  by (auto simp: variant_is_same_def list_all_iff list_ex_iff)

lemma is_same_refl [simp]:
  "struct_is_same s s" "type_is_same t t" "action_is_same a a" "table_is_same u u" "clause_is_same c c"
  "variant_is_same v v"
  by (simp_all add: struct_is_same_iff variant_is_same_iff type_is_same_def action_is_same_def
      table_is_same_def clause_is_same_def)

lemma agree_self: "distinct (map oid as) \<Longrightarrow> (\<And>x. same x x) \<Longrightarrow> agree oid same as as"
  by (auto simp: agree_def distinct_map inj_on_def)

section \<open>What merging two files gives\<close>

text \<open>A file with all its members.\<close>

definition complete_abi :: "abi_json \<Rightarrow> bool" where
  "complete_abi a \<longleftrightarrow> aj_comment a \<noteq> None \<and> aj_version a \<noteq> None \<and> aj_types a \<noteq> None \<and> aj_structs a \<noteq> None \<and>
     aj_actions a \<noteq> None \<and> aj_tables a \<noteq> None \<and> aj_clauses a \<noteq> None \<and> aj_variants a \<noteq> None"

definition abis_agree :: "abi_json \<Rightarrow> abi_json \<Rightarrow> bool" where
  "abis_agree a b \<longleftrightarrow>
     agree td_name type_is_same (the (aj_types a)) (the (aj_types b)) \<and>
     agree st_name struct_is_same (the (aj_structs a)) (the (aj_structs b)) \<and>
     agree ac_name action_is_same (the (aj_actions a)) (the (aj_actions b)) \<and>
     agree ta_name table_is_same (the (aj_tables a)) (the (aj_tables b)) \<and>
     agree cl_id clause_is_same (the (aj_clauses a)) (the (aj_clauses b)) \<and>
     agree va_name variant_is_same (the (aj_variants a)) (the (aj_variants b))"

definition joined_abi :: "string \<Rightarrow> abi_json \<Rightarrow> abi_json \<Rightarrow> abi_json" where
  "joined_abi v a b =
     \<lparr>aj_comment = aj_comment a, aj_version = Some v,
      aj_types = Some (joined_entries td_name (the (aj_types a)) (the (aj_types b))),
      aj_structs = Some (joined_entries st_name (the (aj_structs a)) (the (aj_structs b))),
      aj_actions = Some (joined_entries ac_name (the (aj_actions a)) (the (aj_actions b))),
      aj_tables = Some (joined_entries ta_name (the (aj_tables a)) (the (aj_tables b))),
      aj_clauses = Some (joined_entries cl_id (the (aj_clauses a)) (the (aj_clauses b))),
      aj_variants = Some (joined_entries va_name (the (aj_variants a)) (the (aj_variants b)))\<rparr>"

lemmas merge_defs = merge_types_def merge_structs_def merge_actions_def merge_tables_def merge_clauses_def
  merge_variants_def

lemma json_member_eq: "json_member m = Inr x \<longleftrightarrow> m = Some x"
  by (cases m) simp_all

text \<open>
  Merging succeeds on complete files exactly when their versions have numbers and their entries
  agree; then the result has the entries of the first file and the new ones of the second.
\<close>

lemma abi_merge_eq:
  assumes "complete_abi a" and "complete_abi b"
  shows "abi_merge a b = Inr m \<longleftrightarrow>
    (\<exists>v. merge_version a b = Inr v \<and> abis_agree a b \<and> m = joined_abi v a b)"
  using assms
  by (auto simp: abi_merge_def bind_res_eq_Inr merge_defs add_object_eq json_member_eq complete_abi_def
      abis_agree_def joined_abi_def)

text \<open>The version of the result is one of the two, and the other is not newer.\<close>

lemma merge_version_newest:
  assumes "merge_version a b = Inr v"
  shows "\<exists>va vb x y z. aj_version a = Some va \<and> aj_version b = Some vb \<and> v \<in> {va, vb} \<and>
    version_number va = Inr x \<and> version_number vb = Inr y \<and> version_number v = Inr z \<and>
    \<not> dbl_less z x \<and> \<not> dbl_less z y"
proof -
  have irrefl: "\<not> dbl_less x x" for x by (cases x) auto
  have asym: "dbl_less x y \<Longrightarrow> \<not> dbl_less y x" for x y by (cases x; cases y) auto
  show ?thesis
    using assms by (auto simp: merge_version_def bind_res_eq_Inr json_member_eq irrefl dest: asym split: if_splits)
qed

text \<open>A file merged with itself is itself.\<close>

definition names_distinct :: "abi_json \<Rightarrow> bool" where
  "names_distinct a \<longleftrightarrow>
     distinct (map td_name (the (aj_types a))) \<and> distinct (map st_name (the (aj_structs a))) \<and>
     distinct (map ac_name (the (aj_actions a))) \<and> distinct (map ta_name (the (aj_tables a))) \<and>
     distinct (map cl_id (the (aj_clauses a))) \<and> distinct (map va_name (the (aj_variants a)))"

lemma abi_merge_self:
  assumes "complete_abi a" and "names_distinct a" and "is_ok (version_number (the (aj_version a)))"
  shows "abi_merge a a = Inr a"
proof -
  have "abis_agree a a"
    using assms(2) by (simp add: abis_agree_def names_distinct_def agree_self)
  moreover have "merge_version a a = Inr (the (aj_version a))"
    using assms(1,3) by (auto simp: merge_version_def complete_abi_def is_ok_iff)
  moreover have "joined_abi (the (aj_version a)) a a = a"
    using assms(1) by (cases a) (auto simp: joined_abi_def complete_abi_def joined_self)
  ultimately show ?thesis using assms(1) by (simp add: abi_merge_eq)
qed

lemma names_distinct_joined: "names_distinct a \<Longrightarrow> names_distinct b \<Longrightarrow> names_distinct (joined_abi v a b)"
  by (simp add: names_distinct_def joined_abi_def distinct_joined)

lemma complete_joined: "complete_abi a \<Longrightarrow> complete_abi (joined_abi v a b)"
  by (simp add: complete_abi_def joined_abi_def)

text \<open>The comparison of structs ignores the order of the fields, that of variants the additional types of the second.\<close>

lemma merge_structs_reordered:
  assumes "aj_structs a = Some [s]" and "aj_structs b = Some [t]"
    and "st_name s = st_name t" and "st_base s = st_base t" and "mset (st_fields s) = mset (st_fields t)"
  shows "merge_structs a b = Inr [s]"
proof -
  have "struct_is_same s t"
    using assms(3-5) mset_eq_length [OF assms(5)] mset_eq_setD [OF assms(5)] by (simp add: struct_is_same_iff)
  then show ?thesis using assms by (auto simp: merge_structs_def add_object_eq agree_def joined_entries_def)
qed

lemma merge_variants_one_way:
  assumes "aj_variants a = Some [x]" and "aj_variants b = Some [y]"
    and "va_name x = va_name y" and "set (va_types x) \<subset> set (va_types y)"
  shows "merge_variants a b = Inr [x]"
    and "merge_variants b a = Inl (Assertion (''Error, ABI structs malformed : '' @ va_name y @ '' already defined''))"
proof -
  have "variant_is_same x y" and "\<not> variant_is_same y x" using assms(3,4) by (auto simp: variant_is_same_iff)
  then show "merge_variants a b = Inr [x]"
    and "merge_variants b a = Inl (Assertion (''Error, ABI structs malformed : '' @ va_name y @ '' already defined''))"
    using assms by (auto simp: merge_variants_def add_object_def)
qed

end
