(* ===== verification/Uos_Abi_Diff.thy ===== *)
theory Uos_Abi_Diff
imports Uos_Abi
begin

text \<open>
  The differences of two ABI files: the class \<open>abidiff\<close> of \<^verbatim>\<open>src/tools/abidiff/uosio-abidiff.cpp.in\<close>. What it
  prints is the list of the entries, each with the direction of the file it is from; an exception
  ends the list.
\<close>

section \<open>Output\<close>

datatype diff_entry =
    Version_entry string
  | Struct_entry abi_struct
  | Type_entry abi_typedef
  | Action_entry abi_action
  | Table_entry abi_table
  | Clause_entry
  | Variant_entry abi_variant

type_synonym diff_output = "(char \<times> diff_entry) list \<times> error option"

text \<open>One step of the program after another, unless the first one throws.\<close>

fun and_then :: "diff_output \<Rightarrow> diff_output \<Rightarrow> diff_output" where
  "and_then (out, None) (out', e) = (out @ out', e)"
| "and_then (out, Some e) _ = (out, Some e)"

text \<open>The value of an expression that may throw, handed to the rest.\<close>

fun use_value :: "'a res \<Rightarrow> ('a \<Rightarrow> diff_output) \<Rightarrow> diff_output" where
  "use_value (Inl e) f = ([], Some e)"
| "use_value (Inr v) f = f v"

section \<open>Versions\<close>

text \<open>The number times ten, as an \<open>int\<close>; the conversion of an infinity or a NaN has no defined value.\<close>

definition get_version :: "abi_json \<Rightarrow> int res" where
  "get_version a =
     bind_res (json_member (aj_version a)) (\<lambda>ver.
     bind_res (version_number ver) (\<lambda>x. case x of
       Finite q \<Rightarrow> (let y = q * 10; n = (if 0 \<le> y then floor y else - floor (- y)) in
         if - (2 ^ 31) \<le> n \<and> n < 2 ^ 31 then Inr n else Inl (Undefined ''conversion''))
     | _ \<Rightarrow> Inl (Undefined ''conversion'')))"

definition diff_version :: "abi_json \<Rightarrow> abi_json \<Rightarrow> diff_output" where
  "diff_version a b =
     use_value (get_version a) (\<lambda>x. use_value (get_version b) (\<lambda>y.
     if x \<noteq> y then
       ([(CHR ''<'', Version_entry (the (aj_version a))), (CHR ''>'', Version_entry (the (aj_version b)))], None)
     else ([], None)))"

section \<open>Searches\<close>

text \<open>The base type of a type, which no other method calls: it returns the name it has found.\<close>

fun get_base_type :: "abi_typedef list \<Rightarrow> string \<Rightarrow> string" where
  "get_base_type [] ty = ty"
| "get_base_type (t # ts) ty = (if td_name t = ty then td_name t else get_base_type ts ty)"

text \<open>The loop over the fields of two structs with as many fields.\<close>

fun fields_found :: "abi_field list \<Rightarrow> abi_field list \<Rightarrow> bool \<Rightarrow> bool" where
  "fields_found (f # fs) (g # gs) found =
     (if fd_name f \<noteq> fd_name g \<or> fd_type f \<noteq> fd_type g then found else fields_found fs gs True)"
| "fields_found _ _ found = found"

fun struct_found :: "abi_struct \<Rightarrow> abi_struct list \<Rightarrow> bool \<Rightarrow> bool" where
  "struct_found s [] found = found"
| "struct_found s (t # ts) found =
     (if st_name s = st_name t then
        if length (st_fields s) \<noteq> length (st_fields t) then found
        else if st_base s \<noteq> st_base t then found
        else struct_found s ts (fields_found (st_fields s) (st_fields t) False)
      else struct_found s ts found)"

fun type_found :: "abi_typedef \<Rightarrow> abi_typedef list \<Rightarrow> bool \<Rightarrow> bool" where
  "type_found s [] found = found"
| "type_found s (t # ts) found =
     (if td_name s = td_name t then if td_type s \<noteq> td_type t then found else type_found s ts True
      else type_found s ts found)"

fun action_found :: "abi_action \<Rightarrow> abi_action list \<Rightarrow> bool \<Rightarrow> bool" where
  "action_found s [] found = found"
| "action_found s (t # ts) found =
     (if ac_name s = ac_name t then
        if ac_type s \<noteq> ac_type t then found
        else if ac_contract s \<noteq> ac_contract t then found
        else action_found s ts True
      else action_found s ts found)"

fun table_found :: "abi_table \<Rightarrow> abi_table list \<Rightarrow> bool \<Rightarrow> bool" where
  "table_found s [] found = found"
| "table_found s (t # ts) found =
     (if ta_name s = ta_name t then if ta_type s \<noteq> ta_type t then found else table_found s ts True
      else table_found s ts found)"

fun clause_found :: "abi_ricardian_clause_pair \<Rightarrow> abi_ricardian_clause_pair list \<Rightarrow> bool \<Rightarrow> bool" where
  "clause_found s [] found = found"
| "clause_found s (t # ts) found =
     (if cl_id s = cl_id t then if cl_body s \<noteq> cl_body t then found else clause_found s ts True
      else clause_found s ts found)"

text \<open>The loop over the types of a variant: its \<open>break\<close> ends only this loop, and \<open>at\<close> throws.\<close>

fun variant_types :: "string list \<Rightarrow> string list \<Rightarrow> unit res" where
  "variant_types [] bs = Inr ()"
| "variant_types (a # as) [] = Inl (Assertion ''Invalid array subscript'')"
| "variant_types (a # as) (b # bs) = (if a \<noteq> b then Inr () else variant_types as bs)"

fun variant_found :: "abi_variant \<Rightarrow> abi_variant list \<Rightarrow> bool \<Rightarrow> bool res" where
  "variant_found s [] found = Inr found"
| "variant_found s (t # ts) found =
     (if va_name s = va_name t then
        bind_res (variant_types (va_types s) (va_types t)) (\<lambda>_. variant_found s ts True)
      else variant_found s ts found)"

text \<open>The loop over the entries of the first file, with what is printed for one that is not found.\<close>

fun find_entries :: "('o \<Rightarrow> bool res) \<Rightarrow> ('o \<Rightarrow> diff_output) \<Rightarrow> 'o list \<Rightarrow> diff_output" where
  "find_entries found prn [] = ([], None)"
| "find_entries found prn (x # xs) =
     use_value (found x) (\<lambda>f. and_then (if \<not> f then prn x else ([], None)) (find_entries found prn xs))"

text \<open>The second list is read only when there is an entry to search for.\<close>

definition search_in :: "'o list option \<Rightarrow> ('o \<Rightarrow> 'o list \<Rightarrow> bool res) \<Rightarrow> 'o \<Rightarrow> bool res" where
  "search_in ys found x = bind_res (json_member ys) (\<lambda>ys. found x ys)"

definition find_structs :: "abi_json \<Rightarrow> abi_json \<Rightarrow> char \<Rightarrow> diff_output" where
  "find_structs a b dir = use_value (json_member (aj_structs a)) (\<lambda>xs.
     find_entries (search_in (aj_structs b) (\<lambda>x ys. Inr (struct_found x ys False))) (\<lambda>x. ([(dir, Struct_entry x)], None)) xs)"

definition find_types :: "abi_json \<Rightarrow> abi_json \<Rightarrow> char \<Rightarrow> diff_output" where
  "find_types a b dir = use_value (json_member (aj_types a)) (\<lambda>xs.
     find_entries (search_in (aj_types b) (\<lambda>x ys. Inr (type_found x ys False))) (\<lambda>x. ([(dir, Type_entry x)], None)) xs)"

definition find_actions :: "abi_json \<Rightarrow> abi_json \<Rightarrow> char \<Rightarrow> diff_output" where
  "find_actions a b dir = use_value (json_member (aj_actions a)) (\<lambda>xs.
     find_entries (search_in (aj_actions b) (\<lambda>x ys. Inr (action_found x ys False))) (\<lambda>x. ([(dir, Action_entry x)], None)) xs)"

definition find_tables :: "abi_json \<Rightarrow> abi_json \<Rightarrow> char \<Rightarrow> diff_output" where
  "find_tables a b dir = use_value (json_member (aj_tables a)) (\<lambda>xs.
     find_entries (search_in (aj_tables b) (\<lambda>x ys. Inr (table_found x ys False))) (\<lambda>x. ([(dir, Table_entry x)], None)) xs)"

text \<open>\<open>print_clause\<close> prints its heading and then reads a member \<open>clauses\<close>, which no file has.\<close>

definition print_clause :: "char \<Rightarrow> diff_output" where
  "print_clause dir = ([(dir, Clause_entry)], Some (Assertion ''Key not found''))"

definition find_clauses :: "abi_json \<Rightarrow> abi_json \<Rightarrow> char \<Rightarrow> diff_output" where
  "find_clauses a b dir = use_value (json_member (aj_clauses a)) (\<lambda>xs.
     find_entries (search_in (aj_clauses b) (\<lambda>x ys. Inr (clause_found x ys False))) (\<lambda>x. print_clause dir) xs)"

definition find_variants :: "abi_json \<Rightarrow> abi_json \<Rightarrow> char \<Rightarrow> diff_output" where
  "find_variants a b dir = use_value (json_member (aj_variants a)) (\<lambda>xs.
     find_entries (search_in (aj_variants b) (\<lambda>x ys. variant_found x ys False)) (\<lambda>x. ([(dir, Variant_entry x)], None)) xs)"

definition both_ways :: "(abi_json \<Rightarrow> abi_json \<Rightarrow> char \<Rightarrow> diff_output) \<Rightarrow> abi_json \<Rightarrow> abi_json \<Rightarrow> diff_output" where
  "both_ways f a b = and_then (f a b CHR ''<'') (f b a CHR ''>'')"

definition diff_variants :: "abi_json \<Rightarrow> abi_json \<Rightarrow> diff_output" where
  "diff_variants a b =
     use_value (get_version a) (\<lambda>x.
     if x \<ge> 11 then use_value (get_version b) (\<lambda>y. if y \<ge> 11 then both_ways find_variants a b else ([], None))
     else ([], None))"

definition abi_diff :: "abi_json \<Rightarrow> abi_json \<Rightarrow> diff_output" where
  "abi_diff a b =
     and_then (diff_version a b)
     (and_then (both_ways find_structs a b)
     (and_then (both_ways find_types a b)
     (and_then (both_ways find_actions a b)
     (and_then (both_ways find_tables a b)
     (and_then (both_ways find_clauses a b) (diff_variants a b))))))"

section \<open>What the searches find\<close>

text \<open>The second file has no two entries of one name. Then the entry of that name decides.\<close>

lemma td_name_notin: "td_name x \<notin> td_name ` set ys \<Longrightarrow> type_found x ys found = found"
  by (induction ys) auto

lemma type_found_eq: "distinct (map td_name ys) \<Longrightarrow> type_found x ys False \<longleftrightarrow> x \<in> set ys"
proof (induction ys)
  case (Cons y ys)
  have "td_name x = td_name y \<Longrightarrow> td_type x = td_type y \<longleftrightarrow> x = y" by (cases x; cases y) auto
  then show ?case using Cons by (cases "td_name x = td_name y") (auto simp: td_name_notin)
qed simp

lemma ac_name_notin: "ac_name x \<notin> ac_name ` set ys \<Longrightarrow> action_found x ys found = found"
  by (induction ys) auto

lemma action_found_eq: "distinct (map ac_name ys) \<Longrightarrow> action_found x ys False \<longleftrightarrow> x \<in> set ys"
proof (induction ys)
  case (Cons y ys)
  have "ac_name x = ac_name y \<Longrightarrow> ac_type x = ac_type y \<and> ac_contract x = ac_contract y \<longleftrightarrow> x = y"
    by (cases x; cases y) auto
  then show ?case using Cons by (cases "ac_name x = ac_name y") (auto simp: ac_name_notin)
qed simp

lemma ta_name_notin: "ta_name x \<notin> ta_name ` set ys \<Longrightarrow> table_found x ys found = found"
  by (induction ys) auto

text \<open>Tables are compared by their types, not by their indices and keys.\<close>

lemma table_found_eq:
  "distinct (map ta_name ys) \<Longrightarrow>
   table_found x ys False \<longleftrightarrow> (\<exists>y \<in> set ys. ta_name x = ta_name y \<and> ta_type x = ta_type y)"
proof (induction ys)
  case (Cons y ys)
  then show ?case by (cases "ta_name x = ta_name y") (auto simp: ta_name_notin)
qed simp

lemma cl_id_notin: "cl_id x \<notin> cl_id ` set ys \<Longrightarrow> clause_found x ys found = found"
  by (induction ys) auto

lemma clause_found_eq: "distinct (map cl_id ys) \<Longrightarrow> clause_found x ys False \<longleftrightarrow> x \<in> set ys"
proof (induction ys)
  case (Cons y ys)
  have "cl_id x = cl_id y \<Longrightarrow> cl_body x = cl_body y \<longleftrightarrow> x = y" by (cases x; cases y) auto
  then show ?case using Cons by (cases "cl_id x = cl_id y") (auto simp: cl_id_notin)
qed simp

text \<open>Structs are compared by the first of their fields: later ones cannot undo that it was found.\<close>

lemma fields_found_eq:
  "length fs = length gs \<Longrightarrow> fields_found fs gs found \<longleftrightarrow> found \<or> (fs \<noteq> [] \<and> hd fs = hd gs)"
proof (induction fs gs found rule: fields_found.induct)
  case (1 f fs g gs found)
  have "fd_name f = fd_name g \<and> fd_type f = fd_type g \<longleftrightarrow> f = g" by (cases f; cases g) auto
  then show ?case using 1 by auto
qed auto

definition struct_matches :: "abi_struct \<Rightarrow> abi_struct \<Rightarrow> bool" where
  "struct_matches s t \<longleftrightarrow> st_name s = st_name t \<and> st_base s = st_base t \<and>
     length (st_fields s) = length (st_fields t) \<and> st_fields s \<noteq> [] \<and> hd (st_fields s) = hd (st_fields t)"

lemma st_name_notin: "st_name x \<notin> st_name ` set ys \<Longrightarrow> struct_found x ys found = found"
  by (induction ys arbitrary: found) auto

lemma struct_found_eq:
  "distinct (map st_name ys) \<Longrightarrow> struct_found x ys False \<longleftrightarrow> (\<exists>y \<in> set ys. struct_matches x y)"
proof (induction ys)
  case (Cons y ys)
  show ?case
  proof (cases "st_name x = st_name y")
    case True
    then have "st_name x \<notin> st_name ` set ys" using Cons.prems by simp
    moreover from this have "\<forall>z \<in> set ys. \<not> struct_matches x z" by (auto simp: struct_matches_def)
    moreover note True
    ultimately
    show ?thesis by (auto simp: st_name_notin fields_found_eq struct_matches_def)
  qed (use Cons in \<open>auto simp: struct_matches_def\<close>)
qed simp

text \<open>Variants are compared by their names.\<close>

lemma va_name_notin: "va_name x \<notin> va_name ` set ys \<Longrightarrow> variant_found x ys found = Inr found"
  by (induction ys) auto

lemma variant_found_eq:
  "distinct (map va_name ys) \<Longrightarrow> y \<in> set ys \<Longrightarrow> va_name x = va_name y \<Longrightarrow>
   variant_found x ys False = bind_res (variant_types (va_types x) (va_types y)) (\<lambda>_. Inr True)"
proof (induction ys)
  case (Cons z ys)
  show ?case
  proof (cases "va_name x = va_name z")
    case True
    then have "va_name x \<notin> va_name ` set ys" using Cons.prems by simp
    moreover from this have "y = z" using Cons.prems(2,3) by auto
    ultimately show ?thesis using True by (simp add: va_name_notin)
  next
    case False
    then have "y \<in> set ys" using Cons.prems by auto
    then show ?thesis using False Cons by simp
  qed
qed simp

lemma variant_types_self: "variant_types as as = Inr ()"
  by (induction as) simp_all

section \<open>What is printed\<close>

lemma find_entries_filter:
  "\<forall>x \<in> set xs. found x = Inr (P x) \<Longrightarrow>
   find_entries found (\<lambda>x. ([(dir, e x)], None)) xs = (map (\<lambda>x. (dir, e x)) (filter (\<lambda>x. \<not> P x) xs), None)"
  by (induction xs) auto

lemma find_entries_all: "\<forall>x \<in> set xs. found x = Inr True \<Longrightarrow> find_entries found prn xs = ([], None)"
  by (induction xs) auto

text \<open>The structs printed are those with no struct of their name, base, number of fields and first field.\<close>

lemma find_structs_eq:
  assumes "aj_structs a = Some xs" and "aj_structs b = Some ys" and "distinct (map st_name ys)"
  shows "find_structs a b dir =
    (map (\<lambda>s. (dir, Struct_entry s)) (filter (\<lambda>s. \<not> (\<exists>t \<in> set ys. struct_matches s t)) xs), None)"
  using assms find_entries_filter [of xs "search_in (Some ys) (\<lambda>x ys. Inr (struct_found x ys False))"
      "\<lambda>s. \<exists>t \<in> set ys. struct_matches s t" dir Struct_entry]
  by (simp add: find_structs_def search_in_def struct_found_eq)

lemma find_types_eq:
  assumes "aj_types a = Some xs" and "aj_types b = Some ys" and "distinct (map td_name ys)"
  shows "find_types a b dir = (map (\<lambda>s. (dir, Type_entry s)) (filter (\<lambda>s. s \<notin> set ys) xs), None)"
  using assms by (simp add: find_types_def search_in_def type_found_eq find_entries_filter)

lemma find_actions_eq:
  assumes "aj_actions a = Some xs" and "aj_actions b = Some ys" and "distinct (map ac_name ys)"
  shows "find_actions a b dir = (map (\<lambda>s. (dir, Action_entry s)) (filter (\<lambda>s. s \<notin> set ys) xs), None)"
  using assms by (simp add: find_actions_def search_in_def action_found_eq find_entries_filter)

lemma find_tables_eq:
  assumes "aj_tables a = Some xs" and "aj_tables b = Some ys" and "distinct (map ta_name ys)"
  shows "find_tables a b dir = (map (\<lambda>s. (dir, Table_entry s))
    (filter (\<lambda>s. \<not> (\<exists>t \<in> set ys. ta_name s = ta_name t \<and> ta_type s = ta_type t)) xs), None)"
  using assms find_entries_filter [of xs "search_in (Some ys) (\<lambda>x ys. Inr (table_found x ys False))"
      "\<lambda>s. \<exists>t \<in> set ys. ta_name s = ta_name t \<and> ta_type s = ta_type t" dir Table_entry]
  by (simp add: find_tables_def search_in_def table_found_eq)

text \<open>A clause that the other file does not have ends the program with an exception.\<close>

lemma find_entries_first:
  "find_entries found (\<lambda>_. (out, Some e)) xs =
     (if \<exists>x \<in> set xs. found x = Inr False then (out, Some e) else ([], None))"
  if "\<forall>x \<in> set xs. \<exists>f. found x = Inr f"
  using that by (induction xs) auto

lemma find_clauses_eq:
  assumes "aj_clauses a = Some xs" and "aj_clauses b = Some ys" and "distinct (map cl_id ys)"
  shows "find_clauses a b dir =
    (if set xs \<subseteq> set ys then ([], None) else ([(dir, Clause_entry)], Some (Assertion ''Key not found'')))"
  using assms
  by (auto simp: find_clauses_def search_in_def clause_found_eq print_clause_def find_entries_first)

text \<open>A file differs from itself in its structs without fields, and in nothing else.\<close>

definition fieldless :: "char \<Rightarrow> abi_struct list \<Rightarrow> (char \<times> diff_entry) list" where
  "fieldless dir xs = map (\<lambda>s. (dir, Struct_entry s)) (filter (\<lambda>s. st_fields s = []) xs)"

lemma struct_matches_self:
  "distinct (map st_name xs) \<Longrightarrow> s \<in> set xs \<Longrightarrow> (\<exists>t \<in> set xs. struct_matches s t) \<longleftrightarrow> st_fields s \<noteq> []"
  by (auto simp: struct_matches_def)

lemma find_variants_self:
  assumes "aj_variants a = Some xs" and "distinct (map va_name xs)"
  shows "find_variants a a dir = ([], None)"
  using assms
  by (simp add: find_variants_def search_in_def variant_found_eq variant_types_self find_entries_all)

lemma abi_diff_self:
  assumes "complete_abi a" and "names_distinct a" and "get_version a = Inr v"
  shows "abi_diff a a =
    (fieldless CHR ''<'' (the (aj_structs a)) @ fieldless CHR ''>'' (the (aj_structs a)), None)"
proof -
  from assms(1) obtain ty st ac ta cl va where lists: "aj_types a = Some ty" "aj_structs a = Some st"
    "aj_actions a = Some ac" "aj_tables a = Some ta" "aj_clauses a = Some cl" "aj_variants a = Some va"
    by (auto simp: complete_abi_def)
  then have d: "distinct (map td_name ty)" "distinct (map st_name st)" "distinct (map ac_name ac)"
    "distinct (map ta_name ta)" "distinct (map cl_id cl)" "distinct (map va_name va)"
    using assms(2) by (simp_all add: names_distinct_def)
  have "find_structs a a dir = (fieldless dir st, None)" for dir
    using find_structs_eq [OF lists(2,2) d(2)] struct_matches_self [OF d(2)]
    by (simp add: fieldless_def cong: filter_cong)
  moreover have "find_types a a dir = ([], None)" for dir using find_types_eq [OF lists(1,1) d(1)] by simp
  moreover have "find_actions a a dir = ([], None)" for dir using find_actions_eq [OF lists(3,3) d(3)] by simp
  moreover have "find_tables a a dir = ([], None)" for dir
    using find_tables_eq [OF lists(4,4) d(4)] by (auto simp: filter_empty_conv)
  moreover have "find_clauses a a dir = ([], None)" for dir using find_clauses_eq [OF lists(5,5) d(5)] by simp
  moreover note find_variants_self [OF lists(6) d(6)]
  ultimately show ?thesis
    using assms(3) lists by (simp add: abi_diff_def both_ways_def diff_version_def diff_variants_def)
qed

end
