(* ===== verification/Uos_Abigen.thy ===== *)
theory Uos_Abigen
imports Uos_Abi_Diff "HOL-Library.List_Lexorder"
begin

text \<open>
  The part of abigen that works on names of types and on descriptions: the string functions of
  \<open>generation_utils\<close> in \<^verbatim>\<open>src/tools/include/uosio/gen.hpp\<close> and the class \<open>abigen\<close> of \<^verbatim>\<open>abigen.hpp\<close> from what its
  visitors have collected to the file it writes. What clang says of a declaration is not modelled:
  the visitors' descriptions come in as values.
\<close>

section \<open>Names of types\<close>

text \<open>The words that may stand before another word of a fundamental type, in the order they are tried.\<close>

definition valid_prefixs :: "string list" where
  "valid_prefixs = [''long'', ''signed'', ''unsigned'']"

text \<open>Whether such a word ends before position \<open>i\<close>.\<close>

definition prefix_before :: "string \<Rightarrow> nat \<Rightarrow> string \<Rightarrow> bool" where
  "prefix_before str i s \<longleftrightarrow>
     i \<ge> length s \<and> take (length s) (drop (i - length s) str) = s \<and>
     (i - length s = 0 \<or> str ! (i - length s - 1) = CHR '' '')"

function base_type_loop :: "string \<Rightarrow> int \<Rightarrow> int \<Rightarrow> string" where
  "base_type_loop str i nested =
     (if i > 0 then
        let c = str ! nat i;
            nested = (if c = CHR ''>'' then nested + 1 else nested);
            nested = (if c = CHR ''<'' then nested - 1 else nested)
        in if c = CHR '':'' \<and> nested = 0 then drop (nat i + 1) str
           else if c = CHR '' '' \<and> nested = 0 then
             (case find (prefix_before str (nat i)) valid_prefixs of
                Some s \<Rightarrow> base_type_loop str (i - int (length s) - 1) nested
              | None \<Rightarrow> drop (nat i + 1) str)
           else base_type_loop str (i - 1) nested
      else str)"
  by pat_completeness auto
termination by (relation "measure (\<lambda>(str, i, nested). nat i)") auto

definition get_base_type_name :: "string \<Rightarrow> string" where
  "get_base_type_name type_str = base_type_loop type_str (int (length type_str) - 1) 0"

declare base_type_loop.simps [simp del]

definition translation_table :: "(string \<times> string) list" where
  "translation_table =
     [(''unsigned __int128'', ''uint128''), (''__int128'', ''int128''), (''uint128_t'', ''uint128''),
      (''int128_t'', ''int128''), (''unsigned long long'', ''uint64''), (''long long'', ''int64''),
      (''uint64_t'', ''uint64''), (''int64_t'', ''int64''), (''unsigned long'', ''uint32''), (''long'', ''int32''),
      (''unsigned int'', ''uint32''), (''int'', ''int32''), (''uint32_t'', ''uint32''), (''int32_t'', ''int32''),
      (''unsigned short'', ''uint16''), (''short'', ''int16''), (''uint16_t'', ''uint16''),
      (''int16_t'', ''int16''), (''unsigned char'', ''uint8''), (''signed char'', ''int8''), (''char'', ''int8''),
      (''uint8_t'', ''uint8''), (''int8_t'', ''int8''), (''_Bool'', ''bool''), (''float'', ''float32''),
      (''double'', ''float64''), (''long double'', ''float128''), (''unsigned_int'', ''varuint32''),
      (''signed_int'', ''varint32''), (''block_timestamp'', ''block_timestamp_type''), (''capi_name'', ''name''),
      (''capi_public_key'', ''public_key''), (''capi_signature'', ''signature''),
      (''capi_checksum160'', ''checksum160''), (''capi_checksum256'', ''checksum256''),
      (''capi_checksum512'', ''checksum512''), (''fixed_bytes_20'', ''checksum160''),
      (''fixed_bytes_32'', ''checksum256''), (''fixed_bytes_64'', ''checksum512'')]"

text \<open>\<open>_translate_type\<close> on a string: \<open>operator[]\<close> gives the empty string for a missing key.\<close>

definition translate_name :: "string \<Rightarrow> string" where
  "translate_name t =
     (let ret = (case map_of translation_table t of Some r \<Rightarrow> r | None \<Rightarrow> []) in if ret = [] then t else ret)"

definition replace_in_name :: "string \<Rightarrow> string" where
  "replace_in_name n =
     map (\<lambda>c. if c \<in> {CHR ''<'', CHR ''>'', CHR '','', CHR '' '', CHR '':''} then CHR ''_'' else c) n"

definition builtins :: "string list" where
  "builtins =
     [''bool'', ''int8'', ''uint8'', ''int16'', ''uint16'', ''int32'', ''uint32'', ''int64'', ''uint64'', ''int128'', ''uint128'',
      ''varint32'', ''varuint32'', ''float32'', ''float64'', ''float128'', ''time_point'', ''time_point_sec'', ''name'',
      ''bytes'', ''string'', ''block_timestamp_type'', ''checksum160'', ''checksum256'', ''checksum512'', ''public_key'',
      ''signature'', ''symbol'', ''symbol_code'', ''asset'', ''extended_asset'']"

definition is_builtin_type :: "string \<Rightarrow> bool" where
  "is_builtin_type t \<longleftrightarrow> translate_name t \<in> set builtins"

text \<open>\<open>remove_suffix\<close> of \<open>to_json\<close>, over the first \<open>n\<close> characters.\<close>

fun suffix_end :: "string \<Rightarrow> nat \<Rightarrow> nat" where
  "suffix_end s 0 = 0"
| "suffix_end s (Suc i) =
     (if s ! i \<noteq> CHR ''['' \<and> s ! i \<noteq> CHR '']'' \<and> s ! i \<noteq> CHR ''?'' \<and> s ! i \<noteq> CHR ''$'' then Suc i else suffix_end s i)"

definition remove_suffix :: "string \<Rightarrow> string" where
  "remove_suffix n = take (suffix_end n (length n)) n"

section \<open>What is collected\<close>

text \<open>\<open>std::set\<close> with the order of the names: a list in its order, to which no second entry of a name is added.\<close>

fun set_insert :: "('o \<Rightarrow> string) \<Rightarrow> 'o \<Rightarrow> 'o list \<Rightarrow> 'o list" where
  "set_insert oid x [] = [x]"
| "set_insert oid x (y # ys) =
     (if oid x < oid y then x # y # ys
      else if oid y < oid x then y # set_insert oid x ys
      else y # ys)"

record abigen =
  ag_version :: string
  ag_structs :: "abi_struct list"
  ag_typedefs :: "abi_typedef list"
  ag_actions :: "abi_action list"
  ag_tables :: "abi_table list"
  ag_variants :: "abi_variant list"
  ag_clauses :: "abi_ricardian_clause_pair list"
  ag_ctables :: "abi_table list"
  ag_rcs :: "string \<rightharpoonup> string"

definition abigen_make :: abigen where
  "abigen_make = \<lparr>ag_version = ''uosio::abi/1.1'', ag_structs = [], ag_typedefs = [], ag_actions = [],
     ag_tables = [], ag_variants = [], ag_clauses = [], ag_ctables = [], ag_rcs = (\<lambda>_. None)\<rparr>"

definition add_clauses :: "(string \<times> string) list \<Rightarrow> abigen \<Rightarrow> abigen" where
  "add_clauses clauses g =
     g\<lparr>ag_clauses := foldl (\<lambda>cs (i, b). cs @ [\<lparr>cl_id = i, cl_body = b\<rparr>]) (ag_clauses g) clauses\<rparr>"

definition add_contracts :: "(string \<rightharpoonup> string) \<Rightarrow> abigen \<Rightarrow> abigen" where
  "add_contracts rc g = g\<lparr>ag_rcs := rc\<rparr>"

text \<open>The tables of the attributes and those of the uses of \<open>multi_index\<close>.\<close>

fun tables_before :: "abi_table \<Rightarrow> abi_table list \<Rightarrow> abi_table list \<Rightarrow> bool \<times> abi_table list" where
  "tables_before t [] acc = (False, acc)"
| "tables_before t (u # us) acc =
     (if ta_type t = ta_type u then (True, acc) else tables_before t us (set_insert ta_name u acc))"

definition set_of_tables :: "abigen \<Rightarrow> abi_table list" where
  "set_of_tables g =
     (let acc = foldl (\<lambda>acc t.
            let (has_multi_index, acc) = tables_before t (ag_tables g) acc
            in if \<not> has_multi_index then set_insert ta_name t acc else acc) [] (ag_ctables g)
      in foldl (\<lambda>acc t. set_insert ta_name t acc) acc (ag_tables g))"

definition is_empty :: "abigen \<Rightarrow> bool" where
  "is_empty g \<longleftrightarrow> ag_structs g = [] \<and> ag_typedefs g = [] \<and> ag_actions g = [] \<and> set_of_tables g = [] \<and>
     ag_clauses g = [] \<and> ag_variants g = []"

section \<open>What is written\<close>

definition validate_struct :: "abigen \<Rightarrow> abi_struct \<Rightarrow> bool" where
  "validate_struct g as =
     (if is_builtin_type (translate_name (st_name as)) then False
      else
        list_ex (\<lambda>s.
          list_ex (\<lambda>f. st_name as = translate_name (remove_suffix (fd_type f))) (st_fields s) \<or>
          list_ex (\<lambda>v. list_ex (\<lambda>vt. st_name as = translate_name (remove_suffix vt)) (va_types v)) (ag_variants g) \<or>
          st_base s = st_name as) (ag_structs g) \<or>
        list_ex (\<lambda>a. st_name as = translate_name (ac_type a)) (ag_actions g) \<or>
        list_ex (\<lambda>t. st_name as = translate_name (ta_type t)) (set_of_tables g) \<or>
        list_ex (\<lambda>td. st_name as = translate_name (remove_suffix (td_type td))) (ag_typedefs g))"

definition validate_types :: "abigen \<Rightarrow> abi_typedef \<Rightarrow> bool" where
  "validate_types g td \<longleftrightarrow>
     list_ex (\<lambda>as. validate_struct g as \<and> list_ex (\<lambda>f. remove_suffix (fd_type f) = td_name td) (st_fields as)) (ag_structs g) \<or>
     list_ex (\<lambda>t. ta_type t = td_name td) (ag_tables g) \<or>
     list_ex (\<lambda>a. ac_type a = td_name td) (ag_actions g) \<or>
     list_ex (\<lambda>t. remove_suffix (td_type t) = td_name td) (ag_typedefs g)"

definition table_to_json :: "abi_table \<Rightarrow> abi_table" where
  "table_to_json t = \<lparr>ta_name = ta_name t, ta_type = ta_type t, ta_index_type = ''i64'', ta_key_names = [], ta_key_types = []\<rparr>"

definition generate_json_comment :: string where
  "generate_json_comment = ''This file was generated with uosio-abigen. DO NOT EDIT ''"

definition to_json :: "abigen \<Rightarrow> abi_json" where
  "to_json g =
     \<lparr>aj_comment = Some generate_json_comment, aj_version = Some (ag_version g),
      aj_types = Some (filter (validate_types g) (ag_typedefs g)),
      aj_structs = Some (filter (validate_struct g) (ag_structs g)),
      aj_actions = Some (ag_actions g),
      aj_tables = Some (map table_to_json (set_of_tables g)),
      aj_clauses = Some (ag_clauses g),
      aj_variants = Some (ag_variants g)\<rparr>"

section \<open>The base name of a type\<close>

text \<open>
  The name of a type in its scope: its angle brackets are balanced, and every colon and space of it
  is inside a pair of them.
\<close>

definition bracket_depth :: "string \<Rightarrow> int" where
  "bracket_depth v = int (count_list v CHR ''>'') - int (count_list v CHR ''<'')"

definition unqualified :: "string \<Rightarrow> bool" where
  "unqualified n \<longleftrightarrow> bracket_depth n = 0 \<and>
     list_all (\<lambda>i. n ! i = CHR '':'' \<or> n ! i = CHR '' '' \<longrightarrow> bracket_depth (drop (Suc i) n) \<noteq> 0) [0..<length n]"

lemma unqualified_split:
  assumes "unqualified n" and "n = u @ c # v" and "c = CHR '':'' \<or> c = CHR '' ''"
  shows "bracket_depth v \<noteq> 0"
proof -
  have "length u \<in> set [0..<length n]" and "n ! length u = c" and "drop (Suc (length u)) n = v"
    using assms(2) by simp_all
  then show ?thesis using assms(1,3) unfolding unqualified_def list_all_iff by metis
qed

lemma bracket_depth_Cons:
  "bracket_depth (c # v) =
   (if c = CHR ''>'' then bracket_depth v + 1 else if c = CHR ''<'' then bracket_depth v - 1 else bracket_depth v)"
  by (simp add: bracket_depth_def)

lemma base_type_loop_scan:
  assumes "\<And>u' c v'. u = u' @ c # v' \<Longrightarrow> c = CHR '':'' \<or> c = CHR '' '' \<Longrightarrow> bracket_depth (v' @ v) \<noteq> 0" and "q \<noteq> []"
  shows "base_type_loop (q @ u @ v) (int (length (q @ u)) - 1) (bracket_depth v) =
    base_type_loop (q @ u @ v) (int (length q) - 1) (bracket_depth (u @ v))"
  using assms(1)
proof (induction u arbitrary: v rule: rev_induct)
  case (snoc c u)
  have "0 < length (q @ u)" using assms(2) by simp
  moreover have "c = CHR '':'' \<or> c = CHR '' '' \<Longrightarrow> bracket_depth v \<noteq> 0" using snoc.prems [of u c "[]"] by simp
  moreover have "(q @ u @ c # v) ! nat (int (length (q @ u))) = c"
    using nth_append_length [of "q @ u" c v] by (simp only: nat_int append_assoc)
  ultimately have "base_type_loop (q @ u @ c # v) (int (length (q @ u))) (bracket_depth v) =
      base_type_loop (q @ u @ c # v) (int (length (q @ u)) - 1) (bracket_depth (c # v))"
    by (subst base_type_loop.simps) (simp only: Let_def bracket_depth_Cons of_nat_0_less_iff, auto)
  also have "\<dots> = base_type_loop (q @ u @ c # v) (int (length q) - 1) (bracket_depth (u @ c # v))"
    using snoc.prems by (intro snoc.IH) (metis append.assoc append_Cons append_Nil)
  finally show ?case by (simp add: algebra_simps)
qed simp

text \<open>The scope, or the words before the last space, are cut off.\<close>

lemma get_base_type_name_eq:
  assumes "unqualified n" and "p \<noteq> []"
    and "c = CHR '':'' \<or> c = CHR '' '' \<and> (\<forall>s \<in> set valid_prefixs. \<forall>x. p \<noteq> x @ s)"
  shows "get_base_type_name (p @ c # n) = n"
proof -
  have "base_type_loop ((p @ [c]) @ n @ []) (int (length ((p @ [c]) @ n)) - 1) (bracket_depth []) =
      base_type_loop ((p @ [c]) @ n @ []) (int (length (p @ [c])) - 1) (bracket_depth (n @ []))"
    using unqualified_split [OF assms(1)] by (intro base_type_loop_scan) simp_all
  moreover have "base_type_loop (p @ c # n) (int (length p)) 0 = n"
  proof -
    have "find (prefix_before (p @ c # n) (length p)) valid_prefixs = None" if "c = CHR '' ''"
    proof -
      have "\<not> prefix_before (p @ c # n) (length p) s" if s: "s \<in> set valid_prefixs" for s
      proof
        assume pre: "prefix_before (p @ c # n) (length p) s"
        then have "length s \<le> length p" and "take (length s) (drop (length p - length s) (p @ c # n)) = s"
          unfolding prefix_before_def by blast+
        then have "drop (length p - length s) p = s" by simp
        then have "p = take (length p - length s) p @ s" using append_take_drop_id [of "length p - length s" p] by simp
        then show False using assms(3) \<open>c = CHR '' ''\<close> s by blast
      qed
      then show ?thesis by (simp add: find_None_iff)
    qed
    moreover have "(p @ c # n) ! nat (int (length p)) = c" and "0 < int (length p)"
      and "drop (nat (int (length p)) + 1) (p @ c # n) = n" using assms(2) by simp_all
    ultimately show ?thesis
      using assms(3) by (subst base_type_loop.simps) (elim disjE conjE; simp only: Let_def, simp)
  qed
  ultimately show ?thesis
    using assms(1) by (simp add: get_base_type_name_def bracket_depth_def unqualified_def)
qed

text \<open>Every name the table translates becomes a builtin type, and translating again changes nothing.\<close>

lemma table_targets: "list_all (\<lambda>(k, v). v \<in> set builtins \<and> v \<noteq> [] \<and> map_of translation_table v = None) translation_table"
  by code_simp

lemma translate_name_cases:
  "translate_name t = t \<and> map_of translation_table t = None \<or>
   translate_name t \<in> set builtins \<and> map_of translation_table (translate_name t) = None"
proof (cases "map_of translation_table t")
  case (Some r)
  then have "(t, r) \<in> set translation_table" by (rule map_of_SomeD)
  then show ?thesis using table_targets Some by (auto simp: list_all_iff translate_name_def)
qed (simp add: translate_name_def)

lemma translate_name_idem: "translate_name (translate_name t) = translate_name t"
  using translate_name_cases [of t] by (auto simp: translate_name_def)

lemma is_builtin_translate: "is_builtin_type (translate_name t) = is_builtin_type t"
  by (simp add: is_builtin_type_def translate_name_idem)

section \<open>Ordered sets\<close>

abbreviation set_of_names :: "('o \<Rightarrow> string) \<Rightarrow> 'o list \<Rightarrow> bool" where
  "set_of_names oid xs \<equiv> sorted_wrt (\<lambda>x y. oid x < oid y) xs"

lemma set_insert_names: "oid ` set (set_insert oid x xs) = insert (oid x) (oid ` set xs)"
  by (induction xs) (auto simp: not_less_iff_gr_or_eq)

lemma set_insert_subset: "set xs \<subseteq> set (set_insert oid x xs) \<and> set (set_insert oid x xs) \<subseteq> insert x (set xs)"
  by (induction xs) auto

lemma set_insert_ok: "set_of_names oid xs \<Longrightarrow> set_of_names oid (set_insert oid x xs)"
proof (induction xs)
  case (Cons y ys)
  have "oid ` set (set_insert oid x ys) = insert (oid x) (oid ` set ys)" by (rule set_insert_names)
  then have "\<forall>z \<in> set (set_insert oid x ys). oid z \<in> insert (oid x) (oid ` set ys)" by blast
  then show ?case using Cons by (auto intro: less_trans)
qed simp

lemma set_of_names_distinct: "set_of_names oid xs \<Longrightarrow> distinct (map oid xs)"
  by (induction xs) auto

text \<open>The table set is ordered, and what is in it comes from the two sets of tables.\<close>

lemma tables_before_ok:
  "set_of_names ta_name acc \<Longrightarrow> tables_before t us acc = (m, acc') \<Longrightarrow>
   set_of_names ta_name acc' \<and> set acc \<subseteq> set acc' \<and> set acc' \<subseteq> set acc \<union> set us \<and>
   (\<not> m \<longrightarrow> ta_type t \<notin> ta_type ` set us)"
proof (induction t us acc rule: tables_before.induct)
  case (2 t u us acc)
  show ?case
  proof (cases "ta_type t = ta_type u")
    case False
    then have "set_of_names ta_name acc' \<and> set (set_insert ta_name u acc) \<subseteq> set acc' \<and>
        set acc' \<subseteq> set (set_insert ta_name u acc) \<union> set us \<and> (\<not> m \<longrightarrow> ta_type t \<notin> ta_type ` set us)"
      using 2(1) [OF False set_insert_ok [OF 2(2)]] 2(3) by simp
    then show ?thesis using set_insert_subset [of acc ta_name u] False by auto
  qed (use 2 in auto)
qed auto

lemma tables_before_found: "fst (tables_before t us acc) \<longleftrightarrow> ta_type t \<in> ta_type ` set us"
  by (induction t us acc rule: tables_before.induct) auto

lemma foldl_insert_ok:
  "set_of_names ta_name acc \<Longrightarrow>
   set_of_names ta_name (foldl (\<lambda>acc t. set_insert ta_name t acc) acc us) \<and>
   set acc \<subseteq> set (foldl (\<lambda>acc t. set_insert ta_name t acc) acc us) \<and>
   set (foldl (\<lambda>acc t. set_insert ta_name t acc) acc us) \<subseteq> set acc \<union> set us \<and>
   ta_name ` set (foldl (\<lambda>acc t. set_insert ta_name t acc) acc us) = ta_name ` (set acc \<union> set us)"
proof (induction us arbitrary: acc)
  case (Cons u us)
  show ?case
    using Cons.IH [OF set_insert_ok [OF Cons.prems, of u]] set_insert_subset [of acc ta_name u]
      set_insert_names [of ta_name u acc]
    by (auto simp: image_Un)
qed simp

definition add_ctable :: "abi_table list \<Rightarrow> abi_table list \<Rightarrow> abi_table \<Rightarrow> abi_table list" where
  "add_ctable us acc t =
     (let (has_multi_index, acc) = tables_before t us acc
      in if \<not> has_multi_index then set_insert ta_name t acc else acc)"

lemma add_ctable_ok:
  assumes "set_of_names ta_name acc"
  shows "set_of_names ta_name (add_ctable us acc t) \<and> set acc \<subseteq> set (add_ctable us acc t) \<and>
    set (add_ctable us acc t) \<subseteq> set acc \<union> set us \<union> {t} \<and>
    (ta_type t \<notin> ta_type ` set us \<longrightarrow> ta_name t \<in> ta_name ` set (add_ctable us acc t))"
proof -
  obtain m acc' where m: "tables_before t us acc = (m, acc')" by (cases "tables_before t us acc")
  note ok = tables_before_ok [OF assms m]
  have "m \<longleftrightarrow> ta_type t \<in> ta_type ` set us" using tables_before_found [of t us acc] m by simp
  then show ?thesis
    using ok m set_insert_ok [of ta_name acc' t] set_insert_subset [of acc' ta_name t] set_insert_names [of ta_name t acc']
    by (auto simp: add_ctable_def)
qed

lemma foldl_ctables_ok:
  "set_of_names ta_name acc \<Longrightarrow>
   set_of_names ta_name (foldl (add_ctable us) acc cs) \<and> set acc \<subseteq> set (foldl (add_ctable us) acc cs) \<and>
   set (foldl (add_ctable us) acc cs) \<subseteq> set acc \<union> set us \<union> set cs \<and>
   (\<forall>t \<in> set cs. ta_type t \<notin> ta_type ` set us \<longrightarrow> ta_name t \<in> ta_name ` set (foldl (add_ctable us) acc cs))"
proof (induction cs arbitrary: acc)
  case (Cons c cs)
  note c = add_ctable_ok [OF Cons.prems, of us c]
  note rest = Cons.IH [OF c [THEN conjunct1]]
  have "ta_name ` set (add_ctable us acc c) \<subseteq> ta_name ` set (foldl (add_ctable us) (add_ctable us acc c) cs)"
    using rest by (intro image_mono) blast
  then show ?case using c rest by auto
qed simp

lemma set_of_tables_eq:
  "set_of_tables g =
   foldl (\<lambda>acc t. set_insert ta_name t acc) (foldl (add_ctable (ag_tables g)) [] (ag_ctables g)) (ag_tables g)"
  by (simp add: set_of_tables_def add_ctable_def [abs_def])

text \<open>Every table of a \<open>multi_index\<close> is in it, and every other table whose type has none.\<close>

lemma set_of_tables_ok:
  shows "set_of_names ta_name (set_of_tables g)"
    and "set (set_of_tables g) \<subseteq> set (ag_ctables g) \<union> set (ag_tables g)"
    and "t \<in> set (ag_tables g) \<Longrightarrow> ta_name t \<in> ta_name ` set (set_of_tables g)"
    and "t \<in> set (ag_ctables g) \<Longrightarrow> ta_type t \<notin> ta_type ` set (ag_tables g) \<Longrightarrow>
      ta_name t \<in> ta_name ` set (set_of_tables g)"
proof -
  let ?c = "foldl (add_ctable (ag_tables g)) [] (ag_ctables g)"
  have c: "set_of_names ta_name ?c \<and> set ?c \<subseteq> set (ag_tables g) \<union> set (ag_ctables g) \<and>
      (\<forall>t \<in> set (ag_ctables g). ta_type t \<notin> ta_type ` set (ag_tables g) \<longrightarrow> ta_name t \<in> ta_name ` set ?c)"
    using foldl_ctables_ok [of "[]" "ag_tables g" "ag_ctables g"] by simp
  note all = foldl_insert_ok [OF c [THEN conjunct1], of "ag_tables g"]
  have names: "ta_name ` set (set_of_tables g) = ta_name ` set ?c \<union> ta_name ` set (ag_tables g)"
    unfolding set_of_tables_eq using all by (simp add: image_Un)
  show "set_of_names ta_name (set_of_tables g)" unfolding set_of_tables_eq using all by simp
  have "set (set_of_tables g) \<subseteq> set ?c \<union> set (ag_tables g)" unfolding set_of_tables_eq using all by simp
  then show "set (set_of_tables g) \<subseteq> set (ag_ctables g) \<union> set (ag_tables g)" using c by auto
  show "t \<in> set (ag_tables g) \<Longrightarrow> ta_name t \<in> ta_name ` set (set_of_tables g)"
    and "t \<in> set (ag_ctables g) \<Longrightarrow> ta_type t \<notin> ta_type ` set (ag_tables g) \<Longrightarrow>
      ta_name t \<in> ta_name ` set (set_of_tables g)"
    unfolding names using c by simp_all
qed

section \<open>The file and the other tools\<close>

text \<open>What the visitors leave behind: sets of names, clauses of different names, a version with a number.\<close>

definition abigen_ok :: "abigen \<Rightarrow> bool" where
  "abigen_ok g \<longleftrightarrow>
     set_of_names st_name (ag_structs g) \<and> set_of_names td_name (ag_typedefs g) \<and>
     set_of_names ac_name (ag_actions g) \<and> set_of_names va_name (ag_variants g) \<and>
     distinct (map cl_id (ag_clauses g)) \<and> ag_version g = ''uosio::abi/1.1''"

lemma to_json_complete: "complete_abi (to_json g)"
  by (simp add: complete_abi_def to_json_def)

lemma to_json_distinct:
  assumes "abigen_ok g"
  shows "names_distinct (to_json g)"
proof -
  have "distinct (map ta_name (map table_to_json (set_of_tables g)))"
    using set_of_names_distinct [OF set_of_tables_ok(1) [of g]] by (simp add: table_to_json_def comp_def)
  then show ?thesis
    using assms by (simp add: names_distinct_def to_json_def abigen_ok_def set_of_names_distinct distinct_map_filter)
qed

lemma to_json_version:
  assumes "abigen_ok g"
  shows "version_number (the (aj_version (to_json g))) = Inr (Finite (11 / 10))" and "get_version (to_json g) = Inr 11"
proof -
  have v: "version_number ''uosio::abi/1.1'' = Inr (Finite (11 / 10))" by code_simp
  then show "version_number (the (aj_version (to_json g))) = Inr (Finite (11 / 10))"
    using assms by (simp add: to_json_def abigen_ok_def)
  show "get_version (to_json g) = Inr 11"
    using assms v by (simp add: to_json_def abigen_ok_def get_version_def)
qed

text \<open>The file merges with itself without change, and abidiff shows its structs without fields only.\<close>

lemma to_json_merge: "abigen_ok g \<Longrightarrow> abi_merge (to_json g) (to_json g) = Inr (to_json g)"
  by (intro abi_merge_self) (simp_all add: to_json_complete to_json_distinct to_json_version)

lemma to_json_diff:
  "abigen_ok g \<Longrightarrow> abi_diff (to_json g) (to_json g) =
    (fieldless CHR ''<'' (the (aj_structs (to_json g))) @ fieldless CHR ''>'' (the (aj_structs (to_json g))), None)"
  by (intro abi_diff_self [where v = 11]) (simp_all add: to_json_complete to_json_distinct to_json_version)

text \<open>
  A struct is written when a written or unwritten description refers to it; a type synonym that only
  a variant refers to is not.
\<close>

lemma validate_struct_field:
  assumes "s \<in> set (ag_structs g)" and "f \<in> set (st_fields s)" and "t \<in> set (ag_structs g)"
    and "translate_name (remove_suffix (fd_type f)) = st_name t" and "\<not> is_builtin_type (st_name t)"
  shows "t \<in> set (the (aj_structs (to_json g)))"
  using assms by (simp add: to_json_def validate_struct_def is_builtin_translate list_ex_iff) metis

lemma validate_struct_action:
  assumes "a \<in> set (ag_actions g)" and "t \<in> set (ag_structs g)"
    and "translate_name (ac_type a) = st_name t" and "\<not> is_builtin_type (st_name t)"
  shows "t \<in> set (the (aj_structs (to_json g)))"
  using assms by (simp add: to_json_def validate_struct_def is_builtin_translate list_ex_iff) metis

lemma variant_typedef_lost:
  assumes "abigen_ok g" and "td \<in> set (ag_typedefs g)"
    and "\<forall>s \<in> set (ag_structs g). \<forall>f \<in> set (st_fields s). remove_suffix (fd_type f) \<noteq> td_name td"
    and "\<forall>t \<in> set (ag_tables g). ta_type t \<noteq> td_name td" and "\<forall>a \<in> set (ag_actions g). ac_type a \<noteq> td_name td"
    and "\<forall>t \<in> set (ag_typedefs g). remove_suffix (td_type t) \<noteq> td_name td"
  shows "td \<notin> set (the (aj_types (to_json g)))"
  using assms by (auto simp: to_json_def validate_types_def list_ex_iff)

text \<open>The suffixes of a type are cut off at the end.\<close>

lemma suffix_end_append: "n \<le> length a \<Longrightarrow> suffix_end (a @ b) n = suffix_end a n"
  by (induction n) (simp_all add: nth_append)

lemma remove_suffix_append:
  assumes "n \<noteq> []" and "last n \<notin> set ''[]?$''" and "set suf \<subseteq> set ''[]?$''"
  shows "remove_suffix (n @ suf) = n"
proof -
  have "suffix_end (n @ suf) (length (n @ suf)) = length n"
    using assms(3)
  proof (induction suf rule: rev_induct)
    case Nil
    obtain m c where "n = m @ [c]" using assms(1) by (cases n rule: rev_cases) auto
    then show ?case using assms(2) by auto
  next
    case (snoc c suf)
    have "suffix_end (n @ suf @ [c]) (length (n @ suf)) = suffix_end (n @ suf) (length (n @ suf))"
      using suffix_end_append [of "length (n @ suf)" "n @ suf" "[c]"] by simp
    then show ?case using snoc by (auto simp: nth_append)
  qed
  then show ?thesis by (simp add: remove_suffix_def)
qed

end
