(* ===== verification/Uos_Tool_Names.thy ===== *)
theory Uos_Tool_Names
imports Uos_Name
begin

text \<open>
  The names of the command line tools, from \<^verbatim>\<open>src/tools/include/uosio/utils.hpp\<close>: the tools do not use
  the class \<open>name\<close> of the contract library but a conversion of their own, with which abigen and codegen
  check the names of actions, tables and notifications. This theory translates it and proves that
  the two agree where the tools accept a name.
\<close>

section \<open>Conversion\<close>

definition char_to_symbol :: "char \<Rightarrow> u64" where
  "char_to_symbol c =
     (if CHR ''a'' \<le> c \<and> c \<le> CHR ''z'' then of_nat (of_char c) - 97 + 6
      else if CHR ''1'' \<le> c \<and> c \<le> CHR ''5'' then of_nat (of_char c) - 49 + 1
      else 0)"

text \<open>What a read of the C string behind a \<open>std::string\<close> gives: its characters, then a NUL.\<close>

definition c_char :: "string \<Rightarrow> nat \<Rightarrow> char" where
  "c_char str i = (if i < length str then str ! i else CHR 0x00)"

text \<open>The loop returns the index at which it stops and the value.\<close>

function string_to_name_loop :: "string \<Rightarrow> nat \<Rightarrow> u64 \<Rightarrow> nat \<times> u64" where
  "string_to_name_loop str i v =
     (if c_char str i \<noteq> CHR 0x00 \<and> i < 12
      then string_to_name_loop str (i + 1) (v OR push_bit (64 - 5 * (i + 1)) (char_to_symbol (c_char str i) AND 0x1f))
      else (i, v))"
  by pat_completeness auto
termination by (relation "measure (\<lambda>(str, i, v). 12 - i)") auto

definition string_to_name :: "string \<Rightarrow> u64" where
  "string_to_name str =
     (let (i, v) = string_to_name_loop str 0 0
      in if i = 12 then v OR (char_to_symbol (c_char str 12) AND 0x0F) else v)"

text \<open>The loop of \<open>validate_name\<close> and \<open>name_to_string\<close> that writes the characters, last one first.\<close>

function unpack_loop :: "nat \<Rightarrow> u64 \<Rightarrow> string \<Rightarrow> string" where
  "unpack_loop i tmp str =
     (if i \<le> 12
      then unpack_loop (i + 1) (drop_bit (if i = 0 then 4 else 5) tmp)
             (str[12 - i := charmap ! unat (tmp AND (if i = 0 then 0x0f else 0x1f))])
      else str)"
  by pat_completeness auto
termination by (relation "measure (\<lambda>(i, tmp, str). 13 - i)") auto

text \<open>The search for the last character that is no dot, over the first \<open>n\<close> characters; one more than its index.\<close>

fun last_not_dot :: "string \<Rightarrow> nat \<Rightarrow> nat" where
  "last_not_dot str 0 = 0"
| "last_not_dot str (Suc n) = (if str ! n \<noteq> CHR ''.'' then Suc n else last_not_dot str n)"

text \<open>\<open>trim\<close> of \<open>validate_name\<close>, whose index runs down to -1.\<close>

definition trim :: "string \<Rightarrow> string" where
  "trim str = take (last_not_dot str (length str)) str"

text \<open>\<open>trim_right_dots\<close> of \<open>name_to_string\<close>, which leaves a string of dots as it is.\<close>

definition trim_right_dots :: "string \<Rightarrow> string" where
  "trim_right_dots str =
     (let last = last_not_dot str (length str) in if last \<noteq> 0 then take last str else str)"

text \<open>What \<open>validate_name\<close> reports: it prints a message and calls the error handler, or returns.\<close>

datatype name_report = Name_Accepted | Name_Too_Long | Name_Not_Normalized

definition validate_name :: "string \<Rightarrow> name_report" where
  "validate_name str =
     (if length str > 13 then Name_Too_Long
      else
        let value = string_to_name str;
            str2 = trim (unpack_loop 0 value (replicate 13 CHR ''.''))
        in if str2 \<noteq> str then Name_Not_Normalized else Name_Accepted)"

definition tool_name_to_string :: "u64 \<Rightarrow> string" where
  "tool_name_to_string nm = trim_right_dots (unpack_loop 0 nm (replicate 13 CHR ''.''))"

declare string_to_name_loop.simps [simp del] unpack_loop.simps [simp del]

section \<open>Unpacking\<close>

text \<open>The digit of a value at a position, from the front.\<close>

definition digit_at :: "nat \<Rightarrow> nat \<Rightarrow> nat" where
  "digit_at n j = (n mod weight_above j) div weight j"

lemma weight_above_dvd: "Suc i \<le> j \<Longrightarrow> j < 13 \<Longrightarrow> weight_above j dvd weight i"
  by (simp add: weight_above_power weight_def le_imp_power_dvd)

lemma digit_at_less: "j < 13 \<Longrightarrow> digit_at n j < 32"
  by (elim less_13_cases)
    (simp_all add: digit_at_def weight_above_power weight_def less_mult_imp_div_less)

lemma digits_upto_nth:
  "n < weight_above i \<Longrightarrow> i \<le> 13 \<Longrightarrow> digits_upto i n = map (digit_at n) [i..<13]"
proof (induction i n rule: digits_upto.induct)
  case (1 i n)
  show ?case
  proof (cases "i < 13")
    case True
    have "digit_at (n mod weight i) j = digit_at n j" if "j \<in> set [Suc i..<13]" for j
      using that weight_above_dvd [of i j] by (simp add: digit_at_def mod_mod_cancel)
    moreover have "digits_upto (Suc i) (n mod weight i) = map (digit_at (n mod weight i)) [Suc i..<13]"
      using 1(1) True by (simp add: weight_above_Suc)
    ultimately show ?thesis
      using 1(2) True by (subst digits_upto.simps) (simp add: upt_conv_Cons digit_at_def)
  qed (use 1 in \<open>simp add: digits_upto.simps\<close>)
qed

lemma div_power_mod: "m div 2 ^ a mod 2 ^ b = (m mod 2 ^ (a + b)) div (2 ^ a :: nat)"
  by (simp add: power_add mod_mult2_eq)

text \<open>What is left of the value in round \<open>i\<close> of the loop.\<close>

definition shifted :: "nat \<Rightarrow> nat" where
  "shifted i = (if i = 0 then 0 else 5 * i - 1)"

lemma digit_at_shifted:
  assumes "i \<le> 12"
  shows "unat (drop_bit (shifted i) (v :: u64) AND (if i = 0 then 0x0f else 0x1f)) = digit_at (unat v) (12 - i)"
proof -
  have "m AND 15 = m mod 2 ^ 4" and "m AND 31 = m mod 2 ^ 5" for m :: nat
    using nat_and_mask [of m 4] nat_and_mask [of m 5] by (simp_all add: mask_eq_exp_minus_1)
  then have "unat (drop_bit (shifted i) v AND (if i = 0 then 0x0f else 0x1f)) =
      unat v div 2 ^ shifted i mod 2 ^ (if i = 0 then 4 else 5)"
    by (simp add: unat_and unat_drop_div)
  also have "\<dots> = digit_at (unat v) (12 - i)"
  proof (cases "i = 0")
    case False
    then have "59 - 5 * (12 - i) = 5 * i - 1" and "5 * i - 1 + 5 = 4 + 5 * i" using assms by simp_all
    then show ?thesis
      using assms False div_power_mod [of "unat v" "5 * i - 1" 5]
      by (simp add: digit_at_def weight_above_power weight_def shifted_def)
  qed (simp add: digit_at_def weight_above_power weight_def shifted_def)
  finally show ?thesis .
qed

lemma length_unpack_loop [simp]: "length (unpack_loop i tmp str) = length str"
  by (induction i tmp str rule: unpack_loop.induct) (subst unpack_loop.simps, simp)

lemma unpack_loop_nth:
  "length str = 13 \<Longrightarrow> j < 13 \<Longrightarrow> tmp = drop_bit (shifted i) v \<Longrightarrow>
   unpack_loop i tmp str ! j = (if j + i \<le> 12 then charmap ! digit_at (unat v) j else str ! j)"
proof (induction i tmp str rule: unpack_loop.induct)
  case (1 i tmp str)
  show ?case
  proof (cases "i \<le> 12")
    case True
    have "drop_bit (if i = 0 then 4 else 5) tmp = drop_bit (shifted (i + 1)) v"
      using 1(4) by (simp add: drop_bit_drop_bit shifted_def)
    then show ?thesis
      using 1 True digit_at_shifted [OF True, of v]
      by (subst unpack_loop.simps) (auto simp: nth_list_update)
  next
    case False
    then show ?thesis by (subst unpack_loop.simps) simp
  qed
qed

lemma unpack_loop_eq:
  "unpack_loop 0 v (replicate 13 CHR ''.'') = map ((!) charmap) (digits_upto 0 (unat v))"
proof (rule nth_equalityI)
  have "unat v < weight_above 0" using packed_0 [of v] by (simp add: packed_def)
  then have d: "digits_upto 0 (unat v) = map (digit_at (unat v)) [0..<13]" by (rule digits_upto_nth) simp
  then show "length (unpack_loop 0 v (replicate 13 CHR ''.'')) = length (map ((!) charmap) (digits_upto 0 (unat v)))"
    by simp
  show "unpack_loop 0 v (replicate 13 CHR ''.'') ! j = map ((!) charmap) (digits_upto 0 (unat v)) ! j"
    if "j < length (unpack_loop 0 v (replicate 13 CHR ''.''))" for j
    using that unpack_loop_nth [of "replicate 13 CHR ''.''" j v 0 v] by (simp add: d shifted_def)
qed

lemma last_not_dot_append: "n \<le> length xs \<Longrightarrow> last_not_dot (xs @ ys) n = last_not_dot xs n"
  by (induction n) (simp_all add: nth_append)

lemma last_not_dot_le: "last_not_dot xs n \<le> n"
  by (induction n) simp_all

lemma trim_dots_snoc: "trim_dots (xs @ [c]) = (if c = CHR ''.'' then trim_dots xs else xs @ [c])"
  by (induction xs) auto

lemma trim_eq [simp]: "trim str = trim_dots str"
  by (induction str rule: rev_induct)
    (simp_all add: trim_def trim_dots_snoc last_not_dot_append last_not_dot_le)

lemma trim_right_dots_eq: "trim_right_dots str = (if trim_dots str = [] then str else trim_dots str)"
  unfolding trim_right_dots_def Let_def trim_eq [symmetric] trim_def by (cases "str = []") auto

lemma trim_dots_charmap: "(\<forall>d \<in> set ds. d < 32) \<Longrightarrow> trim_dots (map ((!) charmap) ds) = map ((!) charmap) (trim_zeros ds)"
  by (induction ds) (auto simp: charmap_dot)

text \<open>What the tools read off a value is what the class \<open>name\<close> prints.\<close>

lemma trim_unpacked: "trim_dots (unpack_loop 0 v (replicate 13 CHR ''.'')) = name_to_string \<lparr>name_value = v\<rparr>"
proof -
  have "digits_upto 0 (unat v) = map (digit_at (unat v)) [0..<13]"
    using packed_0 [of v] by (intro digits_upto_nth) (simp_all add: packed_def)
  then have "\<forall>d \<in> set (digits_upto 0 (unat v)). d < 32" by (auto simp: digit_at_less)
  then show ?thesis
    by (simp add: unpack_loop_eq trim_dots_charmap trim_digits_upto name_to_string_digits name_digits_def)
qed

section \<open>Packing\<close>

lemma char_to_symbol_charmap:
  assumes "c \<in> set charmap"
  shows "char_to_symbol c = of_nat (char_digit c)"
proof -
  have "\<forall>d \<in> set [0..<32]. char_to_symbol (charmap ! d) = of_nat d" by code_simp
  then show ?thesis using assms by (elim in_charmap) simp
qed

lemma symbol_masks:
  assumes "d < 32"
  shows "unat (of_nat d AND 0x1f :: u64) = d" and "d < 16 \<Longrightarrow> unat (of_nat d AND 0x0F :: u64) = d"
proof -
  have "m AND 15 = m mod 2 ^ 4" and "m AND 31 = m mod 2 ^ 5" for m :: nat
    using nat_and_mask [of m 4] nat_and_mask [of m 5] by (simp_all add: mask_eq_exp_minus_1)
  then show "unat (of_nat d AND 0x1f :: u64) = d" and "d < 16 \<Longrightarrow> unat (of_nat d AND 0x0F :: u64) = d"
    using assms by (simp_all add: unat_and unat_of_nat_mod)
qed

text \<open>A digit is or-ed into bits that the digits before it have left empty.\<close>

lemma add_digit:
  assumes "digits_ok 0 ds" and "length ds = i" and "i < 12" and "d < 32"
    and "unat v = digits_value 0 ds" and "unat w = d"
  shows "unat (v OR push_bit (64 - 5 * (i + 1)) w :: u64) = digits_value 0 (ds @ [d])"
proof -
  let ?k = "59 - 5 * i"
  have e: "64 - 5 * (i + 1) = ?k" using assms(3) by simp
  have "(d :: nat) * 2 ^ ?k < 2 ^ 5 * 2 ^ ?k" using assms(4) by simp
  also have "(2::nat) ^ 5 * 2 ^ ?k = 2 ^ (5 + ?k)" by (simp only: power_add)
  also have "5 + ?k = 64 - 5 * i" using assms(3) by simp
  finally have d: "d * 2 ^ ?k < 2 ^ (64 - 5 * i)" .
  have "(2::nat) ^ (64 - 5 * i) \<le> 2 ^ 64" by (rule power_increasing) simp_all
  then have w: "unat (push_bit ?k w) = d * 2 ^ ?k"
    using d assms(6) by (simp add: unat_push_mod)
  have "weight_above i dvd digits_value 0 ds"
  proof (cases i)
    case (Suc j)
    then show ?thesis using digits_value_dvd [of 0 ds j] assms by (simp add: weight_above_Suc)
  qed (use assms in simp)
  moreover have "4 + 5 * (12 - i) = 64 - 5 * i" using assms(3) by simp
  then have "weight_above i = 2 ^ (64 - 5 * i)" using assms(3) by (simp add: weight_above_power)
  ultimately obtain m where m: "digits_value 0 ds = m * 2 ^ (64 - 5 * i)" by (auto simp: dvd_def)
  have "unat (push_bit ?k w OR v) = digits_value 0 ds + d * 2 ^ ?k"
    using nat_or_mult [OF d, of m] w m assms(5) by (simp add: unat_or)
  then show ?thesis
    using assms(2,3) by (simp add: e or.commute digits_value_append weight_def)
qed

lemma string_to_name_loop_eq:
  "set str \<subseteq> set charmap \<Longrightarrow> i \<le> length str \<Longrightarrow> i \<le> 12 \<Longrightarrow> unat v = digits_value 0 (map char_digit (take i str)) \<Longrightarrow>
   \<exists>w. string_to_name_loop str i v = (min 12 (length str), w) \<and>
     unat w = digits_value 0 (map char_digit (take 12 str))"
proof (induction str i v rule: string_to_name_loop.induct)
  case (1 str i v)
  show ?case
  proof (cases "i < length str \<and> i < 12")
    case True
    let ?c = "str ! i" and ?v = "v OR push_bit (64 - 5 * (i + 1)) (char_to_symbol (str ! i) AND 0x1f)"
    have c: "?c \<in> set charmap" and i: "i < 12" "c_char str i = ?c"
      using True subsetD [OF 1(2) nth_mem] by (auto simp: c_char_def)
    then have nul: "?c \<noteq> CHR 0x00" by (auto simp: charmap_def)
    have "digits_ok 0 (map char_digit (take i str))"
      using True 1(2) by (intro valid_name_digits) (auto simp: valid_name_string_def thirteenth_ok_def dest: in_set_takeD)
    then have "unat ?v = digits_value 0 (map char_digit (take i str) @ [char_digit ?c])"
      using c i True 1(5) by (intro add_digit) (simp_all add: char_to_symbol_charmap char_digit_valid symbol_masks)
    then have "unat ?v = digits_value 0 (map char_digit (take (Suc i) str))"
      using True by (simp add: take_Suc_conv_app_nth)
    then show ?thesis
      using 1(1,2) i nul True by (subst string_to_name_loop.simps) simp
  next
    case False
    then have "i = min 12 (length str)" and "c_char str i = CHR 0x00 \<or> \<not> i < 12" using 1 by (auto simp: c_char_def)
    then show ?thesis using 1(5) False by (subst string_to_name_loop.simps) (auto simp: min_def)
  qed
qed

text \<open>On a string that the constructor of \<open>name\<close> accepts the tools compute the same value.\<close>

lemma string_to_name_of_string:
  assumes "name_of_string str = Inr n"
  shows "string_to_name str = name_value n"
proof -
  have v: "valid_name_string str" and n: "name_value n = of_nat (digits_value 0 (map char_digit str))"
    using assms valid_name_string_ok [of str] by (auto simp: name_of_string_eq split: if_splits)
  then have str: "set str \<subseteq> set charmap" "length str \<le> 13" and t: "thirteenth_ok str"
    by (simp_all add: valid_name_string_def)
  obtain w where w: "string_to_name_loop str 0 0 = (min 12 (length str), w)"
    "unat w = digits_value 0 (map char_digit (take 12 str))"
    using string_to_name_loop_eq [OF str(1), of 0 0] by auto
  show ?thesis
  proof (cases "length str = 13")
    case True
    let ?c = "str ! 12"
    have c: "?c \<in> set charmap" "char_digit ?c < 16" and split: "str = take 12 str @ [?c]"
      using True str(1) t take_Suc_conv_app_nth [of 12 str] nth_mem [of 12 str] by (auto simp: thirteenth_ok_def)
    have "digits_value 0 (map char_digit (take 12 str)) mod 2 ^ 4 = 0"
      using digits_value_dvd [of 0 "map char_digit (take 12 str)" 11] True by (auto simp: weight_def)
    then obtain m where m: "unat w = m * 2 ^ 4" using w(2) by auto
    have "unat (char_to_symbol ?c AND 0x0F) = char_digit ?c"
      using c symbol_masks(2) [of "char_digit ?c"] by (simp add: char_to_symbol_charmap)
    then have "unat ((char_to_symbol ?c AND 0x0F) OR w) = char_digit ?c + unat w"
      using nat_or_mult [of "char_digit ?c" 4 m] c(2) m by (simp add: unat_or)
    also have "\<dots> = digits_value 0 (map char_digit (take 12 str @ [?c]))"
      using True w(2) by (simp add: digits_value_append weight_def)
    finally have "unat (w OR (char_to_symbol ?c AND 0x0F)) = digits_value 0 (map char_digit str)"
      unfolding split [symmetric] by (simp add: or.commute)
    then show ?thesis
      using True w(1) n by (simp add: string_to_name_def c_char_def word_of_unat)
  next
    case False
    then have "take 12 str = str" and "length str \<le> 12" using str(2) by auto
    moreover from this have "c_char str 12 = CHR 0x00" by (simp add: c_char_def)
    moreover have "char_to_symbol CHR 0x00 = 0" by code_simp
    ultimately show ?thesis
      using w n by (simp add: string_to_name_def word_of_unat)
  qed
qed

section \<open>Validation\<close>

text \<open>
  \<open>validate_name\<close> accepts exactly the strings that the constructor accepts and that print as
  themselves, and for those the tools and the contract agree on the value.
\<close>

lemma validate_name_iff:
  "validate_name str = Name_Accepted \<longleftrightarrow>
   (\<exists>n. name_of_string str = Inr n \<and> name_to_string n = str)"
proof
  assume "validate_name str = Name_Accepted"
  then have "name_to_string \<lparr>name_value = string_to_name str\<rparr> = str"
    by (simp add: validate_name_def Let_def trim_unpacked split: if_splits)
  then show "\<exists>n. name_of_string str = Inr n \<and> name_to_string n = str"
    by (metis name_of_string_to_string)
next
  assume "\<exists>n. name_of_string str = Inr n \<and> name_to_string n = str"
  then obtain n where n: "name_of_string str = Inr n" "name_to_string n = str" by blast
  then have "length str \<le> 13" by (auto simp: name_of_string_eq split: if_splits)
  moreover have "name_to_string \<lparr>name_value = string_to_name str\<rparr> = str"
    using n string_to_name_of_string [OF n(1)] by simp
  ultimately show "validate_name str = Name_Accepted"
    by (simp add: validate_name_def Let_def trim_unpacked)
qed

lemma validate_name_value:
  "validate_name str = Name_Accepted \<Longrightarrow> name_of_string str = Inr \<lparr>name_value = string_to_name str\<rparr>"
  unfolding validate_name_iff using string_to_name_of_string by auto

text \<open>The names that abigen writes for a value: those of the class \<open>name\<close>, but dots for the empty name.\<close>

lemma name_to_string_eq_Nil: "name_to_string n = [] \<longleftrightarrow> name_value n = 0"
  using name_digits_value [of n] by (auto simp: name_to_string_digits name_digits_def digits_of.simps unat_eq_0)

lemma tool_name_to_string_eq:
  "tool_name_to_string v =
     (if v = 0 then replicate 13 CHR ''.'' else name_to_string \<lparr>name_value = v\<rparr>)"
proof (cases "v = 0")
  case True
  have "tool_name_to_string 0 = replicate 13 CHR ''.''" by code_simp
  then show ?thesis using True by simp
qed (simp add: tool_name_to_string_def trim_right_dots_eq trim_unpacked name_to_string_eq_Nil)

text \<open>A name written by abigen passes the check of codegen unless it is the empty name.\<close>

lemma validate_tool_name: "validate_name (tool_name_to_string v) = Name_Accepted \<longleftrightarrow> v \<noteq> 0"
proof (cases "v = 0")
  case True
  have "validate_name (replicate 13 CHR ''.'') \<noteq> Name_Accepted" by code_simp
  then show ?thesis using True by (simp add: tool_name_to_string_eq)
qed (auto simp: tool_name_to_string_eq validate_name_iff name_of_string_to_string)

end
