(* ===== verification/Uos_Ricardian.thy ===== *)
theory Uos_Ricardian
imports Uos_Prelude
begin

text \<open>
  Ricardian contracts: \<open>simple_ricardian_tokenizer\<close> of \<^verbatim>\<open>src/tools/include/uosio/gen.hpp\<close>, with which abigen
  reads the contracts and clauses of a contract's markdown files, and \<open>parse_contracts\<close> and
  \<open>parse_clauses\<close> over the text of such a file. Offsets are natural numbers: a source is shorter
  than the largest \<open>int\<close>. A read of \<open>source[i]\<close> is the character, the terminating NUL at the end and an
  error behind it.
\<close>

section \<open>The tokenizer\<close>

record tokenizer =
  tk_source :: string
  tk_index :: nat

definition source_at :: "tokenizer \<Rightarrow> nat \<Rightarrow> char res" where
  "source_at t i =
     (if i < length (tk_source t) then Inr (tk_source t ! i)
      else if i = length (tk_source t) then Inr CHR 0x00
      else Inl (Undefined ''index out of range''))"

text \<open>\<open>std::string::substr\<close>.\<close>

definition substr :: "string \<Rightarrow> nat \<Rightarrow> nat \<Rightarrow> string res" where
  "substr s pos n =
     (if pos > length s then Inl (Assertion ''out_of_range'') else Inr (take n (drop pos s)))"

definition is_ws :: "char \<Rightarrow> bool" where
  "is_ws c \<longleftrightarrow> c = CHR '' '' \<or> c = CHR 0x0A \<or> c = CHR 0x0D \<or> c = CHR 0x09"

function skip_ws :: "string \<Rightarrow> nat \<Rightarrow> nat" where
  "skip_ws s i = (if i < length s \<and> is_ws (s ! i) then skip_ws s (i + 1) else i)"
  by pat_completeness auto
termination by (relation "measure (\<lambda>(s, i). length s - i)") auto

text \<open>The distance is taken from the member \<open>index\<close>, not from the argument.\<close>

definition eat_ws :: "tokenizer \<Rightarrow> nat \<Rightarrow> nat res" where
  "eat_ws t i =
     bind_res (source_at t i) (\<lambda>c.
     if \<not> is_ws c then Inr 0 else Inr (skip_ws (tk_source t) i - tk_index t))"

text \<open>The loop of \<open>check\<close> over the rest of \<open>sub\<close>; no value when a character differs.\<close>

fun check_loop :: "tokenizer \<Rightarrow> string \<Rightarrow> nat \<Rightarrow> nat option res" where
  "check_loop t [] i = Inr (Some i)"
| "check_loop t (c # cs) i =
     bind_res (eat_ws t i) (\<lambda>n.
     bind_res (source_at t (i + n)) (\<lambda>d.
     if c \<noteq> d then Inr None else check_loop t cs (i + n + 1)))"

definition check_token :: "tokenizer \<Rightarrow> string \<Rightarrow> (bool \<times> tokenizer) res" where
  "check_token t sub =
     bind_res (check_loop t sub (tk_index t)) (\<lambda>r. case r of
       None \<Rightarrow> Inr (False, t)
     | Some i \<Rightarrow>
         let t = t\<lparr>tk_index := i\<rparr> in
         bind_res (eat_ws t i) (\<lambda>n. Inr (True, t\<lparr>tk_index := i + n\<rparr>)))"

text \<open>A conjunction of checks, from the left.\<close>

fun check_all :: "tokenizer \<Rightarrow> string list \<Rightarrow> (bool \<times> tokenizer) res" where
  "check_all t [] = Inr (True, t)"
| "check_all t (s # ss) =
     bind_res (check_token t s) (\<lambda>(b, t). if b then check_all t ss else Inr (False, t))"

definition decl_tokens :: "string \<Rightarrow> string list" where
  "decl_tokens ty = [''<'', ''h1'', ''class'', ''='', CHR 0x22 # ty @ [CHR 0x22], ''>'']"

definition is_decl :: "tokenizer \<Rightarrow> string \<Rightarrow> (bool \<times> tokenizer) res" where
  "is_decl t ty = check_all t (decl_tokens ty)"

text \<open>The loop of \<open>get_decl\<close> over the text of a heading, with the length of the white space at its end.\<close>

function heading_loop :: "string \<Rightarrow> nat \<Rightarrow> nat \<Rightarrow> nat \<times> nat" where
  "heading_loop s after ws =
     (if after < length s then
        if s ! after = CHR ''<'' then (after, ws)
        else heading_loop s (after + 1) (if \<not> is_ws (s ! after) then 0 else ws + 1)
      else (after, ws))"
  by pat_completeness auto
termination by (relation "measure (\<lambda>(s, i, ws). length s - i)") auto

definition close_tokens :: "string list" where
  "close_tokens = [''<'', ''/h1'', ''>'']"

definition get_decl :: "tokenizer \<Rightarrow> string \<Rightarrow> (string option \<times> tokenizer) res" where
  "get_decl t ty =
     bind_res (is_decl t ty) (\<lambda>(b, t).
     if b then
       let before = tk_index t;
           (after, ws) = heading_loop (tk_source t) before 0
       in bind_res (check_all (t\<lparr>tk_index := after\<rparr>) close_tokens) (\<lambda>(b, t).
          if b then bind_res (substr (tk_source t) before (after - before - ws)) (\<lambda>n. Inr (Some n, t))
          else Inr (None, t))
     else Inr (None, t))"

text \<open>
  The loop of \<open>get_body\<close>. Every round begins with \<open>index = i\<close>, so that what \<open>is_decl\<close> leaves in the
  index is overwritten.
\<close>

function body_loop :: "string \<Rightarrow> string \<Rightarrow> nat \<Rightarrow> nat \<Rightarrow> (nat \<times> nat) res" where
  "body_loop s ty i ws =
     (if i < length s then
        bind_res (is_decl \<lparr>tk_source = s, tk_index = i\<rparr> ty) (\<lambda>(b, t).
        if b then Inr (i, ws)
        else body_loop s ty (i + 1) (if \<not> is_ws (s ! i) then 0 else ws + 1))
      else Inr (i, ws))"
  by pat_completeness auto
termination by (relation "measure (\<lambda>(s, ty, i, ws). length s - i)") auto

definition get_body :: "tokenizer \<Rightarrow> string \<Rightarrow> (string \<times> tokenizer) res" where
  "get_body t ty =
     (let before = tk_index t in
      bind_res (body_loop (tk_source t) ty before 0) (\<lambda>(i, ws).
      let t = t\<lparr>tk_index := i\<rparr> in
      bind_res (substr (tk_source t) before (i - before - ws)) (\<lambda>b. Inr (b, t))))"

declare skip_ws.simps [simp del] heading_loop.simps [simp del] body_loop.simps [simp del]

section \<open>The loops move forward\<close>

lemma skip_ws_ge: "i \<le> skip_ws s i"
proof (induction s i rule: skip_ws.induct)
  case (1 s i)
  then show ?case by (subst skip_ws.simps) (auto dest: Suc_leD)
qed

lemma check_loop_ge: "check_loop t sub i = Inr (Some j) \<Longrightarrow> i + length sub \<le> j"
  by (induction t sub i rule: check_loop.induct) (fastforce simp: bind_res_eq_Inr split: if_splits)+

lemma check_token_ge:
  "check_token t sub = Inr (b, t') \<Longrightarrow>
   tk_source t' = tk_source t \<and> tk_index t + (if b then length sub else 0) \<le> tk_index t'"
  by (auto simp: check_token_def bind_res_eq_Inr Let_def split: option.splits dest!: check_loop_ge)

lemma check_all_ge:
  "check_all t subs = Inr (b, t') \<Longrightarrow>
   tk_source t' = tk_source t \<and> tk_index t + (if b then sum_list (map length subs) else 0) \<le> tk_index t'"
  by (induction t subs rule: check_all.induct)
    (fastforce simp: bind_res_eq_Inr split: if_splits dest: check_token_ge)+

lemma heading_loop_ge: "heading_loop s i ws = (j, ws') \<Longrightarrow> i \<le> j"
  by (induction s i ws rule: heading_loop.induct) (subst (asm) (2) heading_loop.simps, auto split: if_splits)

lemma get_decl_ge:
  "get_decl t ty = Inr (Some n, t') \<Longrightarrow> tk_source t' = tk_source t \<and> tk_index t < tk_index t'"
  by (auto simp: get_decl_def is_decl_def decl_tokens_def close_tokens_def bind_res_eq_Inr Let_def
      simp del: check_all.simps split: prod.splits if_splits dest!: check_all_ge heading_loop_ge)

lemma body_loop_ge: "body_loop s ty i ws = Inr (j, ws') \<Longrightarrow> i \<le> j"
proof (induction s ty i ws rule: body_loop.induct)
  case (1 s ty i ws)
  then show ?case
    by (subst (asm) (2) body_loop.simps) (fastforce simp: bind_res_eq_Inr split: if_splits)
qed

lemma get_body_ge:
  "get_body t ty = Inr (b, t') \<Longrightarrow> tk_source t' = tk_source t \<and> tk_index t \<le> tk_index t'"
  by (auto simp: get_body_def bind_res_eq_Inr Let_def dest!: body_loop_ge)

section \<open>Parsing a file\<close>

function parse_loop :: "tokenizer \<Rightarrow> string \<Rightarrow> (string \<times> string) list \<Rightarrow> (string \<times> string) list res" where
  "parse_loop t ty ret =
     (if tk_index t < length (tk_source t) then
        bind_res (get_decl t ty) (\<lambda>(decl, t). case decl of
          Some n \<Rightarrow> bind_res (get_body t ty) (\<lambda>(body, t). parse_loop t ty (ret @ [(n, body)]))
        | None \<Rightarrow> Inr [])
      else Inr ret)"
  by pat_completeness auto
termination
  by (relation "measure (\<lambda>(t, ty, ret). length (tk_source t) - tk_index t)")
    (auto dest!: get_decl_ge get_body_ge intro!: diff_less_mono2)

declare parse_loop.simps [simp del]

definition parse :: "tokenizer \<Rightarrow> string \<Rightarrow> (string \<times> string) list res" where
  "parse t ty = parse_loop t ty []"

definition tokenizer_make :: "string \<Rightarrow> tokenizer" where
  "tokenizer_make src = \<lparr>tk_source = src, tk_index = 0\<rparr>"

text \<open>
  \<open>parse_contracts\<close> and \<open>parse_clauses\<close> over the text that \<open>read_file\<close> found. \<open>emplace\<close> keeps the
  entry that is in the map.
\<close>

definition parse_contracts :: "string \<Rightarrow> (string \<rightharpoonup> string) res" where
  "parse_contracts contracts =
     (if contracts = [] then Inr (\<lambda>_. None)
      else bind_res (parse (tokenizer_make contracts) ''contract'') (\<lambda>parsed.
        Inr (foldl (\<lambda>rcs (k, v). if rcs k = None then rcs(k \<mapsto> v) else rcs) (\<lambda>_. None) parsed)))"

definition parse_clauses :: "string \<Rightarrow> (string \<times> string) list res" where
  "parse_clauses clauses =
     (if clauses = [] then Inr []
      else bind_res (parse (tokenizer_make clauses) ''clause'') (\<lambda>parsed.
        Inr (foldl (\<lambda>clause_pairs cl. clause_pairs @ [cl]) [] parsed)))"

section \<open>White space and tokens\<close>

definition blank :: "string \<Rightarrow> bool" where
  "blank w \<longleftrightarrow> (\<forall>c \<in> set w. is_ws c)"

definition stop :: "string \<Rightarrow> bool" where
  "stop q \<longleftrightarrow> q = [] \<or> \<not> is_ws (hd q)"

definition word_token :: "string \<Rightarrow> bool" where
  "word_token s \<longleftrightarrow> s \<noteq> [] \<and> (\<forall>c \<in> set s. \<not> is_ws c)"

lemma blank_simps [simp]: "blank []" "blank (c # w) \<longleftrightarrow> is_ws c \<and> blank w"
  by (auto simp: blank_def)

lemma stop_simps [simp]: "stop []" "stop (c # q) \<longleftrightarrow> \<not> is_ws c"
  by (auto simp: stop_def)

lemma not_ws_less: "\<not> is_ws CHR ''<''"
  by (simp add: is_ws_def)

lemma stop_word: "word_token s \<Longrightarrow> stop (s @ q)"
  by (cases s) (auto simp: word_token_def)

abbreviation at_offset :: "string \<Rightarrow> string \<Rightarrow> tokenizer" where
  "at_offset p q \<equiv> \<lparr>tk_source = p @ q, tk_index = length p\<rparr>"

lemma source_at_append [simp]:
  "tk_source t = p @ q \<Longrightarrow> source_at t (length p) = Inr (case q of [] \<Rightarrow> CHR 0x00 | c # _ \<Rightarrow> c)"
  by (cases q) (simp_all add: source_at_def)

lemma skip_ws_blank: "blank w \<Longrightarrow> stop q \<Longrightarrow> skip_ws (p @ w @ q) (length p) = length p + length w"
proof (induction w arbitrary: p)
  case Nil
  then show ?case by (subst skip_ws.simps) (auto simp: stop_def nth_append hd_conv_nth)
next
  case (Cons c w)
  then show ?case using Cons.IH [of "p @ [c]"] by (subst skip_ws.simps) simp
qed

lemma eat_ws_blank:
  assumes "blank w" and "stop q"
  shows "eat_ws (at_offset p (w @ q)) (length p) = Inr (length w)"
  using assms skip_ws_blank [OF assms, of p]
  by (cases w; cases q) (auto simp: eat_ws_def is_ws_def)

lemma eat_ws_other:
  "tk_source t = p @ c # q \<Longrightarrow> i = length p \<Longrightarrow> \<not> is_ws c \<Longrightarrow> eat_ws t i = Inr 0"
  by (simp add: eat_ws_def)

lemma check_loop_word:
  "tk_source t = p @ s @ q \<Longrightarrow> \<forall>c \<in> set s. \<not> is_ws c \<Longrightarrow> i = length p \<Longrightarrow>
   check_loop t s i = Inr (Some (i + length s))"
proof (induction s arbitrary: p i)
  case (Cons c s)
  then show ?case using Cons.IH [of "p @ [c]"] eat_ws_other [of t p c "s @ q" i] by simp
qed simp

text \<open>A token, with white space before and after it.\<close>

lemma check_token_word:
  assumes "word_token s" and "blank w" and "blank v" and "stop q"
  shows "check_token (at_offset p (w @ s @ v @ q)) s =
    Inr (True, \<lparr>tk_source = p @ w @ s @ v @ q, tk_index = length (p @ w @ s @ v)\<rparr>)"
proof -
  let ?t = "at_offset p (w @ s @ v @ q)"
  obtain c cs where s: "s = c # cs" and c: "\<not> is_ws c" "\<forall>d \<in> set cs. \<not> is_ws d"
    using assms(1) by (cases s) (auto simp: word_token_def)
  have "eat_ws ?t (length p) = Inr (length w)"
    using eat_ws_blank [of w "s @ v @ q" p] assms stop_word [of s "v @ q"] by simp
  moreover have "source_at ?t (length p + length w) = Inr c"
    using source_at_append [of ?t "p @ w" "s @ v @ q"] s by simp
  moreover have "check_loop ?t cs (length p + length w + 1) = Inr (Some (length p + length w + 1 + length cs))"
    using check_loop_word [of ?t "p @ w @ [c]" cs "v @ q"] c s by simp
  ultimately have loop: "check_loop ?t s (length p) = Inr (Some (length p + length w + length s))"
    by (simp add: s)
  have "eat_ws (?t\<lparr>tk_index := length p + length w + length s\<rparr>) (length p + length w + length s) = Inr (length v)"
    using eat_ws_blank [of v q "p @ w @ s"] assms by (simp add: add.assoc)
  with loop show ?thesis by (simp add: check_token_def)
qed

text \<open>A token that is not there.\<close>

lemma check_token_other:
  assumes "blank w" and "stop q" and "s = c # cs" and "c \<noteq> CHR 0x00" and "q = [] \<or> hd q \<noteq> c"
  shows "check_token (at_offset p (w @ q)) s = Inr (False, at_offset p (w @ q))"
  using assms eat_ws_blank [OF assms(1,2), of p] source_at_append [of "at_offset p (w @ q)" "p @ w" q]
  by (auto simp: check_token_def split: list.splits)

text \<open>Tokens, each with the white space behind it.\<close>

fun spaced :: "(string \<times> string) list \<Rightarrow> string" where
  "spaced [] = []"
| "spaced ((s, v) # ps) = s @ v @ spaced ps"

definition layout :: "string list \<Rightarrow> (string \<times> string) list \<Rightarrow> bool" where
  "layout toks ps \<longleftrightarrow> map fst ps = toks \<and> (\<forall>v \<in> set (map snd ps). blank v)"

lemma check_all_words:
  "layout toks ps \<Longrightarrow> \<forall>s \<in> set toks. word_token s \<Longrightarrow> blank w \<Longrightarrow> toks = [] \<longrightarrow> w = [] \<Longrightarrow> stop q \<Longrightarrow>
   check_all (at_offset p (w @ spaced ps @ q)) toks =
     Inr (True, \<lparr>tk_source = p @ w @ spaced ps @ q, tk_index = length (p @ w @ spaced ps)\<rparr>)"
proof (induction ps arbitrary: toks p w)
  case Nil
  then show ?case by (simp add: layout_def)
next
  case (Cons x ps)
  obtain s v where x: "x = (s, v)" by (cases x)
  with Cons.prems obtain ts where toks: "toks = s # ts" "layout ts ps" "word_token s" "blank v"
    by (auto simp: layout_def)
  have "stop (spaced ps @ q)"
    using toks(2) Cons.prems by (cases ps) (auto simp: layout_def toks(1) stop_word)
  then have "check_token (at_offset p (w @ s @ v @ spaced ps @ q)) s =
      Inr (True, at_offset (p @ w @ s @ v) ([] @ spaced ps @ q))"
    using check_token_word [of s w v "spaced ps @ q" p] toks Cons.prems by simp
  then show ?case
    using Cons.IH [of ts "[]" "p @ w @ s @ v"] Cons.prems toks by (simp add: x)
qed

lemma word_decl_tokens: "\<forall>c \<in> set ty. \<not> is_ws c \<Longrightarrow> \<forall>s \<in> set (decl_tokens ty). word_token s"
  by (simp add: decl_tokens_def word_token_def is_ws_def)

lemma word_close_tokens: "\<forall>s \<in> set close_tokens. word_token s"
  by (simp add: close_tokens_def word_token_def is_ws_def)

section \<open>Headings\<close>

text \<open>The count of white space at the end of a text, as the loops keep it.\<close>

definition tail_ws :: "nat \<Rightarrow> string \<Rightarrow> nat" where
  "tail_ws ws x = foldl (\<lambda>ws c. if \<not> is_ws c then 0 else ws + 1) ws x"

definition trimmed_text :: "string \<Rightarrow> bool" where
  "trimmed_text n \<longleftrightarrow> n \<noteq> [] \<and> \<not> is_ws (hd n) \<and> \<not> is_ws (last n)"

lemma tail_ws_blank: "blank w \<Longrightarrow> tail_ws ws w = ws + length w"
  by (induction w arbitrary: ws) (simp_all add: tail_ws_def)

lemma tail_ws_append: "tail_ws ws (a @ b) = tail_ws (tail_ws ws a) b"
  by (simp add: tail_ws_def)

lemma tail_ws_Cons: "tail_ws ws (c # x) = tail_ws (if \<not> is_ws c then 0 else ws + 1) x"
  by (simp add: tail_ws_def)

lemma tail_ws_trimmed:
  assumes "n \<noteq> []" and "\<not> is_ws (last n)" and "blank w"
  shows "tail_ws ws (n @ w) = length w"
  using assms by (cases n rule: rev_cases) (simp_all add: tail_ws_append tail_ws_blank tail_ws_Cons)

lemma heading_loop_run:
  "CHR ''<'' \<notin> set x \<Longrightarrow>
   heading_loop (p @ x @ CHR ''<'' # q) (length p) ws = (length (p @ x), tail_ws ws x)"
proof (induction x arbitrary: p ws)
  case Nil
  then show ?case by (subst heading_loop.simps) (simp add: tail_ws_def)
next
  case (Cons c x)
  then show ?case
    using Cons.IH [of "p @ [c]"] by (subst heading_loop.simps) (auto simp: tail_ws_def)
qed

text \<open>A heading: its declaration, the name without \<open><\<close>, and the end of the heading.\<close>

lemma get_decl_heading:
  assumes "layout (decl_tokens ty) ps" and "layout close_tokens qs" and "\<forall>c \<in> set ty. \<not> is_ws c"
    and "trimmed_text n" and "CHR ''<'' \<notin> set n" and "blank w0" and "blank w" and "stop q"
  shows "get_decl (at_offset p (w0 @ spaced ps @ n @ w @ spaced qs @ q)) ty =
    Inr (Some n, at_offset (p @ w0 @ spaced ps @ n @ w @ spaced qs) q)"
proof -
  let ?s = "p @ w0 @ spaced ps @ n @ w @ spaced qs @ q" and ?b = "p @ w0 @ spaced ps"
  have n: "n \<noteq> []" "\<not> is_ws (last n)" "stop (n @ w @ spaced qs @ q)"
    using assms(4) by (auto simp: trimmed_text_def stop_def)
  obtain v r where qs: "spaced qs = CHR ''<'' # r"
    using assms(2) by (cases qs) (auto simp: layout_def close_tokens_def)
  have "check_all (at_offset p (w0 @ spaced ps @ n @ w @ spaced qs @ q)) (decl_tokens ty) =
      Inr (True, \<lparr>tk_source = ?s, tk_index = length ?b\<rparr>)"
    using check_all_words [OF assms(1) word_decl_tokens [OF assms(3)] assms(6) _ n(3)]
    by (simp add: decl_tokens_def)
  moreover have "CHR ''<'' \<notin> set (n @ w)"
    using assms(5,7) not_ws_less by (auto simp: blank_def)
  then have "heading_loop ?s (length ?b) 0 = (length (?b @ n @ w), length w)"
    using heading_loop_run [of "n @ w" ?b "r @ q" 0] tail_ws_trimmed [OF n(1,2) assms(7)]
    by (simp only: qs append_assoc append_Cons simp_thms)
  moreover have "check_all \<lparr>tk_source = ?s, tk_index = length (?b @ n @ w)\<rparr> close_tokens =
      Inr (True, \<lparr>tk_source = ?s, tk_index = length (?b @ n @ w @ spaced qs)\<rparr>)"
    using check_all_words [OF assms(2) word_close_tokens, of "[]" q "?b @ n @ w"] assms(8) by simp
  ultimately show ?thesis
    by (simp add: get_decl_def is_decl_def substr_def)
qed

section \<open>Bodies\<close>

text \<open>
  The text at which a declaration may begin: after white space \<open><\<close>, then after white space \<open>h\<close> and
  either \<open>1\<close>, white space or nothing. A body without such a place is found whole.
\<close>

definition opens :: "string \<Rightarrow> bool" where
  "opens s = (case dropWhile is_ws s of
     [] \<Rightarrow> False
   | c # r \<Rightarrow> c = CHR ''<'' \<and>
       (case dropWhile is_ws r of
          [] \<Rightarrow> False
        | d # r' \<Rightarrow> d = CHR ''h'' \<and> (r' = [] \<or> is_ws (hd r') \<or> hd r' = CHR ''1'')))"

fun quiet :: "string \<Rightarrow> bool" where
  "quiet [] = True"
| "quiet (c # cs) = (\<not> opens (c # cs) \<and> quiet cs)"

lemma blank_split: obtains w q where "s = w @ q" and "blank w" and "stop q" and "dropWhile is_ws s = q"
proof
  show "s = takeWhile is_ws s @ dropWhile is_ws s" by simp
  show "blank (takeWhile is_ws s)" by (auto simp: blank_def dest: set_takeWhileD)
  show "stop (dropWhile is_ws s)" using hd_dropWhile [of is_ws s] by (auto simp: stop_def)
qed simp

lemma is_decl_false:
  assumes "\<not> opens s"
  shows "\<exists>t. is_decl (at_offset p s) ty = Inr (False, t)"
proof -
  obtain w q where s: "s = w @ q" "blank w" "stop q" "dropWhile is_ws s = q" by (rule blank_split)
  show ?thesis
  proof (cases "q \<noteq> [] \<and> hd q = CHR ''<''")
    case False
    then show ?thesis
      using check_token_other [of w q "''<''" "CHR ''<''" "[]" p] s by (auto simp: is_decl_def decl_tokens_def)
  next
    case True
    then obtain r where q: "q = CHR ''<'' # r" by (cases q) auto
    obtain v x where r: "r = v @ x" "blank v" "stop x" "dropWhile is_ws r = x" by (rule blank_split)
    let ?p = "p @ w @ ''<'' @ v"
    have "check_token (at_offset p s) ''<'' = Inr (True, at_offset ?p ([] @ x))"
      using check_token_word [of "''<''" w v x p] s r q by (simp add: word_token_def not_ws_less)
    moreover have "check_token (at_offset ?p ([] @ x)) ''h1'' = Inr (False, at_offset ?p ([] @ x))"
    proof (cases "x = [] \<or> hd x \<noteq> CHR ''h''")
      case True
      then show ?thesis using r(3) by (intro check_token_other) auto
    next
      case False
      then obtain c y where x: "x = CHR ''h'' # c # y" and c: "\<not> is_ws c" "c \<noteq> CHR ''1''"
        using assms s(4) q r(4) by (cases x; cases "tl x") (auto simp: opens_def)
      let ?t = "at_offset ?p x"
      have "\<not> is_ws CHR ''h''" by (simp add: is_ws_def)
      then have "eat_ws ?t (length ?p) = Inr 0" and "source_at ?t (length ?p) = Inr CHR ''h''"
        using eat_ws_other [of ?t ?p "CHR ''h''" "c # y"] source_at_append [of ?t ?p x] x by simp_all
      moreover have "eat_ws ?t (length ?p + 1) = Inr 0" and "source_at ?t (length ?p + 1) = Inr c"
        using eat_ws_other [of ?t "?p @ ''h''" c y] source_at_append [of ?t "?p @ ''h''" "c # y"] x c(1) by simp_all
      ultimately show ?thesis using c(2) by (simp add: check_token_def)
    qed
    ultimately show ?thesis by (simp add: is_decl_def decl_tokens_def)
  qed
qed

lemma body_loop_run:
  "(\<And>u v. x = u @ v \<Longrightarrow> v \<noteq> [] \<Longrightarrow> \<not> opens (v @ q)) \<Longrightarrow>
   body_loop (p @ x @ q) ty (length p) ws = body_loop (p @ x @ q) ty (length (p @ x)) (tail_ws ws x)"
proof (induction x arbitrary: p ws)
  case (Cons c x)
  obtain t where "is_decl (at_offset p (c # x @ q)) ty = Inr (False, t)"
    using is_decl_false Cons.prems [of "[]" "c # x"] by fastforce
  then have "body_loop (p @ (c # x) @ q) ty (length p) ws =
      body_loop ((p @ [c]) @ x @ q) ty (length (p @ [c])) (if \<not> is_ws c then 0 else ws + 1)"
    by (subst body_loop.simps) (simp add: nth_append)
  also have "\<dots> = body_loop ((p @ [c]) @ x @ q) ty (length ((p @ [c]) @ x)) (tail_ws (if \<not> is_ws c then 0 else ws + 1) x)"
    using Cons.prems by (intro Cons.IH) (metis append_Cons)
  finally show ?case by (simp add: tail_ws_def)
qed (simp add: tail_ws_def)

text \<open>What follows a body: nothing, or the next heading.\<close>

definition heading_next :: "string \<Rightarrow> bool" where
  "heading_next q \<longleftrightarrow> (\<forall>c r. dropWhile is_ws q = c # r \<longrightarrow> c = CHR ''<'')"

lemma opens_append:
  assumes "\<not> opens v" and "v \<noteq> []" and "\<not> is_ws (last v)" and "heading_next q"
  shows "\<not> opens (v @ q)"
proof -
  have "last v \<in> set v" using assms(2) by simp
  then have d: "dropWhile is_ws (v @ q) = dropWhile is_ws v @ q" and ne: "dropWhile is_ws v \<noteq> []"
    using assms(3) by (auto simp: dropWhile_append1)
  then obtain c r where c: "dropWhile is_ws v = c # r" by (cases "dropWhile is_ws v") auto
  have "last (c # r) = last v"
    using takeWhile_dropWhile_id [of is_ws v] c by (metis last_appendR list.distinct(1))
  then have l: "\<exists>z \<in> set r. \<not> is_ws z" if "r \<noteq> []"
    using assms(3) that last_in_set [OF that] by (intro bexI [of _ "last r"]) auto
  show ?thesis
  proof (cases "r = []")
    case True
    then show ?thesis using assms(4) d c by (auto simp: opens_def heading_next_def split: list.splits)
  next
    case False
    then obtain z where z: "z \<in> set r" "\<not> is_ws z" using l by blast
    then have "dropWhile is_ws (r @ q) = dropWhile is_ws r @ q" by (auto simp: dropWhile_append1)
    moreover obtain e y where "dropWhile is_ws r = e # y" using z by (cases "dropWhile is_ws r") auto
    ultimately show ?thesis
      using assms(1) d c by (auto simp: opens_def)
  qed
qed

lemma quiet_append: "quiet (u @ v) \<Longrightarrow> v \<noteq> [] \<Longrightarrow> \<not> opens v"
proof (induction u)
  case Nil
  then show ?case by (cases v) auto
qed simp

lemma quiet_opens:
  assumes "quiet b" and "\<not> is_ws (last b)" and "heading_next q" and "b = u @ v" and "v \<noteq> []"
  shows "\<not> opens (v @ q)"
  using assms by (intro opens_append) (auto dest: quiet_append)

lemma blank_heading_next: "blank w \<Longrightarrow> heading_next w"
proof -
  assume "blank w"
  then have "dropWhile is_ws w = []" by (simp add: blank_def)
  then show ?thesis by (simp only: heading_next_def) simp
qed

lemma opens_blank: "blank w \<Longrightarrow> \<not> opens w"
proof -
  assume "blank w"
  then have "dropWhile is_ws w = []" by (simp add: blank_def)
  then show ?thesis by (simp only: opens_def list.case) simp
qed

text \<open>The last body, up to the end of the file.\<close>

lemma get_body_last:
  assumes "trimmed_text b" and "quiet b" and "blank w"
  shows "get_body (at_offset p (b @ w)) ty = Inr (b, at_offset (p @ b @ w) [])"
proof -
  have b: "b \<noteq> []" "\<not> is_ws (last b)" using assms(1) by (simp_all add: trimmed_text_def)
  have "body_loop (p @ b @ w) ty (length p) 0 = body_loop (p @ b @ w) ty (length (p @ b)) (tail_ws 0 b)"
    using quiet_opens [OF assms(2) b(2) blank_heading_next [OF assms(3)]] by (intro body_loop_run) simp
  also have "\<dots> = body_loop ((p @ b) @ w @ []) ty (length ((p @ b) @ w)) (tail_ws (tail_ws 0 b) w)"
    using assms(3) body_loop_run [of w "[]" "p @ b" ty] by (simp add: opens_blank blank_def)
  also have "\<dots> = Inr (length (p @ b @ w), length w)"
    using tail_ws_trimmed [OF b assms(3)] by (subst body_loop.simps) (simp add: tail_ws_append)
  finally show ?thesis by (simp add: get_body_def substr_def)
qed

text \<open>A body before another heading: the loop stops behind the body, at the white space or at \<open><\<close>.\<close>

lemma get_body_next:
  assumes "trimmed_text b" and "quiet b" and "heading_next q" and "q \<noteq> []"
    and "\<exists>t. is_decl (at_offset (p @ b) q) ty = Inr (True, t)"
  shows "get_body (at_offset p (b @ q)) ty = Inr (b, at_offset (p @ b) q)"
proof -
  have b: "b \<noteq> []" "\<not> is_ws (last b)" using assms(1) by (simp_all add: trimmed_text_def)
  have "body_loop (p @ b @ q) ty (length p) 0 = body_loop (p @ b @ q) ty (length (p @ b)) (tail_ws 0 b)"
    using quiet_opens [OF assms(2) b(2) assms(3)] by (intro body_loop_run) simp
  also have "\<dots> = Inr (length (p @ b), 0)"
    using tail_ws_trimmed [OF b, of "[]" 0] assms(4,5) by (subst body_loop.simps) auto
  finally show ?thesis by (simp add: get_body_def substr_def)
qed

section \<open>Files\<close>

text \<open>
  A well-formed file: entries of a heading and a body, with any white space between the tokens and
  around the texts.
\<close>

inductive ricardian_file :: "string \<Rightarrow> (string \<times> string) list \<Rightarrow> string \<Rightarrow> bool" for ty where
  last_entry: "layout (decl_tokens ty) ps \<Longrightarrow> layout close_tokens qs \<Longrightarrow> trimmed_text n \<Longrightarrow>
    CHR ''<'' \<notin> set n \<Longrightarrow> trimmed_text b \<Longrightarrow> quiet b \<Longrightarrow> blank w0 \<Longrightarrow> blank w \<Longrightarrow> blank w' \<Longrightarrow>
    ricardian_file ty [(n, b)] (w0 @ spaced ps @ n @ w @ spaced qs @ b @ w')"
| more_entries: "layout (decl_tokens ty) ps \<Longrightarrow> layout close_tokens qs \<Longrightarrow> trimmed_text n \<Longrightarrow>
    CHR ''<'' \<notin> set n \<Longrightarrow> trimmed_text b \<Longrightarrow> quiet b \<Longrightarrow> blank w0 \<Longrightarrow> blank w \<Longrightarrow>
    ricardian_file ty es rest \<Longrightarrow>
    ricardian_file ty ((n, b) # es) (w0 @ spaced ps @ n @ w @ spaced qs @ b @ rest)"

lemma ricardian_file_decl:
  assumes "ricardian_file ty es src" and "\<forall>c \<in> set ty. \<not> is_ws c"
  shows "src \<noteq> []" and "heading_next src" and "\<exists>t. is_decl (at_offset p src) ty = Inr (True, t)"
proof -
  obtain w0 ps n r where src: "src = w0 @ spaced ps @ n @ r" "blank w0" "layout (decl_tokens ty) ps" "trimmed_text n"
    using assms(1) by cases auto
  obtain x where x: "spaced ps = CHR ''<'' # x"
    using src(3) by (cases ps) (auto simp: layout_def decl_tokens_def)
  then show "src \<noteq> []" using src(1) by simp
  have "dropWhile is_ws src = spaced ps @ n @ r"
    using src(1,2) by (simp add: blank_def dropWhile_append x not_ws_less)
  then show "heading_next src" by (simp add: heading_next_def x)
  have "stop (n @ r)" using src(4) by (auto simp: trimmed_text_def stop_def)
  then show "\<exists>t. is_decl (at_offset p src) ty = Inr (True, t)"
    using check_all_words [OF src(3) word_decl_tokens [OF assms(2)] src(2)] src(1)
    by (simp add: is_decl_def decl_tokens_def)
qed

lemma parse_file:
  assumes "ricardian_file ty es src" and "\<forall>c \<in> set ty. \<not> is_ws c"
  shows "parse_loop (at_offset p src) ty ret = Inr (ret @ es)"
  using assms
proof (induction arbitrary: p ret rule: ricardian_file.induct)
  case (last_entry ps qs n b w0 w w')
  have "stop (b @ w')" using last_entry by (auto simp: trimmed_text_def stop_def)
  note d = get_decl_heading [OF last_entry(1,2) last_entry.prems last_entry(3,4,7,8) this, of p]
  have "spaced ps \<noteq> []" using last_entry(1) by (cases ps) (auto simp: layout_def decl_tokens_def)
  then show ?case
    using d get_body_last [OF last_entry(5,6,9), of "p @ w0 @ spaced ps @ n @ w @ spaced qs" ty] last_entry(3)
    by (subst parse_loop.simps) (simp add: parse_loop.simps)
next
  case (more_entries ps qs n b w0 w es rest)
  have "stop (b @ rest)" using more_entries by (auto simp: trimmed_text_def stop_def)
  note d = get_decl_heading [OF more_entries(1,2) more_entries.prems more_entries(3,4,7,8) this, of p]
  have "spaced ps \<noteq> []" using more_entries(1) by (cases ps) (auto simp: layout_def decl_tokens_def)
  then show ?case
    using d get_body_next [OF more_entries(5,6) ricardian_file_decl(2,1,3) [OF more_entries(9) more_entries.prems],
        of "p @ w0 @ spaced ps @ n @ w @ spaced qs"]
      more_entries.IH [OF more_entries.prems, of "p @ w0 @ spaced ps @ n @ w @ spaced qs @ b"]
    by (subst parse_loop.simps) simp
qed

lemma parse_well_formed:
  assumes "ricardian_file ty es src" and "\<forall>c \<in> set ty. \<not> is_ws c"
  shows "parse (tokenizer_make src) ty = Inr es"
  using parse_file [OF assms, of "[]" "[]"] by (simp add: parse_def tokenizer_make_def)

text \<open>The contracts are found under their names, the first one of a name; the clauses in their order.\<close>

lemma foldl_emplace:
  "foldl (\<lambda>rcs (k, v). if rcs k = None then rcs(k \<mapsto> v) else rcs) m es = (map_of es ++ m)"
proof (induction es arbitrary: m)
  case (Cons e es)
  obtain k v where "e = (k, v)" by (cases e)
  then show ?case
    using Cons by (cases "m k") (auto simp: map_add_def fun_eq_iff split: option.splits)
qed simp

lemma parse_contracts_well_formed:
  assumes "ricardian_file ''contract'' es src"
  shows "parse_contracts src = Inr (map_of es)"
proof -
  have ty: "\<forall>c \<in> set ''contract''. \<not> is_ws c" by (simp add: is_ws_def)
  show ?thesis
    using parse_well_formed [OF assms ty] ricardian_file_decl(1) [OF assms ty] foldl_emplace [of Map.empty es]
    by (simp add: parse_contracts_def)
qed

lemma foldl_snoc: "foldl (\<lambda>xs x. xs @ [x]) ys xs = ys @ xs"
  by (induction xs arbitrary: ys) simp_all

lemma parse_clauses_well_formed:
  assumes "ricardian_file ''clause'' es src"
  shows "parse_clauses src = Inr es"
proof -
  have ty: "\<forall>c \<in> set ''clause''. \<not> is_ws c" by (simp add: is_ws_def)
  show ?thesis
    using parse_well_formed [OF assms ty] ricardian_file_decl(1) [OF assms ty]
    by (simp add: parse_clauses_def foldl_snoc)
qed

section \<open>White space inside a token\<close>

text \<open>
  Where white space follows the first character of a token, \<open>eat_ws\<close> counts from the start of the
  token and the check goes on too far: it skips a character, or reads behind the end of the source.
\<close>

lemma check_token_skips: "check_token (at_offset p (''h x1>'' @ q)) ''h1'' = Inr (True, at_offset (p @ ''h x1'') (''>'' @ q))"
proof -
  let ?t = "at_offset p (''h x1>'' @ q)"
  have ws: "\<not> is_ws CHR ''h''" "is_ws CHR '' ''" "\<not> is_ws CHR ''x''" "\<not> is_ws CHR ''1''" "\<not> is_ws CHR ''>''" by (simp_all add: is_ws_def)
  have "skip_ws (p @ ''h x1>'' @ q) (length p + 1) = length p + 2"
    using skip_ws_blank [of "'' ''" "''x1>'' @ q" "p @ ''h''"] ws by simp
  then have "eat_ws ?t (length p) = Inr 0" and "eat_ws ?t (length p + 1) = Inr 2"
    using source_at_append [of ?t "p @ ''h''" "'' x1>'' @ q"] ws by (simp_all add: eat_ws_def)
  moreover have "source_at ?t (length p) = Inr CHR ''h''" and "source_at ?t (length p + 3) = Inr CHR ''1''"
    using source_at_append [of ?t "p @ ''h x''" "''1>'' @ q"] by (simp_all add: numeral_eq_Suc)
  moreover have "eat_ws (?t\<lparr>tk_index := length p + 4\<rparr>) (length p + 4) = Inr 0"
    using eat_ws_other [of "?t\<lparr>tk_index := length p + 4\<rparr>" "p @ ''h x1''" "CHR ''>''" q] ws by (simp add: numeral_eq_Suc)
  ultimately show ?thesis by (simp add: check_token_def numeral_eq_Suc)
qed

lemma is_decl_past_end: "is_decl (at_offset p ''<h '') ty = Inl (Undefined ''index out of range'')"
proof -
  let ?p = "p @ ''<''" and ?e = "Undefined ''index out of range''"
  have ws: "\<not> is_ws CHR ''h''" "is_ws CHR '' ''" by (simp_all add: is_ws_def)
  have "check_token (at_offset p ''<h '') ''<'' = Inr (True, at_offset ?p ''h '')"
    using check_token_word [of "''<''" "[]" "[]" "''h ''" p] ws by (simp add: word_token_def not_ws_less)
  moreover have "check_token (at_offset ?p ''h '') ''h1'' = Inl ?e"
  proof -
    let ?t = "at_offset ?p ''h ''"
    have "skip_ws (?p @ ''h '') (length ?p + 1) = length ?p + 2"
      using skip_ws_blank [of "'' ''" "[]" "?p @ ''h''"] ws by simp
    then have "eat_ws ?t (length ?p) = Inr 0" and "eat_ws ?t (length ?p + 1) = Inr 2"
      using source_at_append [of ?t "?p @ ''h''" "'' ''"] source_at_append [of ?t ?p "''h ''"] ws
      by (simp_all add: eat_ws_def)
    moreover have "source_at ?t (length ?p) = Inr CHR ''h''" and "source_at ?t (length ?p + 3) = Inl ?e"
      using source_at_append [of ?t ?p "''h ''"] by (simp_all add: source_at_def)
    ultimately show ?thesis by (simp add: check_token_def numeral_eq_Suc)
  qed
  ultimately show ?thesis by (simp add: is_decl_def decl_tokens_def)
qed

text \<open>So a file whose last body ends in a heading that breaks off there is read behind its end.\<close>

lemma get_body_past_end:
  assumes "trimmed_text b" and "quiet b"
  shows "get_body (at_offset p (b @ ''<h '')) ty = Inl (Undefined ''index out of range'')"
proof -
  have b: "\<not> is_ws (last b)" using assms(1) by (simp add: trimmed_text_def)
  have "heading_next ''<h ''" by (simp add: heading_next_def not_ws_less)
  then have "body_loop (p @ b @ ''<h '') ty (length p) 0 = body_loop (p @ b @ ''<h '') ty (length (p @ b)) (tail_ws 0 b)"
    using quiet_opens [OF assms(2) b] by (intro body_loop_run)
  also have "\<dots> = Inl (Undefined ''index out of range'')"
    using is_decl_past_end [of "p @ b" ty] by (subst body_loop.simps) simp
  finally show ?thesis by (simp add: get_body_def)
qed

end
