(* ===== verification/Uos_Codegen.thy ===== *)
theory Uos_Codegen
imports Uos_Tool_Names Uos_Ricardian
begin

text \<open>
  The dispatchers that the compiler driver adds to a contract, from \<^verbatim>\<open>src/tools/include/uosio/codegen.hpp\<close>:
  the visitor of the methods decides for which of them a handler function is written, and writes its
  text. What clang says of a method is the record \<open>method_decl\<close>.
\<close>

section \<open>Methods\<close>

record method_decl =
  md_name :: string
  md_class :: string
  md_qualified_class :: string
  md_action :: "string option"  \<comment> \<open>the text of an \<open>action\<close> attribute\<close>
  md_notify :: "string option"  \<comment> \<open>the text of a \<open>notify\<close> attribute\<close>
  md_of_contract :: bool  \<comment> \<open>\<open>is_uosio_contract\<close> for the contract that is compiled\<close>
  md_param_types :: "string list"  \<comment> \<open>the full names of the types, references and qualifiers removed\<close>

text \<open>The members of \<open>codegen\<close> and the two static sets of the visitor; the errors and the texts added.\<close>

record codegen_state =
  cs_action_set :: "string set"
  cs_notify_set :: "string set"
  cs_actions :: "string set"
  cs_notify_handlers :: "string set"
  cs_errors :: "string list"
  cs_inserted :: "(string \<times> string \<times> string) list"  \<comment> \<open>attribute, action or notification, text\<close>

definition codegen_init :: codegen_state where
  "codegen_init = \<lparr>cs_action_set = {}, cs_notify_set = {}, cs_actions = {}, cs_notify_handlers = {},
     cs_errors = [], cs_inserted = []\<rparr>"

definition emit_error :: "string \<Rightarrow> codegen_state \<Rightarrow> codegen_state" where
  "emit_error msg st = st\<lparr>cs_errors := cs_errors st @ [msg]\<rparr>"

text \<open>\<open>get_action_name\<close> of \<^verbatim>\<open>gen.hpp\<close>, and \<open>get_notify_pair\<close>.\<close>

definition get_action_name :: "method_decl \<Rightarrow> string" where
  "get_action_name d = (case md_action d of Some (c # cs) \<Rightarrow> c # cs | _ \<Rightarrow> md_name d)"

definition get_notify_pair :: "method_decl \<Rightarrow> string" where
  "get_notify_pair d = (case md_notify d of Some s \<Rightarrow> s | None \<Rightarrow> [])"

section \<open>The text of a dispatcher\<close>

definition quoted :: "string \<Rightarrow> string" where
  "quoted instr = concat (map (\<lambda>c. if c = CHR 0x22 \<or> c = CHR 0x5C then [CHR 0x5C, c] else [c]) instr)"

definition nl :: string where
  "nl = [CHR 0x0A]"

definition max_stack_size :: nat where
  "max_stack_size = 512"

definition argument_texts :: "string list \<Rightarrow> (nat \<Rightarrow> string) \<Rightarrow> string" where
  "argument_texts tys num = concat (map (\<lambda>(i, tn).
     (if tn = ''_Bool'' then ''bool'' else tn) @ '' arg'' @ num i @ ''; ds >> arg'' @ num i @ '';'' @ nl)
     (List.enumerate 0 tys))"

definition call_texts :: "string list \<Rightarrow> (nat \<Rightarrow> string) \<Rightarrow> string" where
  "call_texts tys num = concat (map (\<lambda>i. ''arg'' @ num i @ (if i < length tys - 1 then '', '' else []))
     [0..<length tys])"

text \<open>How an \<open>int\<close> is printed.\<close>

function show_number :: "nat \<Rightarrow> string" where
  "show_number n = (if n < 10 then [char_of (n + 48)] else show_number (n div 10) @ [char_of (n mod 10 + 48)])"
  by pat_completeness auto
termination by (relation "measure id") auto

declare show_number.simps [simp del]

definition dispatch_text :: "bool \<Rightarrow> string \<Rightarrow> string \<Rightarrow> string \<Rightarrow> method_decl \<Rightarrow> string" where
  "dispatch_text has_uosiolib attr func_name str d =
     (let nm = md_name d @ ''_'' @ md_class d; q = [CHR 0x22] in
      nl @ nl @ (if has_uosiolib then ''#include <uosiolib/datastream.hpp>'' @ nl @ ''#include <uosiolib/name.hpp>'' @ nl
                 else ''#include <uosio/datastream.hpp>'' @ nl @ ''#include <uosio/name.hpp>'' @ nl) @
      ''extern '' @ q @ ''C'' @ q @ '' {'' @ nl @
      ''uint32_t action_data_size();'' @ nl @
      ''uint32_t read_action_data(void*, uint32_t);'' @ nl @
      ''__attribute__((weak, '' @ attr @ ''('' @ q @ str @ '':'' @ func_name @ nm @ q @ ''))) void '' @ func_name @ nm @
      ''(unsigned long long r, unsigned long long c) {'' @ nl @
      ''size_t as = ::action_data_size();'' @ nl @
      ''void* buff = nullptr;'' @ nl @
      ''if (as > 0) {'' @ nl @
      ''buff = as >= '' @ show_number max_stack_size @ '' ? malloc(as) : alloca(as);'' @ nl @
      ''::read_action_data(buff, as);'' @ nl @
      ''}'' @ nl @
      ''uosio::datastream<const char*> ds{(char*)buff, as};'' @ nl @
      argument_texts (md_param_types d) show_number @
      md_qualified_class d @ ''{uosio::name{r},uosio::name{c},ds}.'' @ md_name d @ ''('' @
      call_texts (md_param_types d) show_number @ '');'' @ ''}}'' @ nl)"

definition create_dispatch :: "bool \<Rightarrow> string \<Rightarrow> string \<Rightarrow> string \<Rightarrow> method_decl \<Rightarrow> codegen_state \<Rightarrow> codegen_state" where
  "create_dispatch lib attr func_name str d st =
     (if md_of_contract d then st\<lparr>cs_inserted := cs_inserted st @ [(attr, str, dispatch_text lib attr func_name str d)]\<rparr>
      else st)"

definition create_action_dispatch :: "bool \<Rightarrow> method_decl \<Rightarrow> codegen_state \<Rightarrow> codegen_state" where
  "create_action_dispatch lib d = create_dispatch lib ''uosio_wasm_action'' ''__uosio_action_'' (get_action_name d) d"

definition create_notify_dispatch :: "bool \<Rightarrow> method_decl \<Rightarrow> codegen_state \<Rightarrow> codegen_state" where
  "create_notify_dispatch lib d = create_dispatch lib ''uosio_wasm_notify'' ''__uosio_notify_'' (get_notify_pair d) d"

section \<open>Visiting a method\<close>

definition validated :: "string \<Rightarrow> string \<Rightarrow> codegen_state \<Rightarrow> codegen_state" where
  "validated n msg st = (if validate_name n = Name_Accepted then st else emit_error msg st)"

text \<open>\<open>std::string::find\<close> of the two colons.\<close>

fun find_colons :: "string \<Rightarrow> nat option" where
  "find_colons (a # b # s) =
     (if a = CHR '':'' \<and> b = CHR '':'' then Some 0 else map_option Suc (find_colons (b # s)))"
| "find_colons _ = None"

text \<open>The static sets: the second branch of the code looks up the name it has found and compares it with itself.\<close>

definition note_action :: "string \<Rightarrow> codegen_state \<Rightarrow> codegen_state" where
  "note_action name st =
     (if name \<notin> cs_action_set st then st\<lparr>cs_action_set := insert name (cs_action_set st)\<rparr> else st)"

definition note_notify :: "string \<Rightarrow> codegen_state \<Rightarrow> codegen_state" where
  "note_notify name st =
     (if name \<notin> cs_notify_set st then st\<lparr>cs_notify_set := insert name (cs_notify_set st)\<rparr> else st)"

definition offer_action :: "bool \<Rightarrow> method_decl \<Rightarrow> codegen_state \<Rightarrow> codegen_state" where
  "offer_action lib d st =
     (if md_name d \<notin> cs_actions st then
        if get_action_name d \<notin> cs_actions st then create_action_dispatch lib d st
        else emit_error ''action already defined elsewhere'' st
      else st)"

definition offer_notify :: "bool \<Rightarrow> method_decl \<Rightarrow> codegen_state \<Rightarrow> codegen_state" where
  "offer_notify lib d st =
     (if md_name d \<notin> cs_notify_handlers st then
        if get_notify_pair d \<notin> cs_notify_handlers st then create_notify_dispatch lib d st
        else emit_error ''notification handler already defined elsewhere'' st
      else st)"

definition visit_action :: "bool \<Rightarrow> method_decl \<Rightarrow> codegen_state \<Rightarrow> codegen_state" where
  "visit_action lib d st =
     (let name = get_action_name d;
          st = offer_action lib d (note_action name (validated name ''action not a valid uosio name'' st))
      in st\<lparr>cs_actions := insert name (insert (md_name d) (cs_actions st))\<rparr>)"

definition validated_contract :: "string \<Rightarrow> codegen_state \<Rightarrow> codegen_state" where
  "validated_contract first st = (if first \<noteq> ''*'' then validated first ''invalid contract name'' st else st)"

text \<open>
  Without the colons \<open>find\<close> returns \<open>npos\<close>: the first part is the whole string, and the second begins
  at \<open>npos + 2\<close>, which is 1.
\<close>

definition visit_notify :: "bool \<Rightarrow> method_decl \<Rightarrow> codegen_state \<Rightarrow> codegen_state res" where
  "visit_notify lib d st =
     (let name = get_notify_pair d;
          first = (case find_colons name of None \<Rightarrow> name | Some i \<Rightarrow> take i name);
          st = validated_contract first st in
      bind_res (substr name (case find_colons name of None \<Rightarrow> 1 | Some i \<Rightarrow> i + 2) (length name)) (\<lambda>second.
      let st = offer_notify lib d (note_notify name (validated second ''invalid action name'' st))
      in Inr (st\<lparr>cs_notify_handlers := insert name (insert (md_name d) (cs_notify_handlers st))\<rparr>)))"

definition visit_method :: "bool \<Rightarrow> method_decl \<Rightarrow> codegen_state \<Rightarrow> codegen_state res" where
  "visit_method lib d st =
     (if md_action d \<noteq> None then Inr (visit_action lib d st)
      else if md_notify d \<noteq> None then visit_notify lib d st
      else Inr st)"

fun visit_methods :: "bool \<Rightarrow> method_decl list \<Rightarrow> codegen_state \<Rightarrow> codegen_state res" where
  "visit_methods lib [] st = Inr st"
| "visit_methods lib (d # ds) st = bind_res (visit_method lib d st) (visit_methods lib ds)"

section \<open>Which dispatchers are written\<close>

text \<open>What a run keeps: a dispatcher's action or notification is in the set, so none is written twice.\<close>

definition handled :: "codegen_state \<Rightarrow> (string \<times> string) list" where
  "handled st = map (\<lambda>(attr, str, _). (attr, str)) (cs_inserted st)"

definition codegen_ok :: "codegen_state \<Rightarrow> bool" where
  "codegen_ok st \<longleftrightarrow> distinct (handled st) \<and>
     (\<forall>(attr, n) \<in> set (handled st).
        attr = ''uosio_wasm_action'' \<and> n \<in> cs_actions st \<or> attr = ''uosio_wasm_notify'' \<and> n \<in> cs_notify_handlers st)"

lemma emit_error_simps [simp]:
  "handled (emit_error msg st) = handled st" "cs_actions (emit_error msg st) = cs_actions st"
  "cs_notify_handlers (emit_error msg st) = cs_notify_handlers st"
  "cs_inserted (emit_error msg st) = cs_inserted st" "cs_errors (emit_error msg st) = cs_errors st @ [msg]"
  by (simp_all add: handled_def emit_error_def)

lemma handled_update [simp]:
  "handled (st\<lparr>cs_actions := A\<rparr>) = handled st" "handled (st\<lparr>cs_notify_handlers := A\<rparr>) = handled st"
  by (simp_all add: handled_def)

lemma validated_simps [simp]:
  "handled (validated n msg st) = handled st" "cs_actions (validated n msg st) = cs_actions st"
  "cs_notify_handlers (validated n msg st) = cs_notify_handlers st" "cs_inserted (validated n msg st) = cs_inserted st"
  "cs_errors (validated n msg st) = cs_errors st @ (if validate_name n = Name_Accepted then [] else [msg])"
  by (simp_all add: validated_def)

lemma validated_contract_simps [simp]:
  "handled (validated_contract n st) = handled st" "cs_actions (validated_contract n st) = cs_actions st"
  "cs_notify_handlers (validated_contract n st) = cs_notify_handlers st"
  "cs_inserted (validated_contract n st) = cs_inserted st"
  "cs_errors (validated_contract n st) = cs_errors st @
     (if n \<noteq> ''*'' \<and> validate_name n \<noteq> Name_Accepted then [''invalid contract name''] else [])"
  by (simp_all add: validated_contract_def)

lemma note_simps [simp]:
  "handled (note_action n st) = handled st" "cs_actions (note_action n st) = cs_actions st"
  "cs_notify_handlers (note_action n st) = cs_notify_handlers st" "cs_inserted (note_action n st) = cs_inserted st"
  "cs_errors (note_action n st) = cs_errors st"
  "handled (note_notify n st) = handled st" "cs_actions (note_notify n st) = cs_actions st"
  "cs_notify_handlers (note_notify n st) = cs_notify_handlers st" "cs_inserted (note_notify n st) = cs_inserted st"
  "cs_errors (note_notify n st) = cs_errors st"
  by (simp_all add: note_action_def note_notify_def handled_def)

lemma dispatch_simps [simp]:
  "cs_actions (create_dispatch lib a f n d st) = cs_actions st"
  "cs_notify_handlers (create_dispatch lib a f n d st) = cs_notify_handlers st"
  "cs_errors (create_dispatch lib a f n d st) = cs_errors st"
  "cs_inserted (create_dispatch lib a f n d st) =
     cs_inserted st @ (if md_of_contract d then [(a, n, dispatch_text lib a f n d)] else [])"
  by (simp_all add: create_dispatch_def)

lemma handled_dispatch [simp]:
  "handled (create_dispatch lib a f n d st) = handled st @ (if md_of_contract d then [(a, n)] else [])"
  by (simp add: handled_def)

lemma offer_simps [simp]:
  "cs_actions (offer_action lib d st) = cs_actions st" "cs_notify_handlers (offer_action lib d st) = cs_notify_handlers st"
  "cs_actions (offer_notify lib d st) = cs_actions st" "cs_notify_handlers (offer_notify lib d st) = cs_notify_handlers st"
  "handled (offer_action lib d st) = handled st @
     (if md_of_contract d \<and> md_name d \<notin> cs_actions st \<and> get_action_name d \<notin> cs_actions st
      then [(''uosio_wasm_action'', get_action_name d)] else [])"
  "handled (offer_notify lib d st) = handled st @
     (if md_of_contract d \<and> md_name d \<notin> cs_notify_handlers st \<and> get_notify_pair d \<notin> cs_notify_handlers st
      then [(''uosio_wasm_notify'', get_notify_pair d)] else [])"
  "cs_errors (offer_notify lib d st) = cs_errors st @
     (if md_name d \<notin> cs_notify_handlers st \<and> get_notify_pair d \<in> cs_notify_handlers st
      then [''notification handler already defined elsewhere''] else [])"
  by (simp_all add: offer_action_def offer_notify_def create_action_dispatch_def create_notify_dispatch_def)

lemma visit_action_simps:
  "handled (visit_action lib d st) = handled st @
     (if md_of_contract d \<and> md_name d \<notin> cs_actions st \<and> get_action_name d \<notin> cs_actions st
      then [(''uosio_wasm_action'', get_action_name d)] else [])"
  "cs_actions (visit_action lib d st) = {get_action_name d, md_name d} \<union> cs_actions st"
  "cs_notify_handlers (visit_action lib d st) = cs_notify_handlers st"
  by (simp_all add: visit_action_def Let_def)

lemma visit_notify_ok:
  assumes "visit_notify lib d st = Inr st'"
  shows "handled st' = handled st @
      (if md_of_contract d \<and> md_name d \<notin> cs_notify_handlers st \<and> get_notify_pair d \<notin> cs_notify_handlers st
       then [(''uosio_wasm_notify'', get_notify_pair d)] else [])"
    and "cs_actions st' = cs_actions st"
    and "cs_notify_handlers st' = {get_notify_pair d, md_name d} \<union> cs_notify_handlers st"
  using assms by (auto simp: visit_notify_def Let_def bind_res_eq_Inr)

lemma visit_method_ok:
  assumes "codegen_ok st" and "visit_method lib d st = Inr st'"
  shows "codegen_ok st'"
proof -
  consider "st' = visit_action lib d st" | "visit_notify lib d st = Inr st'" | "st' = st"
    using assms(2) unfolding visit_method_def
    by (cases "md_action d = None"; cases "md_notify d = None") simp_all
  then show ?thesis
  proof cases
    case 1
    then show ?thesis
      using assms(1) by (auto simp: codegen_ok_def visit_action_simps)
  next
    case 2
    then show ?thesis
      using assms(1) by (auto simp: codegen_ok_def visit_notify_ok [OF 2])
  qed (use assms in simp)
qed

lemma visit_methods_ok: "codegen_ok st \<Longrightarrow> visit_methods lib ds st = Inr st' \<Longrightarrow> codegen_ok st'"
  by (induction ds arbitrary: st) (auto simp: bind_res_eq_Inr dest: visit_method_ok)

lemma handled_init: "handled codegen_init = []" and init_simps: "cs_actions codegen_init = {}"
  "cs_notify_handlers codegen_init = {}" "cs_inserted codegen_init = []" "cs_errors codegen_init = []"
  by (simp_all add: codegen_init_def handled_def)

lemma codegen_init_ok [simp]: "codegen_ok codegen_init"
  by (simp add: codegen_ok_def handled_init)

text \<open>Action methods whose names do not meet: each of them gets its dispatcher, and there is no error.\<close>

definition action_names :: "method_decl \<Rightarrow> string set" where
  "action_names d = {md_name d, get_action_name d}"

fun names_apart :: "method_decl list \<Rightarrow> bool" where
  "names_apart [] = True"
| "names_apart (d # ds) = ((\<forall>e \<in> set ds. action_names d \<inter> action_names e = {}) \<and> names_apart ds)"

definition action_method :: "method_decl \<Rightarrow> bool" where
  "action_method d \<longleftrightarrow> md_action d \<noteq> None \<and> md_of_contract d \<and> validate_name (get_action_name d) = Name_Accepted"

definition action_text :: "bool \<Rightarrow> method_decl \<Rightarrow> string \<times> string \<times> string" where
  "action_text lib d =
     (''uosio_wasm_action'', get_action_name d,
      dispatch_text lib ''uosio_wasm_action'' ''__uosio_action_'' (get_action_name d) d)"

lemma visit_action_new:
  assumes "action_method d" and "action_names d \<inter> cs_actions st = {}"
  shows "cs_inserted (visit_action lib d st) = cs_inserted st @ [action_text lib d]"
    and "cs_errors (visit_action lib d st) = cs_errors st"
  using assms
  by (simp_all add: visit_action_def Let_def action_method_def action_names_def offer_action_def
      create_action_dispatch_def action_text_def)

lemma visit_methods_apart:
  "\<forall>d \<in> set ds. action_method d \<Longrightarrow> names_apart ds \<Longrightarrow> \<forall>d \<in> set ds. action_names d \<inter> cs_actions st = {} \<Longrightarrow>
   \<exists>st'. visit_methods lib ds st = Inr st' \<and> cs_errors st' = cs_errors st \<and>
     cs_inserted st' = cs_inserted st @ map (action_text lib) ds"
proof (induction ds arbitrary: st)
  case (Cons d ds)
  let ?st = "visit_action lib d st"
  have "visit_method lib d st = Inr ?st" using Cons.prems by (simp add: visit_method_def action_method_def)
  moreover have "cs_inserted ?st = cs_inserted st @ [action_text lib d]" and "cs_errors ?st = cs_errors st"
    using visit_action_new [of d st] Cons.prems by simp_all
  moreover have "\<forall>e \<in> set ds. action_names e \<inter> cs_actions ?st = {}"
    using Cons.prems by (auto simp: visit_action_simps action_names_def)
  ultimately show ?case using Cons.IH [of ?st] Cons.prems by auto
qed simp

text \<open>
  But the set holds the names of the methods and those of the actions alike. A method that is called
  like the action of another one is passed over, without a dispatcher and without an error.
\<close>

lemma visit_action_lost:
  assumes "action_method e" and "md_name e \<in> cs_actions st"
  shows "cs_inserted (visit_action lib e st) = cs_inserted st" and "cs_errors (visit_action lib e st) = cs_errors st"
  using assms by (simp_all add: visit_action_def Let_def action_method_def offer_action_def)

lemma action_method_lost:
  assumes "action_method d" and "action_method e" and "md_name e = get_action_name d"
  shows "\<exists>st. visit_methods lib [d, e] codegen_init = Inr st \<and> cs_errors st = [] \<and> cs_inserted st = [action_text lib d]"
proof -
  let ?st = "visit_action lib d codegen_init"
  have init: "cs_actions codegen_init = {}" "cs_inserted codegen_init = []" "cs_errors codegen_init = []"
    by (simp_all add: codegen_init_def)
  have "cs_inserted ?st = [action_text lib d]" and "cs_errors ?st = []"
    using visit_action_new [OF assms(1), of codegen_init lib] init by simp_all
  moreover have "md_name e \<in> cs_actions ?st" using assms(3) by (simp add: visit_action_simps)
  ultimately show ?thesis
    using visit_action_lost [OF assms(2), of ?st lib] assms(1,2) by (simp add: visit_method_def action_method_def)
qed

section \<open>Notifications\<close>

lemma validate_name_chars: "validate_name s = Name_Accepted \<longleftrightarrow> valid_name_string s \<and> trim_dots s = s"
proof -
  have "is_ok (name_of_string s) \<Longrightarrow> name_to_string (projr (name_of_string s)) = trim_dots s"
    using name_to_string_of_string [of s] by (auto simp: is_ok_iff)
  then show ?thesis
    unfolding validate_name_iff valid_name_string_ok [symmetric] is_ok_iff by (auto dest: name_to_string_of_string)
qed

lemma validate_name_tl: "validate_name (c # s) = Name_Accepted \<Longrightarrow> validate_name s = Name_Accepted"
  unfolding validate_name_chars by (auto simp: valid_name_string_def thirteenth_ok_def split: if_splits)

text \<open>A pair with the colons: its two parts are checked.\<close>

lemma find_colons_append:
  "CHR '':'' \<notin> set a \<Longrightarrow> find_colons (a @ '':'' @ '':'' @ b) = Some (length a)"
proof (induction a)
  case (Cons c a)
  then show ?case by (cases a) auto
qed simp

lemma visit_notify_pair:
  assumes "get_notify_pair d = a @ ''::'' @ b" and "CHR '':'' \<notin> set a"
  shows "\<exists>st'. visit_notify lib d st = Inr st' \<and> cs_errors st' = cs_errors st @
    (if a \<noteq> ''*'' \<and> validate_name a \<noteq> Name_Accepted then [''invalid contract name''] else []) @
    (if validate_name b \<noteq> Name_Accepted then [''invalid action name''] else []) @
    (if md_name d \<notin> cs_notify_handlers st \<and> get_notify_pair d \<in> cs_notify_handlers st
     then [''notification handler already defined elsewhere''] else [])"
  using assms find_colons_append [of a b]
  by (simp add: visit_notify_def Let_def substr_def)

text \<open>Without the colons the name counts as the contract and its rest as the action: there is no error.\<close>

lemma visit_notify_no_colons:
  assumes "md_notify d = Some p" and "md_action d = None" and "find_colons p = None" and "p \<noteq> []"
    and "validate_name p = Name_Accepted" and "md_of_contract d"
  shows "\<exists>st. visit_methods lib [d] codegen_init = Inr st \<and> cs_errors st = [] \<and>
    handled st = [(''uosio_wasm_notify'', p)]"
proof -
  obtain c s where p: "p = c # s" using assms(4) by (cases p) auto
  then have "validate_name s = Name_Accepted" using assms(5) validate_name_tl by simp
  then show ?thesis
    using assms p
    by (simp add: visit_method_def visit_notify_def Let_def get_notify_pair_def substr_def handled_init init_simps)
qed

text \<open>An empty notification makes the tool throw.\<close>

lemma visit_notify_empty: "get_notify_pair d = [] \<Longrightarrow> visit_notify lib d st = Inl (Assertion ''out_of_range'')"
  by (simp add: visit_notify_def substr_def Let_def)

section \<open>Quoting\<close>

text \<open>Reading a string literal back: a backslash stands for the character behind it.\<close>

fun unquoted :: "string \<Rightarrow> string" where
  "unquoted (c # d # s) = (if c = CHR 0x5C then d # unquoted s else c # unquoted (d # s))"
| "unquoted s = s"

lemma unquoted_quoted: "unquoted (quoted s) = s"
proof (induction s)
  case (Cons c s)
  have q: "quoted (c # s) = (if c = CHR 0x22 \<or> c = CHR 0x5C then [CHR 0x5C, c] else [c]) @ quoted s"
    by (simp add: quoted_def)
  show ?case
  proof (cases "c = CHR 0x22 \<or> c = CHR 0x5C")
    case True
    then show ?thesis using Cons by (auto simp: q)
  next
    case False
    then show ?thesis using Cons q by (cases "quoted s") auto
  qed
qed (simp add: quoted_def)

text \<open>The ABI ends up in the text of the contract's entry point as it is.\<close>

definition abi_stub :: "string \<Rightarrow> string" where
  "abi_stub abi =
     (let q = [CHR 0x22]; tab = [CHR 0x09] in
      ''extern '' @ q @ ''C'' @ q @ '' {'' @ nl @ ''void uosio_assert_code(uint32_t, uint64_t);'' @ tab @
      ''__attribute__((weak, uosio_wasm_entry, uosio_wasm_abi('' @ q @ quoted abi @ q @ '')))'' @ nl @ tab @
      ''void __insert_uosio_abi(unsigned long long r, unsigned long long c, unsigned long long a){'' @
      ''uosio_assert_code(false, 1);'' @ ''}'' @ nl @ ''}'')"

end
