(* ===== verification/Uos_Builtins.thy ===== *)
theory Uos_Builtins
imports Uos_Asset "HOL-Library.Signed_Division"
begin

unbundle bit_operations_syntax

text \<open>
  The arithmetic of 128-bit integers and the comparison of 128-bit floating point numbers that the
  compiler calls, from \<^verbatim>\<open>src/libraries/rt/compiler_builtins.cpp\<close>. A 128-bit value comes in two halves. The
  operations on floating point numbers are those of the softfloat library, which are parameters.
\<close>

section \<open>Integers\<close>

text \<open>How each function puts the halves of an operand together.\<close>

definition join128 :: "u64 \<Rightarrow> u64 \<Rightarrow> u128" where
  "join128 low high = push_bit 64 (ucast high) OR ucast low"

text \<open>A shift by the width of the type or more, an overflow of a signed operation and a division by zero have no meaning.\<close>

definition i128_of :: "int \<Rightarrow> u128 res" where
  "i128_of x = (if - (2 ^ 127) \<le> x \<and> x < 2 ^ 127 then Inr (word_of_int x) else Inl (Undefined ''signed overflow''))"

definition ashlti3 :: "u64 \<Rightarrow> u64 \<Rightarrow> u32 \<Rightarrow> u128 res" where
  "ashlti3 low high shift =
     (if unat shift < 128 then Inr (push_bit (unat shift) (join128 low high)) else Inl (Undefined ''shift''))"

definition ashrti3 :: "u64 \<Rightarrow> u64 \<Rightarrow> u32 \<Rightarrow> u128 res" where
  "ashrti3 low high shift =
     (if unat shift < 128 then Inr (signed_drop_bit (unat shift) (join128 low high)) else Inl (Undefined ''shift''))"

definition lshlti3 :: "u64 \<Rightarrow> u64 \<Rightarrow> u32 \<Rightarrow> u128 res" where
  "lshlti3 low high shift =
     (if unat shift < 128 then Inr (push_bit (unat shift) (join128 low high)) else Inl (Undefined ''shift''))"

definition lshrti3 :: "u64 \<Rightarrow> u64 \<Rightarrow> u32 \<Rightarrow> u128 res" where
  "lshrti3 low high shift =
     (if unat shift < 128 then Inr (drop_bit (unat shift) (join128 low high)) else Inl (Undefined ''shift''))"

definition divti3 :: "u64 \<Rightarrow> u64 \<Rightarrow> u64 \<Rightarrow> u64 \<Rightarrow> u128 res" where
  "divti3 la ha lb hb =
     (let lhs = join128 la ha; rhs = join128 lb hb
      in if rhs = 0 then Inl (Undefined ''division by zero'') else i128_of (sint lhs sdiv sint rhs))"

definition udivti3 :: "u64 \<Rightarrow> u64 \<Rightarrow> u64 \<Rightarrow> u64 \<Rightarrow> u128 res" where
  "udivti3 la ha lb hb =
     (let lhs = join128 la ha; rhs = join128 lb hb
      in if rhs = 0 then Inl (Undefined ''division by zero'') else Inr (lhs div rhs))"

definition multi3 :: "u64 \<Rightarrow> u64 \<Rightarrow> u64 \<Rightarrow> u64 \<Rightarrow> u128 res" where
  "multi3 la ha lb hb = (let lhs = join128 la ha; rhs = join128 lb hb in i128_of (sint lhs * sint rhs))"

text \<open>The remainder has no meaning where the quotient has none.\<close>

definition modti3 :: "u64 \<Rightarrow> u64 \<Rightarrow> u64 \<Rightarrow> u64 \<Rightarrow> u128 res" where
  "modti3 la ha lb hb =
     (let lhs = join128 la ha; rhs = join128 lb hb
      in if rhs = 0 then Inl (Undefined ''division by zero'')
         else bind_res (i128_of (sint lhs sdiv sint rhs)) (\<lambda>_. i128_of (sint lhs smod sint rhs)))"

definition umodti3 :: "u64 \<Rightarrow> u64 \<Rightarrow> u64 \<Rightarrow> u64 \<Rightarrow> u128 res" where
  "umodti3 la ha lb hb =
     (let lhs = join128 la ha; rhs = join128 lb hb
      in if rhs = 0 then Inl (Undefined ''division by zero'') else Inr (lhs mod rhs))"

text \<open>The halves of a value, as a caller passes them.\<close>

definition low_half :: "u128 \<Rightarrow> u64" where
  "low_half w = ucast w"

definition high_half :: "u128 \<Rightarrow> u64" where
  "high_half w = ucast (drop_bit 64 w)"

lemma join_halves [simp]: "join128 (low_half w) (high_half w) = w"
  by (rule bit_word_eqI)
    (auto simp: join128_def low_half_def high_half_def bit_simps)

lemma unat_join128: "unat (join128 l h) = unat l + unat h * 2 ^ 64"
proof -
  have h: "unat (ucast h :: u128) = unat h" and l: "unat (ucast l :: u128) = unat l"
    by (simp_all add: unat_ucast_up)
  have "unat h * 2 ^ 64 < 2 ^ 64 * 2 ^ 64" using unat_less [of h] by simp
  then have "unat (push_bit 64 (ucast h) :: u128) = unat h * 2 ^ 64"
    by (simp add: unat_push_mod h)
  then have "unat (ucast l OR push_bit 64 (ucast h) :: u128) = unat l + unat h * 2 ^ 64"
    using unat_less [of l] l nat_or_mult [of "unat l" 64 "unat h"] by (simp add: unat_or)
  then show ?thesis by (simp add: join128_def or.commute)
qed

lemma zero_join128: "join128 l h = 0 \<longleftrightarrow> l = 0 \<and> h = 0"
  using unat_join128 [of l h] by (auto simp: unat_eq_0 simp flip: unat_eq_zero)

text \<open>Over the integers that the two halves stand for, a product, quotient or remainder is exact or has no meaning.\<close>

lemma i128_of_eq_Inr: "i128_of x = Inr w \<longleftrightarrow> sint w = x"
proof -
  have "- (2 ^ 127) \<le> sint w" and "sint w < 2 ^ 127"
    using sint_range_size [of w] by (simp_all add: word_size)
  moreover have "sint (word_of_int x :: u128) = x" if "- (2 ^ 127) \<le> x" and "x < 2 ^ 127"
    using that by (simp add: sint_sbintrunc' signed_take_bit_int_eq_self)
  ultimately show ?thesis by (auto simp: i128_of_def)
qed

lemma sint_eq_0_iff: "sint (w :: u128) = 0 \<longleftrightarrow> w = 0"
  using i128_of_eq_Inr [of 0 w] by (auto simp: i128_of_def)

lemma multi3_exact: "multi3 (low_half v) (high_half v) (low_half w) (high_half w) = Inr r \<longleftrightarrow> sint r = sint v * sint w"
  by (simp add: multi3_def i128_of_eq_Inr)

lemma divti3_exact:
  "divti3 (low_half v) (high_half v) (low_half w) (high_half w) = Inr r \<longleftrightarrow> w \<noteq> 0 \<and> sint r = sint v sdiv sint w"
  by (simp add: divti3_def i128_of_eq_Inr)

lemma smod_in_i128: "\<exists>r. i128_of (sint (v :: u128) smod sint w) = Inr r" if "(w :: u128) \<noteq> 0"
proof -
  have w: "\<bar>sint w\<bar> \<le> 2 ^ 127" using i128_of_eq_Inr [of "sint w" w] by (auto simp: i128_of_def abs_le_iff split: if_splits)
  have "sint w \<noteq> 0" using that sint_eq_0_iff by simp
  then have "\<bar>sint v smod sint w\<bar> < \<bar>sint w\<bar>"
    by (simp add: signed_modulo_int_def abs_mult abs_sgn_eq)
  then show ?thesis using w by (auto simp: i128_of_def)
qed

lemma modti3_exact:
  "modti3 (low_half v) (high_half v) (low_half w) (high_half w) = Inr r \<longleftrightarrow>
   w \<noteq> 0 \<and> (\<exists>q :: u128. sint q = sint v sdiv sint w) \<and> sint r = sint v smod sint w"
  by (auto simp: modti3_def bind_res_eq_Inr i128_of_eq_Inr)

lemma ashrti3_exact:
  "ashrti3 (low_half v) (high_half v) s = Inr r \<longleftrightarrow> unat s < 128 \<and> sint r = sint v div 2 ^ unat s"
proof -
  have "sint (signed_drop_bit n v) = sint v div 2 ^ n" for n
    by (simp add: sint_signed_drop_bit_eq drop_bit_eq_div)
  then show ?thesis
    by (metis (no_types, lifting) Inl_Inr_False Inr_inject ashrti3_def join_halves signed_word_eqI)
qed

text \<open>The products that assets compute stay within 128 bits: the builtin multiplies them exactly.\<close>

lemma asset_product_builtin:
  fixes x :: asset and k :: i64
  defines "a \<equiv> word_of_int (amount x) :: u128" and "b \<equiv> word_of_int (sint k) :: u128"
  shows "\<exists>r. multi3 (low_half a) (high_half a) (low_half b) (high_half b) = Inr r \<and> sint r = amount x * sint k"
proof -
  have in_range: "sint (word_of_int i :: u128) = i" if "- (2 ^ 127) \<le> i" and "i < 2 ^ 127" for i
    using that i128_of_eq_Inr [of i "word_of_int i"] by (simp add: i128_of_def)
  have i64: "- (2 ^ 63) \<le> sint w \<and> sint w < 2 ^ 63" for w :: i64
    using in_i64_sint [of w] by (simp add: in_i64_def)
  have "sint a = amount x" and "sint b = sint k"
    unfolding a_def b_def amount_def using i64 [of "asset_amount x"] i64 [of k]
    by (intro in_range; simp)+
  moreover have "- (2 ^ 127) \<le> amount x * sint k \<and> amount x * sint k < 2 ^ 127"
    using asset_product_fits [of x k] by (simp add: abs_less_iff)
  then have "sint (word_of_int (amount x * sint k) :: u128) = amount x * sint k" by (intro in_range) simp_all
  ultimately show ?thesis unfolding multi3_exact by metis
qed

section \<open>Floating point\<close>

record float128 =
  f_v0 :: u64
  f_v1 :: u64

definition float_of_halves :: "u64 \<Rightarrow> u64 \<Rightarrow> float128" where
  "float_of_halves l h = \<lparr>f_v0 = l, f_v1 = h\<rparr>"

text \<open>The operations of the softfloat library.\<close>

record softfloat =
  f128_add :: "float128 \<Rightarrow> float128 \<Rightarrow> float128"
  f128_sub :: "float128 \<Rightarrow> float128 \<Rightarrow> float128"
  f128_mul :: "float128 \<Rightarrow> float128 \<Rightarrow> float128"
  f128_div :: "float128 \<Rightarrow> float128 \<Rightarrow> float128"
  f128_is_nan :: "float128 \<Rightarrow> bool"
  f128_lt :: "float128 \<Rightarrow> float128 \<Rightarrow> bool"
  f128_eq :: "float128 \<Rightarrow> float128 \<Rightarrow> bool"

definition addtf3 :: "softfloat \<Rightarrow> u64 \<Rightarrow> u64 \<Rightarrow> u64 \<Rightarrow> u64 \<Rightarrow> float128" where
  "addtf3 sf la ha lb hb = f128_add sf (float_of_halves la ha) (float_of_halves lb hb)"

definition subtf3 :: "softfloat \<Rightarrow> u64 \<Rightarrow> u64 \<Rightarrow> u64 \<Rightarrow> u64 \<Rightarrow> float128" where
  "subtf3 sf la ha lb hb = f128_sub sf (float_of_halves la ha) (float_of_halves lb hb)"

definition multf3 :: "softfloat \<Rightarrow> u64 \<Rightarrow> u64 \<Rightarrow> u64 \<Rightarrow> u64 \<Rightarrow> float128" where
  "multf3 sf la ha lb hb = f128_mul sf (float_of_halves la ha) (float_of_halves lb hb)"

definition divtf3 :: "softfloat \<Rightarrow> u64 \<Rightarrow> u64 \<Rightarrow> u64 \<Rightarrow> u64 \<Rightarrow> float128" where
  "divtf3 sf la ha lb hb = f128_div sf (float_of_halves la ha) (float_of_halves lb hb)"

definition negtf2 :: "u64 \<Rightarrow> u64 \<Rightarrow> float128" where
  "negtf2 la ha = \<lparr>f_v0 = la, f_v1 = ha XOR push_bit 63 1\<rparr>"

definition unordtf2 :: "softfloat \<Rightarrow> u64 \<Rightarrow> u64 \<Rightarrow> u64 \<Rightarrow> u64 \<Rightarrow> int" where
  "unordtf2 sf la ha lb hb =
     (if f128_is_nan sf (float_of_halves la ha) \<or> f128_is_nan sf (float_of_halves lb hb) then 1 else 0)"

text \<open>The common comparison, with the value for operands that are no numbers.\<close>

definition cmp_or_nan :: "softfloat \<Rightarrow> u64 \<Rightarrow> u64 \<Rightarrow> u64 \<Rightarrow> u64 \<Rightarrow> int \<Rightarrow> int" where
  "cmp_or_nan sf la ha lb hb return_value_if_nan =
     (if unordtf2 sf la ha lb hb \<noteq> 0 then return_value_if_nan
      else if f128_lt sf (float_of_halves la ha) (float_of_halves lb hb) then - 1
      else if f128_eq sf (float_of_halves la ha) (float_of_halves lb hb) then 0
      else 1)"

definition eqtf2 :: "softfloat \<Rightarrow> u64 \<Rightarrow> u64 \<Rightarrow> u64 \<Rightarrow> u64 \<Rightarrow> int" where
  "eqtf2 sf la ha lb hb = cmp_or_nan sf la ha lb hb 1"

definition netf2 :: "softfloat \<Rightarrow> u64 \<Rightarrow> u64 \<Rightarrow> u64 \<Rightarrow> u64 \<Rightarrow> int" where
  "netf2 sf la ha lb hb = cmp_or_nan sf la ha lb hb 1"

definition getf2 :: "softfloat \<Rightarrow> u64 \<Rightarrow> u64 \<Rightarrow> u64 \<Rightarrow> u64 \<Rightarrow> int" where
  "getf2 sf la ha lb hb = cmp_or_nan sf la ha lb hb (- 1)"

definition gttf2 :: "softfloat \<Rightarrow> u64 \<Rightarrow> u64 \<Rightarrow> u64 \<Rightarrow> u64 \<Rightarrow> int" where
  "gttf2 sf la ha lb hb = cmp_or_nan sf la ha lb hb 0"

definition letf2 :: "softfloat \<Rightarrow> u64 \<Rightarrow> u64 \<Rightarrow> u64 \<Rightarrow> u64 \<Rightarrow> int" where
  "letf2 sf la ha lb hb = cmp_or_nan sf la ha lb hb 1"

definition lttf2 :: "softfloat \<Rightarrow> u64 \<Rightarrow> u64 \<Rightarrow> u64 \<Rightarrow> u64 \<Rightarrow> int" where
  "lttf2 sf la ha lb hb = cmp_or_nan sf la ha lb hb 0"

definition cmptf2 :: "softfloat \<Rightarrow> u64 \<Rightarrow> u64 \<Rightarrow> u64 \<Rightarrow> u64 \<Rightarrow> int" where
  "cmptf2 sf la ha lb hb = cmp_or_nan sf la ha lb hb 1"

text \<open>
  The test that the compiler makes on each result: a comparison with an operand that is no number is
  false, that for inequality true.
\<close>

lemma comparison_tests:
  fixes sf la ha lb hb
  defines "nan \<equiv> f128_is_nan sf (float_of_halves la ha) \<or> f128_is_nan sf (float_of_halves lb hb)"
    and "lt \<equiv> f128_lt sf (float_of_halves la ha) (float_of_halves lb hb)"
    and "eq \<equiv> f128_eq sf (float_of_halves la ha) (float_of_halves lb hb)"
  shows "lttf2 sf la ha lb hb < 0 \<longleftrightarrow> \<not> nan \<and> lt"
    and "letf2 sf la ha lb hb \<le> 0 \<longleftrightarrow> \<not> nan \<and> (lt \<or> eq)"
    and "gttf2 sf la ha lb hb > 0 \<longleftrightarrow> \<not> nan \<and> \<not> lt \<and> \<not> eq"
    and "getf2 sf la ha lb hb \<ge> 0 \<longleftrightarrow> \<not> nan \<and> \<not> lt"
    and "eqtf2 sf la ha lb hb = 0 \<longleftrightarrow> \<not> nan \<and> \<not> lt \<and> eq"
    and "netf2 sf la ha lb hb \<noteq> 0 \<longleftrightarrow> nan \<or> lt \<or> \<not> eq"
  by (auto simp: nan_def lt_def eq_def lttf2_def letf2_def gttf2_def getf2_def eqtf2_def netf2_def cmp_or_nan_def unordtf2_def)

text \<open>Negation changes the sign bit and nothing else.\<close>

lemma negtf2_bits: "bit (f_v1 (negtf2 l h)) n \<longleftrightarrow> (if n = 63 then \<not> bit h 63 else bit h n)"
  unfolding negtf2_def float128.select_convs bit_xor_iff push_bit_of_1 bit_exp_iff by auto

lemma negtf2_twice: "negtf2 (f_v0 (negtf2 l h)) (f_v1 (negtf2 l h)) = float_of_halves l h"
  by (simp add: negtf2_def float_of_halves_def xor.assoc)

end
