(* ===== verification/Uos_Native.thy ===== *)
theory Uos_Native
imports Uos_Asset
begin

text \<open>
  The runtime that unit tests of contracts run in (\<^verbatim>\<open>src/libraries/native/\<close>: \<^verbatim>\<open>crt.cpp\<close>, the
  assertions of \<^verbatim>\<open>intrinsics.cpp\<close>, \<^verbatim>\<open>native/uosio/crt.hpp\<close> and \<^verbatim>\<open>tester.hpp\<close>). An assertion leaves
  by \<open>longjmp\<close> to the point that the last \<open>setjmp\<close> on the chosen buffer marked: an operation either
  returns a value or jumps, and changes the state in both cases. The intrinsics for printing are
  those that \<open>_wrap_main\<close> installs.
\<close>

section \<open>Streams\<close>

datatype output_stream_kind = Std_out | Std_err | No_stream

record output_stream =
  os_output :: string
  os_index :: nat

definition output_stream :: output_stream where
  "output_stream = \<lparr>os_output = replicate (1024 * 2) (CHR 0x00), os_index = 0\<rparr>"

definition os_to_string :: "output_stream \<Rightarrow> string" where
  "os_to_string s = take (os_index s) (os_output s)"

text \<open>\<open>get\<close> returns the array, which its callers read as a C string.\<close>

definition os_get :: "output_stream \<Rightarrow> string res" where
  "os_get s =
     (if CHR 0x00 \<in> set (os_output s) then Inr (c_string (os_output s))
      else Inl (Undefined ''read past the output array''))"

definition os_push :: "char \<Rightarrow> output_stream \<Rightarrow> output_stream res" where
  "os_push c s =
     (if os_index s < length (os_output s)
      then Inr (s\<lparr>os_output := (os_output s)[os_index s := c], os_index := os_index s + 1\<rparr>)
      else Inl (Undefined ''write past the output array''))"

definition os_clear :: "output_stream \<Rightarrow> output_stream" where
  "os_clear s = s\<lparr>os_index := 0\<rparr>"

section \<open>The state of the runtime\<close>

datatype jmp_env = Env_main | Env_test

record native =
  std_out :: output_stream
  std_err :: output_stream
  env_ptr :: jmp_env
  heap_ptr :: u64
  heap_base_ptr :: u64
  page_count :: u64
  disable_output :: bool
  has_failed :: bool
  terminal :: string

datatype 'a outcome = Returned 'a | Jumped jmp_env

type_synonym 'a native_op = "native \<Rightarrow> ('a outcome \<times> native) res"

definition return_op :: "'a \<Rightarrow> 'a native_op" where
  "return_op x s = Inr (Returned x, s)"

definition seq_op :: "'a native_op \<Rightarrow> ('a \<Rightarrow> 'b native_op) \<Rightarrow> 'b native_op" where
  "seq_op f g s =
     bind_res (f s) (\<lambda>(r, t). case r of Returned x \<Rightarrow> g x t | Jumped e \<Rightarrow> Inr (Jumped e, t))"

definition update_op :: "(native \<Rightarrow> native) \<Rightarrow> unit native_op" where
  "update_op f s = Inr (Returned (), f s)"

definition longjmp :: "'a native_op" where
  "longjmp s = Inr (Jumped (env_ptr s), s)"

text \<open>What the start-up leaves behind, given the memory that was mapped.\<close>

definition wrap_main_state :: "u64 \<Rightarrow> native" where
  "wrap_main_state heap =
     \<lparr>std_out = output_stream, std_err = output_stream, env_ptr = Env_main, heap_ptr = heap,
      heap_base_ptr = heap, page_count = 1, disable_output = False, has_failed = False, terminal = []\<rparr>"

text \<open>The result of the program: that of \<open>main\<close>, or -1 after an assertion outside every test.\<close>

definition wrap_main :: "u64 \<Rightarrow> i32 native_op \<Rightarrow> (i32 \<times> native) res" where
  "wrap_main heap main =
     bind_res (main (wrap_main_state heap)) (\<lambda>(r, s). case r of Returned v \<Rightarrow> Inr (v, s) | Jumped _ \<Rightarrow> Inr (- 1, s))"

definition get_heap_base :: "u64 native_op" where
  "get_heap_base s = Inr (Returned (heap_base_ptr s), s)"

definition current_memory :: "u64 native_op" where
  "current_memory s = Inr (Returned (page_count s), s)"

definition silence_output :: "bool \<Rightarrow> unit native_op" where
  "silence_output t = update_op (\<lambda>s. s\<lparr>disable_output := t\<rparr>)"

definition set_env_test :: "unit native_op" where
  "set_env_test = update_op (\<lambda>s. s\<lparr>env_ptr := Env_test\<rparr>)"

definition reset_env :: "unit native_op" where
  "reset_env = update_op (\<lambda>s. s\<lparr>env_ptr := Env_main\<rparr>)"

section \<open>Printing\<close>

fun stream_push :: "output_stream_kind \<Rightarrow> char \<Rightarrow> native \<Rightarrow> native res" where
  "stream_push Std_out c s = bind_res (os_push c (std_out s)) (\<lambda>o'. Inr (s\<lparr>std_out := o'\<rparr>))"
| "stream_push Std_err c s = bind_res (os_push c (std_err s)) (\<lambda>o'. Inr (s\<lparr>std_err := o'\<rparr>))"
| "stream_push No_stream c s = Inr s"

definition put_terminal :: "char \<Rightarrow> native \<Rightarrow> native" where
  "put_terminal c s = (if \<not> disable_output s then s\<lparr>terminal := terminal s @ [c]\<rparr> else s)"

text \<open>One round of the loops of \<open>_prints_l\<close> and \<open>_prints\<close>, and the loops over the characters they read.\<close>

fun prints_loop :: "output_stream_kind \<Rightarrow> string \<Rightarrow> native \<Rightarrow> native res" where
  "prints_loop k [] s = Inr s"
| "prints_loop k (c # cs) s = bind_res (stream_push k c s) (\<lambda>t. prints_loop k cs (put_terminal c t))"

definition prints_l :: "string \<Rightarrow> output_stream_kind \<Rightarrow> unit native_op" where
  "prints_l cstr k s = bind_res (prints_loop k cstr s) (\<lambda>t. Inr (Returned (), t))"

definition prints :: "string \<Rightarrow> output_stream_kind \<Rightarrow> unit native_op" where
  "prints cstr k s = bind_res (prints_loop k (c_string cstr) s) (\<lambda>t. Inr (Returned (), t))"

section \<open>Assertions\<close>

definition native_assert :: "bool \<Rightarrow> string \<Rightarrow> unit native_op" where
  "native_assert test msg =
     (if \<not> test then seq_op (prints msg Std_err) (\<lambda>_. seq_op (prints_l [CHR 0x0A] No_stream) (\<lambda>_. longjmp))
      else return_op ())"

definition native_assert_message :: "bool \<Rightarrow> string \<Rightarrow> unit native_op" where
  "native_assert_message test msg =
     (if \<not> test then seq_op (prints_l msg Std_err) (\<lambda>_. seq_op (prints_l [CHR 0x0A] No_stream) (\<lambda>_. longjmp))
      else return_op ())"

definition native_assert_code :: "bool \<Rightarrow> u64 \<Rightarrow> unit native_op" where
  "native_assert_code test code =
     (if \<not> test then seq_op (prints (dec_nat (unat code)) Std_err) (\<lambda>_. seq_op (prints_l [CHR 0x0A] No_stream) (\<lambda>_. longjmp))
      else return_op ())"

definition native_abort :: "unit native_op" where
  "native_abort = native_assert False ''abort''"

text \<open>The growth of the memory; the addresses wrap as those of the machine.\<close>

definition native_grow_memory :: "u64 \<Rightarrow> u64 native_op" where
  "native_grow_memory sz s =
     seq_op (native_assert (\<not> heap_ptr s + sz * 64 * 1024 > heap_ptr s + 100 * 1024 * 1024) ''__builtin_wasm_grow_memory'')
       (\<lambda>_ t. let t = t\<lparr>heap_ptr := heap_ptr t + sz * 64 * 1024\<rparr>; t = t\<lparr>page_count := page_count t + 1\<rparr>
              in Inr (Returned (page_count t), t)) s"

section \<open>Expectations\<close>

text \<open>\<open>uosio::check\<close> and \<open>uosio::print\<close> in this runtime.\<close>

definition native_check :: "bool \<Rightarrow> string \<Rightarrow> unit native_op" where
  "native_check pred msg = (if \<not> pred then native_assert False msg else return_op ())"

definition native_print :: "string \<Rightarrow> unit native_op" where
  "native_print t = prints_l t Std_out"

text \<open>A test of a message, with the state for the length of the stream.\<close>

type_synonym predicate = "native \<Rightarrow> string \<Rightarrow> bool res"

text \<open>The comparison with a literal: the length first, then the bytes of a string that may be shorter.\<close>

definition equals_literal :: "(native \<Rightarrow> output_stream) \<Rightarrow> string \<Rightarrow> predicate" where
  "equals_literal sel expected s str =
     (if os_index (sel s) \<noteq> length expected then Inr False
      else if length expected \<le> length str + 1 then Inr (take (length expected) (str @ [CHR 0x00]) = expected)
      else Inl (Undefined ''memcmp past the string''))"

definition ask :: "(native \<Rightarrow> output_stream) \<Rightarrow> predicate \<Rightarrow> bool native_op" where
  "ask sel pred s =
     bind_res (os_get (sel s)) (\<lambda>str. bind_res (pred s str) (\<lambda>b. Inr (Returned b, s)))"

text \<open>Both ends of \<open>expect_assert\<close>: the function returned, and an assertion jumped back.\<close>

definition no_assert :: "bool \<Rightarrow> string \<Rightarrow> bool \<Rightarrow> bool native_op" where
  "no_assert chk li disable_out =
     seq_op reset_env (\<lambda>_.
     seq_op (silence_output False) (\<lambda>_.
     seq_op (if \<not> chk then native_check False (''error : expect_assert, no assert {'' @ li @ ''}'') else return_op ()) (\<lambda>_.
     seq_op (native_print (''error : expect_assert, no assert {'' @ li @ ''}'' @ [CHR 0x0A])) (\<lambda>_.
     seq_op (silence_output disable_out) (\<lambda>_.
     return_op False)))))"

definition report_assert :: "bool \<Rightarrow> string \<Rightarrow> bool \<Rightarrow> bool \<Rightarrow> bool native_op" where
  "report_assert chk li disable_out passed =
     seq_op (update_op (\<lambda>s. s\<lparr>std_err := os_clear (std_err s)\<rparr>)) (\<lambda>_.
     seq_op (silence_output False) (\<lambda>_.
     seq_op (if \<not> chk then native_check passed (''error : expect_assert, wrong assert {'' @ li @ ''}'') else return_op ()) (\<lambda>_.
     seq_op (if \<not> passed then native_print (''error : expect_assert, wrong assert {'' @ li @ ''}'' @ [CHR 0x0A]) else return_op ()) (\<lambda>_.
     seq_op (silence_output disable_out) (\<lambda>_.
     return_op passed)))))"

definition some_assert :: "bool \<Rightarrow> string \<Rightarrow> predicate \<Rightarrow> bool native_op" where
  "some_assert chk li pred s =
     (let disable_out = disable_output s
      in seq_op reset_env (\<lambda>_. seq_op (ask std_err pred) (report_assert chk li disable_out)) s)"

definition catch :: "jmp_env \<Rightarrow> 'a native_op \<Rightarrow> ('a \<Rightarrow> 'b native_op) \<Rightarrow> 'b native_op \<Rightarrow> 'b native_op" where
  "catch e f normal jumped s =
     bind_res (f s) (\<lambda>(r, t). case r of
        Returned x \<Rightarrow> normal x t
      | Jumped e' \<Rightarrow> if e' = e then jumped t else Inr (Jumped e', t))"

definition expect_assert :: "bool \<Rightarrow> string \<Rightarrow> predicate \<Rightarrow> unit native_op \<Rightarrow> bool native_op" where
  "expect_assert chk li pred func s =
     (let s = s\<lparr>std_err := os_clear (std_err s)\<rparr>; s = s\<lparr>env_ptr := Env_test\<rparr>; disable_out = disable_output s
      in catch Env_test func (\<lambda>_. no_assert chk li disable_out) (some_assert chk li pred) s)"

definition expect_assert_text :: "bool \<Rightarrow> string \<Rightarrow> string \<Rightarrow> unit native_op \<Rightarrow> bool native_op" where
  "expect_assert_text chk li expected func = expect_assert chk li (equals_literal std_err expected) func"

definition report_print :: "bool \<Rightarrow> string \<Rightarrow> bool \<Rightarrow> bool native_op" where
  "report_print chk li passed s =
     (let disable_out = disable_output s
      in seq_op (silence_output False) (\<lambda>_.
         seq_op (if \<not> chk then native_check passed (''error : wrong print message {'' @ li @ ''}'') else return_op ()) (\<lambda>_.
         seq_op (if \<not> passed then native_print (''error : wrong print message9 {'' @ li @ ''}'' @ [CHR 0x0A]) else return_op ()) (\<lambda>_.
         seq_op (silence_output disable_out) (\<lambda>_.
         return_op passed)))) s)"

definition expect_print :: "bool \<Rightarrow> string \<Rightarrow> predicate \<Rightarrow> unit native_op \<Rightarrow> bool native_op" where
  "expect_print chk li pred func =
     seq_op (update_op (\<lambda>s. s\<lparr>std_out := os_clear (std_out s)\<rparr>)) (\<lambda>_.
     seq_op func (\<lambda>_.
     seq_op (ask std_out pred) (\<lambda>passed.
     seq_op (update_op (\<lambda>s. s\<lparr>std_out := os_clear (std_out s)\<rparr>)) (\<lambda>_.
     report_print chk li passed))))"

definition expect_print_text :: "bool \<Rightarrow> string \<Rightarrow> string \<Rightarrow> unit native_op \<Rightarrow> bool native_op" where
  "expect_print_text chk li expected func = expect_print chk li (equals_literal std_out expected) func"

section \<open>The macros of the tests\<close>

definition record_and :: "bool native_op \<Rightarrow> unit native_op" where
  "record_and f = seq_op f (\<lambda>b. update_op (\<lambda>s. s\<lparr>has_failed := (has_failed s \<and> b)\<rparr>))"

definition check_assert :: "string \<Rightarrow> predicate \<Rightarrow> unit native_op \<Rightarrow> unit native_op" where
  "check_assert li pred func = record_and (expect_assert True li pred func)"

definition require_assert :: "string \<Rightarrow> predicate \<Rightarrow> unit native_op \<Rightarrow> unit native_op" where
  "require_assert li pred func = seq_op (expect_assert False li pred func) (\<lambda>_. return_op ())"

definition check_print :: "string \<Rightarrow> predicate \<Rightarrow> unit native_op \<Rightarrow> unit native_op" where
  "check_print li pred func = record_and (expect_print True li pred func)"

definition require_print :: "string \<Rightarrow> predicate \<Rightarrow> unit native_op \<Rightarrow> unit native_op" where
  "require_print li pred func = seq_op (expect_print False li pred func) (\<lambda>_. return_op ())"

text \<open>The texts of the operands and the place are those of the preprocessor.\<close>

definition check_equal :: "'a \<Rightarrow> 'a \<Rightarrow> string \<Rightarrow> string \<Rightarrow> string \<Rightarrow> unit native_op" where
  "check_equal x y tx ty loc =
     (if x \<noteq> y then
        seq_op (update_op (\<lambda>s. s\<lparr>has_failed := True\<rparr>)) (\<lambda>_.
        native_print (''CHECK_EQUAL failed ('' @ tx @ '' != '' @ ty @ '') {'' @ loc @ ''}'' @ [CHR 0x0A]))
      else return_op ())"

definition require_equal :: "'a \<Rightarrow> 'a \<Rightarrow> string \<Rightarrow> string \<Rightarrow> string \<Rightarrow> unit native_op" where
  "require_equal x y tx ty loc = native_check (x = y) (''REQUIRE_EQUAL failed ('' @ tx @ '' != '' @ ty @ '') {'' @ loc @ ''}'')"

text \<open>The last call of \<open>silence_output\<close> sets the flag to itself.\<close>

definition print_line :: "string \<Rightarrow> string \<Rightarrow> unit native_op" where
  "print_line name verdict =
     seq_op (prints ([CHR 0x1B] @ ''[1;37m'') Std_out) (\<lambda>_.
     seq_op (prints name Std_out) (\<lambda>_.
     prints verdict Std_out))"

definition keep_silence :: "unit native_op" where
  "keep_silence s = silence_output (disable_output s) s"

definition test_failed :: "string \<Rightarrow> unit native_op" where
  "test_failed name =
     seq_op (silence_output False) (\<lambda>_.
     seq_op (print_line name ('' '' @ [CHR 0x1B] @ ''[0;37munit test '' @ [CHR 0x1B] @ ''[1;31mfailed'' @ [CHR 0x1B] @ ''[0m'' @ [CHR 0x0A])) (\<lambda>_.
     seq_op (update_op (\<lambda>s. s\<lparr>has_failed := True\<rparr>)) (\<lambda>_.
     keep_silence)))"

text \<open>A test function: the statements between \<open>UOSIO_TEST_BEGIN\<close> and \<open>UOSIO_TEST_END\<close>.\<close>

definition test_function :: "string \<Rightarrow> unit native_op \<Rightarrow> unit native_op" where
  "test_function name statements =
     seq_op statements (\<lambda>_.
     seq_op (silence_output False) (\<lambda>_.
     seq_op (print_line name ('' '' @ [CHR 0x1B] @ ''[0;37munit test '' @ [CHR 0x1B] @ ''[1;32mpassed'' @ [CHR 0x1B] @ ''[0m'' @ [CHR 0x0A])) (\<lambda>_.
     keep_silence)))"

definition uosio_test :: "string \<Rightarrow> unit native_op \<Rightarrow> unit native_op" where
  "uosio_test name x s = catch (env_ptr s) x return_op (test_failed name) s"


section \<open>What printing does\<close>

definition os_append :: "string \<Rightarrow> output_stream \<Rightarrow> output_stream" where
  "os_append cs s =
     s\<lparr>os_output := take (os_index s) (os_output s) @ cs @ drop (os_index s + length cs) (os_output s),
       os_index := os_index s + length cs\<rparr>"

definition os_room :: "string \<Rightarrow> output_stream \<Rightarrow> bool" where
  "os_room cs s \<longleftrightarrow> os_index s + length cs \<le> length (os_output s)"

lemma os_append_Nil: "os_room [] s \<Longrightarrow> os_append [] s = s"
  by (simp add: os_append_def)

lemma os_push_append:
  "os_push c s = (if os_room [c] s then Inr (os_append [c] s) else Inl (Undefined ''write past the output array''))"
  by (auto simp: os_push_def os_append_def os_room_def upd_conv_take_nth_drop)

lemma os_index_append [simp]: "os_index (os_append cs s) = os_index s + length cs"
  by (simp add: os_append_def)

lemma length_os_append: "os_room cs s \<Longrightarrow> length (os_output (os_append cs s)) = length (os_output s)"
  by (simp add: os_append_def os_room_def)

lemma os_append_append:
  "os_room (cs @ ds) s \<Longrightarrow> os_append ds (os_append cs s) = os_append (cs @ ds) s"
  by (simp add: os_append_def os_room_def add_ac)

lemma os_room_Cons: "os_room (c # cs) s \<longleftrightarrow> os_room [c] s \<and> os_room cs (os_append [c] s)"
  by (auto simp: os_room_def os_append_def)

lemma os_to_string_append: "os_room cs s \<Longrightarrow> os_to_string (os_append cs s) = os_to_string s @ cs"
  by (simp add: os_to_string_def os_append_def os_room_def)

fun with_stream :: "output_stream_kind \<Rightarrow> (output_stream \<Rightarrow> output_stream) \<Rightarrow> native \<Rightarrow> native" where
  "with_stream Std_out f s = s\<lparr>std_out := f (std_out s)\<rparr>"
| "with_stream Std_err f s = s\<lparr>std_err := f (std_err s)\<rparr>"
| "with_stream No_stream f s = s"

fun room :: "output_stream_kind \<Rightarrow> string \<Rightarrow> native \<Rightarrow> bool" where
  "room Std_out cs s = os_room cs (std_out s)"
| "room Std_err cs s = os_room cs (std_err s)"
| "room No_stream cs s = True"

definition printed :: "output_stream_kind \<Rightarrow> string \<Rightarrow> native \<Rightarrow> native" where
  "printed k cs s =
     (with_stream k (os_append cs) s)\<lparr>terminal := terminal s @ (if disable_output s then [] else cs)\<rparr>"

lemma prints_loop_Cons: 
  "prints_loop k (c # cs) s =
   (if room k [c] s then prints_loop k cs (printed k [c] s) else Inl (Undefined ''write past the output array''))"
  by (cases k) (simp_all add: os_push_append printed_def put_terminal_def)

lemma room_Cons: "room k (c # cs) s \<longleftrightarrow> room k [c] s \<and> room k cs (printed k [c] s)"
  by (cases k) (auto simp: printed_def os_room_Cons [of c cs])

lemma printed_Cons: "room k (c # cs) s \<Longrightarrow> printed k cs (printed k [c] s) = printed k (c # cs) s"
  by (cases k) (simp_all add: printed_def os_append_append)

text \<open>Printing adds the text to the stream, if there is room, and to the terminal, unless it is silenced.\<close>

lemma prints_loop_eq:
  "room k [] s \<Longrightarrow> prints_loop k cs s =
   (if room k cs s then Inr (printed k cs s) else Inl (Undefined ''write past the output array''))"
proof (induction cs arbitrary: s)
  case Nil
  then show ?case by (cases k) (simp_all add: printed_def os_append_Nil)
next
  case (Cons c cs)
  have "room k [] (printed k [c] s)" if "room k [c] s"
    using that by (cases k) (simp_all add: printed_def os_room_def length_os_append)
  then show ?case
    using Cons.IH by (simp add: prints_loop_Cons room_Cons [of k c cs] printed_Cons del: prints_loop.simps)
qed


definition stream_overflow :: error where
  "stream_overflow = Undefined ''write past the output array''"

lemma prints_l_eq:
  "room k [] s \<Longrightarrow> prints_l cs k s = (if room k cs s then Inr (Returned (), printed k cs s) else Inl stream_overflow)"
  by (simp add: prints_l_def prints_loop_eq stream_overflow_def)

lemma prints_eq:
  "room k [] s \<Longrightarrow> prints cs k s =
   (if room k (c_string cs) s then Inr (Returned (), printed k (c_string cs) s) else Inl stream_overflow)"
  by (simp add: prints_def prints_loop_eq stream_overflow_def)

lemma printed_more [simp]:
  "env_ptr (printed k cs s) = env_ptr s"
  "heap_ptr (printed k cs s) = heap_ptr s"
  "page_count (printed k cs s) = page_count s"
  "disable_output (printed k cs s) = disable_output s"
  "has_failed (printed k cs s) = has_failed s"
  by (cases k; simp add: printed_def)+

lemma printed_streams [simp]:
  "std_out (printed Std_out cs s) = os_append cs (std_out s)"
  "std_out (printed Std_err cs s) = std_out s"
  "std_out (printed No_stream cs s) = std_out s"
  "std_err (printed Std_out cs s) = std_err s"
  "std_err (printed Std_err cs s) = os_append cs (std_err s)"
  "std_err (printed No_stream cs s) = std_err s"
  by (simp_all add: printed_def)

lemma seq_op_simps:
  "f s = Inr (Returned x, t) \<Longrightarrow> seq_op f g s = g x t"
  "f s = Inr (Jumped e, t) \<Longrightarrow> seq_op f g s = Inr (Jumped e, t)"
  "f s = Inl err \<Longrightarrow> seq_op f g s = Inl err"
  by (simp_all add: seq_op_def)

lemma seq_op_basic [simp]:
  "seq_op (return_op x) g s = g x s"
  "seq_op (update_op f) g s = g () (f s)"
  "seq_op (silence_output b) g s = g () (s\<lparr>disable_output := b\<rparr>)"
  "seq_op reset_env g s = g () (s\<lparr>env_ptr := Env_main\<rparr>)"
  "seq_op keep_silence g s = g () s"
  by (simp_all add: seq_op_def return_op_def update_op_def silence_output_def reset_env_def keep_silence_def)

lemma seq_op_assoc: "seq_op (seq_op f g) h = seq_op f (\<lambda>x. seq_op (g x) h)"
  by (rule ext) (auto simp: seq_op_def fun_eq_iff split: outcome.splits intro!: bind_res_cong)

lemma seq_op_prints_l:
  "room k [] s \<Longrightarrow> seq_op (prints_l cs k) g s = (if room k cs s then g () (printed k cs s) else Inl stream_overflow)"
  by (simp add: seq_op_def prints_l_eq)

lemma seq_op_prints:
  "room k [] s \<Longrightarrow> seq_op (prints cs k) g s =
   (if room k (c_string cs) s then g () (printed k (c_string cs) s) else Inl stream_overflow)"
  by (simp add: seq_op_def prints_eq)

section \<open>Assertions and what they leave\<close>

text \<open>A failed assertion leaves its message in the error stream and jumps; others do nothing.\<close>

definition asserted :: "string \<Rightarrow> native \<Rightarrow> native" where
  "asserted msg s = printed No_stream [CHR 0x0A] (printed Std_err (c_string msg) s)"

lemma native_assert_eq:
  "room Std_err [] s \<Longrightarrow> native_assert test msg s =
   (if test then Inr (Returned (), s)
    else if room Std_err (c_string msg) s then Inr (Jumped (env_ptr s), asserted msg s)
    else Inl stream_overflow)"
  by (simp add: native_assert_def seq_op_prints seq_op_prints_l longjmp_def asserted_def return_op_def)

lemma asserted_more [simp]:
  "env_ptr (asserted msg s) = env_ptr s"
  "disable_output (asserted msg s) = disable_output s"
  "has_failed (asserted msg s) = has_failed s"
  "heap_ptr (asserted msg s) = heap_ptr s"
  "page_count (asserted msg s) = page_count s"
  "std_out (asserted msg s) = std_out s"
  "std_err (asserted msg s) = os_append (c_string msg) (std_err s)"
  by (simp_all add: asserted_def)

text \<open>
  The well-formed streams: their arrays have their length, with a NUL in the last place, which
  holds as long as every text is shorter than the array.
\<close>

definition stream_ok :: "output_stream \<Rightarrow> bool" where
  "stream_ok s \<longleftrightarrow> length (os_output s) = 2048 \<and> os_output s ! 2047 = CHR 0x00 \<and> os_index s < 2048"

lemma stream_ok_initial: "stream_ok output_stream"
  by (simp add: stream_ok_def output_stream_def)

lemma stream_ok_append: "stream_ok (os_append cs s)" if "stream_ok s" and "os_index s + length cs < 2048"
proof -
  have "os_append cs s = s\<lparr>os_output := os_output (os_append cs s), os_index := os_index s + length cs\<rparr>"
    by (simp add: os_append_def)
  moreover have "os_output (os_append cs s) ! 2047 = CHR 0x00"
    using that by (auto simp: os_append_def stream_ok_def nth_append)
  ultimately show ?thesis using that by (simp add: stream_ok_def length_os_append os_room_def)
qed

lemma stream_ok_clear: "stream_ok s \<Longrightarrow> stream_ok (os_clear s)"
  by (simp add: stream_ok_def os_clear_def)

lemma room_ok: "stream_ok s \<Longrightarrow> os_room cs s \<longleftrightarrow> os_index s + length cs \<le> 2048"
  by (simp add: stream_ok_def os_room_def)

lemma os_get_ok: "stream_ok s \<Longrightarrow> os_get s = Inr (c_string (os_output s))"
  by (auto simp: stream_ok_def os_get_def in_set_conv_nth intro: exI [of _ 2047])

text \<open>
  The text in a stream is a prefix of what \<open>get\<close> reads, and the rest of that is what earlier texts
  left behind. The comparison with a literal is not misled by it, since it tests the length.
\<close>

lemma c_string_append: "CHR 0x00 \<notin> set cs \<Longrightarrow> c_string (cs @ ds) = cs @ c_string ds"
  by (induction cs) (auto simp: c_string_def)

lemma os_get_append:
  assumes "stream_ok s" and "os_index s = 0" and "CHR 0x00 \<notin> set cs" and "length cs < 2048"
  shows "os_get (os_append cs s) = Inr (cs @ c_string (drop (length cs) (os_output s)))"
proof -
  have "stream_ok (os_append cs s)" using assms stream_ok_append [of s cs] by simp
  then show ?thesis
    using assms by (simp add: os_get_ok os_append_def c_string_append)
qed

lemma ask_literal:
  assumes "stream_ok s0" and "os_index s0 = 0" and "CHR 0x00 \<notin> set cs" and "length cs < 2048"
    and "sel s = os_append cs s0"
  shows "ask sel (equals_literal sel expected) s = Inr (Returned (cs = expected), s)"
  using assms by (auto simp: ask_def os_get_append equals_literal_def)


section \<open>Expectations and the flag\<close>

definition wrong_text :: "string \<Rightarrow> string" where
  "wrong_text li = ''error : expect_assert, wrong assert {'' @ li @ ''}''"

definition missing_text :: "string \<Rightarrow> string" where
  "missing_text li = ''error : expect_assert, no assert {'' @ li @ ''}''"

lemma length_texts:
  "length (wrong_text li) \<le> length li + 39" "length (missing_text li) \<le> length li + 39"
  by (simp_all add: wrong_text_def missing_text_def)

lemma length_c_string: "length (c_string s) \<le> length s"
  by (simp add: c_string_def length_takeWhile_le)

lemma c_string_plain: "CHR 0x00 \<notin> set s \<Longrightarrow> c_string s = s"
  using c_string_append [of s "[]"] by (simp add: c_string_def)

lemma seq_op_ask: "ask sel pred s = Inr (Returned b, s) \<Longrightarrow> seq_op (ask sel pred) g s = g b s"
  by (simp add: seq_op_def)

text \<open>
  The report, where both streams have room for its texts: a check prints a text, a requirement
  asserts one. No flag is set.
\<close>

definition texts_fit :: "string \<Rightarrow> native \<Rightarrow> bool" where
  "texts_fit li s \<longleftrightarrow> stream_ok (std_err s) \<and> stream_ok (std_out s) \<and> os_index (std_out s) + length li + 40 \<le> 2048"

lemma native_check_cleared:
  assumes "stream_ok (std_err s)" and "os_index (std_err s) = 0" and "length msg < 2048"
  shows "native_assert False msg s = Inr (Jumped (env_ptr s), asserted msg s)"
  using assms length_c_string [of msg] by (simp add: native_assert_eq room_ok)

lemma native_print_fits:
  assumes "texts_fit li s" and "length msg \<le> length li + 40"
  shows "seq_op (native_print msg) g s = g () (printed Std_out msg s)"
  using assms by (simp add: native_print_def seq_op_prints_l room_ok texts_fit_def)

lemma report_assert_check:
  assumes "texts_fit li s"
  shows "\<exists>t. report_assert True li d passed s = Inr (Returned passed, t) \<and>
    has_failed t = has_failed s \<and> env_ptr t = env_ptr s \<and> disable_output t = d"
proof (cases passed)
  case False
  define s' where "s' = s\<lparr>std_err := os_clear (std_err s), disable_output := False\<rparr>"
  have "texts_fit li s'" using assms by (simp add: texts_fit_def s'_def stream_ok_clear)
  then have "seq_op (native_print (wrong_text li @ [CHR 0x0A])) g s' = g () (printed Std_out (wrong_text li @ [CHR 0x0A]) s')" for g :: "unit \<Rightarrow> bool native_op"
    by (rule native_print_fits) (use length_texts(1) [of li] in simp)
  then show ?thesis using False
    by (simp add: report_assert_def s'_def wrong_text_def return_op_def)
qed (simp add: report_assert_def return_op_def)

lemma report_assert_require:
  assumes "texts_fit li s"
  shows "\<exists>t. report_assert False li d passed s = Inr (if passed then Returned True else Jumped (env_ptr s), t) \<and>
    has_failed t = has_failed s \<and> env_ptr t = env_ptr s"
proof (cases passed)
  case False
  define s' where "s' = s\<lparr>std_err := os_clear (std_err s), disable_output := False\<rparr>"
  have "native_assert False (wrong_text li) s' = Inr (Jumped (env_ptr s'), asserted (wrong_text li) s')"
    using assms length_texts [of li] by (intro native_check_cleared) (simp_all add: s'_def texts_fit_def stream_ok_clear, simp add: os_clear_def)
  then show ?thesis using False
    by (simp add: report_assert_def s'_def wrong_text_def native_check_def seq_op_def [of "native_assert _ _"])
qed (simp add: report_assert_def return_op_def native_check_def)


text \<open>The whole expectation, of a function that asserts a condition.\<close>

definition plain_text :: "string \<Rightarrow> bool" where
  "plain_text msg \<longleftrightarrow> length msg < 2048 \<and> CHR 0x00 \<notin> set msg"

lemma some_assert_says:
  assumes fit: "texts_fit li s" and m: "plain_text msg"
  defines "t \<equiv> asserted msg (s\<lparr>std_err := os_clear (std_err s), env_ptr := Env_test\<rparr>)"
  shows "some_assert chk li (equals_literal std_err expected) t =
    report_assert chk li (disable_output s) (msg = expected) (t\<lparr>env_ptr := Env_main\<rparr>)"
    and "texts_fit li (t\<lparr>env_ptr := Env_main\<rparr>)"
proof -
  have c0: "os_index (os_clear (std_err s)) = 0" by (simp add: os_clear_def)
  have err: "std_err t = os_append msg (os_clear (std_err s))"
    using m by (simp add: t_def c_string_plain plain_text_def)
  have ok: "stream_ok (os_clear (std_err s))" using fit by (simp add: texts_fit_def stream_ok_clear)
  have "ask std_err (equals_literal std_err expected) (t\<lparr>env_ptr := Env_main\<rparr>) =
      Inr (Returned (msg = expected), t\<lparr>env_ptr := Env_main\<rparr>)"
    using ok c0 m by (intro ask_literal [of "os_clear (std_err s)"]) (simp_all add: err plain_text_def)
  then show "some_assert chk li (equals_literal std_err expected) t =
    report_assert chk li (disable_output s) (msg = expected) (t\<lparr>env_ptr := Env_main\<rparr>)"
    by (simp add: some_assert_def seq_op_ask t_def)
  have "stream_ok (std_err t)" unfolding err using ok m by (intro stream_ok_append) (simp_all add: c0 plain_text_def)
  then show "texts_fit li (t\<lparr>env_ptr := Env_main\<rparr>)" using fit by (simp add: texts_fit_def t_def)
qed

lemma expect_assert_asserts:
  assumes "texts_fit li s" and "plain_text msg"
  shows "\<exists>t. expect_assert_text chk li expected (native_assert False msg) s =
      report_assert chk li (disable_output s) (msg = expected) t \<and>
    texts_fit li t \<and> env_ptr t = Env_main \<and> has_failed t = has_failed s"
proof -
  define s' where "s' = s\<lparr>std_err := os_clear (std_err s), env_ptr := Env_test\<rparr>"
  have "native_assert False msg s' = Inr (Jumped Env_test, asserted msg s')"
    using assms native_check_cleared [of s' msg]
    by (simp add: s'_def texts_fit_def plain_text_def stream_ok_clear) (simp add: os_clear_def)
  then show ?thesis
    using some_assert_says(1) [OF assms, of chk expected] some_assert_says(2) [OF assms]
    by (intro exI [of _ "(asserted msg s')\<lparr>env_ptr := Env_main\<rparr>"])
      (simp add: expect_assert_text_def expect_assert_def catch_def s'_def Let_def)
qed

lemma no_assert_outcome:
  assumes "texts_fit li s" and "os_index (std_err s) = 0"
  shows "\<exists>t. no_assert chk li d s = Inr (if chk then Returned False else Jumped Env_main, t) \<and>
    has_failed t = has_failed s \<and> env_ptr t = Env_main \<and> (chk \<longrightarrow> disable_output t = d)"
proof -
  define s' where "s' = s\<lparr>env_ptr := Env_main, disable_output := False\<rparr>"
  have fit: "texts_fit li s'" using assms by (simp add: texts_fit_def s'_def)
  have "native_assert False (missing_text li) s' = Inr (Jumped (env_ptr s'), asserted (missing_text li) s')"
    using fit assms length_texts(2) [of li] by (intro native_check_cleared) (simp_all add: s'_def texts_fit_def)
  moreover have "seq_op (native_print (missing_text li @ [CHR 0x0A])) g s' = g () (printed Std_out (missing_text li @ [CHR 0x0A]) s')" for g :: "unit \<Rightarrow> bool native_op"
    using fit by (rule native_print_fits) (use length_texts(2) [of li] in simp)
  ultimately show ?thesis
    by (cases chk)
      (simp_all add: no_assert_def s'_def missing_text_def native_check_def return_op_def
        seq_op_def [of "native_assert _ _"])
qed

lemma expect_assert_returns:
  assumes "texts_fit li s" and "func (s\<lparr>std_err := os_clear (std_err s), env_ptr := Env_test\<rparr>) =
    Inr (Returned (), s\<lparr>std_err := os_clear (std_err s), env_ptr := Env_test\<rparr>)"
  shows "\<exists>t. expect_assert chk li pred func s = Inr (if chk then Returned False else Jumped Env_main, t) \<and>
    has_failed t = has_failed s \<and> env_ptr t = Env_main \<and> (chk \<longrightarrow> disable_output t = disable_output s)"
proof -
  define s' where "s' = s\<lparr>std_err := os_clear (std_err s), env_ptr := Env_test\<rparr>"
  have "expect_assert chk li pred func s = no_assert chk li (disable_output s) s'"
    using assms(2) by (simp add: expect_assert_def catch_def s'_def Let_def)
  moreover have "texts_fit li s'" and "os_index (std_err s') = 0"
    using assms(1) by (simp_all add: texts_fit_def s'_def stream_ok_clear, simp add: os_clear_def)
  ultimately show ?thesis using no_assert_outcome [of li s' chk "disable_output s"] by (simp add: s'_def)
qed

text \<open>Both together: the outcome of expecting an assertion of a tested condition.\<close>

lemma expect_assert_outcome:
  fixes test :: bool and msg expected :: string
  assumes fit: "texts_fit li s" and m: "plain_text msg"
  defines passed: "passed \<equiv> \<not> test \<and> msg = expected"
  shows "\<exists>t. expect_assert_text chk li expected (native_assert test msg) s =
      Inr (if passed \<or> chk then Returned passed else Jumped Env_main, t) \<and>
    has_failed t = has_failed s \<and> env_ptr t = Env_main \<and>
    (chk \<longrightarrow> disable_output t = disable_output s)"
proof (cases test)
  case True
  then have "native_assert test msg v = Inr (Returned (), v)" for v by (simp add: native_assert_def return_op_def)
  then show ?thesis
    using expect_assert_returns [OF fit, of "native_assert test msg" chk "equals_literal std_err expected"] True
    by (auto simp: expect_assert_text_def passed)
next
  case False
  obtain u where u: "expect_assert_text chk li expected (native_assert test msg) s =
      report_assert chk li (disable_output s) (msg = expected) u"
    "texts_fit li u" "env_ptr u = Env_main" "has_failed u = has_failed s"
    using expect_assert_asserts [OF fit m, of chk expected] False by auto
  then show ?thesis
    using report_assert_check [OF u(2), of "disable_output s" "msg = expected"]
      report_assert_require [OF u(2), of "disable_output s" "msg = expected"] False
    by (cases chk) (auto simp: passed)
qed


section \<open>The output of many tests\<close>

text \<open>
  Tests that pass print a line each, and only \<open>expect_print\<close> empties the stream: after 2048
  characters the next one is written behind the array.
\<close>

fun run_tests :: "string list \<Rightarrow> unit native_op" where
  "run_tests [] = return_op ()"
| "run_tests (n # ns) = seq_op (uosio_test n (test_function n (return_op ()))) (\<lambda>_. run_tests ns)"

definition line_length :: "string \<Rightarrow> nat" where
  "line_length name = 43 + length (c_string name)"

definition line_of :: "string \<Rightarrow> string \<Rightarrow> string" where
  "line_of name verdict = c_string ([CHR 0x1B] @ ''[1;37m'') @ c_string name @ c_string verdict"

lemma room_append: "room Std_out (cs @ ds) s \<longleftrightarrow> room Std_out cs s \<and> room Std_out ds (printed Std_out cs s)"
  by (auto simp: os_room_def length_os_append)

lemma printed_append:
  "room Std_out (cs @ ds) s \<Longrightarrow> printed Std_out ds (printed Std_out cs s) = printed Std_out (cs @ ds) s"
  by (simp add: printed_def os_append_append)

lemma room_Nil_printed: "room Std_out cs s \<Longrightarrow> room Std_out [] (printed Std_out cs s)"
  by (simp add: os_room_def length_os_append)

lemma print_line_eq:
  assumes "room Std_out [] s"
  shows "print_line name verdict s =
    (if room Std_out (line_of name verdict) s then Inr (Returned (), printed Std_out (line_of name verdict) s)
     else Inl stream_overflow)"
  unfolding print_line_def line_of_def seq_op_prints [OF assms]
  by (simp add: seq_op_prints prints_eq room_append room_Nil_printed printed_append
      del: room.simps)


definition passed_text :: string where
  "passed_text = '' '' @ [CHR 0x1B] @ ''[0;37munit test '' @ [CHR 0x1B] @ ''[1;32mpassed'' @ [CHR 0x1B] @ ''[0m'' @ [CHR 0x0A]"

lemma length_line: "length (line_of name passed_text) = line_length name"
  by (simp add: line_of_def passed_text_def line_length_def c_string_def)

lemma passing_test:
  assumes "room Std_out [] s"
  shows "uosio_test n (test_function n (return_op ())) s =
    (if room Std_out (line_of n passed_text) s
     then Inr (Returned (), printed Std_out (line_of n passed_text) (s\<lparr>disable_output := False\<rparr>)) else Inl stream_overflow)"
proof -
  have "room Std_out [] (s\<lparr>disable_output := False\<rparr>)" using assms by simp
  then have line: "print_line n passed_text (s\<lparr>disable_output := False\<rparr>) =
      (if room Std_out (line_of n passed_text) s
       then Inr (Returned (), printed Std_out (line_of n passed_text) (s\<lparr>disable_output := False\<rparr>)) else Inl stream_overflow)"
    using print_line_eq [of "s\<lparr>disable_output := False\<rparr>" n passed_text] by simp
  have "test_function n (return_op ()) s =
      seq_op (print_line n passed_text) (\<lambda>_. keep_silence) (s\<lparr>disable_output := False\<rparr>)"
    by (simp add: test_function_def passed_text_def)
  then show ?thesis
    by (simp add: uosio_test_def catch_def seq_op_def line keep_silence_def silence_output_def update_op_def return_op_def)
qed

text \<open>A number of passing tests runs to its end exactly if all their lines fit into the array.\<close>

lemma run_tests_outcome:
  assumes "room Std_out [] s" and "length (os_output (std_out s)) = 2048"
  shows "if os_index (std_out s) + sum_list (map line_length ns) \<le> 2048
    then \<exists>t. run_tests ns s = Inr (Returned (), t) \<and> has_failed t = has_failed s
    else run_tests ns s = Inl stream_overflow"
  using assms
proof (induction ns arbitrary: s)
  case (Cons n ns)
  define line where "line = line_of n passed_text"
  define t where "t = printed Std_out line (s\<lparr>disable_output := False\<rparr>)"
  have first: "run_tests (n # ns) s = (if room Std_out line s then run_tests ns t else Inl stream_overflow)"
    by (simp add: seq_op_def passing_test [OF Cons.prems(1)] line_def t_def del: room.simps)
  have fits: "room Std_out line s \<longleftrightarrow> os_index (std_out s) + line_length n \<le> 2048"
    using Cons.prems(2) by (simp add: os_room_def line_def length_line)
  show ?case
  proof (cases "room Std_out line s")
    case True
    then have "room Std_out [] t" and "length (os_output (std_out t)) = 2048"
      and "os_index (std_out t) = os_index (std_out s) + line_length n" and "has_failed t = has_failed s"
      using Cons.prems(2) by (simp_all add: t_def os_room_def length_os_append length_line [of n, folded line_def])
    then show ?thesis using Cons.IH [of t] first True by (auto simp: add.assoc simp del: room.simps run_tests.simps split: if_splits)
  next
    case False
    then show ?thesis using first fits by (simp del: room.simps run_tests.simps)
  qed
qed (simp add: return_op_def os_room_def)

section \<open>Memory\<close>

text \<open>
  The limit is compared with the memory that is left of the moving pointer: requests that are below it one
  by one never meet it, and each counts as one page.
\<close>

lemma grow_counts_calls:
  assumes "unat (heap_ptr s) + 100 * 1024 * 1024 < 2 ^ 64" and "unat sz \<le> 1600"
  shows "native_grow_memory sz s = Inr (Returned (page_count s + 1), s\<lparr>heap_ptr := heap_ptr s + sz * 65536, page_count := page_count s + 1\<rparr>)"
proof -
  have sz: "unat (sz * 65536) = unat sz * 65536"
    using assms(2) by (simp add: unat_word_ariths)
  then have "unat (heap_ptr s + sz * 65536) = unat (heap_ptr s) + unat sz * 65536"
    using assms by (simp add: unat_word_ariths)
  moreover have "unat (heap_ptr s + 104857600) = unat (heap_ptr s) + 104857600"
    using assms(1) by (simp add: unat_word_ariths)
  ultimately have "\<not> heap_ptr s + sz * 65536 > heap_ptr s + 104857600"
    using assms(2) by (simp add: word_less_nat_alt)
  then show ?thesis by (simp add: native_grow_memory_def native_assert_def mult.assoc Let_def)
qed

end
