(* ===== verification/Spec2Isabelle.thy ===== *)
theory Spec2Isabelle
  imports Uos_Asset Uos_Manager Uos_Simple_Malloc Uos_Print Uos_Index Uos_Scan Uos_Ledger Uos_Dispatch Uos_Privileged Uos_Extension Uos_Rope Uos_Abigen Uos_Codegen Uos_Builtins Uos_Native
begin

text \<open>
  A verification library for the core of uosio.cdt, the toolkit with which contracts of the Uosio
  chain are compiled to WebAssembly. It models the contract library under
  \<^verbatim>\<open>src/libraries/uosiolib/\<close>, the code of the repository that every contract is linked with, and the
  parts of the tools under \<^verbatim>\<open>src/tools/\<close> that generate, merge and compare its description.

  \<^bold>\<open>The parts of the program and their theories.\<close>

  \<^item> Uos\_Prelude holds the vocabulary of the models: the machine integers, the error values (\<open>Assertion\<close>
    is an abort of the action with the text given to \<open>check\<close>, \<open>Undefined\<close> a step whose meaning the C++
    standard does not define or that traps in WebAssembly), the sum type \<open>res\<close> that a step returns,
    and generic lemmas on lists, words and results.
  \<^item> Uos\_Check: \<^verbatim>\<open>core/uosio/check.hpp\<close>.
  \<^item> Uos\_Datastream: the classes \<open>datastream<T>\<close> and \<open>datastream<size_t>\<close> of
    \<^verbatim>\<open>core/uosio/datastream.hpp\<close>, and \<open>pack\<close>, \<open>unpack\<close>, \<open>pack_size\<close>.
  \<^item> Uos\_Varint: \<open>unsigned_int\<close> and \<open>signed_int\<close> of \<^verbatim>\<open>core/uosio/varint.hpp\<close>.
  \<^item> Uos\_Serialize: the stream operators of \<^verbatim>\<open>datastream.hpp\<close> and \<^verbatim>\<open>serialize.hpp\<close>. Its locale \<open>codec\<close>
    states what an operator pair promises; each container gives a codec for its element's codec.
  \<^item> Uos\_Name, Uos\_Symbol, Uos\_Asset: the value types of \<^verbatim>\<open>name.hpp\<close>, \<^verbatim>\<open>symbol.hpp\<close>, \<^verbatim>\<open>asset.hpp\<close>.
  \<^item> Uos\_Print: \<^verbatim>\<open>print.hpp\<close>, as the list of the texts handed to the host.
  \<^item> Uos\_Memory: the linear memory and \<^verbatim>\<open>memory.cpp\<close>, with \<open>sbrk\<close> of \<^verbatim>\<open>malloc.cpp\<close>.
  \<^item> Uos\_Malloc, Uos\_Heap, Uos\_Freed, Uos\_Manager: the allocator of \<^verbatim>\<open>malloc.cpp\<close>. Uos\_Malloc holds its
    definitions, Uos\_Heap one heap as a list of blocks, Uos\_Freed the search of freed blocks,
    Uos\_Manager the table of heaps. Uos\_Simple\_Malloc is \<^verbatim>\<open>simple_malloc.cpp\<close>.
  \<^item> Uos\_Allocator states the contract of an allocator as the locale \<open>allocator\<close> over the runs of a
    client (\<open>alloc_run\<close>); both allocators are interpretations of it.
  \<^item> Uos\_Chain: the host's database functions as a record of parameters, and what db.h promises of them as the
    locales \<open>row_host\<close>, \<open>key_host\<close> and \<open>chain_host\<close> over a view of the host's state. Uos\_Slots is a chain that
    keeps the promises, and interprets the locales.
  \<^item> Uos\_Multi\_Index and Uos\_Index: the operations of the class \<open>multi_index\<close> and of its secondary indices
    (\<^verbatim>\<open>contracts/uosio/multi_index.hpp\<close>). Uos\_Table proves them correct against a table as a map from keys
    to objects; \<open>table_ok\<close> is its invariant. Uos\_Scan proves the loops over a table (locale \<open>cursor\<close>), and
    Uos\_Ledger is a concrete table for the runs of the properties.
  \<^item> Uos\_Singleton: \<^verbatim>\<open>contracts/uosio/singleton.hpp\<close>, a client of the interface \<open>row_table\<close>, which the
    operations of \<open>multi_index\<close> interpret.
  \<^item> Uos\_Fixed\_Bytes: \<^verbatim>\<open>core/uosio/fixed\_bytes.hpp\<close>, the words of a digest and its bytes, its orders
    and its serialization, for a width given as the number of bytes.
  \<^item> Uos\_Time: \<^verbatim>\<open>core/uosio/time.hpp\<close>: microseconds, time points, seconds and the slots of blocks.
  \<^item> Uos\_Crypto: \<^verbatim>\<open>core/uosio/crypto.hpp\<close> and \<^verbatim>\<open>crypto.cpp\<close>: keys, signatures and their codecs; the hash
    functions and the recovery of keys are the host's.
  \<^item> Uos\_Records: readers and writers of the structs that \<^verbatim>\<open>UOSLIB\_SERIALIZE\<close> gives stream operators, built
    from the codecs of the members, in the order the macro lists them.
  \<^item> Uos\_Extension: \<^verbatim>\<open>core/uosio/binary\_extension.hpp\<close>, with the objects its methods construct and destroy.
  \<^item> Uos\_Rope: \<^verbatim>\<open>core/uosio/rope.hpp\<close>. The nodes live in a store; \<open>rope_ok\<close> says that a node spells a
    text, \<open>keeps_ropes\<close> that an operation leaves the texts of the other ropes alone.
  \<^item> Uos\_Action: \<^verbatim>\<open>contracts/uosio/action.hpp\<close>, permission levels, actions and their sending, over the host
    functions \<open>action_api\<close>. Uos\_Dispatch: \<^verbatim>\<open>dispatcher.hpp\<close>, \<^verbatim>\<open>contract.hpp\<close> and \<^verbatim>\<open>ignore.hpp\<close>, how the
    arguments of a delivered action are unpacked and which method is called.
  \<^item> Uos\_Transaction: \<^verbatim>\<open>transaction.hpp\<close>, \<^verbatim>\<open>system.hpp\<close>, \<^verbatim>\<open>permission.hpp\<close> and the time functions of
    \<^verbatim>\<open>uosiolib.cpp\<close>, over the host functions \<open>chain_api\<close>. Uos\_Privileged: \<^verbatim>\<open>privileged.hpp\<close>,
    \<^verbatim>\<open>producer\_schedule.hpp\<close> and the rest of \<^verbatim>\<open>uosiolib.cpp\<close>.
  \<^item> Uos\_Tool\_Names: the names of the tools, \<^verbatim>\<open>tools/include/uosio/utils.hpp\<close>, against the class \<open>name\<close>.
  \<^item> Uos\_Ricardian: the tokenizer of ricardian contracts in \<^verbatim>\<open>gen.hpp\<close>; \<open>ricardian_file\<close> is the grammar of the
    files it reads whole.
  \<^item> Uos\_Abi: ABI files and \<open>ABIMerger\<close> of \<^verbatim>\<open>abimerge.hpp\<close>, with \<open>joined_abi\<close> as what merging should give.
    Uos\_Abi\_Diff: the tool abidiff. Uos\_Abigen: the names of types and the file that abigen writes from the
    descriptions it has collected, as input of the other two.
  \<^item> Uos\_Codegen: which methods of a contract get a dispatcher (\<^verbatim>\<open>codegen.hpp\<close>), and its text.
  \<^item> Uos\_Builtins: the 128-bit arithmetic of \<^verbatim>\<open>libraries/rt/compiler_builtins.cpp\<close>, with softfloat a parameter.
  \<^item> Uos\_Native: the runtime of unit tests, \<^verbatim>\<open>libraries/native/\<close>. An operation returns or jumps, as \<open>longjmp\<close>
    does, and changes the state in both cases; \<open>catch\<close> is the branch of a \<open>setjmp\<close>.

  \<^bold>\<open>How state and operations correspond to the code.\<close> A class is a record with its members; a method
  is a definition that takes the object and returns it changed. Integers are words of the width of
  the C++ type on the 32-bit target, so that they wrap where the code wraps. Memory is a record with
  the bytes, the number of pages and the two statics of \<open>sbrk\<close>; a load or store outside it is an
  error. What the host decides (whether memory grows, how a pointer converts to a 64-bit
  integer, where the heap starts) is the record \<open>env\<close> of parameters.

  \<^bold>\<open>Bounds and termination.\<close> The loops of the allocator that walk memory may not end on a corrupted
  heap: they are \<open>partial_function (option)\<close> loops (\<open>loop_out\<close> in Uos\_Malloc), \<open>None\<close> is a loop that does not
  end, and the properties state that on the reachable states the result is \<open>Some\<close>. A client's loop over a
  table (\<open>walk\<close>) is given its number of steps, and one more than the table has objects is enough. All other
  loops are total functions, by structure or by a measure.

  \<^bold>\<open>What the lemmas show.\<close> Allocation: in every run of a client that respects its blocks, blocks are
  in memory, disjoint and unchanged by the allocator, and a free block is found when there is one.
  Value types: parsing and printing are inverse, orders agree with the printed text, arithmetic is
  exact or aborts. Tables: searches and steps land
  on the next key in order, changes are updates of the map in rows, cache and every secondary index. Serialization: packing and unpacking are inverse for every nesting of the
  containers. Actions: an action that is sent reaches the one method of its name, with the arguments that were
  sent; a deferred transaction comes back as it was sent; bytes that are too few abort. Ropes: every operation
  is one on strings, and no operation changes another rope. Fixed bytes are ordered as their byte strings, and
  the slots of blocks are half seconds that survive the conversion to a time and back. Tools: names mean the
  same to the tools and to the contract, files are read back as they were written, merging is a union by name,
  and each action gets one dispatcher. Builtins compute the integers or have no meaning. Tests: what an
  expectation returns and how the flag of failures and the stream of the output change. Where the code falls short of that, a theorem says when.

  \<^bold>\<open>Not modelled.\<close> The compiler and its plugins (\<^verbatim>\<open>uosio_llvm\<close>), the C and C++ libraries, boost, softfloat
  and the other vendored code; the host's intrinsics, which are parameters; code generated by
  preprocessor macros or by template reflection (boost::pfr), whose effect is given by the member
  list as an argument. Of the tools, what works on clang's syntax trees (the visitors of abigen that describe
  declarations, the rewriting of sources), whose results are values here; the command lines, files and
  processes; the JSON library, for which a file is the record of its members. Of the runtimes, the
  conversions of floating point numbers and the table of the intrinsics that a test may replace.
\<close>

section \<open>The allocators\<close>


text \<open>An environment and a memory for the witnesses: two pages, the heap at 1024, and a host that
  grants pages up to the limit of 528 of the chain.\<close>

definition demo_env :: env where
  "demo_env = \<lparr>grow = (\<lambda>c n. unat c + unat n \<le> 528), ptr_int64 = ucast, initial_heap = 1024\<rparr>"

definition demo_memory :: machine where
  "demo_memory = \<lparr>mem = (\<lambda>_. 0), pages = 2, sbrk_initialized = False, sbrk_bytes = 0\<rparr>"

lemma demo_pointer: "(ucast p :: i64) \<noteq> - 1" for p :: u32
proof
  assume "(ucast p :: i64) = - 1"
  then have "bit (ucast p :: i64) 63" by simp
  then have "bit p 63" by (simp add: bit_ucast_iff)
  then show False using bit_imp_le_length [of p 63] by simp
qed

lemma demo_ok:
  "host_ok demo_env" "initial_heap demo_env \<noteq> 0" "unat (initial_heap demo_env) + 8192 \<le> mem_limit demo_memory"
  "mem_limit demo_memory < 2 ^ 31" "\<not> sbrk_initialized demo_memory"
proof -
  show "host_ok demo_env" using demo_pointer by (auto simp: host_ok_def demo_env_def)
qed (simp_all add: demo_env_def demo_memory_def mem_limit_def)

abbreviation malloc_run :: "env \<Rightarrow> machine \<Rightarrow> manager \<Rightarrow> (nat \<times> nat) set \<Rightarrow> bool" where
  "malloc_run e m \<equiv> alloc_run (manager_malloc e) manager_free machine (\<lambda>m s. s\<lparr>machine := m\<rparr>)
     (\<lambda>sz. unat sz \<le> 2 ^ 31 - 16) (manager_init m)"

lemma demo_run: "\<exists>s. malloc_run demo_env demo_memory s {(1028, 8)}"
proof -
  have "manager_ok demo_env (manager_init demo_memory) []"
    using demo_ok by (simp add: manager_ok_def manager_heaps_def manager_phase_def manager_init_def layout_ok_def brk_ok_def heaps_size_def)
  then obtain s where "manager_malloc demo_env 8 (manager_init demo_memory) = Some (Inr (1028, s))"
    using manager_malloc_first [of demo_env "manager_init demo_memory" 8] by (auto simp: demo_env_def)
  from alloc_run.malloc [where alloc = "manager_malloc demo_env", OF alloc_run.start _ this]
  have "malloc_run demo_env demo_memory s (if 1028 = (0 :: u32) then {} else insert (unat (1028 :: u32), unat (8 :: u32)) {})"
    by simp
  then show ?thesis by auto
qed




text \<open>C29: Releasing a block that the program owns succeeds and leaves every other block as it is;
  a store into a block it owns never faults.\<close>

theorem malloc_free_store_succeed:
  assumes "host_ok e" and "initial_heap e \<noteq> 0" and "unat (initial_heap e) + 8192 \<le> mem_limit m"
    and "mem_limit m < 2 ^ 31" and "\<not> sbrk_initialized m"
    and "malloc_run e m s B" and "(unat p, n) \<in> B"
  shows "(\<exists>s'. manager_free p s = Inr s' \<and> same_bytes (B - {(unat p, n)}) (machine s) (machine s')) \<and>
    (\<forall>a v. unat p \<le> unat a \<and> unat a < unat p + n \<longrightarrow> is_ok (store8 a v (machine s)))"
  using mm.run_free [OF assms(6) manager_holds_init [OF assms(1-5)] assms(7)]
    mm.run_store [OF assms(6) manager_holds_init [OF assms(1-5)] assms(7)] by blast+

theorem malloc_free_store_succeed_witness:
  "\<exists>s s'. malloc_run demo_env demo_memory s {(1028, 8)} \<and> manager_free 1028 s = Inr s' \<and>
    is_ok (store8 1030 7 (machine s))"
proof -
  obtain s where "malloc_run demo_env demo_memory s {(1028, 8)}" using demo_run by blast
  then show ?thesis using malloc_free_store_succeed [OF demo_ok, of s "{(1028, 8)}" 1028 8] by auto
qed

text \<open>Where a pointer never compares equal to the 64-bit -1 (the 32-bit target zero-extends it),
  a first request beyond the initial heap for which the host refuses a page ends the action with
  an access out of bounds; \<open>malloc\<close> does not return the null pointer.\<close>

theorem malloc_refused_aborts:
  assumes "manager_ok e s []" and "8188 < unat sz" and "unat sz \<le> 2 ^ 31 - 16"
    and "\<not> grow e (pages (machine s)) 1" and "ptr_int64 e (- 1) \<noteq> - 1"
  shows "manager_malloc e sz s = Some (Inl (Undefined ''memory access out of bounds''))"
  using manager_malloc_refused [OF assms] .

theorem malloc_refused_aborts_witness:
  "manager_malloc (demo_env\<lparr>grow := \<lambda>_ _. False\<rparr>) 9000 (manager_init demo_memory) =
     Some (Inl (Undefined ''memory access out of bounds''))"
proof (rule malloc_refused_aborts)
  show "manager_ok (demo_env\<lparr>grow := \<lambda>_ _. False\<rparr>) (manager_init demo_memory) []"
    using demo_ok by (simp add: manager_ok_def manager_heaps_def manager_phase_def manager_init_def layout_ok_def brk_ok_def heaps_size_def)
  show "ptr_int64 (demo_env\<lparr>grow := \<lambda>_ _. False\<rparr>) (- 1) \<noteq> - 1"
    using demo_pointer by (simp add: demo_env_def)
qed simp_all

text \<open>\<open>adjust_to_mem_block\<close> on every size: up to 0xFFFFFFFC the result is the least number
  of bytes that holds the request and ends a block at a multiple of eight; for the three sizes
  above it wraps to a block of four bytes.\<close>

theorem adjusted_size:
  "if unat sz \<le> 2 ^ 32 - 4
   then unat (adjust_to_mem_block sz) mod 8 = 4 \<and> unat sz \<le> unat (adjust_to_mem_block sz) \<and>
     unat (adjust_to_mem_block sz) < unat sz + 8
   else unat (adjust_to_mem_block sz) = 4"
proof (cases "unat sz \<le> 2 ^ 32 - 4")
  case False
  then consider "unat sz = 4294967293" | "unat sz = 4294967294" | "unat sz = 4294967295"
    using unat_less [of sz] by fastforce
  then have "unat (adjust_to_mem_block sz) = 4" by cases (simp_all add: unat_adjust_to_mem_block)
  then show ?thesis using False by simp
qed (simp add: adjust_to_mem_block_ok)

text \<open>C14: The search of a full heap for freed memory refines the search of its block list: it
  returns what \<open>reuse\<close> finds, leaves the bytes of all allocated blocks alone, and comes back with
  null only when no run of adjacent free blocks has the room.\<close>

theorem freed_search_complete:
  assumes "heap_ok h m bs" and "heap_full h" and "bs \<noteq> []" and "unat sz mod 8 = 4"
  shows "\<exists>p m' bs'. heap_malloc_from_freed sz h m = Some (Inr (p, m')) \<and> heap_ok h m' bs' \<and>
    same_on (live (unat (heap_base h)) bs) m m' \<and>
    (p = 0 \<longrightarrow> (\<forall>xs zs ys. bs = xs @ zs @ ys \<and> zs \<noteq> [] \<and> (\<forall>b \<in> set zs. \<not> snd b) \<longrightarrow> extent zs < unat sz + 4)) \<and>
    (p \<noteq> 0 \<longrightarrow> live (unat (heap_base h)) bs' = insert (unat p, unat sz) (live (unat (heap_base h)) bs))"
proof -
  obtain r bs' where r: "reuse (unat sz) bs = (r, bs')" by fastforce
  obtain m' where m': "heap_malloc_from_freed sz h m = Some (Inr (reuse_ptr h [] r, m'))" "heap_ok h m' bs'"
    "same_on (live (unat (heap_base h)) bs \<union> outside h) m m'"
    using heap_malloc_from_freed_eq [OF assms r] by blast
  have mod8: "\<forall>b \<in> set bs. fst b mod 8 = 4" using assms(1) by (simp add: heap_ok_def)
  note lr = live_reuse [OF r assms(4) mod8, of "unat (heap_base h)"]
  have same: "same_on (live (unat (heap_base h)) bs) m m'" using same_on_mono [OF m'(3)] by blast
  show ?thesis
  proof (cases r)
    case None
    then have "reuse_ptr h [] r = 0" by (simp add: reuse_ptr_def)
    then show ?thesis using m' same reuse_None r None by blast
  next
    case (Some d)
    then have live: "live (unat (heap_base h)) bs' = insert (unat (heap_base h) + d + 4, unat sz) (live (unat (heap_base h)) bs)"
      using lr by simp
    have ptr: "unat (reuse_ptr h [] r) = unat (heap_base h) + d + 4"
      using unat_reuse_ptr [OF m'(2), of d "unat sz"] live Some by simp
    then have "reuse_ptr h [] r \<noteq> 0" by (metis add_is_0 unat_0 zero_neq_numeral)
    then show ?thesis using m' same live ptr by metis
  qed
qed

definition demo_heap :: heap where
  "demo_heap = \<lparr>heap_size = 16, heap_base = 1024, heap_offset = 16\<rparr>"

definition demo_full :: machine where
  "demo_full = upd_mem (put_word (of_nat 1024) (header 4 True)) (upd_mem (put_word (of_nat 1032) (header 4 False)) demo_memory)"

lemma demo_full_ok: "heap_ok demo_heap demo_full [(4, True), (4, False)]"
proof -
  have "mem_word (put_word (of_nat 1024) v f) (of_nat 1032) = mem_word f (of_nat 1032)" for v f
    by (rule header_word_other) simp_all
  then show ?thesis
    using demo_ok(4) by (simp add: heap_ok_def demo_heap_def demo_full_def demo_memory_def mem_limit_def)
qed

theorem freed_search_complete_witness:
  "\<exists>p m' bs'. heap_malloc_from_freed 4 demo_heap demo_full = Some (Inr (p, m')) \<and> heap_ok demo_heap m' bs' \<and>
    (p \<noteq> 0 \<longrightarrow> live 1024 bs' = insert (unat p, 4) (live 1024 [(4, True), (4, False)]))"
  using freed_search_complete [OF demo_full_ok, of 4] by (auto simp: demo_heap_def heap_full_def)

text \<open>C30: The arena of simple\_malloc.cpp keeps the same contract for every size: in any run the
  blocks it has handed out lie in memory and do not overlap, and a call either aborts or adds a
  block apart from them.\<close>

theorem arena_blocks_safe:
  assumes "\<And>c n. grows c n \<Longrightarrow> unat c + unat n \<le> 32767" and "mem_limit m < 2 ^ 31"
    and "load32 0 m = Inr base" and "0 < unat base" and "unat base \<le> mem_limit m"
    and "dsmalloc_init m = Inr s0"
    and "alloc_run (\<lambda>sz s. Some (simple_malloc grows sz s)) simple_free ds_machine (\<lambda>m s. s\<lparr>ds_machine := m\<rparr>) (\<lambda>_. True) s0 s B"
    and "simple_malloc grows sz s = Inr (p, s')" and "p \<noteq> 0"
  shows "unat p + unat sz \<le> mem_limit (ds_machine s') \<and> same_bytes B (ds_machine s) (ds_machine s') \<and>
    (\<forall>(q, k) \<in> B. q + k \<le> mem_limit (ds_machine s) \<and> (unat p + unat sz \<le> q \<or> q + k \<le> unat p))"
proof -
  have h: "ds_holds grows s0 {}" using ds_holds_init [OF assms(1-5)] assms(6) by auto
  show ?thesis
    using sm.run_malloc(2,3) [OF assms(7) h TrueI, where sz = sz and p = p and s' = s'] sm.run_blocks(1) [OF assms(7) h] assms(8,9)
    by auto
qed

definition arena_memory :: machine where
  "arena_memory = upd_mem (put_word 0 1024) demo_memory"

lemma arena_init:
  "dsmalloc_init arena_memory = Inr \<lparr>ds_machine = arena_memory, ds_heap = 1024, ds_last_ptr = 1024, ds_next_page = 2\<rparr>"
  "load32 0 arena_memory = Inr 1024" "mem_limit arena_memory < 2 ^ 31" "1024 \<le> mem_limit arena_memory"
proof -
  have lim: "mem_limit arena_memory = 131072" by (simp add: arena_memory_def demo_memory_def mem_limit_def)
  then show l: "load32 0 arena_memory = Inr 1024" "mem_limit arena_memory < 2 ^ 31" "1024 \<le> mem_limit arena_memory"
    by (simp_all add: load32_eq, simp add: arena_memory_def)
  have "align_ptr 1024 8 = 1024" by (simp add: align_ptr_def)
  then show "dsmalloc_init arena_memory = Inr \<lparr>ds_machine = arena_memory, ds_heap = 1024, ds_last_ptr = 1024, ds_next_page = 2\<rparr>"
    using l(1) by (simp add: dsmalloc_init_def Let_def) (simp add: arena_memory_def demo_memory_def)
qed

theorem arena_blocks_safe_witness:
  "\<exists>s'. simple_malloc (\<lambda>c n. unat c + unat n \<le> 528) 8 \<lparr>ds_machine = arena_memory, ds_heap = 1024, ds_last_ptr = 1024, ds_next_page = 2\<rparr> = Inr (1024, s') \<and>
    unat (1024 :: u32) + unat (8 :: u32) \<le> mem_limit (ds_machine s')"
proof -
  let ?s = "\<lparr>ds_machine = arena_memory, ds_heap = 1024, ds_last_ptr = 1024, ds_next_page = 2\<rparr>"
  have "pages arena_memory = 2" by (simp add: arena_memory_def demo_memory_def)
  then obtain s' where s': "simple_malloc (\<lambda>c n. unat c + unat n \<le> 528) 8 ?s = Inr (1024, s')"
    by (simp add: simple_malloc_def dsmalloc_call_def grow_memory_def align_ptr_def Let_def)
  have "unat (1024 :: u32) + unat (8 :: u32) \<le> mem_limit (ds_machine s')"
    using arena_blocks_safe [OF _ arena_init(3,2) _ _ arena_init(1) alloc_run.start s'] arena_init(4) by simp
  then show ?thesis using s' by blast
qed

section \<open>Names\<close>

text \<open>C21: The constructor of \<open>name\<close> on every string: which of the three checks it trips, and
  otherwise the base-32 number the characters spell.\<close>

theorem name_parse_outcome:
  "name_of_string str =
     (if length str > 13 then Inl (Assertion ''string is too long to be a valid name'')
      else if \<not> set str \<subseteq> set charmap
      then Inl (Assertion ''character is not in allowed character set for names'')
      else if \<not> thirteenth_ok str
      then Inl (Assertion ''thirteenth character in name cannot be a letter that comes after j'')
      else Inr \<lparr>name_value = of_nat (digits_value 0 (map char_digit str))\<rparr>)"
  by (rule name_of_string_eq)

text \<open>C22: Printing and parsing a name are inverse: every 64-bit value is the value of the string it
  prints as, and a string that parses prints as itself without its trailing dots.\<close>

theorem name_roundtrip:
  "name_of_string (name_to_string n) = Inr n \<and>
   (\<forall>str. name_of_string str = Inr n \<longrightarrow> name_to_string n = trim_dots str)"
  using name_of_string_to_string name_to_string_of_string by blast

theorem name_roundtrip_witness:
  "\<exists>n. name_of_string ''uosio.token.'' = Inr n \<and> name_to_string n = ''uosio.token''"
proof -
  obtain n where n: "name_of_string ''uosio.token.'' = Inr n"
    by (simp add: name_of_string_eq charmap_def thirteenth_ok_def char_digit_def)
  then show ?thesis using name_roundtrip [of n] by auto
qed

text \<open>C23: \<open>operator<\<close> on names is the lexicographic order of the strings they print as, and
  \<open>length\<close> is the length of that string.\<close>

theorem name_order_is_string_order:
  "(name_less a b \<longleftrightarrow> name_to_string a < name_to_string b) \<and> unat (name_length a) = length (name_to_string a)"
  using name_less_string name_length_string by blast

text \<open>\<open>suffix\<close> is the part of the name after its last dot, or the whole name.\<close>

theorem name_suffix_is_last_part:
  "name_to_string (name_suffix n) = after_last_dot (name_to_string n)"
  by (rule name_suffix_string)

section \<open>Symbols\<close>

text \<open>C35: A symbol code parses exactly when it has at most seven characters, all capital letters,
  and then prints as the string it was parsed from.\<close>

theorem symbol_code_parse_print:
  "symbol_code_of_string str =
     (if length str > 7 then Inl (Assertion ''string is too long to be a valid symbol_code'')
      else if \<not> capitals str
      then Inl (Assertion ''only uppercase letters allowed in symbol_code string'')
      else Inr \<lparr>code_value = le_word (bytes_of_string str)\<rparr>) \<and>
   (\<forall>sc. symbol_code_of_string str = Inr sc \<longrightarrow> symbol_code_to_string sc = str)"
  using symbol_code_of_string_eq symbol_code_to_string_of_string(1) by blast

theorem symbol_code_parse_print_witness:
  "symbol_code_to_string \<lparr>code_value = 0x534F55\<rparr> = ''UOS''"
proof -
  have "symbol_code_of_string ''UOS'' = Inr \<lparr>code_value = 0x534F55\<rparr>"
    by (simp add: symbol_code_of_string_eq capitals_def bytes_of_string_def)
  then show ?thesis using symbol_code_parse_print [of "''UOS''"] by blast
qed

text \<open>A symbol is valid exactly when it is one the constructor makes from a nonempty string and
  its own precision.\<close>

theorem symbol_valid_iff_constructed:
  "symbol_is_valid s \<longleftrightarrow> (\<exists>ss. ss \<noteq> [] \<and> symbol_of_string ss (symbol_precision s) = Inr s)"
  by (rule symbol_is_valid_iff)

section \<open>Assets\<close>


definition demo_symbol :: symbol where
  "demo_symbol = \<lparr>symbol_value = 0x534F5504\<rparr>"

lemma demo_symbol_ok:
  "symbol_is_valid demo_symbol" "symbol_precision demo_symbol = 4" "symbol_code_to_string (symbol_code_of demo_symbol) = ''UOS''"
proof -
  have "symbol_of_string ''UOS'' 4 = Inr demo_symbol"
    by (simp add: symbol_of_string_eq symbol_code_of_string_eq capitals_def bytes_of_string_def symbol_of_code_def
        symbol_code_raw_def demo_symbol_def)
  from symbol_of_string_fields [OF this]
  show "symbol_is_valid demo_symbol" "symbol_precision demo_symbol = 4" "symbol_code_to_string (symbol_code_of demo_symbol) = ''UOS''"
    by simp_all
qed


text \<open>Multiplication and division on every input: the 128-bit product is compared with the
  range, a zero divisor and the one quotient that overflows are rejected, and division
  truncates toward zero.\<close>

theorem asset_scale_outcome:
  "asset_mul x k =
     (let n = amount x * sint k in
      if max_amount < n then Inl (Assertion ''multiplication overflow'')
      else if n < - max_amount then Inl (Assertion ''multiplication underflow'')
      else Inr (with_amount n x)) \<and>
   asset_div x k =
     (if k = 0 then Inl (Assertion ''divide by zero'')
      else if amount x = - (2 ^ 63) \<and> k = - 1 then Inl (Assertion ''signed division overflow'')
      else Inr (with_amount (amount x sdiv sint k) x))"
  by (simp add: asset_mul_def asset_div_def asset_mul_assign_eq asset_div_assign_eq)

text \<open>Validity is an invariant of assets: what any arithmetic operator makes of a valid asset is
  valid, and on amounts in range no addition or subtraction is undefined behaviour.\<close>

theorem asset_arithmetic_valid:
  assumes "asset_is_valid x"
  shows "(\<forall>z. asset_add x y = Inr z \<or> asset_sub x y = Inr z \<or> asset_mul x k = Inr z \<or> asset_mul_left k x = Inr z \<or>
      asset_div x k = Inr z \<or> asset_neg x = Inr z \<longrightarrow> asset_is_valid z) \<and>
    (\<forall>u. in_range (amount y) \<longrightarrow> asset_add x y \<noteq> Inl (Undefined u) \<and> asset_sub x y \<noteq> Inl (Undefined u))"
  using asset_ops_valid [OF assms] asset_add_defined assms by (auto simp: asset_is_valid_iff)

theorem asset_arithmetic_valid_witness:
  "asset_is_valid (with_amount (- 5) \<lparr>asset_amount = 5, asset_symbol = demo_symbol\<rparr>)"
proof -
  let ?x = "\<lparr>asset_amount = 5, asset_symbol = demo_symbol\<rparr>"
  have "asset_is_valid ?x" using demo_symbol_ok(1) by (simp add: asset_is_valid_iff in_range_def max_amount_def amount_def)
  moreover have "asset_neg ?x = Inr (with_amount (- 5) ?x)"
    using asset_neg_eq [of ?x] by (simp add: in_range_def max_amount_def amount_def)
  ultimately show ?thesis using asset_arithmetic_valid [of ?x ?x 0] by blast
qed

text \<open>Comparing assets with the same symbol compares their amounts; with different symbols all
  six operators abort.\<close>

theorem asset_comparison_outcome:
  "if asset_symbol a = asset_symbol b
   then asset_eq a b = Inr (a = b) \<and> asset_neq a b = Inr (a \<noteq> b) \<and>
     asset_less a b = Inr (amount a < amount b) \<and> asset_le a b = Inr (amount a \<le> amount b) \<and>
     asset_gt a b = Inr (amount b < amount a) \<and> asset_ge a b = Inr (amount b \<le> amount a)
   else (\<forall>r \<in> {asset_eq a b, asset_neq a b, asset_less a b, asset_le a b, asset_gt a b, asset_ge a b}.
     r = Inl (Assertion ''comparison of assets with different symbols is not allowed''))"
  using asset_comparisons [of a b] asset_comparisons_error [of a b] by auto

theorem asset_comparison_outcome_witness:
  "asset_less \<lparr>asset_amount = 5, asset_symbol = demo_symbol\<rparr> \<lparr>asset_amount = 7, asset_symbol = demo_symbol\<rparr> = Inr True"
  using asset_comparison_outcome [of "\<lparr>asset_amount = 5, asset_symbol = demo_symbol\<rparr>" "\<lparr>asset_amount = 7, asset_symbol = demo_symbol\<rparr>"]
  by (simp add: amount_def)

text \<open>The text of an asset with at most 18 decimals has the digits of the magnitude of its
  amount, but an amount between -1 and 0 units prints as the positive amount does.\<close>

theorem asset_text_drops_sign:
  assumes "unat (symbol_precision (asset_symbol x)) = p" and "p \<le> 18"
  shows "\<exists>text. asset_to_string x = Inr (text @ '' '' @ c_string (symbol_code_to_string (symbol_code_of (asset_symbol x)))) \<and>
    dec_value (digits_in text) = nat \<bar>amount x\<bar> \<and>
    (\<bar>amount x\<bar> < 10 ^ p \<longrightarrow> text = amount_text p \<bar>amount x\<bar>)"
proof (intro exI conjI impI)
  show "asset_to_string x = Inr (amount_text p (amount x) @ '' '' @ c_string (symbol_code_to_string (symbol_code_of (asset_symbol x))))"
    using asset_to_string_eq [of x] assms by simp
qed (fact amount_text_digits amount_text_sign)+

theorem asset_text_drops_sign_witness:
  "\<exists>text. asset_to_string \<lparr>asset_amount = - 5, asset_symbol = demo_symbol\<rparr> = Inr (text @ '' UOS'') \<and> text = amount_text 4 5"
proof -
  have "c_string ''UOS'' = ''UOS''" by (simp add: c_string_def)
  then show ?thesis
    using asset_text_drops_sign [of "\<lparr>asset_amount = - 5, asset_symbol = demo_symbol\<rparr>" 4] demo_symbol_ok by (simp add: amount_def)
qed

section \<open>Serialization\<close>

text \<open>A table row type with every kind of container, for the next property.\<close>

type_synonym rows = "(u64, (string option \<times> asset) list) ordered_map"

definition put_rows :: "(u8 list \<Rightarrow> 's \<Rightarrow> 's res) \<Rightarrow> rows \<Rightarrow> 's \<Rightarrow> 's res" where
  "put_rows wr = put_map wr (put_prim wr) (put_vector wr (put_pair (put_optional wr (put_string wr)) (put_asset wr)))"

definition get_rows :: "datastream \<Rightarrow> (rows \<times> datastream) res" where
  "get_rows = get_map ds_get (get_prim ds_read)
     (get_vector ds_get (get_pair (get_optional ds_read (get_string ds_get ds_read) None) (get_asset ds_read)))"

definition rows_image :: "rows \<Rightarrow> u8 list" where
  "rows_image = seq_image (pair_image (le_bytes 8) (seq_image (pair_image (optional_image string_image) asset_image)))"

text \<open>C7: Packing and unpacking nested containers gives the value back, whatever follows in the
  buffer: a map from 64-bit keys to vectors of pairs of an optional string and an asset.\<close>

theorem nested_containers_roundtrip:
  assumes "ordered_map_ok t" and "length t < 2 ^ 32"
    and "\<forall>(k, xs) \<in> set t. length xs < 2 ^ 32 \<and> (\<forall>(s, x) \<in> set xs. \<forall>str. s = Some str \<longrightarrow> length str < 2 ^ 32)"
    and "addressable a (length (rows_image t))" and "addressable b (length (rows_image t @ rest))"
  shows "bind_res (pack (put_rows ss_write t) (put_rows ds_write t) a) (\<lambda>bytes. unpack_bytes get_rows b (bytes @ rest)) = Inr t"
proof -
  note pair = codec_pair [OF codec_optional [OF string_codec.codec_axioms] asset_codec.codec_axioms]
  note table = codec_map [OF u64_codec.codec_axioms codec_seq(1) [OF pair], folded put_rows_def get_rows_def rows_image_def]
  have "map_valid (\<lambda>_. True) (seq_valid (\<lambda>t. pred_option (\<lambda>s. length s < 2 ^ 32) (fst t) \<and> True)) t"
    using assms(1-3) by (fastforce simp: map_valid_def seq_valid_def pred_option_def)
  from codec.roundtrip [OF table this assms(4,5)] show ?thesis .
qed

definition demo_rows :: rows where
  "demo_rows = [(7, [(Some ''memo'', \<lparr>asset_amount = 5, asset_symbol = demo_symbol\<rparr>)])]"

theorem nested_containers_roundtrip_witness:
  "bind_res (pack (put_rows ss_write demo_rows) (put_rows ds_write demo_rows) 1024)
     (\<lambda>bytes. unpack_bytes get_rows 2048 (bytes @ [1, 2])) = Inr demo_rows"
proof -
  have "length (rows_image demo_rows) < 100"
    by (simp add: rows_image_def demo_rows_def seq_image_def pair_image_def string_image_def asset_image_def
        symbol_image_def size_bytes_def bytes_of_string_def vlq_bytes.simps)
  then have "addressable 1024 (length (rows_image demo_rows))" "addressable 2048 (length (rows_image demo_rows @ [1, 2]))"
    by (simp_all add: addressable_def)
  then show ?thesis
    by (intro nested_containers_roundtrip) (simp_all add: demo_rows_def ordered_map_ok_def)
qed

section \<open>Tables\<close>

text \<open>The runs of the witnesses are on the table of Uos\_Ledger, with the accounts 5 and 9.\<close>

declare split_paired_All [simp del] split_paired_Ex [simp del]

abbreviation ledger_holds :: "(u64 \<times> u64, u64 ref_state) table \<Rightarrow> (u64 \<Rightarrow> (u64 \<times> u64) option) \<Rightarrow> bool" where
  "ledger_holds \<equiv> table_ok ledger ref_ok ref_view ledger_image ledger_valid"

abbreviation ledger_lands :: "u64 option \<Rightarrow> (iterator \<times> (u64 \<times> u64, u64 ref_state) table) res \<Rightarrow> bool" where
  "ledger_lands \<equiv> lands ledger ref_ok ref_view ledger_image ledger_valid ledger_state ledger_map"

lemma least_such_unique:
  "x \<in> S \<Longrightarrow> P x \<Longrightarrow> (\<And>y. y \<in> S \<Longrightarrow> P y \<Longrightarrow> x \<le> y) \<Longrightarrow> finite S \<Longrightarrow> least_such P S = Some (x :: 'a::linorder)"
  by (simp add: least_such_Some)

lemma greatest_such_unique:
  "x \<in> S \<Longrightarrow> P x \<Longrightarrow> (\<And>y. y \<in> S \<Longrightarrow> P y \<Longrightarrow> y \<le> x) \<Longrightarrow> finite S \<Longrightarrow> greatest_such P S = Some (x :: 'a::linorder)"
  by (simp add: greatest_such_Some)

text \<open>C15: A search by primary key returns an iterator to the object with the least key that is at least
  (\<open>lower_bound\<close>) or above (\<open>upper_bound\<close>) the one asked for, \<open>begin\<close> one to the least key of all, each
  the end iterator when there is no such key; the table and all iterators handed out before stay good.\<close>

theorem table_search:
  assumes "table_ok tb ok view img valid s T"
  shows "lands tb ok view img valid s T (least_such (\<lambda>k. pk \<le> k) (dom T)) (lower_bound tb pk s) \<and>
    lands tb ok view img valid s T (least_such (\<lambda>k. pk < k) (dom T)) (upper_bound tb pk s) \<and>
    lands tb ok view img valid s T (least_such (\<lambda>_. True) (dom T)) (cbegin tb s)"
  by (intro conjI lower_bound_lands upper_bound_lands cbegin_lands assms)

theorem table_search_witness:
  "ledger_lands (Some 9) (lower_bound ledger 6 ledger_state) \<and> ledger_lands None (upper_bound ledger 9 ledger_state) \<and>
   ledger_lands (Some 5) (cbegin ledger ledger_state)"
proof -
  have "least_such (\<lambda>k. 6 \<le> k) (dom ledger_map) = Some 9" "least_such (\<lambda>k. 9 < k) (dom ledger_map) = None"
    "least_such (\<lambda>_. True) (dom ledger_map) = Some 5"
    by (auto simp: ledger_dom intro!: least_such_unique)
  then show ?thesis using table_search [OF ledger_state_ok, of 6] table_search [OF ledger_state_ok, of 9] by metis
qed

text \<open>C16: \<open>++\<close> moves an iterator to the object with the next greater primary key and \<open>--\<close> to the one
  with the next smaller key, from the end iterator to the greatest. Incrementing the end and
  decrementing the first object, or the end of an empty table, abort with the text of the check.\<close>

theorem table_step:
  assumes "table_ok tb ok view img valid s T"
  shows "(\<forall>it v. points s it (Some v) \<longrightarrow>
      lands tb ok view img valid s T (least_such (\<lambda>k. primary_key tb v < k) (dom T)) (iterator_next tb it s) \<and>
      (if \<forall>k \<in> dom T. primary_key tb v \<le> k
       then iterator_previous tb it s = Inl (Assertion ''cannot decrement iterator at beginning of table'')
       else lands tb ok view img valid s T (greatest_such (\<lambda>k. k < primary_key tb v) (dom T)) (iterator_previous tb it s))) \<and>
    iterator_next tb cend s = Inl (Assertion ''cannot increment end iterator'') \<and>
    (if dom T = {} then iterator_previous tb cend s = Inl (Assertion ''cannot decrement end iterator when the table is empty'')
     else lands tb ok view img valid s T (greatest_such (\<lambda>_. True) (dom T)) (iterator_previous tb cend s))"
proof (intro conjI allI impI)
  fix it v assume p: "points s it (Some v)"
  show "lands tb ok view img valid s T (least_such (\<lambda>k. primary_key tb v < k) (dom T)) (iterator_next tb it s)"
    by (rule iterator_next_lands [OF assms p])
  show "if \<forall>k \<in> dom T. primary_key tb v \<le> k
      then iterator_previous tb it s = Inl (Assertion ''cannot decrement iterator at beginning of table'')
      else lands tb ok view img valid s T (greatest_such (\<lambda>k. k < primary_key tb v) (dom T)) (iterator_previous tb it s)"
    using iterator_previous_lands [OF assms p] by (simp add: not_less)
next
  show "iterator_next tb cend s = Inl (Assertion ''cannot increment end iterator'')"
    by (simp add: cend_def iterator_next_end)
qed (rule iterator_previous_end_lands [OF assms])

theorem table_step_witness:
  "ledger_lands (Some 9) (iterator_next ledger (Some 1) ledger_state) \<and>
   iterator_previous ledger (Some 1) ledger_state = Inl (Assertion ''cannot decrement iterator at beginning of table'') \<and>
   ledger_lands (Some 5) (iterator_previous ledger (Some 0) ledger_state) \<and> ledger_lands (Some 9) (iterator_previous ledger cend ledger_state)"
proof -
  have "least_such (\<lambda>k. 5 < k) (dom ledger_map) = Some 9" "greatest_such (\<lambda>k. k < 9) (dom ledger_map) = Some 5"
    "greatest_such (\<lambda>_. True) (dom ledger_map) = Some 9"
    by (auto simp: ledger_dom intro!: least_such_unique greatest_such_unique)
  moreover note t = table_step [OF ledger_state_ok]
  ultimately show ?thesis
    using t [THEN conjunct1, rule_format, OF ledger_points(1)] t [THEN conjunct1, rule_format, OF ledger_points(2)] t
    by (simp add: ledger_dom)
qed

text \<open>C17: The loop \<open>for (auto it = t.begin(); it != t.end(); ++it)\<close> ends, after as many steps as the table
  has objects, and reads every object once, in ascending order of the primary keys.\<close>

theorem table_walk:
  assumes "table_ok tb ok view img valid s T" and "card (dom T) < n"
  shows "\<exists>it s1 s'. cbegin tb s = Inr (it, s1) \<and>
    walk (\<lambda>it. iterator_eq it cend) (read_item tb) (iterator_next tb) n it s1 =
      Some (Inr (map (\<lambda>k. the (T k)) (sorted_list_of_set (dom T)), s')) \<and> table_ok tb ok view img valid s' T"
proof -
  obtain it s1 where b: "cbegin tb s = Inr (it, s1)" "table_ok tb ok view img valid s1 T" "at_key T s1 it (least_such (\<lambda>_. True) (dom T))"
    using lands_at_key [OF cbegin_lands [OF assms(1)]] by blast
  from keys.walk_all [OF b(2,3) assms(2)] show ?thesis using b(1) by blast
qed

theorem table_walk_witness:
  "\<exists>it s1 s'. cbegin ledger ledger_state = Inr (it, s1) \<and>
    walk (\<lambda>it. iterator_eq it cend) (read_item ledger) (iterator_next ledger) 3 it s1 = Some (Inr ([(5, 60), (9, 40)], s'))"
proof -
  have "card (dom ledger_map) < 3" "map (\<lambda>k. the (ledger_map k)) (sorted_list_of_set (dom ledger_map)) = [(5, 60), (9, 40)]"
    by (simp_all add: ledger_dom ledger_map_def)
  then show ?thesis using table_walk [OF ledger_state_ok] by metis
qed

text \<open>C31: \<open>find\<close> returns an iterator to the object with the key asked for, or the end iterator;
  \<open>require_find\<close> and \<open>get\<close> abort with the caller's text in the second case. None of them ends the
  action otherwise, whether or not the object is in the cache.\<close>

theorem table_lookup:
  assumes "table_ok tb ok view img valid s T"
  shows "(\<exists>it s'. table_find tb pk s = Inr (it, s') \<and> table_ok tb ok view img valid s' T \<and> keeps s s' \<and> points s' it (T pk)) \<and>
    (case T pk of
       None \<Rightarrow> require_find tb pk msg s = Inl (Assertion msg) \<and> table_get tb pk msg s = Inl (Assertion msg)
     | Some v \<Rightarrow> (\<exists>it s'. require_find tb pk msg s = Inr (it, s') \<and> table_ok tb ok view img valid s' T \<and> keeps s s' \<and> points s' it (Some v)) \<and>
         (\<exists>p s'. table_get tb pk msg s = Inr (p, s') \<and> table_ok tb ok view img valid s' T \<and> keeps s s' \<and> points s' (Some p) (Some v)))"
  using table_find_lands [OF assms, of pk] require_find_lands [OF assms, of pk msg] table_get_lands [OF assms, of pk msg]
  by (cases "T pk") auto

theorem table_lookup_witness:
  "(\<exists>it s'. table_find ledger 9 ledger_state = Inr (it, s') \<and> points s' it (Some (9, 40))) \<and>
   table_get ledger 6 ''no such account'' ledger_state = Inl (Assertion ''no such account'')"
proof -
  have "ledger_map 9 = Some (9, 40)" "ledger_map 6 = None" by (simp_all add: ledger_map_def)
  then show ?thesis
    using table_lookup [OF ledger_state_ok, of 9 m for m] table_lookup [OF ledger_state_ok, of 6 "''no such account''"] by fastforce
qed

text \<open>Two iterators to objects compare equal exactly when the objects have the same primary key:
  every row has one object in the cache, however it was reached.\<close>

theorem table_iterator_eq:
  assumes "table_ok tb ok view img valid s T" and "points s a (Some v)" and "points s b (Some w)"
  shows "iterator_eq a b \<longleftrightarrow> primary_key tb v = primary_key tb w"
  using points_unique [OF assms] assms(2,3) by (auto simp: iterator_eq_def points_def)

theorem table_iterator_eq_witness: "iterator_eq (Some 0) (Some 1) \<longleftrightarrow> (9 :: u64) = 5"
  using table_iterator_eq [OF ledger_state_ok ledger_points] by simp

text \<open>C3: When \<open>emplace\<close> returns, the key of the new object was not in the table, and the table is
  the old one with the object added; the iterator returned and all older ones are good.\<close>

theorem table_emplace:
  assumes "table_ok tb ok view img valid s T" and "constructor (row_default tb) = Inr obj" and "valid obj"
    and "emplace tb payer constructor s = Inr (it, s')"
  shows "T (primary_key tb obj) = None \<and> table_ok tb ok view img valid s' (T(primary_key tb obj \<mapsto> obj)) \<and>
    points s' it (Some obj) \<and> keeps s s'"
  using emplace_ok [OF assms] by blast

theorem table_emplace_witness:
  "\<exists>it s'. emplace ledger \<lparr>name_value = 7\<rparr> (\<lambda>_. Inr (9, 40)) ledger_start = Inr (it, s') \<and> ledger_holds s' [9 \<mapsto> (9, 40)]"
proof -
  obtain it s' where r: "emplace ledger \<lparr>name_value = 7\<rparr> (\<lambda>_. Inr (9, 40)) ledger_start = Inr (it, s')"
    using ledger_two_runs by (auto simp: ledger_two_def bind_res_eq_Inr)
  then show ?thesis using table_emplace [OF ledger_start_ok _ _ r, of "(9, 40)"] by (auto simp: ledger_valid_def)
qed

text \<open>C4: When \<open>modify\<close> returns, the updater has kept the primary key and the table is the old one with
  the object replaced, in every secondary index too; iterators to the object see the new value.\<close>

theorem table_modify:
  assumes "table_ok tb ok view img valid s T" and "points s (Some p) (Some v)" and "updater v = Inr obj" and "valid obj"
    and "modify tb p payer updater s = Inr s'"
  shows "primary_key tb obj = primary_key tb v \<and> table_ok tb ok view img valid s' (T(primary_key tb v \<mapsto> obj)) \<and>
    points s' (Some p) (Some obj) \<and> (\<forall>q w. q \<noteq> p \<and> points s (Some q) w \<longrightarrow> points s' (Some q) w)"
  using modify_ok [OF assms] by blast

lemma ledger_modify_runs: "\<exists>s. modify ledger 0 \<lparr>name_value = 7\<rparr> (\<lambda>(k, b). Inr (k, b + 5)) ledger_state = Inr s"
  by (simp add: modify_def deref_def ledger_state_sel bind_check Let_def ledger_row_bytes ref_update_def ref_put_def slot_at_def
      known_iter_def)

theorem table_modify_witness:
  "\<exists>s. modify ledger 0 \<lparr>name_value = 7\<rparr> (\<lambda>(k, b). Inr (k, b + 5)) ledger_state = Inr s \<and> ledger_holds s (ledger_map(9 \<mapsto> (9, 45)))"
proof -
  obtain s where r: "modify ledger 0 \<lparr>name_value = 7\<rparr> (\<lambda>(k, b). Inr (k, b + 5)) ledger_state = Inr s"
    using ledger_modify_runs by blast
  from table_modify [OF ledger_state_ok ledger_points(1) _ _ r, of "(9, 45)"] show ?thesis
    using r by (simp add: ledger_valid_def)
qed



text \<open>What the changing operations refuse: a table of another account, an object of another table
  object, an updater that changes the primary key, and the end iterator, each with its own text.\<close>

theorem table_guards:
  shows "(name_value (code s) \<noteq> receiver (chain tb) (host s) \<longrightarrow>
      emplace tb payer f s = Inl (Assertion ''cannot create objects in table of another contract'') \<and>
      (points s (Some p) (Some v) \<longrightarrow>
        modify tb p payer f s = Inl (Assertion ''cannot modify objects in table of another contract'') \<and>
        erase tb p s = Inl (Assertion ''cannot erase objects in table of another contract''))) \<and>
    (objects s p = Some i \<and> item_idx i \<noteq> this_idx s \<longrightarrow>
      iterator_to tb p s = Inl (Assertion ''object passed to iterator_to is not in multi_index'') \<and>
      modify tb p payer f s = Inl (Assertion ''object passed to modify is not in multi_index'') \<and>
      erase tb p s = Inl (Assertion ''object passed to erase is not in multi_index'')) \<and>
    (name_value (code s) = receiver (chain tb) (host s) \<and> points s (Some p) (Some v) \<and> f v = Inr obj \<and> primary_key tb obj \<noteq> primary_key tb v \<longrightarrow>
      modify tb p payer f s = Inl (Assertion ''updater cannot change primary key when modifying an object'')) \<and>
    modify_at tb cend payer f s = Inl (Assertion ''cannot pass end iterator to modify'') \<and>
    erase_at tb cend s = Inl (Assertion ''cannot pass end iterator to erase'')"
proof (intro conjI impI)
  assume "name_value (code s) \<noteq> receiver (chain tb) (host s)"
  then show "emplace tb payer f s = Inl (Assertion ''cannot create objects in table of another contract'')" by (rule emplace_guard)
next
  assume "name_value (code s) \<noteq> receiver (chain tb) (host s)" and "points s (Some p) (Some v)"
  then show "modify tb p payer f s = Inl (Assertion ''cannot modify objects in table of another contract'')"
    "erase tb p s = Inl (Assertion ''cannot erase objects in table of another contract'')"
    using modify_guards(1) [of s p v tb payer f] by simp_all
qed (auto simp: iterator_to_def modify_def erase_def deref_def points_def modify_at_def erase_at_def iterator_neq_def cend_def bind_check Let_def)

theorem table_guards_witness:
  "modify ledger 0 \<lparr>name_value = 7\<rparr> (\<lambda>(k, b). Inr (k + 1, b)) ledger_state =
     Inl (Assertion ''updater cannot change primary key when modifying an object'')"
  using table_guards [of ledger_state ledger "\<lparr>name_value = 7\<rparr>" "\<lambda>(k, b). Inr (k + 1, b)" 0 "(9, 40)" _ "(10, 40)"] ledger_points(1)
  by (simp add: ledger_state_sel)

text \<open>\<open>available_primary_key\<close> returns a key above all keys of the table, or aborts at the autoincrement
  limit, which it does only when the table holds, or once held, a key among the last three.\<close>

theorem table_next_key:
  assumes "table_ok tb ok view img valid s T"
  shows "(\<exists>k s'. available_primary_key tb s = Inr (k, s') \<and> table_ok tb ok view img valid s' T \<and> keeps s s' \<and>
      (\<forall>q \<in> dom T. q < k)) \<or>
    available_primary_key tb s = Inl (Assertion ''next primary key in table is at autoincrement limit'') \<and>
      (next_primary_key s = no_available_primary_key \<or> (\<exists>q \<in> dom T. - 3 \<le> q))"
  using available_primary_key_outcome [OF assms] by blast

theorem table_next_key_witness:
  "\<exists>k s'. available_primary_key ledger ledger_state = Inr (k, s') \<and> ledger_holds s' ledger_map \<and> 9 < k"
proof -
  have "\<not> (- 1 :: u64) \<le> 9" "\<not> (- 1 :: u64) \<le> 5" by code_simp+
  then have "next_primary_key ledger_state = unset_next_primary_key"
    by (simp add: ledger_state_def ledger_two_def ledger_start_def ledger_run Let_def unset_next_primary_key_def)
  then have "next_primary_key ledger_state \<noteq> no_available_primary_key" by (simp add: unset_next_primary_key_def no_available_primary_key_def)
  moreover have "\<not> (- 3 :: u64) \<le> 9" "\<not> (- 3 :: u64) \<le> 5" by code_simp+
  then have "\<not> (\<exists>q \<in> dom ledger_map. - 3 \<le> q)" by (simp add: ledger_dom)
  ultimately show ?thesis using table_next_key [OF ledger_state_ok] by (auto simp: ledger_dom)
qed

text \<open>\<open>erase\<close> reads the item after destroying it: where that read fails, as the C++ standard allows,
  erasing any object of one's own table fails.\<close>

theorem table_erase_reads_destroyed:
  assumes "table_ok tb ok view img valid s T" and "points s (Some p) (Some v)" and "name_value (code s) = receiver (chain tb) (host s)"
  shows "erase (tb\<lparr>destroyed_item := (\<lambda>_. Inl (Undefined msg))\<rparr>) p s = Inl (Undefined msg)"
proof -
  let ?tb = "tb\<lparr>destroyed_item := (\<lambda>_. Inl (Undefined msg))\<rparr>"
  obtain i where i: "objects s p = Some i" "item_idx i = this_idx s" "item_value i = v"
    using assms(2) by (auto simp: points_def)
  obtain ptr where "cached tb (primary_key tb v) s = Some ptr" "ptr_item ptr = p"
    using cached_here [OF assms(1) i(1,2)] i(3) by auto
  moreover have "cached ?tb = cached tb" by (intro ext) (simp add: cached_def cached_key_def)
  ultimately show ?thesis using i assms(3) by (simp add: erase_def deref_def bind_check Let_def)
qed

theorem table_erase_reads_destroyed_witness:
  "erase (ledger\<lparr>destroyed_item := (\<lambda>_. Inl (Undefined ''use after free''))\<rparr>) 0 ledger_state = Inl (Undefined ''use after free'')"
  by (rule table_erase_reads_destroyed [OF ledger_state_ok ledger_points(1)]) (simp add: ledger_state_sel)

text \<open>C18: A search in a secondary index: \<open>lower_bound\<close> and \<open>upper_bound\<close> land on the first pair of a
  secondary and a primary key, in the order of such pairs, whose secondary key is at least or above
  the one asked for; \<open>find\<close> returns the object with the least primary key among those with that
  secondary key, and \<open>get\<close> aborts with the caller's text when there is none.\<close>

theorem index_search:
  assumes "table_ok tb ok view img valid s T" and "n < length (extractors tb)"
  shows "lands tb ok view img valid s T (map_option snd (least_such (\<lambda>a. k \<le> fst a) (index_assocs tb n T))) (index_lower_bound tb n k s) \<and>
    lands tb ok view img valid s T (map_option snd (least_such (\<lambda>a. k < fst a) (index_assocs tb n T))) (index_upper_bound tb n k s) \<and>
    (\<exists>it s'. index_find tb n k s = Inr (it, s') \<and> table_ok tb ok view img valid s' T \<and> keeps s s' \<and>
      points s' it (Option.bind (least_such (\<lambda>q. map_option (extractors tb ! n) (T q) = Some k) (dom T)) T)) \<and>
    ((\<forall>v \<in> ran T. (extractors tb ! n) v \<noteq> k) \<longrightarrow> index_get tb n k msg s = Inl (Assertion msg))"
proof (intro conjI impI)
  assume none: "\<forall>v \<in> ran T. (extractors tb ! n) v \<noteq> k"
  have e: "least_such (\<lambda>q. map_option (extractors tb ! n) (T q) = Some k) (dom T) = None"
    using none by (auto simp: ran_def)
  show "index_get tb n k msg s = Inl (Assertion msg)" using index_get_outcome [OF assms, of k msg] unfolding e by simp
qed (rule index_lower_bound_lands [OF assms] index_upper_bound_lands [OF assms] index_find_lands [OF assms])+

lemma ledger_assocs: "index_assocs ledger 0 ledger_map = {(40, 9), (60, 5)}"
  by (auto simp: index_assocs_image ledger_dom ledger_map_def)

theorem index_search_witness:
  "ledger_lands (Some 5) (index_lower_bound ledger 0 50 ledger_state) \<and>
   (\<exists>it s'. index_find ledger 0 40 ledger_state = Inr (it, s') \<and> points s' it (Some (9, 40)))"
proof -
  have "least_such (\<lambda>a. 50 \<le> fst a) (index_assocs ledger 0 ledger_map) = Some (60, 5)"
    by (auto simp: ledger_assocs intro!: least_such_unique)
  moreover have "least_such (\<lambda>q. map_option snd (ledger_map q) = Some 40) (dom ledger_map) = Some 9"
    by (auto simp: ledger_dom ledger_map_def intro!: least_such_unique)
  moreover have "ledger_map 9 = Some (9, 40)" "0 < length (extractors ledger)" by (simp_all add: ledger_map_def)
  ultimately show ?thesis
    using index_search [OF ledger_state_ok, of 0 50 "''none''"] index_search [OF ledger_state_ok, of 0 40 "''none''"] by auto
qed

text \<open>\<open>++\<close> and \<open>--\<close> on an iterator of a secondary index move to the object after and before it in the order of the
  pairs of secondary and primary keys, and abort at the ends as the table's own iterators do.\<close>

theorem index_step:
  assumes "table_ok tb ok view img valid s T" and "n < length (extractors tb)" and "points s it (Some v)"
  shows "lands tb ok view img valid s T
      (map_option snd (least_such (\<lambda>a. ((extractors tb ! n) v, primary_key tb v) < a) (index_assocs tb n T))) (index_next tb n it s) \<and>
    (case greatest_such (\<lambda>a. a < ((extractors tb ! n) v, primary_key tb v)) (index_assocs tb n T) of
       None \<Rightarrow> index_previous tb n it s = Inl (Assertion ''cannot decrement iterator at beginning of index'')
     | Some a \<Rightarrow> lands tb ok view img valid s T (Some (snd a)) (index_previous tb n it s)) \<and>
    index_next tb n cend s = Inl (Assertion ''cannot increment end iterator'') \<and>
    lands tb ok view img valid s T (map_option snd (greatest_such (\<lambda>_. True) (index_assocs tb n T))) (index_previous tb n cend s)"
proof (intro conjI)
  show "case greatest_such (\<lambda>a. a < ((extractors tb ! n) v, primary_key tb v)) (index_assocs tb n T) of
      None \<Rightarrow> index_previous tb n it s = Inl (Assertion ''cannot decrement iterator at beginning of index'')
    | Some a \<Rightarrow> lands tb ok view img valid s T (Some (snd a)) (index_previous tb n it s)"
    using index_previous_lands [OF assms]
    by (cases "greatest_such (\<lambda>a. a < ((extractors tb ! n) v, primary_key tb v)) (index_assocs tb n T)") (simp_all only: option.case option.map if_True if_False simp_thms option.distinct)
  show "index_next tb n cend s = Inl (Assertion ''cannot increment end iterator'')" by (simp add: index_next_def cend_def bind_check)
  have "T (primary_key tb v) = Some v" using points_row(1) [OF assms(1,3)] .
  then have "dom T \<noteq> {}" by blast
  then show "lands tb ok view img valid s T (map_option snd (greatest_such (\<lambda>_. True) (index_assocs tb n T))) (index_previous tb n cend s)"
    using index_previous_end_lands [OF assms(1,2)] by simp
qed (rule index_next_lands [OF assms])

theorem index_step_witness:
  "ledger_lands (Some 5) (index_next ledger 0 (Some 0) ledger_state) \<and>
   index_previous ledger 0 (Some 0) ledger_state = Inl (Assertion ''cannot decrement iterator at beginning of index'') \<and>
   ledger_lands (Some 5) (index_previous ledger 0 cend ledger_state)"
proof -
  have e: "least_such (\<lambda>a. (40, 9) < a) (index_assocs ledger 0 ledger_map) = Some (60, 5)"
    "greatest_such (\<lambda>a. a < (40, 9)) (index_assocs ledger 0 ledger_map) = None"
    "greatest_such (\<lambda>_. True) (index_assocs ledger 0 ledger_map) = Some (60, 5)"
    by (auto simp: ledger_assocs intro!: least_such_unique greatest_such_unique)
  have "(extractors ledger ! 0) (9, 40) = 40" "primary_key ledger (9, 40) = 9" "0 < length (extractors ledger)" by simp_all
  note index_step [OF ledger_state_ok this(3) ledger_points(1), unfolded this(1,2) e]
  then show ?thesis by simp
qed

text \<open>C19: The loop over a secondary index from the lowest key ends and reads every object of the table
  once, in ascending order of the pairs of secondary and primary keys.\<close>

theorem index_walk:
  assumes "table_ok tb ok view img valid s T" and "n < length (extractors tb)" and "card (index_assocs tb n T) < fuel"
    and "\<forall>k. lowest \<le> k"
  shows "\<exists>it s1 s'. index_cbegin tb n lowest s = Inr (it, s1) \<and>
    walk (\<lambda>it. iterator_eq it cend) (read_item tb) (index_next tb n) fuel it s1 =
      Some (Inr (map (\<lambda>a. the (T (snd a))) (sorted_list_of_set (index_assocs tb n T)), s')) \<and> table_ok tb ok view img valid s' T"
proof -
  have all: "least_such (\<lambda>a. lowest \<le> fst a) (index_assocs tb n T) = least_such (\<lambda>_. True) (index_assocs tb n T)"
    using assms(4) by (simp add: least_such_def)
  obtain it s1 where b: "index_cbegin tb n lowest s = Inr (it, s1)" "table_ok tb ok view img valid s1 T"
    "at_key T s1 it (map_option snd (least_such (\<lambda>_. True) (index_assocs tb n T)))"
    using lands_at_key [OF index_lower_bound_lands [OF assms(1,2), of lowest]] all by (auto simp: index_cbegin_def)
  have "at_assoc tb n T s1 it (least_such (\<lambda>_. True) (index_assocs tb n T))"
    using b(3) least_such_in [OF finite_index_assocs] by (auto simp: at_assoc_def)
  from assocs.walk_all [OF conjI [OF b(2) assms(2)] this assms(3)] show ?thesis using b(1) by blast
qed

theorem index_walk_witness:
  "\<exists>it s1 s'. index_cbegin ledger 0 0 ledger_state = Inr (it, s1) \<and>
    walk (\<lambda>it. iterator_eq it cend) (read_item ledger) (index_next ledger 0) 3 it s1 = Some (Inr ([(9, 40), (5, 60)], s'))"
proof -
  have "card (index_assocs ledger 0 ledger_map) < 3"
    "map (\<lambda>a. the (ledger_map (snd a))) (sorted_list_of_set (index_assocs ledger 0 ledger_map)) = [(9, 40), (5, 60)]"
    unfolding ledger_assocs by (simp_all add: ledger_map_def)
  then show ?thesis using index_walk [OF ledger_state_ok, of 0 3 0] by simp metis
qed

section \<open>Singletons\<close>

text \<open>A counter, kept as a singleton of 64 bits on the same chain.\<close>

definition counter :: "(u64, u64, u64 ref_state) singleton_def" where
  "counter =
     \<lparr>sg_chain = ref_chain, pk_value = 0x4561AEA400000000, default_value = 0, put_value_size = put_prim ss_write,
      put_value = put_prim ds_write, get_value = get_prim ds_read, sg_buffer_address = (\<lambda>_. 4096),
      sg_buffer_bytes = (\<lambda>n. replicate (unat n) 0), sg_destroyed_item = Inr\<rparr>"

abbreviation counter_holds :: "(u64 row, u64 ref_state) table \<Rightarrow> u64 option \<Rightarrow> bool" where
  "counter_holds \<equiv> singleton_holds counter ref_ok ref_view (le_bytes 8) (\<lambda>_. True)"

definition counter_start :: "(u64 row, u64 ref_state) table" where
  "counter_start = make_table 0 \<lparr>name_value = 7\<rparr> 7 \<lparr>r_receiver = 7, r_rows = [], r_keys = []\<rparr>"

lemma counter_start_ok: "counter_holds counter_start None"
proof -
  have "codec (put_value_size counter) (put_value counter) (get_value counter) (le_bytes 8) (\<lambda>_. True)"
    using u64_codec.codec_axioms by (simp add: counter_def)
  note singleton_codec [OF this]
  then have "table_def_ok (singleton_table counter) ref_ok ref_view (\<lambda>r. le_bytes 8 (row_value r)) (\<lambda>_. True)"
    using ref_host.chain_host_axioms by (simp add: table_def_ok_def counter_def singleton_table_def addressable_def inj_def)
  then show ?thesis
    unfolding singleton_holds_def counter_start_def
    by (rule make_table_ok) (simp_all add: ref_ok_def slots_ok_def stored_def slot_value_def slot_index_def only_row_def counter_def singleton_table_def)
qed

text \<open>The reading operations of a singleton: \<open>exists\<close> says whether there is a value, \<open>get\<close> returns it or
  aborts, \<open>get_or_default\<close> returns it or the default; the contents stay.\<close>

theorem singleton_reading:
  assumes "singleton_holds sd ok view img valid s x"
  shows "(\<exists>s'. singleton_holds sd ok view img valid s' x \<and> singleton_exists sd s = Inr (x \<noteq> None, s')) \<and>
    (\<exists>s'. singleton_holds sd ok view img valid s' x \<and>
      singleton_get sd s = (case x of None \<Rightarrow> Inl (Assertion ''singleton does not exist'') | Some v \<Rightarrow> Inr (v, s'))) \<and>
    (\<exists>s'. singleton_holds sd ok view img valid s' x \<and>
      singleton_get_or_default sd def s = Inr (case x of None \<Rightarrow> def | Some v \<Rightarrow> v, s'))"
  using singleton_reads [OF assms] by blast


theorem singleton_reading_witness:
  "(\<exists>s'. singleton_get counter counter_start = Inl (Assertion ''singleton does not exist'') \<and> counter_holds s' None) \<and>
   (\<exists>s'. singleton_get_or_default counter 3 counter_start = Inr (3, s'))"
  using singleton_reading [OF counter_start_ok, of 3] by auto


text \<open>C28: Ropes are strings: \<open>+\<close> with a rope or a C string gives the rope of the text that \<open>@\<close> gives, \<open>append\<close> of a
  character array appends all of the array, and every rope that shares nodes with the new one still has its text.\<close>

theorem rope_concatenation:
  assumes "rope_ok ns this text" and "rope_ok ns r s" and "length text + length s < 2 ^ 32"
    and "CHR 0x00 \<in> set cs" and "length text + length cs < 2 ^ 32"
  shows "(\<exists>rp ns'. add_rope this r ns = Inr (rp, ns') \<and> rope_ok ns' rp (text @ s) \<and> keeps_ropes ns ns') \<and>
    (\<exists>rp ns'. add_cstr this cs ns = Inr (rp, ns') \<and> rope_ok ns' rp (text @ c_string cs) \<and> keeps_ropes ns ns') \<and>
    (\<exists>rp ns'. append_array cs this ns = Inr (rp, ns') \<and> rope_ok ns' rp (text @ cs) \<and> keeps_ropes ns ns') \<and>
    (\<exists>rp ns'. rope_of_cstr cs ns = Inr (rp, ns') \<and> rope_ok ns' rp (c_string cs) \<and> keeps_ropes ns ns')"
proof (intro conjI)
  have le: "length (c_string cs) \<le> length cs" by (simp add: c_string_def length_takeWhile_le)
  show "\<exists>rp ns'. add_rope this r ns = Inr (rp, ns') \<and> rope_ok ns' rp (text @ s) \<and> keeps_ropes ns ns'"
    using append_rope_text [OF assms(2,1,3)] by (simp add: add_rope_def add_assign_rope_def)
  show "\<exists>rp ns'. add_cstr this cs ns = Inr (rp, ns') \<and> rope_ok ns' rp (text @ c_string cs) \<and> keeps_ropes ns ns'"
    using add_assign_cstr_text [OF assms(1,4)] assms(5) le by (simp add: add_cstr_def)
  show "\<exists>rp ns'. append_array cs this ns = Inr (rp, ns') \<and> rope_ok ns' rp (text @ cs) \<and> keeps_ropes ns ns'"
    by (rule append_array_text [OF assms(1,5)])
  show "\<exists>rp ns'. rope_of_cstr cs ns = Inr (rp, ns') \<and> rope_ok ns' rp (c_string cs) \<and> keeps_ropes ns ns'"
    using rope_of_cstr_text [OF assms(4)] assms(5) by simp
qed

text \<open>A rope of one text, and of that text twice.\<close>

definition one_rope :: "rope \<times> rope_node list" where
  "one_rope = rope_of_sv ''ab'' []"

definition two_ropes :: "rope \<times> rope_node list" where
  "two_ropes = (case add_rope (fst one_rope) (fst one_rope) (snd one_rope) of Inl e \<Rightarrow> one_rope | Inr p \<Rightarrow> p)"

lemma one_rope_ok: "rope_ok (snd one_rope) (fst one_rope) ''ab''"
  using rope_of_sv_text [of "''ab''" "[]"] by (auto simp: one_rope_def)

theorem rope_concatenation_witness:
  "rope_ok (snd two_ropes) (fst two_ropes) ''abab'' \<and> rope_ok (snd two_ropes) (fst one_rope) ''ab''"
proof -
  obtain rp ns' where "add_rope (fst one_rope) (fst one_rope) (snd one_rope) = Inr (rp, ns')" "rope_ok ns' rp ''abab''"
      "keeps_ropes (snd one_rope) ns'"
    using rope_concatenation [OF one_rope_ok one_rope_ok, of "[CHR 0x00]"] by auto
  then show ?thesis using one_rope_ok by (simp add: two_ropes_def keeps_ropes_def)
qed

text \<open>C8: \<open>c_str\<close> ends on every rope, whatever its nodes share, and gives the rope's text with a terminator; \<open>sv\<close> gives the text and
  \<open>at\<close> its characters. The walk leaves every rope its text, though it writes to nodes they share.\<close>

theorem rope_reading:
  assumes "rope_ok ns this text" and "length ret = length text + 1"
  shows "(\<exists>ns'. rope_c_str ret this ns = Some (Inr (text @ [CHR 0x00], ns')) \<and>
      rope_sv ret this ns = Some (Inr (text, ns')) \<and> keeps_ropes ns ns') \<and>
    unat (rope_length this) = length text \<and>
    (\<forall>i. unat i < length text \<longrightarrow> rope_at i this ns = Some (Inr (text ! unat i)))"
proof -
  obtain ns' where "rope_c_str ret this ns = Some (Inr (text @ [CHR 0x00], ns'))" "map core ns' = map core ns"
    using rope_c_str_text [OF assms] by blast
  then show ?thesis
    using assms(1) keeps_core [of ns' ns] rope_at_text [OF assms(1)] by (auto simp: rope_sv_def rope_length_def rope_ok_def)
qed

lemma two_ropes_ok: "rope_ok (snd two_ropes) (fst two_ropes) ''abab''"
proof -
  have "\<exists>rp ns'. add_rope (fst one_rope) (fst one_rope) (snd one_rope) = Inr (rp, ns') \<and> rope_ok ns' rp (''ab'' @ ''ab'')"
    using append_rope_text [OF one_rope_ok one_rope_ok] by (auto simp: add_rope_def add_assign_rope_def)
  then show ?thesis by (auto simp: two_ropes_def)
qed

theorem rope_reading_witness:
  "(\<exists>ns'. rope_c_str ''.....'' (fst two_ropes) (snd two_ropes) = Some (Inr (''abab'' @ [CHR 0x00], ns'))) \<and>
   rope_at 3 (fst two_ropes) (snd two_ropes) = Some (Inr (CHR ''b''))"
proof -
  have "rope_at 3 (fst two_ropes) (snd two_ropes) = Some (Inr (''abab'' ! unat (3 :: u32)))"
    using rope_reading [OF two_ropes_ok, of "''.....''"] by simp
  then show ?thesis using rope_reading [OF two_ropes_ok, of "''.....''"] by auto
qed

section \<open>Actions and transactions\<close>

text \<open>C6: What an action wrapper sends reaches the method: the bytes handed to the host are an action with the wrapper's code,
  name and permissions, and when the host delivers the data of that action to the contract, \<open>apply\<close> calls the one member
  with the action's name, on a contract object for the receiver with nothing left in its stream, with the arguments sent.\<close>

theorem sent_action_reaches_method:
  assumes "codec tps tpd tget img valid" and "valid args" and "addressable addr (length (img args))"
    and "members_ok members" and "(elem, execute_action api mk tget func) \<in> set members" and "name_of_string elem = Inr action_name"
    and "delivered api (img args) buf h h'"
  shows "\<exists>act ds. to_action action_name tps tpd w addr args = Inr act \<and>
    act_account act = code_name w \<and> act_name act = action_name \<and> act_authorization act = permissions w \<and>
    data_as tget addr act = Inr args \<and> ds_view ds = [] \<and>
    apply_action members (name_value (code_name w)) (name_value (act_account act)) (name_value (act_name act)) h =
      bind_res (func (mk (code_name w) (code_name w) ds) args h') (release api (length (act_data act)) buf)"
proof -
  let ?act = "\<lparr>act_account = code_name w, act_name = action_name, act_authorization = permissions w, act_data = img args\<rparr>"
  let ?ds = "ds_adv (length (img args)) (ds_make buf (of_nat (length (img args))) (img args))"
  have "to_action action_name tps tpd w addr args = Inr ?act"
    using codec.pack_image [OF assms(1,2,3)] by (simp add: to_action_def action_of_list_def)
  moreover have "data_as tget addr ?act = Inr args"
    using codec.unpack_image [OF assms(1,2), of addr "[]"] assms(3) by (simp add: data_as_def unpack_bytes_def)
  moreover have "delivered api (img args @ []) buf h h'" using assms(7) by simp
  note e = execute_action_delivered [OF this codec.get_image [OF assms(1,2)]]
  have "apply_action members (name_value (code_name w)) (name_value (code_name w)) (name_value action_name) h =
      bind_res (func (mk (code_name w) (code_name w) ?ds) args h') (release api (length (img args)) buf)"
    using dispatch_switch_hit [OF assms(4,5,6)] by (simp add: apply_action_def name_of_value_def e(1))
  ultimately show ?thesis using e(3) by auto
qed

text \<open>A host whose state is the data of the action and a counter, and a contract with a method that adds to it.\<close>

definition demo_host :: "(u8 list \<times> u64) action_api" where
  "demo_host =
     \<lparr>host_action_data_size = (\<lambda>h. of_nat (length (fst h))), host_read_action_data = (\<lambda>n h. take (unat n) (fst h)),
      host_require_recipient = (\<lambda>_. Inr), host_require_auth = (\<lambda>_. Inr), host_require_auth2 = (\<lambda>_ _. Inr),
      host_has_auth = (\<lambda>_ _. True), host_is_account = (\<lambda>_ _. True), host_send_inline = (\<lambda>_. Inr),
      host_send_context_free_inline = (\<lambda>_. Inr), host_publication_time = (\<lambda>_. 0), host_current_receiver = (\<lambda>_. 0),
      host_malloc = (\<lambda>n h. Inr ((4096, replicate (unat n) 0), h)), host_alloca = (\<lambda>n h. (4096, replicate (unat n) 0)),
      host_free = (\<lambda>_. Inr)\<rparr>"

definition demo_method :: "contract \<Rightarrow> u64 \<Rightarrow> u8 list \<times> u64 \<Rightarrow> (u8 list \<times> u64) res" where
  "demo_method c n h = Inr (fst h, snd h + n)"

definition demo_members :: "(u8 list \<times> u64) member list" where
  "demo_members = [(''issue'', \<lambda>self code h. Inl (Undefined ''not called'')),
     (''add'', execute_action demo_host contract_make (get_prim ds_read) demo_method)]"

lemma demo_delivered:
  assumes "bytes \<noteq> []" and "length bytes \<le> 512"
  shows "delivered demo_host bytes 4096 (bytes, n) (bytes, n)"
proof -
  have u: "unat (of_nat (length bytes) :: u32) = length bytes" using assms(2) by (simp add: unat_of_nat_small)
  then have "\<not> (512 :: u32) < of_nat (length bytes)" using assms(2) by (simp add: word_less_nat_alt)
  then show ?thesis
    using assms u by (simp add: delivered_def demo_host_def action_buffer_def max_stack_buffer_size_def addressable_def)
qed

lemma demo_members_ok: "members_ok demo_members" "name_of_string ''add'' = Inr \<lparr>name_value = 0x3252000000000000\<rparr>"
proof -
  show a: "name_of_string ''add'' = Inr \<lparr>name_value = 0x3252000000000000\<rparr>" by code_simp
  moreover have "name_of_string ''issue'' = Inr \<lparr>name_value = 0x7631a50000000000\<rparr>" by code_simp
  ultimately show "members_ok demo_members" by (simp add: demo_members_def members_ok_def)
qed

theorem sent_action_reaches_method_witness:
  "apply_action demo_members 5 5 0x3252000000000000 (le_bytes 8 (7 :: u64), 3) = Inr (le_bytes 8 (7 :: u64), 10)"
proof -
  have m: "(''add'', execute_action demo_host contract_make (get_prim ds_read) demo_method) \<in> set demo_members"
    by (simp add: demo_members_def)
  have "le_bytes 8 (7 :: u64) \<noteq> []" by (metis length_le_bytes list.size(3) zero_neq_numeral)
  then have d: "delivered demo_host (le_bytes 8 (7 :: u64)) 4096 (le_bytes 8 (7 :: u64), 3) (le_bytes 8 (7 :: u64), 3)"
    by (rule demo_delivered) simp
  note s = sent_action_reaches_method [OF u64_codec.codec_axioms TrueI _ demo_members_ok(1) m demo_members_ok(2) d,
    of 4096 "wrapper_of_code \<lparr>name_value = 5\<rparr>"]
  have "addressable 4096 8" by (simp add: addressable_def)
  then show ?thesis using s by (auto simp: wrapper_of_code_def demo_method_def release_def demo_host_def)
qed

text \<open>C24: A deferred transaction that fails comes back whole: \<open>send\<close> hands the host the packed transaction, and when the host
  delivers the notification with those bytes, \<open>from_current_action\<close> and \<open>unpack_sent_trx\<close> give the transaction that was sent.\<close>

theorem deferred_transaction_returns:
  assumes "transaction_ok t" and "addressable addr (length (transaction_image t))"
    and "delivered (action_api.truncate api) (onerror_image \<lparr>oe_sender_id = sender_id, oe_sent_trx = transaction_image t\<rparr>) buf h2 h3"
  shows "transaction_send api addr t sender_id payer replace h =
      host_send_deferred api sender_id (name_value payer) (transaction_image t) (of_bool replace) h \<and>
    (\<exists>e. from_current_action api h2 = Inr (e, h3) \<and> oe_sender_id e = sender_id \<and> unpack_sent_trx addr e = Inr t)"
proof -
  let ?e = "\<lparr>oe_sender_id = sender_id, oe_sent_trx = transaction_image t\<rparr>"
  have "length (oe_sent_trx ?e) < 2 ^ 32" using assms(2) by (simp add: addressable_def)
  note r = codec.get_image [OF onerror_codec this]
  have "onerror_image ?e \<noteq> []" by (simp add: onerror_image_def) (metis length_le_bytes list.size(3) zero_neq_numeral)
  then have "from_current_action api h2 = Inr (?e, h3)"
    using unpack_delivered [of "action_api.truncate api" "onerror_image ?e" "[]" buf h2 h3, OF _ _ r] assms(3)
    by (simp add: from_current_action_def)
  then show ?thesis using transaction_send_image(2) [OF assms(1,2)] by (simp add: transaction_send_image(1) [OF assms(1,2)])
qed

definition demo_chain :: "(u8 list \<times> u64) chain_api" where
  "demo_chain = action_api.extend demo_host
     \<lparr>host_send_deferred = (\<lambda>_ _ bytes _ h. Inr (bytes, snd h)), host_cancel_deferred = (\<lambda>_ h. Inr (1, h)),
      host_read_transaction = (\<lambda>_ _. (0, [])), host_transaction_size = (\<lambda>_. 0), host_tapos_block_num = (\<lambda>_. 0),
      host_tapos_block_prefix = (\<lambda>_. 0), host_expiration = (\<lambda>_. 0), host_get_action = (\<lambda>_ _ _ _. (- 1, [])),
      host_get_context_free_data = (\<lambda>_ _ _. (- 1, [])), host_current_time = (\<lambda>_. 0), host_exit = (\<lambda>_. Inr),
      host_check_transaction_authorization = (\<lambda>_ _ _ _. 1), host_check_permission_authorization = (\<lambda>_ _ _ _ _ _. 1),
      host_get_permission_last_used = (\<lambda>_ _ _. 0), host_get_account_creation_time = (\<lambda>_ _. 0)\<rparr>"

definition demo_transaction :: transaction where
  "demo_transaction = (transaction_of 1 2 \<lparr>utc_seconds = 60\<rparr>)
     \<lparr>tx_actions := [\<lparr>act_account = \<lparr>name_value = 5\<rparr>, act_name = \<lparr>name_value = 6\<rparr>,
        act_authorization = [\<lparr>perm_actor = \<lparr>name_value = 5\<rparr>, perm_permission = \<lparr>name_value = 7\<rparr>\<rparr>], act_data = [1, 2, 3]\<rparr>]\<rparr>"

lemma length_vlq_bytes_small: "n < 128 \<Longrightarrow> length (vlq_bytes n) = 1"
  by (subst vlq_bytes.simps) simp

lemma demo_transaction_ok: "transaction_ok demo_transaction" "length (transaction_image demo_transaction) = 53"
proof -
  show "transaction_ok demo_transaction"
    by (simp add: transaction_ok_def demo_transaction_def transaction_of_def transaction_header_of_def transaction_header.defs
        seq_valid_def action_ok_def)
  show "length (transaction_image demo_transaction) = 53"
    by (simp add: transaction_image_def transaction_header_image_def seq_image_def action_image_def permission_level_image_def name_image_def
        size_bytes_def length_vlq_bytes_small demo_transaction_def transaction_of_def transaction_header_of_def transaction_header.defs unsigned_int_of_def)
qed

theorem deferred_transaction_returns_witness:
  "\<exists>e h. from_current_action demo_chain (onerror_image \<lparr>oe_sender_id = 9, oe_sent_trx = transaction_image demo_transaction\<rparr>, 0) = Inr (e, h) \<and>
     unpack_sent_trx 4096 e = Inr demo_transaction"
proof -
  let ?e = "\<lparr>oe_sender_id = 9, oe_sent_trx = transaction_image demo_transaction\<rparr>"
  have t: "action_api.truncate demo_chain = demo_host"
    by (simp add: demo_chain_def demo_host_def action_api.defs)
  have "length (onerror_image ?e) \<le> 512"
    using demo_transaction_ok(2) by (simp add: onerror_image_def size_bytes_def length_vlq_bytes_small)
  from demo_delivered [OF onerror_image_nonempty this]
  have d: "delivered (action_api.truncate demo_chain) (onerror_image ?e) 4096 (onerror_image ?e, 0) (onerror_image ?e, 0)" unfolding t .
  have "addressable 4096 (length (transaction_image demo_transaction))" by (simp add: demo_transaction_ok(2) addressable_def)
  from deferred_transaction_returns [OF demo_transaction_ok(1) this d] show ?thesis by blast
qed

text \<open>C33: \<open>fixed_bytes\<close> is its bytes: an object made from as many bytes as it holds gives them back, whatever its memory held
  before, and two objects compare as their bytes do, the first byte deciding first.\<close>

theorem fixed_bytes_are_bytes:
  assumes "length (fb_data m) = num_words (length xs)" and "length (fb_data m') = num_words (length xs)" and "length ys = length xs"
  shows "\<exists>a b. fixed_bytes_of_words m xs = Inr a \<and> fixed_bytes_of_words m' ys = Inr b \<and>
    extract_as_byte_array (length xs) a = xs \<and> extract_as_byte_array (length xs) b = ys \<and>
    (fixed_bytes_eq a b \<longleftrightarrow> xs = ys) \<and> (fixed_bytes_neq a b \<longleftrightarrow> xs \<noteq> ys) \<and>
    (fixed_bytes_less a b \<longleftrightarrow> (xs, ys) \<in> lexord {(x, y). x < y}) \<and> (fixed_bytes_gt a b \<longleftrightarrow> (ys, xs) \<in> lexord {(x, y). x < y}) \<and>
    (fixed_bytes_le a b \<longleftrightarrow> (ys, xs) \<notin> lexord {(x, y). x < y}) \<and> (fixed_bytes_ge a b \<longleftrightarrow> (xs, ys) \<notin> lexord {(x, y). x < y})"
proof -
  let ?a = "\<lparr>fb_data = chunk_words xs\<rparr>" and ?b = "\<lparr>fb_data = chunk_words ys\<rparr>"
  have "fixed_bytes_of_words m xs = Inr ?a" "fixed_bytes_of_words m' ys = Inr ?b"
    using fixed_bytes_exact [of m xs] fixed_bytes_exact [of m' ys] assms by (simp_all add: fixed_bytes_of_words_def)
  moreover have "extract_as_byte_array (length xs) ?a = xs" "extract_as_byte_array (length xs) ?b = ys"
    using extract_exact [of xs] extract_exact [of ys] assms(3) by simp_all
  moreover from this have "chunk_words xs = chunk_words ys \<longleftrightarrow> xs = ys" by metis
  moreover have "array_less (chunk_words xs) (chunk_words ys) \<longleftrightarrow> (xs, ys) \<in> lexord {(x, y). x < y}"
    "array_less (chunk_words ys) (chunk_words xs) \<longleftrightarrow> (ys, xs) \<in> lexord {(x, y). x < y}"
    using chunk_words_less assms(3) by (simp_all add: array_less_lexord)
  ultimately show ?thesis
    by (intro exI [of _ ?a] exI [of _ ?b]) (simp add: fixed_bytes_eq_def fixed_bytes_neq_def fixed_bytes_less_def fixed_bytes_gt_def
        fixed_bytes_le_def fixed_bytes_ge_def)
qed

theorem fixed_bytes_are_bytes_witness:
  "\<exists>a b. fixed_bytes_of_words (fixed_bytes_zero 3) [1, 2, 3 :: u8] = Inr a \<and> fixed_bytes_of_words (fixed_bytes_zero 3) [1, 3, 0 :: u8] = Inr b \<and>
     extract_as_byte_array 3 a = [1, 2, 3] \<and> fixed_bytes_less a b"
proof -
  have "length (fb_data (fixed_bytes_zero 3)) = num_words (length [1, 2, 3 :: u8])" by (simp add: fixed_bytes_zero_def num_words_def)
  moreover have "([1, 2, 3 :: u8], [1, 3, 0]) \<in> lexord {(x, y). x < y}" by simp
  ultimately show ?thesis
    using fixed_bytes_are_bytes [of "fixed_bytes_zero 3" "[1, 2, 3]" "fixed_bytes_zero 3" "[1, 3, 0]"] by (auto simp: numeral_3_eq_3)
qed

text \<open>C34: Block slots and times: a slot's time is its start, computed without overflow, and converts back to the slot; a time in the
  range of slots is in the half second that starts at its slot's time; \<open>next\<close> aborts at the last slot.\<close>

theorem block_slots_are_half_seconds:
  "(\<exists>t. block_to_time_point b = Inr t \<and> count_of t = (uint (bt_slot b) * 500 + 946684800000) * 1000 \<and> block_of_time_point t = b) \<and>
   (946684800000000 \<le> count_of p \<longrightarrow> count_of p < (2 ^ 32 * 500 + 946684800000) * 1000 \<longrightarrow>
     (\<exists>t. block_to_time_point (block_of_time_point p) = Inr t \<and> count_of t \<le> count_of p \<and> count_of p < count_of t + 500000)) \<and>
   block_next b = (if bt_slot b = 0xffffffff then Inl (Assertion ''block timestamp overflow'') else Inr \<lparr>bt_slot = bt_slot b + 1\<rparr>)"
proof (intro conjI impI)
  show "\<exists>t. block_to_time_point b = Inr t \<and> count_of t = (uint (bt_slot b) * 500 + 946684800000) * 1000 \<and> block_of_time_point t = b"
    using block_time_point_count [of b] block_roundtrip by (auto simp: block_to_time_point_def)
  assume "946684800000000 \<le> count_of p" "count_of p < (2 ^ 32 * 500 + 946684800000) * 1000"
  note s = block_of_time_point_slot [OF this]
  obtain t where t: "block_time_point (block_of_time_point p) = Inr t"
      "count_of t = ((count_of p - 946684800000000) div 500000 * 500 + 946684800000) * 1000"
    using block_time_point_count [of "block_of_time_point p"] s by auto
  have "count_of t = (count_of p - 946684800000000) div 500000 * 500000 + 946684800000000" using t(2) by simp
  then have "count_of t \<le> count_of p" "count_of p < count_of t + 500000"
    using mult_div_mod_eq [of 500000 "count_of p - 946684800000000"] pos_mod_bound [of 500000 "count_of p - 946684800000000"]
      pos_mod_sign [of 500000 "count_of p - 946684800000000"] by linarith+
  then show "\<exists>t. block_to_time_point (block_of_time_point p) = Inr t \<and> count_of t \<le> count_of p \<and> count_of p < count_of t + 500000"
    using t(1) by (simp add: block_to_time_point_def)
next
  show "block_next b = (if bt_slot b = 0xffffffff then Inl (Assertion ''block timestamp overflow'') else Inr \<lparr>bt_slot = bt_slot b + 1\<rparr>)"
    by (rule block_next_outcome)
qed

theorem block_slots_are_half_seconds_witness:
  "\<exists>t. block_to_time_point (block_of_time_point \<lparr>elapsed = \<lparr>us_count = 946684800700000\<rparr>\<rparr>) = Inr t \<and>
     count_of t \<le> 946684800700000 \<and> 946684800700000 < count_of t + 500000"
  using block_slots_are_half_seconds [of "\<lparr>bt_slot = 0\<rparr>" "\<lparr>elapsed = \<lparr>us_count = 946684800700000\<rparr>\<rparr>"] by (simp add: count_of_def)

section \<open>The tools\<close>


text \<open>C9: Parsing a ricardian file gives back its headings and bodies, whatever white space stands
  between the tokens and around the texts, for bodies in which no heading may begin.\<close>

theorem ricardian_files_parse:
  assumes "ricardian_file ty es src" and "\<forall>c \<in> set ty. \<not> is_ws c"
  shows "parse (tokenizer_make src) ty = Inr es"
  by (rule parse_well_formed [OF assms])

text \<open>A file of two clauses.\<close>

definition dquote :: string where
  "dquote = [CHR 0x22]"

definition clause_heading :: "(string \<times> string) list" where
  "clause_heading = [(''<'', []), (''h1'', '' ''), (''class'', []), (''='', []), (dquote @ ''clause'' @ dquote, []), (''>'', [])]"

definition heading_close :: "(string \<times> string) list" where
  "heading_close = [(''<'', []), (''/h1'', []), (''>'', [CHR 0x0A])]"

lemma two_clauses_file:
  "ricardian_file ''clause'' [(''terms'', ''be <b>fair</b>''), (''law'', ''none'')]
     ([] @ spaced clause_heading @ ''terms'' @ [] @ spaced heading_close @ ''be <b>fair</b>'' @
      ([CHR 0x0A] @ spaced clause_heading @ ''law'' @ [] @ spaced heading_close @ ''none'' @ [CHR 0x0A]))"
proof -
  have "layout (decl_tokens ''clause'') clause_heading" and "layout close_tokens heading_close"
    and "trimmed_text ''terms''" "trimmed_text ''be <b>fair</b>''" "trimmed_text ''law''" "trimmed_text ''none''"
    and "quiet ''be <b>fair</b>''" "quiet ''none''" and "blank [CHR 0x0A]" "blank []"
    by code_simp+
  then show ?thesis
    by (intro ricardian_file.more_entries ricardian_file.last_entry) simp_all
qed

theorem ricardian_files_parse_witness:
  "parse (tokenizer_make (spaced clause_heading @ ''terms'' @ spaced heading_close @ ''be <b>fair</b>'' @
      [CHR 0x0A] @ spaced clause_heading @ ''law'' @ spaced heading_close @ ''none'' @ [CHR 0x0A])) ''clause'' =
   Inr [(''terms'', ''be <b>fair</b>''), (''law'', ''none'')]"
proof -
  have "\<forall>c \<in> set ''clause''. \<not> is_ws c" by code_simp
  from ricardian_files_parse [OF two_clauses_file this] show ?thesis by (simp only: append_Nil)
qed

text \<open>C37: A body that ends in \<open><h\<close> and a blank, where a heading breaks off, makes the tokenizer read
  behind the end of the source: \<open>eat_ws\<close> takes the distance from \<open>index\<close> and not from its argument.\<close>

theorem broken_heading_reads_past:
  assumes "trimmed_text b" and "quiet b"
  shows "get_body \<lparr>tk_source = p @ b @ ''<h '', tk_index = length p\<rparr> ty = Inl (Undefined ''index out of range'')"
  by (rule get_body_past_end [OF assms])

theorem broken_heading_reads_past_witness:
  "get_body \<lparr>tk_source = ''> '' @ ''text'' @ ''<h '', tk_index = length ''> ''\<rparr> ''clause'' =
   Inl (Undefined ''index out of range'')"
proof -
  have "trimmed_text ''text''" and "quiet ''text''" by code_simp+
  then show ?thesis by (rule broken_heading_reads_past)
qed


definition small_abi :: "string \<Rightarrow> abi_struct list \<Rightarrow> abi_variant list \<Rightarrow> abi_json" where
  "small_abi v st va = \<lparr>aj_comment = Some [], aj_version = Some v, aj_types = Some [], aj_structs = Some st,
     aj_actions = Some [], aj_tables = Some [], aj_clauses = Some [], aj_variants = Some va\<rparr>"

definition struct_of :: "string \<Rightarrow> abi_field list \<Rightarrow> abi_struct" where
  "struct_of n fs = \<lparr>st_name = n, st_base = [], st_fields = fs\<rparr>"

definition small_field :: "string \<Rightarrow> abi_field" where
  "small_field n = \<lparr>fd_name = n, fd_type = ''name''\<rparr>"


text \<open>C26: A file compared with itself: the structs without fields are printed as differences, in both
  directions, and nothing else is.\<close>

theorem abi_diff_of_itself:
  assumes "complete_abi a" and "names_distinct a" and "get_version a = Inr v"
  shows "abi_diff a a =
    (map (\<lambda>s. (CHR ''<'', Struct_entry s)) (filter (\<lambda>s. st_fields s = []) (the (aj_structs a))) @
     map (\<lambda>s. (CHR ''>'', Struct_entry s)) (filter (\<lambda>s. st_fields s = []) (the (aj_structs a))), None)"
  using abi_diff_self [OF assms] by (simp add: fieldless_def)

theorem abi_diff_of_itself_witness:
  "abi_diff (small_abi ''uosio::abi/1.1'' [struct_of ''s'' [small_field ''f''], struct_of ''t'' []] [])
     (small_abi ''uosio::abi/1.1'' [struct_of ''s'' [small_field ''f''], struct_of ''t'' []] []) =
   ([(CHR ''<'', Struct_entry (struct_of ''t'' [])), (CHR ''>'', Struct_entry (struct_of ''t'' []))], None)"
proof -
  let ?a = "small_abi ''uosio::abi/1.1'' [struct_of ''s'' [small_field ''f''], struct_of ''t'' []] []"
  have "complete_abi ?a" and "names_distinct ?a"
    by (simp_all add: complete_abi_def names_distinct_def small_abi_def struct_of_def)
  moreover have "get_version ?a = Inr 11" by code_simp
  ultimately show ?thesis
    using abi_diff_of_itself [of ?a 11] by (simp add: small_abi_def struct_of_def)
qed

text \<open>The base name of a type is what follows its scope, with the arguments of a template, or what
  follows a qualifier such as \<open>const\<close>; the words \<open>long\<close>, \<open>signed\<close> and \<open>unsigned\<close> stay with the next one.\<close>

theorem base_type_is_unqualified:
  assumes "unqualified n" and "p \<noteq> []"
    and "c = CHR '':'' \<or> c = CHR '' '' \<and> (\<forall>s \<in> set valid_prefixs. \<forall>x. p \<noteq> x @ s)"
  shows "get_base_type_name (p @ c # n) = n"
  by (rule get_base_type_name_eq [OF assms])

lemma unqualified_vector: "unqualified ''vector<a::b>''"
  by code_simp

theorem base_type_is_unqualified_witness:
  "get_base_type_name (''std:'' @ CHR '':'' # ''vector<a::b>'') = ''vector<a::b>''"
  by (rule base_type_is_unqualified [OF unqualified_vector]) simp_all

text \<open>C27: The type that abigen writes for the name of a fundamental type or of a library type in its table
  is a builtin type of the ABI; every other name stays as it is, and translating twice is translating once.\<close>

theorem translated_types_are_builtin:
  "(case map_of translation_table t of
      Some r \<Rightarrow> translate_name t = r \<and> is_builtin_type t \<and> is_builtin_type r
    | None \<Rightarrow> translate_name t = t) \<and>
   translate_name (translate_name t) = translate_name t"
proof (cases "map_of translation_table t")
  case (Some r)
  then have "(t, r) \<in> set translation_table" by (rule map_of_SomeD)
  then have "r \<in> set builtins" and "translate_name t = r" and "translate_name r = r"
    using table_targets Some by (auto simp: list_all_iff translate_name_def)
  then show ?thesis using Some by (simp add: is_builtin_type_def)
qed (simp add: translate_name_def)




text \<open>C11: Whatever methods are visited, in whatever order and however often, no action and no notification
  gets two dispatchers.\<close>

theorem dispatchers_are_unique:
  assumes "visit_methods lib ds codegen_init = Inr st"
  shows "distinct (map (\<lambda>(attr, name, _). (attr, name)) (cs_inserted st))"
  using visit_methods_ok [OF codegen_init_ok assms] by (simp add: codegen_ok_def handled_def)

definition small_method :: "string \<Rightarrow> string \<Rightarrow> method_decl" where
  "small_method n a = \<lparr>md_name = n, md_class = ''c'', md_qualified_class = ''ns::c'', md_action = Some a,
     md_notify = None, md_of_contract = True, md_param_types = [''_Bool'']\<rparr>"

theorem dispatchers_are_unique_witness:
  "\<exists>st. visit_methods True [small_method ''hi'' [], small_method ''hi'' []] codegen_init = Inr st \<and>
     length (cs_inserted st) = 1 \<and> distinct (map (\<lambda>(attr, name, _). (attr, name)) (cs_inserted st))"
proof -
  obtain st where st: "visit_methods True [small_method ''hi'' [], small_method ''hi'' []] codegen_init = Inr st"
    by (simp add: visit_method_def small_method_def)
  moreover have "length (cs_inserted st) = 1"
  proof -
    have "handled st = [(''uosio_wasm_action'', ''hi'')]"
      using st by (auto simp: visit_method_def small_method_def visit_action_simps handled_init init_simps get_action_name_def)
    then have "length (handled st) = 1" by simp
    then show ?thesis by (simp add: handled_def)
  qed
  ultimately show ?thesis using dispatchers_are_unique [OF st] by blast
qed


lemma small_methods_valid:
  "validate_name ''hi'' = Name_Accepted" "validate_name ''bye'' = Name_Accepted" "validate_name ''go'' = Name_Accepted"
  by code_simp+


text \<open>C36: An action method that is called like the action of a method before it gets no dispatcher, and
  no error says so: the set of the methods and of the actions is one.\<close>

theorem action_dispatcher_lost:
  assumes "action_method d" and "action_method e" and "md_name e = get_action_name d"
  shows "\<exists>st. visit_methods lib [d, e] codegen_init = Inr st \<and> cs_errors st = [] \<and> cs_inserted st = [action_text lib d]"
  by (rule action_method_lost [OF assms])

theorem action_dispatcher_lost_witness:
  "\<exists>st. visit_methods True [small_method ''hi'' ''bye'', small_method ''bye'' ''go''] codegen_init = Inr st \<and>
     cs_errors st = [] \<and> cs_inserted st = [action_text True (small_method ''hi'' ''bye'')]"
  by (rule action_dispatcher_lost) (simp_all add: action_method_def small_method_def get_action_name_def small_methods_valid)

section \<open>The builtins of the compiler and the runtime of the tests\<close>

text \<open>C38: The 128-bit builtins compute, over the integers that their halves stand for, the product, the
  quotient and the remainder rounded toward zero and the shift rounded down, and have no meaning
  where those are no 128-bit integers or the divisor is zero.\<close>

theorem wide_integers_exact:
  "(multi3 (low_half v) (high_half v) (low_half w) (high_half w) = Inr r \<longleftrightarrow> sint r = sint v * sint w) \<and>
   (divti3 (low_half v) (high_half v) (low_half w) (high_half w) = Inr r \<longleftrightarrow> w \<noteq> 0 \<and> sint r = sint v sdiv sint w) \<and>
   (modti3 (low_half v) (high_half v) (low_half w) (high_half w) = Inr r \<longleftrightarrow>
      w \<noteq> 0 \<and> (\<exists>q :: u128. sint q = sint v sdiv sint w) \<and> sint r = sint v smod sint w) \<and>
   (ashrti3 (low_half v) (high_half v) n = Inr r \<longleftrightarrow> unat n < 128 \<and> sint r = sint v div 2 ^ unat n)"
  by (intro conjI multi3_exact divti3_exact modti3_exact ashrti3_exact)

text \<open>C39: Expecting that a function fails an assertion with a given message: a requirement goes on exactly
  if it does, and fails an assertion of its own otherwise. A check always goes on, and the flag of
  the runtime becomes the conjunction of its value and the result: a check that fails does not set
  it, and clears the failure that an earlier test has noted.\<close>

theorem expectations_outcome:
  assumes "texts_fit li s" and "plain_text msg"
  shows "(\<exists>t. require_assert li (equals_literal std_err wanted) (native_assert test msg) s =
        Inr (if \<not> test \<and> msg = wanted then Returned () else Jumped Env_main, t) \<and> has_failed t = has_failed s) \<and>
    (\<exists>t. check_assert li (equals_literal std_err wanted) (native_assert test msg) s = Inr (Returned (), t) \<and>
        has_failed t = (has_failed s \<and> \<not> test \<and> msg = wanted) \<and> disable_output t = disable_output s)"
proof -
  obtain t u where "expect_assert False li (equals_literal std_err wanted) (native_assert test msg) s =
      Inr (if \<not> test \<and> msg = wanted then Returned True else Jumped Env_main, t)" "has_failed t = has_failed s"
    and "expect_assert True li (equals_literal std_err wanted) (native_assert test msg) s = Inr (Returned (\<not> test \<and> msg = wanted), u)"
      "has_failed u = has_failed s" "disable_output u = disable_output s"
    using expect_assert_outcome [OF assms, of False wanted test] expect_assert_outcome [OF assms, of True wanted test]
    by (auto simp: expect_assert_text_def split: if_splits)
  then show ?thesis
    by (simp add: require_assert_def check_assert_def record_and_def seq_op_def return_op_def update_op_def)
qed

theorem expectations_outcome_witness:
  "\<exists>t. check_assert ''t:f:1'' (equals_literal std_err ''overdrawn'') (native_assert False ''no such account'')
      ((wrap_main_state 65536)\<lparr>has_failed := True\<rparr>) = Inr (Returned (), t) \<and> \<not> has_failed t"
proof -
  let ?s = "(wrap_main_state 65536)\<lparr>has_failed := True\<rparr>"
  have "texts_fit ''t:f:1'' ?s"
    using stream_ok_initial by (simp add: texts_fit_def wrap_main_state_def) (simp add: output_stream_def)
  moreover have "plain_text ''no such account''" by (simp add: plain_text_def)
  ultimately show ?thesis
    using expectations_outcome [of "''t:f:1''" ?s "''no such account''" "''overdrawn''" False] by auto
qed


end
